(* ===== verification/Prelude.thy ===== *)
theory Prelude
  imports Main "HOL-Library.Word" "HOL-Library.Monad_Syntax"
begin

text \<open>
  The vocabulary the other theories share: bytes and byte strings, little-endian words, the
  outcome of Rust code that can panic or touch memory it does not own, one loop combinator with
  its total-correctness rule, and the generic facts on words, lists and options.

  A Rust function that can fail in a defined way returns a sum (\<open>Inl\<close> the error). A function that
  indexes, subtracts or stores through raw pointers is modelled in \<open>option\<close>: the value None
  stands for a fault, which is a panic or, in \<open>unsafe\<close> code, undefined behaviour. A theorem that
  some function returns \<open>Some\<close> is therefore a theorem that it neither panics nor leaves its buffers.
\<close>

unbundle bit_operations_syntax

named_theorems unat_simps \<open>values of word expressions as natural numbers\<close>
named_theorems fault_simps \<open>when the checked primitives do not fault\<close>

type_synonym byte = "8 word"
type_synonym bytes = "8 word list"
type_synonym u16 = "16 word"
type_synonym u32 = "32 word"
type_synonym u64 = "64 word"

section \<open>Loops\<close>

text \<open>
  A Rust loop: the body \<open>f\<close> maps the loop state to None (a fault), to \<open>Inl s'\<close> (run again from
  \<open>s'\<close>) or to \<open>Inr r\<close> (leave the loop with \<open>r\<close>). A loop that never ends is None as well, so a
  theorem that a loop returns \<open>Some\<close> includes its termination.
\<close>

partial_function (option) loop :: "('s \<Rightarrow> ('s + 'r) option) \<Rightarrow> 's \<Rightarrow> 'r option" where
  "loop f s = (case f s of
     None \<Rightarrow> None
   | Some (Inl s') \<Rightarrow> loop f s'
   | Some (Inr r) \<Rightarrow> Some r)"

lemma loop_total:
  fixes m :: "'s \<Rightarrow> nat"
  assumes "I s"
    and step: "\<And>s. I s \<Longrightarrow>
      (\<exists>s'. f s = Some (Inl s') \<and> I s' \<and> m s' < m s) \<or> (\<exists>r. f s = Some (Inr r) \<and> Q r)"
  shows "\<exists>r. loop f s = Some r \<and> Q r"
  using assms(1)
proof (induction "m s" arbitrary: s rule: less_induct)
  case less
  from step [OF less.prems] show ?case
  proof (elim disjE exE conjE)
    fix s' assume "f s = Some (Inl s')" "I s'" "m s' < m s"
    with less.hyps [of s'] show ?thesis by (auto simp: loop.simps [of f s])
  next
    fix r assume "f s = Some (Inr r)" "Q r"
    then show ?thesis by (auto simp: loop.simps [of f s])
  qed
qed

text \<open>A loop whose body may fault, with what a fault tells about its cause.\<close>

lemma loop_fallible:
  fixes m :: "'s \<Rightarrow> nat"
  assumes "I s"
    and step: "\<And>s. I s \<Longrightarrow> (f s = None \<and> F) \<or>
      (\<exists>s'. f s = Some (Inl s') \<and> I s' \<and> m s' < m s) \<or> (\<exists>r. f s = Some (Inr r) \<and> Q r)"
  shows "(loop f s = None \<and> F) \<or> (\<exists>r. loop f s = Some r \<and> Q r)"
  using assms(1)
proof (induction "m s" arbitrary: s rule: less_induct)
  case less
  from step [OF less.prems] show ?case
  proof (elim disjE exE conjE)
    assume "f s = None" F
    then show ?thesis by (simp add: loop.simps [of f s])
  next
    fix s' assume "f s = Some (Inl s')" "I s'" "m s' < m s"
    with less.hyps [of s'] show ?thesis by (auto simp: loop.simps [of f s])
  next
    fix r assume "f s = Some (Inr r)" "Q r"
    then show ?thesis by (auto simp: loop.simps [of f s])
  qed
qed

lemma loop_partial:
  fixes f :: "'s \<Rightarrow> ('s + 'r) option"
  assumes ret: "loop f s = Some r" and "I s"
    and step: "\<And>s s'. I s \<Longrightarrow> f s = Some (Inl s') \<Longrightarrow> I s'"
    and exit: "\<And>s r. I s \<Longrightarrow> f s = Some (Inr r) \<Longrightarrow> Q r"
  shows "Q r"
proof -
  have "f = f \<longrightarrow> I s \<longrightarrow> Q r"
  proof (rule loop.raw_induct [where P = "\<lambda>g s r. g = f \<longrightarrow> I s \<longrightarrow> Q r", OF _ ret])
    fix lp :: "('s \<Rightarrow> ('s + 'r) option) \<Rightarrow> 's \<Rightarrow> 'r option" and g s r
    assume IH: "\<And>g s r. lp g s = Some r \<Longrightarrow> g = f \<longrightarrow> I s \<longrightarrow> Q r"
      and eq: "(case g s of None \<Rightarrow> None | Some (Inl s') \<Rightarrow> lp g s' | Some (Inr r) \<Rightarrow> Some r) = Some r"
    show "g = f \<longrightarrow> I s \<longrightarrow> Q r"
    proof (intro impI)
      assume g: "g = f" and "I s"
      then show "Q r"
        using eq IH [of g] step [of s] exit [of s] by (auto split: option.splits sum.splits)
    qed
  qed
  with assms(2) show ?thesis by simp
qed

text \<open>A loop over the images of states is the image of the loop, also when it faults or never ends.\<close>

lemma loop_map:
  fixes f :: "'s \<Rightarrow> ('s + 'r) option" and f' :: "'t \<Rightarrow> ('t + 'q) option"
  assumes step: "\<And>s. f' (h s) = map_option (map_sum h k) (f s)"
  shows "loop f' (h s) = map_option k (loop f s)"
proof -
  have fwd: "loop f' (h s) = Some (k r)" if "loop f s = Some r" for s r
  proof -
    have "f = f \<longrightarrow> loop f' (h s) = Some (k r)"
    proof (rule loop.raw_induct [where P = "\<lambda>g s r. g = f \<longrightarrow> loop f' (h s) = Some (k r)", OF _ that])
      fix lp :: "('s \<Rightarrow> ('s + 'r) option) \<Rightarrow> 's \<Rightarrow> 'r option" and g s r
      assume IH: "\<And>g s r. lp g s = Some r \<Longrightarrow> g = f \<longrightarrow> loop f' (h s) = Some (k r)"
        and eq: "(case g s of None \<Rightarrow> None | Some (Inl s') \<Rightarrow> lp g s' | Some (Inr r) \<Rightarrow> Some r) = Some r"
      show "g = f \<longrightarrow> loop f' (h s) = Some (k r)"
      proof
        assume g: "g = f"
        show "loop f' (h s) = Some (k r)"
          using eq IH [of f] step [of s] by (auto simp: g loop.simps [of f' "h s"] split: option.splits sum.splits)
      qed
    qed
    then show ?thesis by simp
  qed
  have bwd: "loop f s \<noteq> None" if "loop f' (h s) = Some q" for s q
  proof -
    have "f' = f' \<longrightarrow> (\<forall>s'. h s = h s' \<longrightarrow> loop f s' \<noteq> None)"
    proof (rule loop.raw_induct [where P = "\<lambda>g t r. g = f' \<longrightarrow> (\<forall>s'. t = h s' \<longrightarrow> loop f s' \<noteq> None)", OF _ that])
      fix lp :: "('t \<Rightarrow> ('t + 'q) option) \<Rightarrow> 't \<Rightarrow> 'q option" and g t r
      assume IH: "\<And>g t r. lp g t = Some r \<Longrightarrow> g = f' \<longrightarrow> (\<forall>s'. t = h s' \<longrightarrow> loop f s' \<noteq> None)"
        and eq: "(case g t of None \<Rightarrow> None | Some (Inl t') \<Rightarrow> lp g t' | Some (Inr r) \<Rightarrow> Some r) = Some r"
      have "loop f s' \<noteq> None" if g: "g = f'" "t = h s'" for s'
        using eq IH [of f'] step [of s']
        by (cases "f s'") (auto simp: g loop.simps [of f s'] split: sum.splits)
      then show "g = f' \<longrightarrow> (\<forall>s'. t = h s' \<longrightarrow> loop f s' \<noteq> None)" by blast
    qed
    then show ?thesis by simp
  qed
  show ?thesis
  proof (cases "loop f s")
    case None
    then have "loop f' (h s) = None" using bwd [of s] by (cases "loop f' (h s)") auto
    with None show ?thesis by simp
  qed (simp add: fwd)
qed

section \<open>Checked primitives\<close>

text \<open>\<open>xs[i]\<close>, \<open>a - b\<close> on \<open>usize\<close> and sub-slices, each with the panic written out.\<close>

definition idx :: "'a list \<Rightarrow> nat \<Rightarrow> 'a option" where
  "idx xs i = (if i < length xs then Some (xs ! i) else None)"

definition usub :: "nat \<Rightarrow> nat \<Rightarrow> nat option" where
  "usub a b = (if b \<le> a then Some (a - b) else None)"

definition slice :: "'a list \<Rightarrow> nat \<Rightarrow> nat \<Rightarrow> 'a list option" where
  "slice xs a b = (if a \<le> b \<and> b \<le> length xs then Some (take (b - a) (drop a xs)) else None)"

definition slice_from :: "'a list \<Rightarrow> nat \<Rightarrow> 'a list option" where
  "slice_from xs a = (if a \<le> length xs then Some (drop a xs) else None)"

lemma idx_Some [fault_simps]: "i < length xs \<Longrightarrow> idx xs i = Some (xs ! i)"
  by (simp add: idx_def)

lemma usub_Some [fault_simps]: "b \<le> a \<Longrightarrow> usub a b = Some (a - b)"
  by (simp add: usub_def)

lemma slice_Some [fault_simps]:
  "a \<le> b \<Longrightarrow> b \<le> length xs \<Longrightarrow> slice xs a b = Some (take (b - a) (drop a xs))"
  by (simp add: slice_def)

lemma slice_from_Some [fault_simps]: "a \<le> length xs \<Longrightarrow> slice_from xs a = Some (drop a xs)"
  by (simp add: slice_from_def)

text \<open>\<open>usize::wrapping_sub\<close>, \<open>wrapping_add\<close> and \<open>saturating_sub\<close> on a 64-bit target.\<close>

definition wrapping_sub :: "nat \<Rightarrow> nat \<Rightarrow> nat" where
  "wrapping_sub a b = (if b \<le> a then a - b else 2 ^ 64 + a - b)"

definition wrapping_add :: "nat \<Rightarrow> nat \<Rightarrow> nat" where
  "wrapping_add a b = (a + b) mod 2 ^ 64"

definition saturating_sub :: "nat \<Rightarrow> nat \<Rightarrow> nat" where
  "saturating_sub a b = a - b"

section \<open>Bit operations as arithmetic\<close>

lemma unat_and_mask [unat_simps]:
  fixes w :: "'a::len word"
  shows "unat (w AND mask k) = unat w mod 2 ^ k"
proof -
  have "unat (w AND mask k) = take_bit k (unat w)"
    by (simp only: unsigned_take_bit_eq flip: take_bit_eq_mask)
  then show ?thesis by (simp only: take_bit_eq_mod)
qed

lemma unat_and_low [unat_simps]:
  fixes w :: "'a::len word"
  shows "unat (w AND 1) = unat w mod 2"
    and "unat (w AND 3) = unat w mod 4"
    and "unat (w AND 7) = unat w mod 8"
    and "unat (w AND 15) = unat w mod 16"
    and "unat (w AND 63) = unat w mod 64"
    and "unat (w AND 127) = unat w mod 128"
    and "unat (w AND 255) = unat w mod 256"
    and "unat (w AND 65535) = unat w mod 65536"
proof -
  show "unat (w AND 1) = unat w mod 2"
    using unat_and_mask [of w 1] by (simp add: mask_eq_exp_minus_1)
  show "unat (w AND 3) = unat w mod 4"
    using unat_and_mask [of w 2] by (simp add: mask_eq_exp_minus_1)
  show "unat (w AND 7) = unat w mod 8"
    using unat_and_mask [of w 3] by (simp add: mask_eq_exp_minus_1)
  show "unat (w AND 15) = unat w mod 16"
    using unat_and_mask [of w 4] by (simp add: mask_eq_exp_minus_1)
  show "unat (w AND 63) = unat w mod 64"
    using unat_and_mask [of w 6] by (simp add: mask_eq_exp_minus_1)
  show "unat (w AND 127) = unat w mod 128"
    using unat_and_mask [of w 7] by (simp add: mask_eq_exp_minus_1)
  show "unat (w AND 255) = unat w mod 256"
    using unat_and_mask [of w 8] by (simp add: mask_eq_exp_minus_1)
  show "unat (w AND 65535) = unat w mod 65536"
    using unat_and_mask [of w 16] by (simp add: mask_eq_exp_minus_1)
qed

lemma unat_drop_bit_div [unat_simps]:
  fixes w :: "'a::len word"
  shows "unat (drop_bit k w) = unat w div 2 ^ k"
  unfolding unat_drop_bit_eq by (rule drop_bit_eq_div)

lemma push_bit_or_eq_add:
  fixes a b :: "'a::len word"
  assumes "unat b < 2 ^ k"
  shows "push_bit k a OR b = push_bit k a + b" and "b OR push_bit k a = b + push_bit k a"
proof -
  have b: "b = take_bit k b"
    using assms by (metis take_bit_nat_eq_self unsigned_take_bit_eq word_unat_eq_iff)
  have "push_bit k a AND b = 0"
    by (subst b) (simp add: bit_eq_iff bit_simps)
  then show "push_bit k a OR b = push_bit k a + b"
    by (simp add: disjunctive_add_eq_or)
  then show "b OR push_bit k a = b + push_bit k a"
    by (simp add: ac_simps or.commute)
qed

lemma unat_push_bit_small:
  fixes w :: "'a::len word"
  assumes "unat w * 2 ^ k < 2 ^ LENGTH('a)"
  shows "unat (push_bit k w) = unat w * 2 ^ k"
proof -
  have "unat (push_bit k w) = take_bit LENGTH('a) (unat w * 2 ^ k)"
    unfolding unsigned_push_bit_eq unfolding push_bit_eq_mult ..
  with assms show ?thesis by (simp only: take_bit_nat_eq_self)
qed

lemma unat_push_or:
  fixes a b :: "'a::len word"
  assumes "unat b < 2 ^ k" and "unat a * 2 ^ k + unat b < 2 ^ LENGTH('a)"
  shows "unat (push_bit k a OR b) = unat a * 2 ^ k + unat b"
    and "unat (b OR push_bit k a) = unat a * 2 ^ k + unat b"
proof -
  have p: "unat (push_bit k a) = unat a * 2 ^ k"
    using assms(2) by (intro unat_push_bit_small) simp
  show "unat (push_bit k a OR b) = unat a * 2 ^ k + unat b"
    using assms p by (simp add: push_bit_or_eq_add unat_word_ariths)
  then show "unat (b OR push_bit k a) = unat a * 2 ^ k + unat b"
    by (simp add: or.commute)
qed

section \<open>Little-endian byte strings\<close>

text \<open>
  \<open>le_nat\<close> is the number a little-endian byte string stands for, \<open>of_le\<close> the machine word
  (\<open>from_le_bytes\<close>, or an unaligned little-endian load).
\<close>

fun le_nat :: "bytes \<Rightarrow> nat" where
  "le_nat [] = 0"
| "le_nat (b # bs) = unat b + 256 * le_nat bs"

fun of_le :: "bytes \<Rightarrow> 'a::len word" where
  "of_le [] = 0"
| "of_le (b # bs) = ucast b OR push_bit 8 (of_le bs)"

lemma le_nat_bound: "le_nat bs < 256 ^ length bs"
proof (induction bs)
  case Nil
  then show ?case by simp
next
  case (Cons b bs)
  have "unat b < 256" using unsigned_less [of b] by simp
  with Cons show ?case by simp
qed

lemma bit_of_le:
  "n < LENGTH('a::len) \<Longrightarrow>
   bit (of_le bs :: 'a word) n \<longleftrightarrow> n div 8 < length bs \<and> bit (bs ! (n div 8)) (n mod 8)"
proof (induction bs arbitrary: n)
  case Nil
  then show ?case by simp
next
  case (Cons b bs)
  show ?case
  proof (cases "n < 8")
    case True
    with Cons.prems show ?thesis by (simp add: bit_simps)
  next
    case False
    then have "n = (n - 8) + 8" by simp
    then have d: "n div 8 = Suc ((n - 8) div 8)" "n mod 8 = (n - 8) mod 8"
      by (metis div_add_self2 Suc_eq_plus1 zero_neq_numeral) (metis \<open>n = (n - 8) + 8\<close> mod_add_self2)
    have nb: "\<not> bit b n" using False by (simp add: bit_word.rep_eq bit_simps) 
    with False Cons.prems Cons.IH [of "n - 8"] show ?thesis
      by (simp add: bit_simps d)
  qed
qed

lemma unat_byte_bound [simp]: "unat (b :: byte) < 256"
  using unsigned_less [of b] by simp

lemma unat_of_le [unat_simps]:
  "8 * length bs \<le> LENGTH('a::len) \<Longrightarrow> unat (of_le bs :: 'a word) = le_nat bs"
proof (induction bs)
  case Nil
  then show ?case by simp
next
  case (Cons b bs)
  have le: "8 \<le> LENGTH('a)" using Cons.prems by simp
  have b: "unat (ucast b :: 'a word) = unat b"
    using le by (simp add: unsigned_ucast_eq take_bit_nat_eq_self order_less_le_trans [OF unat_byte_bound]
        power_increasing [of 8 _ "2::nat", simplified])
  have "le_nat (b # bs) < 256 ^ Suc (length bs)" using le_nat_bound [of "b # bs"] by simp
  also have "(256::nat) ^ Suc (length bs) = 2 ^ (8 * Suc (length bs))"
    by (simp only: power_mult) simp
  also have "\<dots> \<le> 2 ^ LENGTH('a)" using Cons.prems by (intro power_increasing) auto
  finally have "unat (of_le bs :: 'a word) * 2 ^ 8 + unat (ucast b :: 'a word) < 2 ^ LENGTH('a)"
    using Cons b by (simp add: algebra_simps)
  then show ?case
    using Cons b by (simp add: unat_push_or(2))
qed


section \<open>Errors as values\<close>

text \<open>\<open>and_then m f\<close> is Rust's \<open>f(m?)\<close>: an error of \<open>m\<close> is returned, a fault stays a fault.\<close>

definition and_then :: "('e + 'a) option \<Rightarrow> ('a \<Rightarrow> ('e + 'b) option) \<Rightarrow> ('e + 'b) option" where
  "and_then m f = (case m of None \<Rightarrow> None | Some (Inl e) \<Rightarrow> Some (Inl e) | Some (Inr a) \<Rightarrow> f a)"

lemma and_then_simps [simp]:
  "and_then None f = None" "and_then (Some (Inl e)) f = Some (Inl e)" "and_then (Some (Inr a)) f = f a"
  by (simp_all add: and_then_def)

text \<open>
  \<open>with_st m f\<close> is the same for a method that also changes the state it is called on: the state is
  kept on both outcomes, as the fields of \<open>&mut self\<close> are.
\<close>

definition with_st ::
  "(('e + 'a) \<times> 's) option \<Rightarrow> ('a \<Rightarrow> 's \<Rightarrow> (('e + 'b) \<times> 's) option) \<Rightarrow> (('e + 'b) \<times> 's) option" where
  "with_st m f = (case m of
     None \<Rightarrow> None
   | Some (Inl e, s) \<Rightarrow> Some (Inl e, s)
   | Some (Inr a, s) \<Rightarrow> f a s)"

lemma with_st_simps [simp]:
  "with_st None f = None" "with_st (Some (Inl e, s)) f = Some (Inl e, s)"
  "with_st (Some (Inr a, s)) f = f a s"
  by (simp_all add: with_st_def)

lemma with_st_assoc: "with_st (with_st m f) g = with_st m (\<lambda>a s. with_st (f a s) g)"
  by (simp add: with_st_def split: option.split sum.split)

text \<open>\<open>and_then_at m s f\<close> is \<open>?\<close> on a call inside such a method that leaves its state \<open>s\<close> alone.\<close>

definition and_then_at ::
  "('e + 'a) option \<Rightarrow> 's \<Rightarrow> ('a \<Rightarrow> (('e + 'b) \<times> 's) option) \<Rightarrow> (('e + 'b) \<times> 's) option" where
  "and_then_at m s f = (case m of
     None \<Rightarrow> None
   | Some (Inl e) \<Rightarrow> Some (Inl e, s)
   | Some (Inr a) \<Rightarrow> f a)"

lemma and_then_at_simps [simp]:
  "and_then_at None s f = None" "and_then_at (Some (Inl e)) s f = Some (Inl e, s)"
  "and_then_at (Some (Inr a)) s f = f a"
  by (simp_all add: and_then_at_def)

text \<open>Machine integers that panic when they overflow, as in a build with overflow checks.\<close>

definition chk_u64 :: "nat \<Rightarrow> nat option" where
  "chk_u64 n = (if n < 2 ^ 64 then Some n else None)"

definition chk_i64 :: "int \<Rightarrow> int option" where
  "chk_i64 i = (if - (2 ^ 63) \<le> i \<and> i < 2 ^ 63 then Some i else None)"

lemma chk_u64_Some [fault_simps]: "n < 2 ^ 64 \<Longrightarrow> chk_u64 n = Some n"
  by (simp add: chk_u64_def)

lemma chk_i64_Some [fault_simps]: "- (2 ^ 63) \<le> i \<Longrightarrow> i < 2 ^ 63 \<Longrightarrow> chk_i64 i = Some i"
  by (simp add: chk_i64_def)

end
