(* ===== verification/Varint.thy ===== *)
theory Varint
  imports Prelude
begin

text \<open>
  Codes of values as byte strings that can be read back from the front of a longer string, and
  the facts every client of such a code relies on. The varint codecs of the block format, of the
  stream format and of the index are the code's three instances of this interface.
\<close>

locale prefix_code =
  fixes enc :: "'v \<Rightarrow> bytes"
    and dec :: "bytes \<Rightarrow> ('v \<times> nat) option"
  assumes dec_enc: "dec (enc v @ rest) = Some (v, length (enc v))"
    and dec_bound: "dec bs = Some (v, n) \<Longrightarrow> 0 < n \<and> n \<le> length bs"
    and dec_extend: "dec bs = Some (v, n) \<Longrightarrow> dec (bs @ rest) = Some (v, n)"
begin

lemma dec_enc_exact: "dec (enc v) = Some (v, length (enc v))"
  using dec_enc [of v "[]"] by simp

lemma enc_nonempty: "enc v \<noteq> []"
  using dec_bound [OF dec_enc_exact] by auto

lemma enc_prefix_free: "enc v @ xs = enc w @ ys \<Longrightarrow> v = w \<and> xs = ys"
  using dec_enc [of v xs] dec_enc [of w ys] by simp

lemma enc_inj: "inj enc"
  using enc_prefix_free [of _ "[]" _ "[]"] by (auto intro: injI)

lemma dec_rest: "dec bs = Some (v, n) \<Longrightarrow> drop n (bs @ rest) = drop n bs @ rest"
  using dec_bound by simp

lemma dec_empty: "dec [] = None"
  using dec_bound [of "[]"] by (cases "dec []") fastforce+

end

section \<open>The unsigned LEB128 code\<close>

text \<open>
  \<open>uvarint\<close> is the code itself, seven bits a byte with the least significant group first and the
  top bit of every byte but the last set. The components' own loops are proved equal to it.
\<close>

function uvarint :: "u64 \<Rightarrow> bytes" where
  "uvarint v = (if 0x80 \<le> v then (ucast v OR 0x80) # uvarint (drop_bit 7 v) else [ucast v])"
  by pat_completeness auto
termination
proof (relation "measure unat")
  fix v :: u64
  assume "0x80 \<le> v"
  then have "0x80 \<le> unat v" by (simp add: word_le_nat_alt)
  then have "unat v div 128 < unat v" by (intro div_less_dividend) auto
  then show "(drop_bit 7 v, v) \<in> measure unat" using unat_drop_bit_div [of 7 v] by simp
qed simp

declare uvarint.simps [simp del]

fun uvarint_loop :: "bytes \<Rightarrow> nat \<Rightarrow> u64 \<Rightarrow> nat \<Rightarrow> (u64 \<times> nat) option" where
  "uvarint_loop [] i x s = None"
| "uvarint_loop (b # bs) i x s =
     (if i = 10 then None
      else if b < 0x80 then
        (if i = 9 \<and> 1 < b then None else Some (x OR push_bit s (ucast b), i + 1))
      else uvarint_loop bs (i + 1) (x OR push_bit s (ucast (b AND 0x7f))) (s + 7))"

lemma uvarint_nonempty [simp]: "uvarint v \<noteq> []"
  by (subst uvarint.simps) simp

lemma length_uvarint_le:
  "unat v < 128 ^ k \<Longrightarrow> 0 < k \<Longrightarrow> length (uvarint v) \<le> k"
proof (induction v arbitrary: k rule: uvarint.induct)
  case (1 v)
  show ?case
  proof (cases "0x80 \<le> v")
    case True
    then have "0x80 \<le> unat v" by (simp add: word_le_nat_alt)
    with 1(2) have "k \<noteq> 1" by auto
    with 1(3) obtain j where j: "k = Suc j" "0 < j" by (cases k) auto
    have "unat (drop_bit 7 v) < 128 ^ j"
      using 1(2) j(1) unat_drop_bit_div [of 7 v] by (simp add: div_less_iff_less_mult mult.commute)
    with 1(1) [OF True] j have "length (uvarint (drop_bit 7 v)) \<le> j" by simp
    with True j show ?thesis by (simp add: uvarint.simps [of v])
  next
    case False
    with 1(3) show ?thesis by (simp add: uvarint.simps [of v])
  qed
qed

lemma length_uvarint_max: "length (uvarint v) \<le> 10"
proof (rule length_uvarint_le)
  have "unat v < 2 ^ 64" using unsigned_less [of v] by simp
  then show "unat v < 128 ^ 10" by simp
qed simp

lemma byte_high [simp]: "\<not> (x OR 0x80 :: byte) < 0x80"
  using le_word_or1 [of "0x80 :: byte" x] by (simp add: linorder_not_less)

lemma byte_low7: "(ucast (v :: u64) OR 0x80 :: byte) AND 0x7f = ucast (take_bit 7 v)"
proof (rule bit_word_eqI)
  fix n assume "n < LENGTH(8)"
  then have "n = 0 \<or> n = 1 \<or> n = 2 \<or> n = 3 \<or> n = 4 \<or> n = 5 \<or> n = 6 \<or> n = 7" by auto
  then show "bit ((ucast v OR 0x80 :: byte) AND 0x7f) n \<longleftrightarrow> bit (ucast (take_bit 7 v) :: byte) n"
    by (elim disjE) (simp_all add: bit_simps)
qed

lemma ucast_byte_take7:
  "(ucast (ucast (take_bit 7 (v :: u64)) :: byte) :: u64) = take_bit 7 v"
  by (rule bit_word_eqI) (auto simp: bit_simps)

lemma push_take_drop7:
  "(x OR push_bit s (take_bit 7 v)) OR push_bit (s + 7) (drop_bit 7 v) = x OR push_bit s (v :: u64)"
proof (rule bit_word_eqI)
  fix n assume "n < LENGTH(64)"
  consider "n < s + 7" | "7 + (n - (s + 7)) = n - s" by linarith
  then show "bit ((x OR push_bit s (take_bit 7 v)) OR push_bit (s + 7) (drop_bit 7 v)) n \<longleftrightarrow>
      bit (x OR push_bit s v) n"
    by cases (auto simp: bit_simps)
qed

lemma uvarint_loop_enc:
  "i \<le> 9 \<Longrightarrow> unat v < 2 ^ (64 - 7 * i) \<Longrightarrow>
   uvarint_loop (uvarint v @ rest) i x (7 * i) =
     Some (x OR push_bit (7 * i) v, i + length (uvarint v))"
proof (induction v arbitrary: i x rule: uvarint.induct)
  case (1 v)
  show ?case
  proof (cases "0x80 \<le> v")
    case True
    then have ge: "2 ^ 7 \<le> unat v" by (simp add: word_le_nat_alt)
    then have "(2::nat) ^ 7 < 2 ^ (64 - 7 * i)" using 1(3) by linarith
    then have "i \<noteq> 9" by auto
    with 1(2) have i: "i \<le> 8" by simp
    have "unat (drop_bit 7 v) < 2 ^ (64 - 7 * (i + 1))"
    proof -
      have "64 - 7 * i = 64 - 7 * (i + 1) + 7" using i by simp
      then have "2 ^ (64 - 7 * i) = (2::nat) ^ (64 - 7 * (i + 1)) * 2 ^ 7"
        by (simp only: power_add)
      with 1(3) show ?thesis
        using unat_drop_bit_div [of 7 v] by (simp add: div_less_iff_less_mult)
    qed
    with 1(1) [OF True, of "i + 1"] i have
      "uvarint_loop (uvarint (drop_bit 7 v) @ rest) (i + 1) y (7 * (i + 1)) =
         Some (y OR push_bit (7 * (i + 1)) (drop_bit 7 v), i + 1 + length (uvarint (drop_bit 7 v)))" for y
      by simp
    from this [of "x OR push_bit (7 * i) (take_bit 7 v)"] i True show ?thesis
      using push_take_drop7 [of x "7 * i" v]
      by (simp add: uvarint.simps [of v] byte_low7 ucast_byte_take7 add.commute [of 7])
  next
    case False
    then have lt: "unat v < 2 ^ 7" by (simp add: word_le_nat_alt)
    then have v8: "unat (ucast v :: byte) = unat v"
      by (simp add: unsigned_ucast_eq take_bit_nat_eq_self)
    then have small: "(ucast v :: byte) < 0x80" using lt by (simp add: word_less_nat_alt)
    have nine: "i = 9 \<Longrightarrow> \<not> 1 < (ucast v :: byte)"
      using 1(3) v8 by (simp add: word_less_nat_alt)
    have "take_bit 7 v = v"
      using lt by (simp add: word_unat_eq_iff unsigned_take_bit_eq take_bit_nat_eq_self)
    then have "(ucast (ucast v :: byte) :: u64) = v"
      using ucast_byte_take7 [of v] by simp
    with small nine 1(2) False show ?thesis by (auto simp: uvarint.simps [of v])
  qed
qed

lemma uvarint_loop_bound:
  "uvarint_loop bs i x s = Some (v, n) \<Longrightarrow> i < n \<and> n \<le> i + length bs"
  by (induction bs i x s rule: uvarint_loop.induct) (auto split: if_splits)

lemma uvarint_loop_extend:
  "uvarint_loop bs i x s = Some (v, n) \<Longrightarrow> uvarint_loop (bs @ rest) i x s = Some (v, n)"
  by (induction bs i x s rule: uvarint_loop.induct) (auto split: if_splits)

interpretation uvarint: prefix_code uvarint "\<lambda>bs. uvarint_loop bs 0 0 0"
proof
  fix v :: u64 and rest
  have "unat v < 2 ^ (64 - 7 * 0)" using unsigned_less [of v] by simp
  from uvarint_loop_enc [of 0 v rest 0, OF _ this]
  show "uvarint_loop (uvarint v @ rest) 0 0 0 = Some (v, length (uvarint v))" by simp
qed (use uvarint_loop_bound uvarint_loop_extend in fastforce)+

end
