(* ===== verification/Block_Format.thy ===== *)
theory Block_Format
  imports Varint
begin

text \<open>
  \<^verbatim>\<open>block/format.rs\<close> and \<^verbatim>\<open>error.rs\<close>: the constants of the block format, the bound on the encoded
  length, the block varint codec, and the error type of the block codec.
\<close>

datatype error = Corrupt string | TooLarge | InvalidLevel

named_theorems format_consts \<open>the constants of the block format\<close>

definition MAX_BLOCK_SIZE :: nat where [format_consts]: "MAX_BLOCK_SIZE = 8 * 2 ^ 20"

definition TAG_LITERAL :: byte where [format_consts]: "TAG_LITERAL = 0"
definition TAG_REPEAT :: byte where [format_consts]: "TAG_REPEAT = 4"
definition TAG_COPY1 :: byte where [format_consts]: "TAG_COPY1 = 1"
definition TAG_COPY2 :: byte where [format_consts]: "TAG_COPY2 = 2"
definition TAG_COPY3 :: byte where [format_consts]: "TAG_COPY3 = 3 OR 4"
definition TAG_COPY2_FUSED :: byte where [format_consts]: "TAG_COPY2_FUSED = 3"

definition MAX_COPY1_OFFSET :: nat where [format_consts]: "MAX_COPY1_OFFSET = 1024"
definition MIN_COPY2_OFFSET :: nat where [format_consts]: "MIN_COPY2_OFFSET = 64"
definition MAX_COPY2_OFFSET :: nat where
  [format_consts]: "MAX_COPY2_OFFSET = MIN_COPY2_OFFSET + 65535"
definition MIN_COPY3_OFFSET :: nat where [format_consts]: "MIN_COPY3_OFFSET = 65536"
definition MAX_COPY3_OFFSET :: nat where [format_consts]: "MAX_COPY3_OFFSET = 2 * 2 ^ 20 + 65535"

definition COPY_LIT_BITS :: nat where [format_consts]: "COPY_LIT_BITS = 2"
definition MAX_COPY2_LITS :: nat where [format_consts]: "MAX_COPY2_LITS = 2 ^ COPY_LIT_BITS"
definition MAX_COPY3_LITS :: nat where [format_consts]: "MAX_COPY3_LITS = 2 ^ COPY_LIT_BITS - 1"
definition COPY2_LIT_MAX_LEN :: nat where [format_consts]: "COPY2_LIT_MAX_LEN = 7 + 4"

definition INPUT_MARGIN :: nat where [format_consts]: "INPUT_MARGIN = 8"
definition MIN_NON_LITERAL_BLOCK_SIZE :: nat where
  [format_consts]: "MIN_NON_LITERAL_BLOCK_SIZE = 16"

definition max_encoded_len :: "nat \<Rightarrow> nat option" where
  "max_encoded_len n =
     (if n > MAX_BLOCK_SIZE then None else if n = 0 then Some 1 else Some (n + 2))"

section \<open>The block varint codec\<close>

function put_uvarint :: "bytes \<Rightarrow> u64 \<Rightarrow> bytes" where
  "put_uvarint dst v =
     (if 0x80 \<le> v then put_uvarint (dst @ [ucast v OR 0x80]) (drop_bit 7 v)
      else dst @ [ucast v])"
  by pat_completeness auto
termination
proof (relation "measure (\<lambda>(dst, v). unat v)")
  fix dst :: bytes and v :: u64
  assume "0x80 \<le> v"
  then have "unat v div 128 < unat v" by (intro div_less_dividend) (auto simp: word_le_nat_alt)
  then show "((dst @ [ucast v OR 0x80], drop_bit 7 v), dst, v) \<in> measure (\<lambda>(dst, v). unat v)"
    using unat_drop_bit_div [of 7 v] by simp
qed simp

declare put_uvarint.simps [simp del]

fun get_uvarint_from :: "bytes \<Rightarrow> nat \<Rightarrow> u64 \<Rightarrow> nat \<Rightarrow> (u64 \<times> nat) option" where
  "get_uvarint_from [] i x s = None"
| "get_uvarint_from (b # bs) i x s =
     (if i = 10 then None
      else if b < 0x80 then
        (if i = 10 - 1 \<and> 1 < b then None else Some (x OR push_bit s (ucast b), i + 1))
      else get_uvarint_from bs (i + 1) (x OR push_bit s (ucast (b AND 0x7f))) (s + 7))"

definition get_uvarint :: "bytes \<Rightarrow> (u64 \<times> nat) option" where
  "get_uvarint src = get_uvarint_from src 0 0 0"

lemma put_uvarint_eq: "put_uvarint dst v = dst @ uvarint v"
  by (induction dst v rule: put_uvarint.induct)
    (subst put_uvarint.simps, subst uvarint.simps, simp)

lemma get_uvarint_from_eq: "get_uvarint_from bs i x s = uvarint_loop bs i x s"
  by (induction bs i x s rule: get_uvarint_from.induct) simp_all

lemma get_uvarint_eq: "get_uvarint bs = uvarint_loop bs 0 0 0"
  by (simp add: get_uvarint_def get_uvarint_from_eq)

interpretation block_uvarint: prefix_code "put_uvarint []" get_uvarint
  unfolding put_uvarint_eq get_uvarint_eq append_Nil by (rule uvarint.prefix_code_axioms)

text \<open>The size of the length header of a block, for the sizes a block can have.\<close>

lemma length_uvarint_block:
  assumes "n \<le> MAX_BLOCK_SIZE"
  shows "length (uvarint (of_nat n)) \<le> 4"
    and "n < 2097152 \<Longrightarrow> length (uvarint (of_nat n)) \<le> 3"
    and "n < 16384 \<Longrightarrow> length (uvarint (of_nat n)) \<le> 2"
    and "n < 128 \<Longrightarrow> length (uvarint (of_nat n)) \<le> 1"
proof -
  have n: "unat (of_nat n :: u64) = n"
    using assms by (simp add: format_consts unsigned_of_nat take_bit_nat_eq_self)
  show "length (uvarint (of_nat n)) \<le> 4"
    using assms by (intro length_uvarint_le) (auto simp: n format_consts)
  show "n < 2097152 \<Longrightarrow> length (uvarint (of_nat n)) \<le> 3"
    by (intro length_uvarint_le) (auto simp: n)
  show "n < 16384 \<Longrightarrow> length (uvarint (of_nat n)) \<le> 2"
    by (intro length_uvarint_le) (auto simp: n)
  show "n < 128 \<Longrightarrow> length (uvarint (of_nat n)) \<le> 1"
    by (intro length_uvarint_le) (auto simp: n)
qed

end
