(* ===== verification/Load_Store.thy ===== *)
theory Load_Store
  imports Block_Format
begin

text \<open>
  \<^verbatim>\<open>block/load_store.rs\<close>, \<^verbatim>\<open>block/hash.rs\<close> and \<^verbatim>\<open>block/match_len.rs\<close>: unaligned little-endian loads and
  stores (a load or store outside the slice is a fault), the hash functions of the encoders, and
  the word-at-a-time comparison of byte strings with its reference meaning.
\<close>

section \<open>Loads and stores\<close>

definition load32 :: "bytes \<Rightarrow> nat \<Rightarrow> u32 option" where
  "load32 b i = (if i + 4 \<le> length b then Some (of_le (take 4 (drop i b))) else None)"

definition load64 :: "bytes \<Rightarrow> nat \<Rightarrow> u64 option" where
  "load64 b i = (if i + 8 \<le> length b then Some (of_le (take 8 (drop i b))) else None)"

definition write_at :: "bytes \<Rightarrow> nat \<Rightarrow> bytes \<Rightarrow> bytes option" where
  "write_at b i v =
     (if i + length v \<le> length b then Some (take i b @ v @ drop (i + length v) b) else None)"

definition store8 :: "bytes \<Rightarrow> nat \<Rightarrow> byte \<Rightarrow> bytes option" where
  "store8 b i v = write_at b i [v]"

definition store16 :: "bytes \<Rightarrow> nat \<Rightarrow> u16 \<Rightarrow> bytes option" where
  "store16 b i v = write_at b i [ucast v, ucast (drop_bit 8 v)]"

definition store32 :: "bytes \<Rightarrow> nat \<Rightarrow> u32 \<Rightarrow> bytes option" where
  "store32 b i v = write_at b i
     [ucast v, ucast (drop_bit 8 v), ucast (drop_bit 16 v), ucast (drop_bit 24 v)]"

lemma length_write_at: "write_at b i v = Some b' \<Longrightarrow> length b' = length b"
  by (auto simp: write_at_def split: if_splits)

lemma load32_Some [fault_simps]: "i + 4 \<le> length b \<Longrightarrow> load32 b i = Some (of_le (take 4 (drop i b)))"
  by (simp add: load32_def)

lemma load64_Some [fault_simps]: "i + 8 \<le> length b \<Longrightarrow> load64 b i = Some (of_le (take 8 (drop i b)))"
  by (simp add: load64_def)

section \<open>Words read from a byte string\<close>

text \<open>\<open>word_at k b i\<close> is the word of the \<open>k\<close> bytes of \<open>b\<close> at \<open>i\<close>.\<close>

definition word_at :: "nat \<Rightarrow> bytes \<Rightarrow> nat \<Rightarrow> 'a::len word" where
  "word_at k b i = of_le (take k (drop i b))"

lemma load32_word: "i + 4 \<le> length src \<Longrightarrow> load32 src i = Some (word_at 4 src i)"
  by (simp add: load32_def word_at_def)

lemma load64_word: "i + 8 \<le> length src \<Longrightarrow> load64 src i = Some (word_at 8 src i)"
  by (simp add: load64_def word_at_def)

lemma bit_word_at:
  assumes "n < LENGTH('a::len)" and "i + k \<le> length b"
  shows "bit (word_at k b i :: 'a word) n \<longleftrightarrow> n div 8 < k \<and> bit (b ! (i + n div 8)) (n mod 8)"
  using assms by (auto simp: word_at_def bit_of_le min_def)

lemma byte_eq_iff: "(a :: byte) = b \<longleftrightarrow> (\<forall>n < 8. bit a n = bit b n)"
  by (auto simp: bit_eq_iff)

lemma word_at_eqD:
  assumes eq: "word_at k a i = (word_at k b j :: 'a::len word)"
    and len: "i + k \<le> length a" "j + k \<le> length b" "8 * k \<le> LENGTH('a)"
    and m: "m < k"
  shows "a ! (i + m) = b ! (j + m)"
proof -
  have "bit (a ! (i + m)) n = bit (b ! (j + m)) n" if "n < 8" for n
  proof -
    have lt: "8 * m + n < LENGTH('a)" using that m len(3) by linarith
    have d: "(8 * m + n) div 8 = m" "(8 * m + n) mod 8 = n" using that by simp_all
    from eq have "bit (word_at k a i :: 'a word) (8 * m + n) = bit (word_at k b j :: 'a word) (8 * m + n)"
      by simp
    with m show ?thesis
      unfolding bit_word_at [OF lt len(1)] bit_word_at [OF lt len(2)] d by simp
  qed
  then show ?thesis by (simp add: byte_eq_iff)
qed

lemma word_at_eqI:
  assumes "\<And>m. m < k \<Longrightarrow> a ! (i + m) = b ! (j + m)"
    and "i + k \<le> length a" "j + k \<le> length b"
  shows "word_at k a i = (word_at k b j :: 'a::len word)"
  by (rule bit_word_eqI) (auto simp: bit_word_at assms)

text \<open>The low halves and shifts the encoders take of a 64-bit load are 32-bit loads.\<close>

lemma ucast_word_at:
  assumes "j + 8 \<le> length b" and "m \<le> 4"
  shows "(ucast (drop_bit (8 * m) (word_at 8 b j :: u64)) :: u32) = word_at 4 b (j + m)"
proof (rule bit_word_eqI)
  fix n assume "n < LENGTH(32)"
  then have n: "n < 32" by simp
  have d: "(8 * m + n) div 8 = m + n div 8" "(8 * m + n) mod 8 = n mod 8" by simp_all
  have lt: "8 * m + n < LENGTH(64)" using n assms(2) by simp
  have "m + n div 8 < 8" using n assms(2) by linarith
  moreover have "n div 8 < 4" using n by linarith
  ultimately show "bit (ucast (drop_bit (8 * m) (word_at 8 b j :: u64)) :: u32) n
      = bit (word_at 4 b (j + m) :: u32) n"
    using n lt assms bit_word_at [OF lt assms(1)] bit_word_at [of n "j + m" 4 b, where 'a = 32]
    by (simp add: bit_simps d add.assoc)
qed

section \<open>The first byte where two loads differ\<close>

definition trailing_zeros :: "'a::len word \<Rightarrow> nat" where
  "trailing_zeros w = length (takeWhile (\<lambda>n. \<not> bit w n) [0..<LENGTH('a)])"

lemma trailing_zeros_props:
  fixes w :: "'a::len word"
  assumes "w \<noteq> 0"
  shows "trailing_zeros w < LENGTH('a)" and "bit w (trailing_zeros w)"
    and "n < trailing_zeros w \<Longrightarrow> \<not> bit w n"
proof -
  let ?P = "\<lambda>n. \<not> bit w n" and ?xs = "[0..<LENGTH('a)]"
  from assms obtain k where k: "bit w k" by (auto simp: bit_eq_iff)
  then have "k < LENGTH('a)" by (rule bit_imp_le_length)
  then have ne: "takeWhile ?P ?xs \<noteq> ?xs" using k by (auto simp: takeWhile_eq_all_conv)
  have "length (takeWhile ?P ?xs) \<noteq> length ?xs"
    using ne by (metis takeWhile_eq_take take_all order_refl)
  then have "length (takeWhile ?P ?xs) < length ?xs"
    using length_takeWhile_le [of ?P ?xs] by linarith
  then show lt: "trailing_zeros w < LENGTH('a)" by (simp add: trailing_zeros_def)
  from lt show "bit w (trailing_zeros w)"
    using nth_length_takeWhile [of ?P ?xs] by (simp add: trailing_zeros_def)
  show "n < trailing_zeros w \<Longrightarrow> \<not> bit w n"
    using lt takeWhile_nth [of n ?P ?xs] nth_mem [of n "takeWhile ?P ?xs"]
    by (auto simp: trailing_zeros_def dest!: set_takeWhileD)
qed

lemma xor_zero_iff: "x XOR y = 0 \<longleftrightarrow> x = (y :: 'a::len word)"
  by (auto simp: bit_eq_iff bit_simps)

lemma xor_load_diff:
  assumes "i + 8 \<le> length a" "j + 8 \<le> length b"
    and "word_at 8 a i XOR (word_at 8 b j :: u64) \<noteq> 0"
  defines "k \<equiv> trailing_zeros (word_at 8 a i XOR (word_at 8 b j :: u64)) div 8"
  shows "k < 8" and "\<And>m. m < k \<Longrightarrow> a ! (i + m) = b ! (j + m)" and "a ! (i + k) \<noteq> b ! (j + k)"
proof -
  let ?x = "word_at 8 a i XOR (word_at 8 b j :: u64)"
  have bx: "bit ?x n \<longleftrightarrow> (bit (a ! (i + n div 8)) (n mod 8) \<noteq> bit (b ! (j + n div 8)) (n mod 8))"
    if "n < 64" for n
    using that assms(1,2) less_mult_imp_div_less [of n 8 8] by (simp add: bit_simps bit_word_at)
  have t: "trailing_zeros ?x < 64" using trailing_zeros_props(1) [OF assms(3)] by simp
  then show "k < 8" unfolding k_def by linarith
  show "a ! (i + k) \<noteq> b ! (j + k)"
    using trailing_zeros_props(2) [OF assms(3)] bx [OF t] unfolding k_def by auto
  fix m assume m: "m < k"
  have "bit (a ! (i + m)) n = bit (b ! (j + m)) n" if "n < 8" for n
  proof -
    have lt: "8 * m + n < trailing_zeros ?x" using m that unfolding k_def by linarith
    have d: "(8 * m + n) div 8 = m" "(8 * m + n) mod 8 = n" using that by simp_all
    show ?thesis
      using trailing_zeros_props(3) [OF assms(3) lt] bx [of "8 * m + n"] t lt d by simp
  qed
  then show "a ! (i + m) = b ! (j + m)" by (simp add: byte_eq_iff)
qed

lemma xor_load_same:
  assumes "i + 8 \<le> length a" "j + 8 \<le> length b"
    and "word_at 8 a i XOR (word_at 8 b j :: u64) = 0" and "m < 8"
  shows "a ! (i + m) = b ! (j + m)"
  using assms by (intro word_at_eqD [where 'a = 64 and k = 8]) (simp_all add: xor_zero_iff)


section \<open>Comparing two byte strings\<close>

text \<open>
  \<open>match_prefix a b\<close> is the reference meaning: the length of the longest common prefix.
  \<open>match_len\<close> compares eight bytes at a time and then byte by byte.
\<close>

definition match_prefix :: "bytes \<Rightarrow> bytes \<Rightarrow> nat" where
  "match_prefix a b = length (takeWhile (\<lambda>(x, y). x = y) (zip a b))"

fun match_tail :: "(byte \<times> byte) list \<Rightarrow> nat \<Rightarrow> nat option" where
  "match_tail [] i = None"
| "match_tail ((x, y) # ps) i = (if x \<noteq> y then Some i else match_tail ps (i + 1))"

definition match_len_step :: "bytes \<Rightarrow> bytes \<Rightarrow> nat \<Rightarrow> (nat + (nat + nat)) option" where
  "match_len_step a b checked = do {
     rest \<leftarrow> usub (length a) checked;
     if 8 \<le> rest then do {
       x \<leftarrow> load64 a checked;
       y \<leftarrow> load64 b checked;
       (let diff = x XOR y in
        if diff \<noteq> 0 then Some (Inr (Inl (checked + trailing_zeros diff div 8)))
        else Some (Inl (checked + 8)))
     } else Some (Inr (Inr checked))
   }"

definition match_len :: "bytes \<Rightarrow> bytes \<Rightarrow> nat option" where
  "match_len a b = do {
     st \<leftarrow> loop (match_len_step a b) 0;
     case st of
       Inl r \<Rightarrow> Some r
     | Inr checked \<Rightarrow> do {
         ta \<leftarrow> slice_from a checked;
         tb \<leftarrow> slice_from b checked;
         Some (case match_tail (zip ta tb) 0 of Some i \<Rightarrow> checked + i | None \<Rightarrow> length a)
       }
   }"

lemma match_tail_eq:
  "match_tail (zip a b) i =
     (if match_prefix a b < min (length a) (length b) then Some (i + match_prefix a b) else None)"
  unfolding match_prefix_def
proof (induction a arbitrary: b i)
  case (Cons x a)
  then show ?case by (cases b) auto
qed simp

lemma match_prefix_shift:
  assumes "k \<le> length a" "k \<le> length b" and "\<And>m. m < k \<Longrightarrow> a ! m = b ! m"
  shows "match_prefix a b = k + match_prefix (drop k a) (drop k b)"
proof -
  let ?P = "\<lambda>(x, y). x = (y :: byte)"
  have split: "zip a b = take k (zip a b) @ zip (drop k a) (drop k b)"
    by (simp flip: drop_zip)
  have "\<forall>p \<in> set (take k (zip a b)). ?P p"
    using assms by (auto simp: in_set_conv_nth)
  then show ?thesis
    using assms(1,2) unfolding match_prefix_def
    by (subst split) (subst takeWhile_append2, auto)
qed

lemma match_prefix_le: "match_prefix a b \<le> length a" "match_prefix a b \<le> length b"
  using length_takeWhile_le [of _ "zip a b"] unfolding match_prefix_def
  by (metis length_zip min.bounded_iff)+

lemma match_prefix_diff:
  assumes "k < length a" "k < length b" "\<And>m. m < k \<Longrightarrow> a ! m = b ! m" "a ! k \<noteq> b ! k"
  shows "match_prefix a b = k"
proof -
  have "match_prefix (drop k a) (drop k b) = 0"
    using assms by (simp add: match_prefix_def flip: Cons_nth_drop_Suc)
  with match_prefix_shift [of k a b] assms show ?thesis by simp
qed

lemma match_len_step:
  assumes "c \<le> length a \<and> (\<forall>m<c. a ! m = b ! m)" and "length a \<le> length b"
  shows "(\<exists>c'. match_len_step a b c = Some (Inl c') \<and>
        (c' \<le> length a \<and> (\<forall>m<c'. a ! m = b ! m)) \<and> length a - c' < length a - c) \<or>
    (\<exists>r. match_len_step a b c = Some (Inr r) \<and>
      (case r of Inl k \<Rightarrow> match_prefix a b = k
       | Inr c' \<Rightarrow> c' \<le> length a \<and> (\<forall>m<c'. a ! m = b ! m)))"
proof (cases "8 \<le> length a - c")
  case False
  with assms show ?thesis by (simp add: match_len_step_def fault_simps)
next
  case True
  let ?d = "word_at 8 a c XOR (word_at 8 b c :: u64)"
  have l: "c + 8 \<le> length a" "c + 8 \<le> length b" using True assms by simp_all
  have body: "match_len_step a b c =
      (if ?d \<noteq> 0 then Some (Inr (Inl (c + trailing_zeros ?d div 8))) else Some (Inl (c + 8)))"
    using True l assms(1) by (simp add: match_len_step_def fault_simps word_at_def)
  show ?thesis
  proof (cases "?d = 0")
    case True
    have "a ! m = b ! m" if "m < c + 8" for m
      using xor_load_same [OF l True, of "m - c"] that assms(1) by (cases "m < c") auto
    with True l show ?thesis by (simp add: body)
  next
    case False
    let ?k = "trailing_zeros ?d div 8"
    note x = xor_load_diff [OF l False]
    have "a ! m = b ! m" if "m < c + ?k" for m
      using x(2) [of "m - c"] that assms(1) by (cases "m < c") auto
    then have "match_prefix a b = c + ?k"
      using x(1,3) l by (intro match_prefix_diff) auto
    with False show ?thesis by (simp add: body)
  qed
qed

lemma match_prefix_spec:
  assumes "length a \<le> length b" "match_prefix a b = k"
  shows "k \<le> length a" "take k a = take k b" "k = length a \<or> a ! k \<noteq> b ! k"
proof -
  let ?P = "\<lambda>(x, y). x = y"
  show k: "k \<le> length a" using match_prefix_le(1) [of a b] assms(2) by simp
  have eq: "a ! i = b ! i" if "i < k" for i
  proof -
    have "takeWhile ?P (zip a b) ! i \<in> set (takeWhile ?P (zip a b))"
      using that assms(2) by (simp add: match_prefix_def)
    then have "?P (zip a b ! i)"
      using that assms(2) set_takeWhileD [of _ ?P "zip a b"] by (simp add: match_prefix_def takeWhile_nth)
    then show ?thesis using that k assms(1) by simp
  qed
  then show "take k a = take k b" using k assms(1) by (intro nth_equalityI) auto
  show "k = length a \<or> a ! k \<noteq> b ! k"
    using k assms nth_length_takeWhile [of ?P "zip a b"] by (fastforce simp: match_prefix_def)
qed

lemma match_len_correct:
  assumes "length a \<le> length b"
  shows "match_len a b = Some (match_prefix a b)"
proof -
  let ?I = "\<lambda>c. c \<le> length a \<and> (\<forall>m<c. a ! m = b ! m)"
  obtain r where r: "loop (match_len_step a b) 0 = Some r"
    and Q: "case r of Inl k \<Rightarrow> match_prefix a b = k | Inr c \<Rightarrow> ?I c"
    using loop_total [of ?I 0 "match_len_step a b" "\<lambda>c. length a - c",
        OF _ match_len_step [OF _ assms]] by auto
  show ?thesis
  proof (cases r)
    case (Inl k)
    with r Q show ?thesis by (simp add: match_len_def)
  next
    case (Inr c)
    with Q have c: "c \<le> length a" "\<And>m. m < c \<Longrightarrow> a ! m = b ! m" by auto
    with assms have "match_prefix a b = c + match_prefix (drop c a) (drop c b)"
      by (intro match_prefix_shift) auto
    with r Inr c(1) assms match_prefix_le [of a b] show ?thesis
      by (auto simp: match_len_def fault_simps match_tail_eq)
  qed
qed


section \<open>The hash functions\<close>

text \<open>The table size \<open>h\<close> is a constant between 1 and 32 at every call.\<close>

definition hash4 :: "u64 \<Rightarrow> nat \<Rightarrow> u32" where
  "hash4 u h = drop_bit ((32 - h) mod 32) ((ucast u :: u32) * 2654435761)"

definition hash5 :: "u64 \<Rightarrow> nat \<Rightarrow> u32" where
  "hash5 u h = ucast (drop_bit ((64 - h) mod 64) (push_bit (64 - 40) u * 889523592379))"

definition hash6 :: "u64 \<Rightarrow> nat \<Rightarrow> u32" where
  "hash6 u h = ucast (drop_bit ((64 - h) mod 64) (push_bit (64 - 48) u * 227718039650203))"

definition hash7 :: "u64 \<Rightarrow> nat \<Rightarrow> u32" where
  "hash7 u h = ucast (drop_bit ((64 - h) mod 64) (push_bit (64 - 56) u * 58295818150454627))"

definition hash8 :: "u64 \<Rightarrow> nat \<Rightarrow> u32" where
  "hash8 u h = ucast (drop_bit ((64 - h) mod 64) (u * 0xcf1bbcdcb7a56463))"

lemma unat_drop_bit_lt:
  fixes w :: "'a::len word"
  assumes "h \<le> LENGTH('a)"
  shows "unat (drop_bit (LENGTH('a) - h) w) < 2 ^ h"
proof -
  have "unat w < 2 ^ h * 2 ^ (LENGTH('a) - h)"
    using assms unsigned_less [of w] by (simp flip: power_add)
  then show ?thesis by (simp add: unat_drop_bit_div div_less_iff_less_mult)
qed

lemma unat_hash_lt:
  fixes w :: u64
  assumes "0 < h" "h \<le> 32"
  shows "unat (ucast (drop_bit ((64 - h) mod 64) w) :: u32) < 2 ^ h"
proof -
  have "unat (drop_bit (64 - h) w) < 2 ^ h"
    using unat_drop_bit_lt [of h w] assms by simp
  then show ?thesis
    using assms by (simp add: unsigned_ucast_eq take_bit_eq_mod order_le_less_trans [OF mod_less_eq_dividend])
qed

lemma hash_bounds:
  assumes "0 < h" "h \<le> 32"
  shows "unat (hash4 u h) < 2 ^ h" "unat (hash5 u h) < 2 ^ h" "unat (hash6 u h) < 2 ^ h"
    "unat (hash7 u h) < 2 ^ h" "unat (hash8 u h) < 2 ^ h"
  using assms unat_hash_lt [OF assms] unat_drop_bit_lt [of h "(ucast u :: u32) * 2654435761"]
  by (simp_all add: hash4_def hash5_def hash6_def hash7_def hash8_def)

end
