(* ===== verification/Block_Spec.thy ===== *)
theory Block_Spec
  imports Load_Store
begin

text \<open>
  The meaning of a MinLZ block, independent of any decoder loop: a block body is a sequence of
  tokens (a literal, a repeat of the last match offset, or a copy with fused literals), a token
  acts on the output written so far and the last offset, and the block means the output of its
  tokens run from the empty output with offset 1. The decoder is proved to compute this
  meaning; the encoders are proved to produce a block that means their input.
\<close>

section \<open>Tokens\<close>

datatype token = TLit bytes | TRep nat | TCopy bytes nat nat

definition take_le :: "nat \<Rightarrow> bytes \<Rightarrow> (nat \<times> bytes) option" where
  "take_le k bs = (if k \<le> length bs then Some (le_nat (take k bs), drop k bs) else None)"

definition take_bytes :: "nat \<Rightarrow> bytes \<Rightarrow> (bytes \<times> bytes) option" where
  "take_bytes k bs = (if k \<le> length bs then Some (take k bs, drop k bs) else None)"

text \<open>
  \<open>ext_len m a c x bs\<close>: a length field \<open>x\<close> up to \<open>m\<close> stands for \<open>x + a\<close>; a greater one says how
  many bytes follow, whose value plus \<open>c\<close> is the length.
\<close>

definition ext_len :: "nat \<Rightarrow> nat \<Rightarrow> nat \<Rightarrow> nat \<Rightarrow> bytes \<Rightarrow> (nat \<times> bytes) option" where
  "ext_len m a c x bs =
     (if x \<le> m then Some (x + a, bs)
      else do { (n, r) \<leftarrow> take_le (x - m) bs; Some (n + c, r) })"

definition parse_lit_rep :: "nat \<Rightarrow> bytes \<Rightarrow> (token \<times> bytes) option" where
  "parse_lit_rep tag bs = do {
     (len, r) \<leftarrow> ext_len 28 1 30 (tag div 8) bs;
     if tag div 4 mod 2 = 0 then do { (lits, r) \<leftarrow> take_bytes len r; Some (TLit lits, r) }
     else Some (TRep len, r)
   }"

definition parse_copy1 :: "nat \<Rightarrow> bytes \<Rightarrow> (token \<times> bytes) option" where
  "parse_copy1 tag bs = do {
     (hi, r) \<leftarrow> take_le 1 bs;
     (len, r) \<leftarrow> ext_len 14 4 18 (tag div 4 mod 16) r;
     Some (TCopy [] (tag div 64 + 4 * hi + 1) len, r)
   }"

definition parse_copy2 :: "nat \<Rightarrow> bytes \<Rightarrow> (token \<times> bytes) option" where
  "parse_copy2 tag bs = do {
     (off, r) \<leftarrow> take_le 2 bs;
     (len, r) \<leftarrow> ext_len 60 4 64 (tag div 4) r;
     Some (TCopy [] (off + MIN_COPY2_OFFSET) len, r)
   }"

definition parse_copy2_fused :: "nat \<Rightarrow> bytes \<Rightarrow> (token \<times> bytes) option" where
  "parse_copy2_fused tag bs = do {
     (off, r) \<leftarrow> take_le 2 bs;
     (lits, r) \<leftarrow> take_bytes (tag div 8 mod 4 + 1) r;
     Some (TCopy lits (off + MIN_COPY2_OFFSET) (tag div 32 + 4), r)
   }"

definition parse_copy3 :: "nat \<Rightarrow> bytes \<Rightarrow> (token \<times> bytes) option" where
  "parse_copy3 tag bs = do {
     (hi, r) \<leftarrow> take_le 3 bs;
     let v = tag + 256 * hi in do {
     (len, r) \<leftarrow> ext_len 60 4 64 (v div 32 mod 64) r;
     (lits, r) \<leftarrow> take_bytes (v div 8 mod 4) r;
     Some (TCopy lits (v div 2048 + MIN_COPY3_OFFSET) len, r) }
   }"

fun parse_token :: "bytes \<Rightarrow> (token \<times> bytes) option" where
  "parse_token [] = None"
| "parse_token (b # bs) = (let tag = unat b in
     if tag mod 4 = 0 then parse_lit_rep tag bs
     else if tag mod 4 = 1 then parse_copy1 tag bs
     else if tag mod 4 = 2 then parse_copy2 tag bs
     else if tag div 4 mod 2 = 0 then parse_copy2_fused tag bs
     else parse_copy3 tag bs)"

section \<open>Running tokens\<close>

text \<open>The copy may overlap itself: every byte is appended before the next one is read.\<close>

fun lz_copy :: "bytes \<Rightarrow> nat \<Rightarrow> nat \<Rightarrow> bytes" where
  "lz_copy out off 0 = out"
| "lz_copy out off (Suc n) = lz_copy (out @ [out ! (length out - off)]) off n"

type_synonym lz_state = "bytes \<times> nat"

definition exec_copy :: "bytes \<Rightarrow> nat \<Rightarrow> nat \<Rightarrow> lz_state option" where
  "exec_copy out off n =
     (if 0 < off \<and> off \<le> length out then Some (lz_copy out off n, off) else None)"

fun exec_token :: "token \<Rightarrow> lz_state \<Rightarrow> lz_state option" where
  "exec_token (TLit l) (out, off) = Some (out @ l, off)"
| "exec_token (TRep n) (out, off) = exec_copy out off n"
| "exec_token (TCopy l off' n) (out, off) = exec_copy (out @ l) off' n"

lemma take_le_shorter: "take_le k bs = Some (n, r) \<Longrightarrow> length bs = k + length r"
  by (auto simp: take_le_def split: if_splits)

lemma take_bytes_shorter: "take_bytes k bs = Some (l, r) \<Longrightarrow> length bs = k + length r \<and> length l = k"
  by (auto simp: take_bytes_def split: if_splits)

lemma ext_len_shorter: "ext_len m a c x bs = Some (n, r) \<Longrightarrow> length r \<le> length bs"
  by (auto simp: ext_len_def split: if_splits Option.bind_splits dest: take_le_shorter)

lemmas parse_defs = parse_lit_rep_def parse_copy1_def parse_copy2_def parse_copy2_fused_def
  parse_copy3_def

lemma parse_token_shorter: "parse_token bs = Some (t, r) \<Longrightarrow> length r < length bs"
  by (cases bs) (auto simp: Let_def parse_defs split: if_splits Option.bind_splits
      dest!: take_le_shorter take_bytes_shorter ext_len_shorter)

function spec_run :: "bytes \<Rightarrow> lz_state \<Rightarrow> lz_state option" where
  "spec_run bs st =
     (if bs = [] then Some st
      else case parse_token bs of
        None \<Rightarrow> None
      | Some (t, r) \<Rightarrow> (case exec_token t st of None \<Rightarrow> None | Some st' \<Rightarrow> spec_run r st'))"
  by pat_completeness auto
termination
  by (relation "measure (length \<circ> fst)") (auto dest: parse_token_shorter)

declare spec_run.simps [simp del]

definition spec_decode :: "bytes \<Rightarrow> bytes option" where
  "spec_decode bs = map_option fst (spec_run bs ([], 1))"

section \<open>Composition\<close>

text \<open>A parser is stable if what it reads does not depend on what follows.\<close>

definition stable :: "(bytes \<Rightarrow> ('a \<times> bytes) option) \<Rightarrow> bool" where
  "stable p \<longleftrightarrow> (\<forall>bs a r x. p bs = Some (a, r) \<longrightarrow> p (bs @ x) = Some (a, r @ x))"

named_theorems stable_intros \<open>how stable parsers compose\<close>

lemma stable_bind [stable_intros]:
  assumes "stable p" and "\<And>a. stable (q a)"
  shows "stable (\<lambda>bs. p bs \<bind> (\<lambda>(a, r). q a r))"
  unfolding stable_def
proof (intro allI impI)
  fix bs b r x
  assume "p bs \<bind> (\<lambda>(a, r). q a r) = Some (b, r)"
  then obtain a r' where p: "p bs = Some (a, r')" and q: "q a r' = Some (b, r)"
    by (auto simp: bind_eq_Some_conv)
  have "p (bs @ x) = Some (a, r' @ x)" "q a (r' @ x) = Some (b, r @ x)"
    using assms p q by (auto simp: stable_def)
  then show "p (bs @ x) \<bind> (\<lambda>(a, r). q a r) = Some (b, r @ x)" by simp
qed

lemma stable_return [stable_intros]: "stable (\<lambda>bs. Some (a, bs))"
  by (simp add: stable_def)

lemma stable_if [stable_intros]:
  "stable p \<Longrightarrow> stable q \<Longrightarrow> stable (\<lambda>bs. if c then p bs else q bs)"
  by (simp add: stable_def)

lemma stable_take_le [stable_intros]: "stable (take_le k)"
  by (simp add: stable_def take_le_def)

lemma stable_take_bytes [stable_intros]: "stable (take_bytes k)"
  by (simp add: stable_def take_bytes_def)

lemma stable_ext_len [stable_intros]: "stable (ext_len m a c x)"
  unfolding ext_len_def by (intro stable_intros)

lemma stable_parse_token: "stable parse_token"
proof -
  have "stable (parse_lit_rep tag)" "stable (parse_copy1 tag)" "stable (parse_copy2 tag)"
    "stable (parse_copy2_fused tag)" "stable (parse_copy3 tag)" for tag
    unfolding parse_defs Let_def by (intro stable_intros)+
  then show ?thesis
    unfolding stable_def
  proof (intro allI impI)
    fix bs t r x
    assume p: "parse_token bs = Some (t, r)"
    then show "parse_token (bs @ x) = Some (t, r @ x)"
      using \<open>\<And>tag. stable (parse_lit_rep tag)\<close> \<open>\<And>tag. stable (parse_copy1 tag)\<close>
        \<open>\<And>tag. stable (parse_copy2 tag)\<close> \<open>\<And>tag. stable (parse_copy2_fused tag)\<close>
        \<open>\<And>tag. stable (parse_copy3 tag)\<close>
      by (cases bs) (auto simp: Let_def stable_def split: if_splits)
  qed
qed

lemma parse_token_extend: "parse_token bs = Some (t, r) \<Longrightarrow> parse_token (bs @ x) = Some (t, r @ x)"
  using stable_parse_token by (auto simp: stable_def)

lemma spec_run_Nil [simp]: "spec_run [] st = Some st"
  by (simp add: spec_run.simps)

lemma spec_run_append: "spec_run a st = Some st' \<Longrightarrow> spec_run (a @ b) st = spec_run b st'"
proof (induction a st rule: spec_run.induct)
  case (1 a st)
  show ?case
  proof (cases "a = []")
    case True
    with 1 show ?thesis by simp
  next
    case False
    with 1(2) obtain t r st1 where t: "parse_token a = Some (t, r)" "exec_token t st = Some st1"
      and r: "spec_run r st1 = Some st'"
      by (subst (asm) spec_run.simps) (auto split: option.splits)
    from 1(1) [OF False t(1) refl t(2) r] t parse_token_extend [OF t(1), of b] False
    show ?thesis by (subst spec_run.simps) auto
  qed
qed

lemma spec_run_token:
  assumes "parse_token (code @ rest) = Some (t, rest)" and "exec_token t st = Some st'"
  shows "spec_run (code @ rest) st = spec_run rest st'"
  using assms parse_token_shorter [OF assms(1)] by (subst spec_run.simps) auto

section \<open>Copies from a prefix of the input\<close>

lemma length_lz_copy [simp]: "length (lz_copy out off n) = length out + n"
  by (induction out off n rule: lz_copy.induct) simp_all

lemma exec_copy_length: "exec_copy out off n = Some (out', off') \<Longrightarrow> length out' = length out + n"
  by (auto simp: exec_copy_def split: if_splits)

lemma exec_token_length: "exec_token t (out, off) = Some (out', off') \<Longrightarrow> length out \<le> length out'"
  by (cases t) (auto dest!: exec_copy_length)

lemma spec_run_length: "spec_run bs st = Some st' \<Longrightarrow> length (fst st) \<le> length (fst st')"
proof (induction bs st rule: spec_run.induct)
  case (1 bs st)
  show ?case
  proof (cases "bs = []")
    case True
    with 1 show ?thesis by (simp add: spec_run.simps)
  next
    case False
    with 1(2) obtain t r st1 where t: "parse_token bs = Some (t, r)" "exec_token t st = Some st1"
      and r: "spec_run r st1 = Some st'"
      by (subst (asm) spec_run.simps) (auto split: option.splits)
    from 1(1) [OF False t(1) refl t(2) r] t(2) exec_token_length [of t "fst st" "snd st" "fst st1" "snd st1"]
    show ?thesis by simp
  qed
qed

lemma lz_copy_prefix:
  assumes "0 < off" "off \<le> p" "p + n \<le> length src"
    and "\<And>m. m < n \<Longrightarrow> src ! (p + m) = src ! (p - off + m)"
  shows "lz_copy (take p src) off n = take (p + n) src"
  using assms
proof (induction n arbitrary: p)
  case (Suc n)
  from Suc.prems have "take p src @ [take p src ! (length (take p src) - off)] = take (Suc p) src"
    using Suc.prems(4) [of 0] by (simp add: take_Suc_conv_app_nth min_def)
  moreover have "src ! (Suc p + m) = src ! (Suc p - off + m)" if "m < n" for m
    using Suc.prems(4) [of "Suc m"] that Suc.prems(2) by (simp add: Suc_diff_le)
  ultimately show ?case using Suc.IH [of "Suc p"] Suc.prems by simp
qed simp

lemma lz_copy_add: "lz_copy (lz_copy out off m) off n = lz_copy out off (m + n)"
  by (induction out off m rule: lz_copy.induct) simp_all

lemma lz_copy_Suc:
  "lz_copy out off (Suc n) = lz_copy out off n @ [lz_copy out off n ! (length out + n - off)]"
  using lz_copy_add [of out off n 1] by simp

lemma lz_copy_disjoint:
  "n \<le> off \<Longrightarrow> off \<le> length out \<Longrightarrow> lz_copy out off n = out @ take n (drop (length out - off) out)"
proof (induction n)
  case (Suc n)
  have "(out @ take n (drop (length out - off) out)) ! (length out + n - off) = out ! (length out - off + n)"
    using Suc.prems by (simp add: nth_append)
  then show ?case
    using Suc by (simp add: lz_copy_Suc take_Suc_conv_app_nth del: lz_copy.simps)
qed simp

end
