(* ===== verification/Emit.thy ===== *)
theory Emit
  imports Block_Spec
begin

text \<open>
  \<^verbatim>\<open>block/emit.rs\<close>: the routines that write one literal, repeat or copy into a slice, and the
  size functions. A routine takes the slice and returns it updated, with the number of bytes
  written; a store or a copy outside the slice, an arithmetic underflow and the panic on an
  overlong literal are None.
\<close>

section \<open>The emitters\<close>

type_synonym emitter = "bytes \<Rightarrow> (bytes \<times> nat) option"

definition emit_literal :: "bytes \<Rightarrow> bytes \<Rightarrow> (bytes \<times> nat) option" where
  "emit_literal dst lit =
     (if lit = [] then Some (dst, 0)
      else let n = length lit - 1 in do {
        (dst, header) \<leftarrow>
          (if n \<le> 28 then do {
             dst \<leftarrow> store8 dst 0 (push_bit 3 (of_nat n) OR TAG_LITERAL);
             Some (dst, 1) }
           else if n \<le> 283 then do {
             dst \<leftarrow> store8 dst 1 (of_nat (n - 29));
             dst \<leftarrow> store8 dst 0 (push_bit 3 29 OR TAG_LITERAL);
             Some (dst, 2) }
           else if n \<le> 65564 then let n2 = n - 29 in do {
             dst \<leftarrow> store8 dst 2 (of_nat (n2 div 2 ^ 8));
             dst \<leftarrow> store8 dst 1 (of_nat n2);
             dst \<leftarrow> store8 dst 0 (push_bit 3 30 OR TAG_LITERAL);
             Some (dst, 3) }
           else if n \<le> 16777244 then let n2 = n - 29 in do {
             dst \<leftarrow> store8 dst 3 (of_nat (n2 div 2 ^ 16));
             dst \<leftarrow> store8 dst 2 (of_nat (n2 div 2 ^ 8));
             dst \<leftarrow> store8 dst 1 (of_nat n2);
             dst \<leftarrow> store8 dst 0 (push_bit 3 31 OR TAG_LITERAL);
             Some (dst, 4) }
           else None);
        dst \<leftarrow> write_at dst header lit;
        Some (dst, header + length lit)
      })"

definition emit_repeat :: "bytes \<Rightarrow> nat \<Rightarrow> (bytes \<times> nat) option" where
  "emit_repeat dst len =
     (if len < 30 then do {
        n \<leftarrow> usub len 1;
        dst \<leftarrow> store8 dst 0 (push_bit 3 (of_nat n) OR TAG_REPEAT);
        Some (dst, 1) }
      else let len = len - 30 in
        if len < 256 then do {
          dst \<leftarrow> store8 dst 1 (of_nat len);
          dst \<leftarrow> store8 dst 0 (push_bit 3 29 OR TAG_REPEAT);
          Some (dst, 2) }
        else if len < 65536 then do {
          dst \<leftarrow> store8 dst 2 (of_nat (len div 2 ^ 8));
          dst \<leftarrow> store8 dst 1 (of_nat len);
          dst \<leftarrow> store8 dst 0 (push_bit 3 30 OR TAG_REPEAT);
          Some (dst, 3) }
        else do {
          dst \<leftarrow> store8 dst 3 (of_nat (len div 2 ^ 16));
          dst \<leftarrow> store8 dst 2 (of_nat (len div 2 ^ 8));
          dst \<leftarrow> store8 dst 1 (of_nat len);
          dst \<leftarrow> store8 dst 0 (push_bit 3 31 OR TAG_REPEAT);
          Some (dst, 4) })"

definition encode_copy2 :: "bytes \<Rightarrow> nat \<Rightarrow> nat \<Rightarrow> (bytes \<times> nat) option" where
  "encode_copy2 dst offset len = do {
     len \<leftarrow> usub len 4;
     o' \<leftarrow> usub offset MIN_COPY2_OFFSET;
     dst \<leftarrow> store16 dst 1 (of_nat o');
     if len \<le> 60 then do {
       dst \<leftarrow> store8 dst 0 (push_bit 2 (of_nat len) OR TAG_COPY2);
       Some (dst, 3) }
     else let len = len - 60 in
       if len < 256 then do {
         dst \<leftarrow> store8 dst 3 (of_nat len);
         dst \<leftarrow> store8 dst 0 (push_bit 2 61 OR TAG_COPY2);
         Some (dst, 4) }
       else if len < 65536 then do {
         dst \<leftarrow> store8 dst 4 (of_nat (len div 2 ^ 8));
         dst \<leftarrow> store8 dst 3 (of_nat len);
         dst \<leftarrow> store8 dst 0 (push_bit 2 62 OR TAG_COPY2);
         Some (dst, 5) }
       else do {
         dst \<leftarrow> store8 dst 5 (of_nat (len div 2 ^ 16));
         dst \<leftarrow> store8 dst 4 (of_nat (len div 2 ^ 8));
         dst \<leftarrow> store8 dst 3 (of_nat len);
         dst \<leftarrow> store8 dst 0 (push_bit 2 63 OR TAG_COPY2);
         Some (dst, 6) }
   }"

definition encode_copy3 :: "bytes \<Rightarrow> nat \<Rightarrow> nat \<Rightarrow> nat \<Rightarrow> (bytes \<times> nat) option" where
  "encode_copy3 dst offset len lits = do {
     len \<leftarrow> usub len 4;
     o' \<leftarrow> usub offset MIN_COPY3_OFFSET;
     let encoded = (push_bit 11 (of_nat o') OR ucast TAG_COPY3 OR push_bit 3 (of_nat lits) :: u32) in
     if len \<le> 60 then do {
       dst \<leftarrow> store32 dst 0 (encoded OR push_bit 5 (of_nat len));
       Some (dst, 4) }
     else let len = len - 60 in
       if len < 256 then do {
         dst \<leftarrow> store32 dst 0 (encoded OR push_bit 5 61);
         dst \<leftarrow> store8 dst 4 (of_nat len);
         Some (dst, 5) }
       else if len < 65536 then do {
         dst \<leftarrow> store32 dst 0 (encoded OR push_bit 5 62);
         dst \<leftarrow> store16 dst 4 (of_nat len);
         Some (dst, 6) }
       else do {
         dst \<leftarrow> store32 dst 0 (encoded OR push_bit 5 63);
         dst \<leftarrow> store8 dst 4 (of_nat len);
         dst \<leftarrow> store8 dst 5 (of_nat (len div 2 ^ 8));
         dst \<leftarrow> store8 dst 6 (of_nat (len div 2 ^ 16));
         Some (dst, 7) }
   }"

text \<open>\<open>d += f(&mut dst[d..])\<close>: an emitter run on the rest of the slice.\<close>

definition emit_at :: "nat \<Rightarrow> emitter \<Rightarrow> emitter" where
  "emit_at d f dst = do {
     sub \<leftarrow> slice_from dst d;
     (sub, n) \<leftarrow> f sub;
     Some (take d dst @ sub, d + n)
   }"

definition emit_copy :: "bytes \<Rightarrow> nat \<Rightarrow> nat \<Rightarrow> (bytes \<times> nat) option" where
  "emit_copy dst offset len =
     (if MAX_COPY2_OFFSET < offset then encode_copy3 dst offset len 0
      else if offset \<le> MAX_COPY1_OFFSET then do {
        off \<leftarrow> usub offset 1;
        if len < 15 + 4 then do {
          l \<leftarrow> usub len 4;
          dst \<leftarrow> store16 dst 0 (push_bit 6 (of_nat off) OR push_bit 2 (of_nat l) OR ucast TAG_COPY1);
          Some (dst, 2) }
        else if len < 256 + 18 then do {
          dst \<leftarrow> store16 dst 0 (push_bit 6 (of_nat off) OR push_bit 2 15 OR ucast TAG_COPY1);
          dst \<leftarrow> store8 dst 2 (of_nat (len - 18));
          Some (dst, 3) }
        else do {
          dst \<leftarrow> store16 dst 0 (push_bit 6 (of_nat off) OR push_bit 2 14 OR ucast TAG_COPY1);
          emit_at 2 (\<lambda>dst. emit_repeat dst (len - 18)) dst }
      }
      else encode_copy2 dst offset len)"

definition emit_copy_lits2 :: "bytes \<Rightarrow> bytes \<Rightarrow> nat \<Rightarrow> nat \<Rightarrow> (bytes \<times> nat) option" where
  "emit_copy_lits2 dst lits offset len = do {
     off_field \<leftarrow> usub offset MIN_COPY2_OFFSET;
     raw_len \<leftarrow> usub len 4;
     l1 \<leftarrow> usub (length lits) 1;
     if COPY2_LIT_MAX_LEN - 4 < raw_len then do {
       dst \<leftarrow> store16 dst 1 (of_nat off_field);
       dst \<leftarrow> store8 dst 0 (TAG_COPY2_FUSED OR push_bit 5 (of_nat (COPY2_LIT_MAX_LEN - 4)) OR
                             push_bit 3 (of_nat l1));
       dst \<leftarrow> write_at dst 3 lits;
       emit_at (3 + length lits) (\<lambda>dst. emit_repeat dst (raw_len - (COPY2_LIT_MAX_LEN - 4))) dst }
     else do {
       dst \<leftarrow> store16 dst 1 (of_nat off_field);
       dst \<leftarrow> store8 dst 0 (TAG_COPY2_FUSED OR push_bit 5 (of_nat raw_len) OR push_bit 3 (of_nat l1));
       dst \<leftarrow> write_at dst 3 lits;
       Some (dst, 3 + length lits) }
   }"

definition emit_copy_lits3 :: "bytes \<Rightarrow> bytes \<Rightarrow> nat \<Rightarrow> nat \<Rightarrow> (bytes \<times> nat) option" where
  "emit_copy_lits3 dst lits offset len = do {
     (dst, n) \<leftarrow> encode_copy3 dst offset len (length lits);
     dst \<leftarrow> write_at dst n lits;
     Some (dst, n + length lits)
   }"

section \<open>Size functions\<close>

definition emit_literal_size_n :: "nat \<Rightarrow> nat" where
  "emit_literal_size_n n =
     (if n = 0 then 0 else if n \<le> 29 then 1 else if n < 29 + 2 ^ 8 then 2
      else if n < 29 + 2 ^ 16 then 3 else 4)"

definition emit_repeat_size :: "nat \<Rightarrow> nat" where
  "emit_repeat_size len =
     (if len = 0 then 0 else if len \<le> 29 then 1
      else let len = len - 29 in
        if len \<le> 256 then 2 else if len \<le> 65536 then 3 else 4)"

definition emit_copy2_size :: "nat \<Rightarrow> nat option" where
  "emit_copy2_size len = do {
     len \<leftarrow> usub len 4;
     if len \<le> 60 then Some 3
     else let len = len - 60 in
       Some (if len < 256 then 4 else if len < 65536 then 5 else 6)
   }"

definition leading_zeros :: "'a::len word \<Rightarrow> nat" where
  "leading_zeros w = length (takeWhile (\<lambda>n. \<not> bit w n) (rev [0..<LENGTH('a)]))"

definition emit_copy_size :: "nat \<Rightarrow> nat \<Rightarrow> nat option" where
  "emit_copy_size offset len =
     (if 65536 + 63 < offset then
        (if len \<le> 64 then Some 4
         else let extra = len - 64 in
           Some (4 + (64 - leading_zeros (of_nat extra :: u64) + 7) div 8))
      else if offset \<le> MAX_COPY1_OFFSET then
        (if len \<le> 18 then Some 2
         else if len < 18 + 256 then Some 3
         else Some (2 + emit_repeat_size (len - 18)))
      else emit_copy2_size len)"

text \<open>The position of the highest bit bounds the word on both sides.\<close>

lemma leading_zeros_bounds:
  fixes w :: u64
  assumes "0 < unat w"
  shows "leading_zeros w < 64" "2 ^ (63 - leading_zeros w) \<le> unat w" "unat w < 2 ^ (64 - leading_zeros w)"
proof -
  define P where "P = (\<lambda>n. \<not> bit w n)"
  define k where "k = leading_zeros w"
  let ?xs = "rev [0..<64]"
  have tw: "k = length (takeWhile P ?xs)" by (simp add: k_def leading_zeros_def P_def)
  have nz: "w \<noteq> 0" using assms by auto
  then obtain j where j: "bit w j" by (auto simp: bit_eq_iff)
  then have "j < 64" using bit_imp_le_length [OF j] by simp
  then have "takeWhile P ?xs \<noteq> ?xs" using j by (auto simp: takeWhile_eq_all_conv P_def)
  then have klt: "k < 64"
    using length_takeWhile_le [of P ?xs] takeWhile_eq_take [of P ?xs] unfolding tw
    by (metis length_rev length_upt minus_nat.diff_0 le_neq_implies_less take_all order_refl)
  have top: "bit w (63 - k)"
    using nth_length_takeWhile [of P ?xs] klt unfolding tw [symmetric] by (simp add: P_def rev_nth)
  have above: "\<not> bit w i" if "63 - k < i" for i
  proof (cases "i < 64")
    case True
    then have "63 - i < k" "?xs ! (63 - i) = i" using that klt by (simp_all add: rev_nth)
    then show ?thesis
      using takeWhile_nth [of "63 - i" P ?xs] nth_mem [of "63 - i" "takeWhile P ?xs"]
      unfolding tw by (auto simp: P_def dest!: set_takeWhileD)
  next
    case False
    then show ?thesis using bit_imp_le_length [of w i] by auto
  qed
  have ub: "unat w < 2 ^ (64 - k)"
  proof -
    have "take_bit (64 - k) w = w"
    proof (rule bit_word_eqI)
      fix i
      show "bit (take_bit (64 - k) w) i = bit w i"
        using above [of i] klt by (cases "63 - k < i") (auto simp: bit_take_bit_iff)
    qed
    then have "take_bit (64 - k) (unat w) = unat w" by (metis unsigned_take_bit_eq)
    then show ?thesis by (metis take_bit_nat_less_exp)
  qed
  have lb: "2 ^ (63 - k) \<le> unat w"
  proof (rule ccontr)
    assume "\<not> 2 ^ (63 - k) \<le> unat w"
    then have "take_bit (63 - k) (unat w) = unat w" by (simp add: take_bit_nat_eq_self)
    then have "take_bit (63 - k) w = w" by (metis unsigned_take_bit_eq word_unat_eq_iff)
    with top show False by (metis bit_take_bit_iff less_irrefl)
  qed
  show "leading_zeros w < 64" "2 ^ (63 - leading_zeros w) \<le> unat w" "unat w < 2 ^ (64 - leading_zeros w)"
    using klt lb ub by (simp_all add: k_def)
qed

end
