(* ===== verification/Emit_Correct.thy ===== *)
theory Emit_Correct
  imports Emit
begin

text \<open>
  What the emitters write. \<open>emits f code\<close> says that \<open>f\<close> writes exactly \<open>code\<close> at the front of its
  slice and reports its length, and faults when the slice is shorter; each emitter is shown to
  emit a code given in plain arithmetic, each code to be read back as the token it stands for,
  and the size functions to give the lengths of the codes.
\<close>

section \<open>Stores as bytes\<close>

fun le_bytes :: "nat \<Rightarrow> nat \<Rightarrow> bytes" where
  "le_bytes 0 n = []"
| "le_bytes (Suc k) n = of_nat n # le_bytes k (n div 256)"

lemma length_le_bytes [simp]: "length (le_bytes k n) = k"
  by (induction k n rule: le_bytes.induct) simp_all

lemma unat_of_nat_byte [simp]: "unat (of_nat n :: byte) = n mod 256"
  by (simp add: unsigned_of_nat take_bit_eq_mod)

lemma le_nat_le_bytes: "le_nat (le_bytes k n) = n mod 256 ^ k"
proof (induction k n rule: le_bytes.induct)
  case (2 k n)
  then show ?case by (simp add: mod_mult2_eq)
qed simp

lemma le_nat_le_bytes_small [simp]: "n < 256 ^ k \<Longrightarrow> le_nat (le_bytes k n) = n"
  by (simp add: le_nat_le_bytes)

lemma le_bytes_numeral:
  "le_bytes 1 n = [of_nat n]"
  "le_bytes 2 n = [of_nat n, of_nat (n div 256)]"
  "le_bytes 3 n = [of_nat n, of_nat (n div 256), of_nat (n div 65536)]"
  "le_bytes 4 n = [of_nat n, of_nat (n div 256), of_nat (n div 65536), of_nat (n div 16777216)]"
proof -
  have k: "1 = Suc 0" "2 = Suc (Suc 0)" "3 = Suc (Suc (Suc 0))" "4 = Suc (Suc (Suc (Suc 0)))"
    by simp_all
  have d: "n div 256 div 256 = n div 65536" "n div 256 div 256 div 256 = n div 16777216"
    by (simp_all flip: div_mult2_eq)
  show "le_bytes 1 n = [of_nat n]" "le_bytes 2 n = [of_nat n, of_nat (n div 256)]"
    "le_bytes 3 n = [of_nat n, of_nat (n div 256), of_nat (n div 65536)]"
    "le_bytes 4 n = [of_nat n, of_nat (n div 256), of_nat (n div 65536), of_nat (n div 16777216)]"
    unfolding d [symmetric] by (simp_all only: k le_bytes.simps)
qed

lemma ucast_drop_byte: "(ucast (drop_bit k (v :: 'a::len word)) :: byte) = of_nat (unat v div 2 ^ k)"
  unfolding unat_drop_bit_div [symmetric] by (rule of_nat_unat [symmetric])

lemma store16_bytes: "store16 b i v = write_at b i (le_bytes 2 (unat v))"
  using ucast_drop_byte [of 8 v] by (simp add: store16_def le_bytes_numeral)

lemma store32_bytes: "store32 b i v = write_at b i (le_bytes 4 (unat v))"
  using ucast_drop_byte [of 8 v] ucast_drop_byte [of 16 v] ucast_drop_byte [of 24 v]
  by (simp add: store32_def le_bytes_numeral)

section \<open>Codes\<close>

definition emits :: "emitter \<Rightarrow> bytes \<Rightarrow> bool" where
  "emits f code \<longleftrightarrow> (\<forall>dst. f dst =
     (if length code \<le> length dst then Some (code @ drop (length code) dst, length code) else None))"

lemma emitsD: "emits f code \<Longrightarrow> length code \<le> length dst \<Longrightarrow>
    f dst = Some (code @ drop (length code) dst, length code)"
  by (simp add: emits_def)

lemma emits_short: "emits f code \<Longrightarrow> length dst < length code \<Longrightarrow> f dst = None"
  by (simp add: emits_def)

lemma write_after_head:
  "write_at (head @ r) (length head) v =
     (if length v \<le> length r then Some (head @ v @ drop (length v) r) else None)"
  by (simp add: write_at_def)

lemma emits_then_write:
  assumes "emits f code"
  shows "emits (\<lambda>dst. do { (dst, n) \<leftarrow> f dst; dst \<leftarrow> write_at dst n v; Some (dst, n + length v) })
    (code @ v)"
  using assms write_after_head [of code _ v] by (auto simp: emits_def add.commute)

lemma emit_at_append:
  assumes "emits g c2" and "length c1 = k"
  shows "emit_at k g (c1 @ r) =
    (if length c2 \<le> length r then Some (c1 @ c2 @ drop (length c2) r, k + length c2) else None)"
  using assms by (auto simp: emit_at_def slice_from_def emits_def)

lemma emits_then:
  assumes "emits f c1" "emits g c2"
  shows "emits (\<lambda>dst. do { (dst, n) \<leftarrow> f dst; emit_at n g dst }) (c1 @ c2)"
  using assms(1) emit_at_append [OF assms(2) refl] by (auto simp: emits_def add.commute)

lemma push_of_nat_or:
  assumes "b < 2 ^ k"
  shows "push_bit k (of_nat a) OR of_nat b = (of_nat (a * 2 ^ k + b) :: 'a::len word)"
    and "of_nat b OR push_bit k (of_nat a) = (of_nat (a * 2 ^ k + b) :: 'a::len word)"
proof -
  have "unat (of_nat b :: 'a word) < 2 ^ k"
    using assms by (simp add: unsigned_of_nat take_bit_eq_mod order_le_less_trans [OF mod_less_eq_dividend])
  then show "push_bit k (of_nat a) OR of_nat b = (of_nat (a * 2 ^ k + b) :: 'a word)"
    "of_nat b OR push_bit k (of_nat a) = (of_nat (a * 2 ^ k + b) :: 'a word)"
    using push_bit_or_eq_add [of "of_nat b :: 'a word" k "of_nat a"]
    by (simp_all add: push_bit_eq_mult add.commute)
qed

text \<open>
  The header of a literal or repeat: a five-bit field above a three-bit tag. The one-byte
  extension is used below \<open>m\<close>, which is one less for literals than the format allows.
\<close>

definition len_head :: "nat \<Rightarrow> nat \<Rightarrow> nat \<Rightarrow> bytes" where
  "len_head tag m n =
     (if n \<le> 28 then [of_nat (8 * n + tag)]
      else if n < m then of_nat (8 * 29 + tag) # le_bytes 1 (n - 29)
      else if n < 29 + 65536 then of_nat (8 * 30 + tag) # le_bytes 2 (n - 29)
      else of_nat (8 * 31 + tag) # le_bytes 3 (n - 29))"

definition lit_code :: "bytes \<Rightarrow> bytes" where
  "lit_code l = (if l = [] then [] else len_head 0 284 (length l - 1) @ l)"

definition rep_code :: "nat \<Rightarrow> bytes" where
  "rep_code n = len_head 4 285 (n - 1)"

definition copy1_code :: "nat \<Rightarrow> nat \<Rightarrow> bytes" where
  "copy1_code off n = le_bytes 2 (64 * (off - 1) + 4 * n + 1)"

definition copy2_code :: "nat \<Rightarrow> nat \<Rightarrow> bytes" where
  "copy2_code off n = (let n = n - 4; o' = le_bytes 2 (off - 64) in
     if n \<le> 60 then of_nat (4 * n + 2) # o'
     else if n < 60 + 256 then of_nat (4 * 61 + 2) # o' @ le_bytes 1 (n - 60)
     else if n < 60 + 65536 then of_nat (4 * 62 + 2) # o' @ le_bytes 2 (n - 60)
     else of_nat (4 * 63 + 2) # o' @ le_bytes 3 (n - 60))"

definition copy3_code :: "nat \<Rightarrow> nat \<Rightarrow> nat \<Rightarrow> bytes" where
  "copy3_code off n lits = (let n = n - 4; w = \<lambda>f. le_bytes 4 (2048 * (off - 65536) + 32 * f + 8 * lits + 7) in
     if n \<le> 60 then w n
     else if n < 60 + 256 then w 61 @ le_bytes 1 (n - 60)
     else if n < 60 + 65536 then w 62 @ le_bytes 2 (n - 60)
     else w 63 @ le_bytes 3 (n - 60))"

definition copy_code :: "nat \<Rightarrow> nat \<Rightarrow> bytes" where
  "copy_code off n =
     (if MAX_COPY2_OFFSET < off then copy3_code off n 0
      else if off \<le> MAX_COPY1_OFFSET then
        (if n < 19 then copy1_code off (n - 4)
         else if n < 274 then copy1_code off 15 @ le_bytes 1 (n - 18)
         else copy1_code off 14 @ rep_code (n - 18))
      else copy2_code off n)"

definition lits2_code :: "bytes \<Rightarrow> nat \<Rightarrow> nat \<Rightarrow> bytes" where
  "lits2_code lits off n =
     of_nat (32 * min 7 (n - 4) + 8 * (length lits - 1) + 3) # le_bytes 2 (off - 64) @ lits @
     (if 11 < n then rep_code (n - 11) else [])"

definition lits3_code :: "bytes \<Rightarrow> nat \<Rightarrow> nat \<Rightarrow> bytes" where
  "lits3_code lits off n = copy3_code off n (length lits) @ lits"

section \<open>The emitters write the codes\<close>

lemma store8_update: "store8 b i v = (if i < length b then Some (b[i := v]) else None)"
  by (simp add: store8_def write_at_def upd_conv_take_nth_drop)

lemma store16_update:
  "store16 b i v = (if i + 2 \<le> length b
     then Some (b[i := of_nat (unat v), i + 1 := of_nat (unat v div 256)]) else None)"
  by (simp add: store16_bytes write_at_def le_bytes_numeral upd_conv_take_nth_drop)

lemma store32_update:
  "store32 b i v = (if i + 4 \<le> length b
     then Some (b[i := of_nat (unat v), i + 1 := of_nat (unat v div 256),
                  i + 2 := of_nat (unat v div 65536), i + 3 := of_nat (unat v div 16777216)]) else None)"
  by (simp add: store32_bytes write_at_def le_bytes_numeral upd_conv_take_nth_drop)

lemma emitsI:
  assumes "\<And>pre r. length pre = length code \<Longrightarrow> f (pre @ r) = Some (code @ r, length code)"
    and "\<And>dst. length dst < length code \<Longrightarrow> f dst = None"
  shows "emits f code"
  unfolding emits_def
proof
  fix dst :: bytes
  show "f dst = (if length code \<le> length dst
      then Some (code @ drop (length code) dst, length code) else None)"
    using assms(1) [of "take (length code) dst" "drop (length code) dst"] assms(2) [of dst]
    by (cases "length code \<le> length dst") auto
qed

lemma list_update_Cons_numeral: "(x # xs)[numeral k := v] = x # xs[pred_numeral k := v]"
  by (simp add: numeral_eq_Suc)

lemmas store_updates = store8_update store16_update store32_update list_update_Cons_numeral

text \<open>The stores of a header, in the orders the code has them.\<close>

lemma emits_stores:
  "emits (\<lambda>dst. do { dst \<leftarrow> store8 dst 0 a; Some (dst, 1) }) [a]"
  "emits (\<lambda>dst. do { dst \<leftarrow> store8 dst 1 b; dst \<leftarrow> store8 dst 0 a; Some (dst, 2) }) [a, b]"
  "emits (\<lambda>dst. do { dst \<leftarrow> store8 dst 2 c; dst \<leftarrow> store8 dst 1 b; dst \<leftarrow> store8 dst 0 a;
     Some (dst, 3) }) [a, b, c]"
  "emits (\<lambda>dst. do { dst \<leftarrow> store8 dst 3 d; dst \<leftarrow> store8 dst 2 c; dst \<leftarrow> store8 dst 1 b;
     dst \<leftarrow> store8 dst 0 a; Some (dst, 4) }) [a, b, c, d]"
  by (auto intro!: emitsI simp: store_updates length_Suc_conv)

lemma emits_stores_copy1:
  "emits (\<lambda>dst. do { dst \<leftarrow> store16 dst 0 v; Some (dst, 2) }) (le_bytes 2 (unat v))"
  "emits (\<lambda>dst. do { dst \<leftarrow> store16 dst 0 v; dst \<leftarrow> store8 dst 2 c; Some (dst, 3) })
     (le_bytes 2 (unat v) @ [c])"
  by (auto intro!: emitsI simp: store_updates length_Suc_conv le_bytes_numeral)

lemma emits_stores_copy2:
  "emits (\<lambda>dst. do { dst \<leftarrow> store16 dst 1 v; dst \<leftarrow> store8 dst 0 a; Some (dst, 3) })
     (a # le_bytes 2 (unat v))"
  "emits (\<lambda>dst. do { dst \<leftarrow> store16 dst 1 v; dst \<leftarrow> store8 dst 3 b; dst \<leftarrow> store8 dst 0 a;
     Some (dst, 4) }) (a # le_bytes 2 (unat v) @ [b])"
  "emits (\<lambda>dst. do { dst \<leftarrow> store16 dst 1 v; dst \<leftarrow> store8 dst 4 c; dst \<leftarrow> store8 dst 3 b;
     dst \<leftarrow> store8 dst 0 a; Some (dst, 5) }) (a # le_bytes 2 (unat v) @ [b, c])"
  "emits (\<lambda>dst. do { dst \<leftarrow> store16 dst 1 v; dst \<leftarrow> store8 dst 5 d; dst \<leftarrow> store8 dst 4 c;
     dst \<leftarrow> store8 dst 3 b; dst \<leftarrow> store8 dst 0 a; Some (dst, 6) })
     (a # le_bytes 2 (unat v) @ [b, c, d])"
  by (auto intro!: emitsI simp: store_updates length_Suc_conv le_bytes_numeral)

lemma emits_stores_copy3:
  "emits (\<lambda>dst. do { dst \<leftarrow> store32 dst 0 v; Some (dst, 4) }) (le_bytes 4 (unat v))"
  "emits (\<lambda>dst. do { dst \<leftarrow> store32 dst 0 v; dst \<leftarrow> store8 dst 4 b; Some (dst, 5) })
     (le_bytes 4 (unat v) @ [b])"
  "emits (\<lambda>dst. do { dst \<leftarrow> store32 dst 0 v; dst \<leftarrow> store16 dst 4 w; Some (dst, 6) })
     (le_bytes 4 (unat v) @ le_bytes 2 (unat w))"
  "emits (\<lambda>dst. do { dst \<leftarrow> store32 dst 0 v; dst \<leftarrow> store8 dst 4 b; dst \<leftarrow> store8 dst 5 c;
     dst \<leftarrow> store8 dst 6 d; Some (dst, 7) }) (le_bytes 4 (unat v) @ [b, c, d])"
  by (auto intro!: emitsI simp: store_updates length_Suc_conv le_bytes_numeral)

section \<open>The emitters write the codes\<close>

lemma emits_cong: "emits f c \<Longrightarrow> c = c' \<Longrightarrow> (\<And>dst. g dst = f dst) \<Longrightarrow> emits g c'"
  by (simp add: emits_def)

lemma tag_or:
  "push_bit 3 (of_nat n) OR TAG_LITERAL = of_nat (8 * n)"
  "push_bit 3 (of_nat n) OR TAG_REPEAT = of_nat (8 * n + 4)"
  "push_bit 2 (of_nat n) OR TAG_COPY2 = of_nat (4 * n + 2)"
  using push_of_nat_or(1) [of 0 3 n, where 'a = 8] push_of_nat_or(1) [of 4 3 n, where 'a = 8]
    push_of_nat_or(1) [of 2 2 n, where 'a = 8]
  by (simp_all add: format_consts mult.commute)

lemma emits_literal:
  assumes "length lit \<le> 16777245"
  shows "emits (\<lambda>dst. emit_literal dst lit) (lit_code lit)"
proof (cases "lit = []")
  case True
  then show ?thesis by (simp add: emits_def emit_literal_def lit_code_def)
next
  case False
  define n where "n = length lit - 1"
  with assms have n: "n \<le> 16777244" by simp
  define hdr where "hdr = (\<lambda>dst. if n \<le> 28 then do {
             dst \<leftarrow> store8 dst 0 (push_bit 3 (of_nat n) OR TAG_LITERAL);
             Some (dst, 1) }
           else if n \<le> 283 then do {
             dst \<leftarrow> store8 dst 1 (of_nat (n - 29));
             dst \<leftarrow> store8 dst 0 (push_bit 3 29 OR TAG_LITERAL);
             Some (dst, 2) }
           else if n \<le> 65564 then let n2 = n - 29 in do {
             dst \<leftarrow> store8 dst 2 (of_nat (n2 div 2 ^ 8));
             dst \<leftarrow> store8 dst 1 (of_nat n2);
             dst \<leftarrow> store8 dst 0 (push_bit 3 30 OR TAG_LITERAL);
             Some (dst, 3) }
           else if n \<le> 16777244 then let n2 = n - 29 in do {
             dst \<leftarrow> store8 dst 3 (of_nat (n2 div 2 ^ 16));
             dst \<leftarrow> store8 dst 2 (of_nat (n2 div 2 ^ 8));
             dst \<leftarrow> store8 dst 1 (of_nat n2);
             dst \<leftarrow> store8 dst 0 (push_bit 3 31 OR TAG_LITERAL);
             Some (dst, 4 :: nat) }
           else None)"
  consider "n \<le> 28" | "28 < n" "n \<le> 283" | "283 < n" "n \<le> 65564" | "65564 < n" by linarith
  then have "emits hdr (len_head 0 284 n)"
  proof cases
    case 1
    then show ?thesis unfolding hdr_def tag_or
      by (intro emits_cong [OF emits_stores(1)]) (simp_all add: len_head_def)
  next
    case 2
    then show ?thesis unfolding hdr_def
      by (intro emits_cong [OF emits_stores(2)]) (simp_all add: len_head_def le_bytes_numeral format_consts)
  next
    case 3
    then show ?thesis unfolding hdr_def
      by (intro emits_cong [OF emits_stores(3)]) (simp_all add: len_head_def le_bytes_numeral Let_def format_consts)
  next
    case 4
    with n show ?thesis unfolding hdr_def
      by (intro emits_cong [OF emits_stores(4)]) (simp_all add: len_head_def le_bytes_numeral Let_def format_consts)
  qed
  from emits_then_write [OF this, of lit] show ?thesis
    by (rule emits_cong) (use False in \<open>simp_all add: lit_code_def emit_literal_def hdr_def n_def Let_def\<close>)
qed

lemma emits_repeat:
  assumes "0 < len" "len < 16777216 + 30"
  shows "emits (\<lambda>dst. emit_repeat dst len) (rep_code len)"
proof -
  define n where "n = len - 1"
  then have n: "len = n + 1" using assms by simp
  consider "len < 30" | "\<not> len < 30" "len - 30 < 256" "n < 285" "n < 65565"
    | "\<not> len - 30 < 256" "len - 30 < 65536" "\<not> n < 285" "n < 65565"
    | "\<not> len - 30 < 65536" "\<not> n < 285" "\<not> n < 65565" unfolding n by linarith
  then show ?thesis
  proof cases
    case 1
    with assms show ?thesis
      by (intro emits_cong [OF emits_stores(1)])
        (simp_all add: n rep_code_def len_head_def emit_repeat_def fault_simps tag_or del: of_nat_diff)
  next
    case 2
    then show ?thesis
      by (intro emits_cong [OF emits_stores(2)])
        (simp_all add: n rep_code_def len_head_def emit_repeat_def le_bytes_numeral Let_def format_consts)
  next
    case 3
    then show ?thesis
      by (intro emits_cong [OF emits_stores(3)])
        (simp_all add: n rep_code_def len_head_def emit_repeat_def le_bytes_numeral Let_def format_consts)
  next
    case 4
    with assms show ?thesis
      by (intro emits_cong [OF emits_stores(4)])
        (simp_all add: n rep_code_def len_head_def emit_repeat_def le_bytes_numeral Let_def format_consts)
  qed
qed

lemma unat_of_nat_u16 [simp]: "unat (of_nat n :: u16) = n mod 65536"
  by (simp add: unsigned_of_nat take_bit_eq_mod)

lemma emits_copy2:
  assumes "MIN_COPY2_OFFSET \<le> offset" "offset \<le> MAX_COPY2_OFFSET" "4 \<le> len"
  shows "emits (\<lambda>dst. encode_copy2 dst offset len) (copy2_code offset len)"
proof -
  have off: "(offset - 64) mod 65536 = offset - 64"
    using assms(2) by (simp add: format_consts del: of_nat_diff)
  obtain n where n: "len - 4 = n" by simp
  have u: "usub len 4 = Some n" "usub offset MIN_COPY2_OFFSET = Some (offset - 64)"
    using assms(1,3) n by (simp_all add: fault_simps format_consts)
  consider "n \<le> 60" | "60 < n" "n - 60 < 256" "n < 316" "n < 65596"
    | "\<not> n - 60 < 256" "n - 60 < 65536" "\<not> n < 316" "n < 65596"
    | "\<not> n - 60 < 65536" "\<not> n < 316" "\<not> n < 65596" by linarith
  then show ?thesis
  proof cases
    case 1
    then show ?thesis
      by (intro emits_cong [OF emits_stores_copy2(1) [of "of_nat (offset - 64)"]])
        (simp_all add: copy2_code_def encode_copy2_def u n off tag_or Let_def del: of_nat_diff)
  next
    case 2
    then show ?thesis
      by (intro emits_cong [OF emits_stores_copy2(2) [of "of_nat (offset - 64)" "of_nat (n - 60)" 246]])
        (simp_all add: copy2_code_def encode_copy2_def u [simplified format_consts] n off le_bytes_numeral(1) Let_def format_consts del: of_nat_diff)
  next
    case 3
    then show ?thesis
      by (intro emits_cong [OF emits_stores_copy2(3) [of "of_nat (offset - 64)" "of_nat ((n - 60) div 256)" "of_nat (n - 60)" 250]])
        (simp_all add: copy2_code_def encode_copy2_def u [simplified format_consts] n off le_bytes_numeral(2) [of "n - 60"] Let_def format_consts del: of_nat_diff)
  next
    case 4
    then show ?thesis
      by (intro emits_cong [OF emits_stores_copy2(4) [of "of_nat (offset - 64)" "of_nat ((n - 60) div 65536)" "of_nat ((n - 60) div 256)" "of_nat (n - 60)" 254]])
        (simp_all add: copy2_code_def encode_copy2_def u [simplified format_consts] n off le_bytes_numeral(3) Let_def format_consts del: of_nat_diff)
  qed
qed

lemma copy3_word:
  assumes "lits \<le> 3" "f \<le> 63"
  shows "(push_bit 11 (of_nat o') OR ucast TAG_COPY3 OR push_bit 3 (of_nat lits) OR push_bit 5 (of_nat f) :: u32)
    = of_nat (2048 * o' + 32 * f + 8 * lits + 7)"
proof -
  have c: "(ucast TAG_COPY3 :: u32) = of_nat 7" by (simp add: format_consts)
  have 1: "push_bit 3 (of_nat lits) OR of_nat 7 = (of_nat (lits * 2 ^ 3 + 7) :: u32)"
    by (rule push_of_nat_or) simp
  have 2: "push_bit 5 (of_nat f) OR of_nat (lits * 2 ^ 3 + 7) = (of_nat (f * 2 ^ 5 + (lits * 2 ^ 3 + 7)) :: u32)"
    using assms by (intro push_of_nat_or) simp
  have 3: "push_bit 11 (of_nat o') OR of_nat (f * 2 ^ 5 + (lits * 2 ^ 3 + 7))
      = (of_nat (o' * 2 ^ 11 + (f * 2 ^ 5 + (lits * 2 ^ 3 + 7))) :: u32)"
    using assms by (intro push_of_nat_or) simp
  have "(push_bit 11 (of_nat o') OR ucast TAG_COPY3 OR push_bit 3 (of_nat lits) OR push_bit 5 (of_nat f) :: u32)
      = push_bit 11 (of_nat o') OR (push_bit 5 (of_nat f) OR (push_bit 3 (of_nat lits) OR of_nat 7))"
    unfolding c by (simp only: or.assoc or.commute or.left_commute)
  also have "\<dots> = of_nat (o' * 2 ^ 11 + (f * 2 ^ 5 + (lits * 2 ^ 3 + 7)))"
    unfolding 1 2 3 ..
  finally show ?thesis by (simp add: algebra_simps)
qed

lemma emits_copy3:
  assumes "MIN_COPY3_OFFSET \<le> offset" "offset \<le> MAX_COPY3_OFFSET" "4 \<le> len" "lits \<le> 3"
  shows "emits (\<lambda>dst. encode_copy3 dst offset len lits) (copy3_code offset len lits)"
proof -
  obtain n where n: "len - 4 = n" by simp
  obtain x where x: "offset - 65536 = x" by simp
  have u: "usub len 4 = Some n" "usub offset MIN_COPY3_OFFSET = Some x"
    using assms n x by (simp_all add: fault_simps format_consts)
  define w where "w = (\<lambda>f. 2048 * x + 32 * f + 8 * lits + 7)"
  have w: "(push_bit 11 (of_nat x) OR ucast TAG_COPY3 OR push_bit 3 (of_nat lits)) OR push_bit 5 (of_nat f) =
      (of_nat (w f) :: u32)" "unat (of_nat (w f) :: u32) = w f" if "f \<le> 63" for f
  proof -
    show "(push_bit 11 (of_nat x) OR ucast TAG_COPY3 OR push_bit 3 (of_nat lits)) OR push_bit 5 (of_nat f) =
      (of_nat (w f) :: u32)"
      using copy3_word [OF assms(4) that] by (simp only: w_def or.assoc)
    have "w f < 2 ^ 32" using that assms(2,4) x by (simp add: w_def format_consts)
    then show "unat (of_nat (w f) :: u32) = w f"
      by (simp add: unsigned_of_nat take_bit_nat_eq_self)
  qed
  note w61 = w [of 61, simplified] and w62 = w [of 62, simplified] and w63 = w [of 63, simplified]
  have code: "copy3_code offset len lits = (if n \<le> 60 then le_bytes 4 (w n)
     else if n < 316 then le_bytes 4 (w 61) @ le_bytes 1 (n - 60)
     else if n < 65596 then le_bytes 4 (w 62) @ le_bytes 2 (n - 60)
     else le_bytes 4 (w 63) @ le_bytes 3 (n - 60))"
    by (simp add: copy3_code_def n x w_def Let_def)
  consider "n \<le> 60" | "60 < n" "n - 60 < 256" "n < 316" "n < 65596"
    | "\<not> n - 60 < 256" "n - 60 < 65536" "\<not> n < 316" "n < 65596"
    | "\<not> n - 60 < 65536" "\<not> n < 316" "\<not> n < 65596" by linarith
  then show ?thesis
  proof cases
    case 1
    then have n63: "n \<le> 63" by simp
    show ?thesis
      using 1 by (intro emits_cong [OF emits_stores_copy3(1) [of "of_nat (w n)"]])
        (simp_all only: code w [OF n63] encode_copy3_def u Let_def bind.bind_lunit if_True)
  next
    case 2
    then show ?thesis
      by (intro emits_cong [OF emits_stores_copy3(2) [of "of_nat (w 61)" "of_nat (n - 60)"]])
        (simp_all add: code w61 encode_copy3_def u Let_def le_bytes_numeral(1) del: of_nat_diff)
  next
    case 3
    then show ?thesis
      by (intro emits_cong [OF emits_stores_copy3(3) [of "of_nat (w 62)" "of_nat (n - 60)"]])
        (simp_all add: code w62 encode_copy3_def u Let_def del: of_nat_diff)
  next
    case 4
    then show ?thesis
      by (intro emits_cong [OF emits_stores_copy3(4) [of "of_nat (w 63)" "of_nat (n - 60)"
              "of_nat ((n - 60) div 256)" "of_nat ((n - 60) div 65536)"]])
        (simp_all add: code w63 encode_copy3_def u Let_def le_bytes_numeral(3) del: of_nat_diff)
  qed
qed

lemma copy1_word:
  assumes "l \<le> 15"
  shows "(push_bit 6 (of_nat off) OR push_bit 2 (of_nat l) OR ucast TAG_COPY1 :: u16) = of_nat (64 * off + 4 * l + 1)"
proof -
  have 1: "push_bit 2 (of_nat l) OR of_nat 1 = (of_nat (l * 2 ^ 2 + 1) :: u16)"
    by (rule push_of_nat_or) simp
  have 2: "push_bit 6 (of_nat off) OR of_nat (l * 2 ^ 2 + 1) = (of_nat (off * 2 ^ 6 + (l * 2 ^ 2 + 1)) :: u16)"
    using assms by (intro push_of_nat_or) simp
  have "(ucast TAG_COPY1 :: u16) = of_nat 1" by (simp add: format_consts)
  then have "(push_bit 6 (of_nat off) OR push_bit 2 (of_nat l) OR ucast TAG_COPY1 :: u16) =
      of_nat (off * 2 ^ 6 + (l * 2 ^ 2 + 1))"
    by (simp only: 1 2)
  then show ?thesis by (simp add: algebra_simps)
qed

lemma emits_copy:
  assumes "0 < offset" "offset \<le> MAX_COPY3_OFFSET" "4 \<le> len" "len < 16777216"
  shows "emits (\<lambda>dst. emit_copy dst offset len) (copy_code offset len)"
proof -
  consider "MAX_COPY2_OFFSET < offset" | "MAX_COPY1_OFFSET < offset" "offset \<le> MAX_COPY2_OFFSET"
    | "offset \<le> MAX_COPY1_OFFSET" by linarith
  then show ?thesis
  proof cases
    case 1
    then show ?thesis
      using emits_copy3 [of offset len 0] assms
      by (simp add: emit_copy_def copy_code_def format_consts)
  next
    case 2
    then show ?thesis
      using emits_copy2 [of offset len] assms
      by (simp add: emit_copy_def copy_code_def format_consts)
  next
    case 3
    then have b: "\<not> MAX_COPY2_OFFSET < offset" by (simp add: format_consts)
    define off where "off = offset - 1"
    have off: "off < 1024" "usub offset 1 = Some off"
      using 3 assms(1) by (auto simp: off_def fault_simps format_consts)
    have c1: "copy1_code offset f = le_bytes 2 (unat (of_nat (64 * off + 4 * f + 1) :: u16))" if "f \<le> 15" for f
    proof -
      have "(64 * off + 4 * f + 1) mod 65536 = 64 * off + 4 * f + 1" using off that by simp
      then show ?thesis
        unfolding copy1_code_def off_def [symmetric] by (simp only: unat_of_nat_u16)
    qed
    have w: "push_bit 6 (of_nat off) OR push_bit 2 15 OR ucast TAG_COPY1 = (of_nat (64 * off + 4 * 15 + 1) :: u16)"
      "push_bit 6 (of_nat off) OR push_bit 2 14 OR ucast TAG_COPY1 = (of_nat (64 * off + 4 * 14 + 1) :: u16)"
      using copy1_word [of 15 off] copy1_word [of 14 off] by (simp_all only: of_nat_numeral)
    consider "len < 19" | "\<not> len < 19" "len < 274" | "\<not> len < 19" "\<not> len < 274" by linarith
    then show ?thesis
    proof cases
      case A: 1
      define l where "l = len - 4"
      have l: "l \<le> 15" "usub len 4 = Some l" using A assms(3) by (auto simp: l_def fault_simps)
      show ?thesis
        using A 3 b c1 [OF l(1)] copy1_word [OF l(1), of off] off l
        by (intro emits_cong [OF emits_stores_copy1(1) [of "of_nat (64 * off + 4 * l + 1)"]])
          (simp_all add: emit_copy_def copy_code_def l_def [symmetric] del: of_nat_add of_nat_mult)
    next
      case B: 2
      show ?thesis
        using B 3 b c1 [of 15] off
        by (intro emits_cong [OF emits_stores_copy1(2) [of "of_nat (64 * off + 4 * 15 + 1)" "of_nat (len - 18)"]])
          (simp_all add: emit_copy_def copy_code_def w [simplified] le_bytes_numeral(1) del: of_nat_diff)
    next
      case C: 3
      have rep: "emits (\<lambda>dst. emit_repeat dst (len - 18)) (rep_code (len - 18))"
        using C assms(4) by (intro emits_repeat) auto
      show ?thesis
        using C 3 b c1 [of 14] off
        by (intro emits_cong [OF emits_then [OF emits_stores_copy1(1) [of "of_nat (64 * off + 4 * 14 + 1)"] rep]])
          (simp_all add: emit_copy_def copy_code_def w [simplified])
    qed
  qed
qed

lemma lits2_tag:
  assumes "l \<le> 3" "n \<le> 7"
  shows "TAG_COPY2_FUSED OR push_bit 5 (of_nat n) OR push_bit 3 (of_nat l) = of_nat (32 * n + 8 * l + 3)"
proof -
  have 1: "push_bit 3 (of_nat l) OR of_nat 3 = (of_nat (l * 2 ^ 3 + 3) :: byte)"
    by (rule push_of_nat_or) simp
  have 2: "push_bit 5 (of_nat n) OR of_nat (l * 2 ^ 3 + 3) = (of_nat (n * 2 ^ 5 + (l * 2 ^ 3 + 3)) :: byte)"
    using assms by (intro push_of_nat_or) simp
  have "TAG_COPY2_FUSED = of_nat 3" by (simp add: format_consts)
  then have "TAG_COPY2_FUSED OR push_bit 5 (of_nat n) OR push_bit 3 (of_nat l) =
      push_bit 5 (of_nat n) OR (push_bit 3 (of_nat l) OR of_nat 3)"
    by (simp only: or.assoc or.commute or.left_commute)
  then show ?thesis unfolding 1 2 by (simp add: algebra_simps)
qed

lemma emits_copy_lits2:
  assumes "MIN_COPY2_OFFSET \<le> offset" "offset \<le> MAX_COPY2_OFFSET" "4 \<le> len" "len < 16777216"
    and "lits \<noteq> []" "length lits \<le> MAX_COPY2_LITS"
  shows "emits (\<lambda>dst. emit_copy_lits2 dst lits offset len) (lits2_code lits offset len)"
proof -
  define l where "l = length lits - 1"
  define o' where "o' = offset - 64"
  define n where "n = len - 4"
  have l: "l \<le> 3" "usub (length lits) 1 = Some l"
    using assms(5,6) by (cases lits; simp add: l_def fault_simps format_consts)+
  have o': "o' mod 65536 = o'" "usub offset MIN_COPY2_OFFSET = Some o'"
    using assms(1,2) by (auto simp: o'_def fault_simps format_consts)
  have n: "usub len 4 = Some n" "len = n + 4" using assms(3) by (auto simp: n_def fault_simps)
  have l7: "COPY2_LIT_MAX_LEN - 4 = 7" by (simp add: format_consts)
  have head: "emits (\<lambda>dst. do { (dst, k) \<leftarrow> (do { dst \<leftarrow> store16 dst 1 (of_nat o');
        dst \<leftarrow> store8 dst 0 (TAG_COPY2_FUSED OR push_bit 5 (of_nat m) OR push_bit 3 (of_nat l)); Some (dst, 3) });
        dst \<leftarrow> write_at dst k lits; Some (dst, k + length lits) })
      ((of_nat (32 * m + 8 * l + 3) # le_bytes 2 o') @ lits)" if "m \<le> 7" for m
    using emits_then_write [OF emits_stores_copy2(1), of "of_nat o'"] o' lits2_tag [OF l(1) that]
    by simp
  have f: "emit_copy_lits2 dst lits offset len =
     (if 7 < n then do {
       dst \<leftarrow> store16 dst 1 (of_nat o');
       dst \<leftarrow> store8 dst 0 (TAG_COPY2_FUSED OR push_bit 5 (of_nat 7) OR push_bit 3 (of_nat l));
       dst \<leftarrow> write_at dst 3 lits;
       emit_at (3 + length lits) (\<lambda>dst. emit_repeat dst (n - 7)) dst }
     else do {
       dst \<leftarrow> store16 dst 1 (of_nat o');
       dst \<leftarrow> store8 dst 0 (TAG_COPY2_FUSED OR push_bit 5 (of_nat n) OR push_bit 3 (of_nat l));
       dst \<leftarrow> write_at dst 3 lits;
       Some (dst, 3 + length lits) })" for dst
    by (simp only: emit_copy_lits2_def o' n(1) l l7 Option.bind_lunit)
  have code: "lits2_code lits offset len = of_nat (32 * min 7 n + 8 * l + 3) # le_bytes 2 o' @ lits @
     (if 7 < n then rep_code (n - 7) else [])"
    unfolding lits2_code_def l_def [symmetric] o'_def [symmetric] n_def [symmetric]
    by (simp add: n(2))
  show ?thesis
  proof (cases "7 < n")
    case True
    have rep: "emits (\<lambda>dst. emit_repeat dst (n - 7)) (rep_code (n - 7))"
      using True assms(4) n by (intro emits_repeat) auto
    show ?thesis
      using True by (intro emits_cong [OF emits_then [OF head [of 7] rep]]) (simp_all add: code f)
  next
    case False
    then show ?thesis
      by (intro emits_cong [OF head [of n]]) (simp_all add: code f)
  qed
qed

lemma emits_copy_lits3:
  assumes "MIN_COPY3_OFFSET \<le> offset" "offset \<le> MAX_COPY3_OFFSET" "4 \<le> len"
    and "length lits \<le> MAX_COPY3_LITS"
  shows "emits (\<lambda>dst. emit_copy_lits3 dst lits offset len) (lits3_code lits offset len)"
  using emits_then_write [OF emits_copy3 [OF assms(1-3)], of "length lits" lits] assms(4)
  by (simp add: emit_copy_lits3_def lits3_code_def format_consts)

end
