(* ===== verification/Code_Meaning.thy ===== *)
theory Code_Meaning
  imports Emit_Correct
begin

text \<open>
  Each code written by an emitter is read back as its token, whatever follows it, so running it
  has the effect on the output that the encoder intends. The size functions of \<^verbatim>\<open>block/emit.rs\<close>
  give the lengths of the codes.
\<close>

section \<open>Codes parse as their tokens\<close>

lemma take_le_le_bytes [simp]: "n < 256 ^ k \<Longrightarrow> take_le k (le_bytes k n @ rest) = Some (n, rest)"
  by (simp add: take_le_def)

lemma take_bytes_append [simp]: "length l = k \<Longrightarrow> take_bytes k (l @ rest) = Some (l, rest)"
  by (simp add: take_bytes_def)

lemma len_head_cases:
  assumes "28 < m" "m \<le> 285" "n < 29 + 16777216"
  obtains f bs where "len_head tag m n = of_nat (8 * f + tag) # bs" "f < 32"
    "\<And>rest. ext_len 28 1 30 f (bs @ rest) = Some (n + 1, rest)"
proof -
  consider "n \<le> 28" | "28 < n" "n < m" | "m \<le> n" "n < 65565" | "65565 \<le> n" by linarith
  then show ?thesis
  proof cases
    case 1
    then show ?thesis by (intro that [of n "[]"]) (simp_all add: len_head_def ext_len_def)
  next
    case 2
    have "take_le 1 (le_bytes 1 (n - 29) @ rest) = Some (n - 29, rest)" for rest
      using 2 assms by (intro take_le_le_bytes) simp
    with 2 show ?thesis
      by (intro that [of 29 "le_bytes 1 (n - 29)"])
        (simp_all add: len_head_def ext_len_def del: le_bytes.simps of_nat_diff)
  next
    case 3
    with assms show ?thesis
      by (intro that [of 30 "le_bytes 2 (n - 29)"]) (simp_all add: len_head_def ext_len_def)
  next
    case 4
    with assms show ?thesis
      by (intro that [of 31 "le_bytes 3 (n - 29)"]) (simp_all add: len_head_def ext_len_def)
  qed
qed

lemma parse_lit_code:
  assumes "l \<noteq> []" "length l \<le> 16777245"
  shows "parse_token (lit_code l @ rest) = Some (TLit l, rest)"
proof -
  obtain f bs where h: "len_head 0 284 (length l - 1) = of_nat (8 * f + 0) # bs" "f < 32"
    "\<And>rest. ext_len 28 1 30 f (bs @ rest) = Some (length l - 1 + 1, rest)"
    by (rule len_head_cases [of 284 "length l - 1" 0]) (use assms in auto)
  from h(2) have u: "unat (of_nat (8 * f + 0) :: byte) = 8 * f"
    by (simp only: unat_of_nat_byte) simp
  have t: "8 * f mod 4 = 0" "8 * f div 4 mod 2 = 0" "8 * f div 8 = f" by presburger+
  show ?thesis
    using assms(1) h(3) [of "l @ rest"]
    by (simp only: lit_code_def h(1) if_False append_Cons append_assoc parse_token.simps Let_def u t if_True)
      (simp add: parse_lit_rep_def t)
qed

lemma parse_rep_code:
  assumes "0 < n" "n < 30 + 16777216"
  shows "parse_token (rep_code n @ rest) = Some (TRep n, rest)"
proof -
  obtain f bs where h: "len_head 4 285 (n - 1) = of_nat (8 * f + 4) # bs" "f < 32"
    "\<And>rest. ext_len 28 1 30 f (bs @ rest) = Some (n - 1 + 1, rest)"
    by (rule len_head_cases [of 285 "n - 1" 4]) (use assms in auto)
  from h(2) have u: "unat (of_nat (8 * f + 4) :: byte) = 8 * f + 4"
    by (simp only: unat_of_nat_byte) simp
  have t: "(8 * f + 4) mod 4 = 0" "(8 * f + 4) div 4 mod 2 = 1" "(8 * f + 4) div 8 = f" by presburger+
  show ?thesis
    using assms(1) h(3) [of rest]
    by (simp only: rep_code_def h(1) append_Cons append_assoc parse_token.simps Let_def u t if_True)
      (simp add: parse_lit_rep_def t)
qed

lemma byte_fields:
  "(x :: nat) mod 256 mod 4 = x mod 4"
  "x mod 256 div 4 mod 16 = x div 4 mod 16"
  "x mod 256 div 64 + 4 * (x div 256) = x div 64"
proof -
  show "x mod 256 mod 4 = x mod 4" by (simp add: mod_mod_cancel)
  show "x mod 256 div 4 mod 16 = x div 4 mod 16"
    using mod_mult2_eq [of x 4 64] by (simp add: mod_mod_cancel)
  show "x mod 256 div 64 + 4 * (x div 256) = x div 64"
    using mod_mult2_eq [of x 64 4] div_mult2_eq [of x 64 4] by simp
qed

lemma parse_copy1_code:
  assumes "0 < off" "off \<le> MAX_COPY1_OFFSET" "f \<le> 15"
  shows "parse_token (copy1_code off f @ rest) =
    do { (len, r) \<leftarrow> ext_len 14 4 18 f rest; Some (TCopy [] off len, r) }"
proof -
  define x where "x = 64 * (off - 1) + 4 * f + 1"
  have o: "off - 1 < 1024" "off = (off - 1) + 1" using assms by (auto simp: format_consts)
  have x: "x < 65536" using o assms(3) by (simp add: x_def)
  have x4: "x mod 4 = 1" "x div 4 = 16 * (off - 1) + f" "x div 64 = off - 1"
  proof -
    have four: "y = 4 * q + 1 \<Longrightarrow> y mod 4 = 1 \<and> y div 4 = q" for y q :: nat by presburger
    have "x = 4 * (16 * (off - 1) + f) + 1" by (simp add: x_def)
    from four [OF this] show "x mod 4 = 1" "x div 4 = 16 * (off - 1) + f" by simp_all
    show "x div 64 = off - 1" using assms(3) by (intro div_nat_eqI) (simp_all add: x_def)
  qed
  have xm: "x mod 256 mod 4 = 1" "x mod 256 div 4 mod 16 = f" "x mod 256 div 64 + 4 * (x div 256) = off - 1"
    using assms(3) unfolding byte_fields x4 by simp_all
  have b: "copy1_code off f = [of_nat x, of_nat (x div 256)]"
    unfolding copy1_code_def x_def [symmetric] by (rule le_bytes_numeral)
  have u: "unat (of_nat x :: byte) = x mod 256" by simp
  have hi: "take_le 1 (of_nat (x div 256) # rest) = Some (x div 256, rest)"
    using x by (simp add: take_le_def)
  show ?thesis
    unfolding b by (simp only: append_Cons append_Nil parse_token.simps u Let_def xm parse_copy1_def hi
        Option.bind_lunit prod.case o(2) [symmetric]) simp
qed


lemma ext_len_codes:
  assumes "n < 60 + 16777216"
  shows "ext_len 60 4 64 (if n \<le> 60 then n else if n < 316 then 61 else if n < 65596 then 62 else 63)
      ((if n \<le> 60 then [] else if n < 316 then le_bytes 1 (n - 60)
        else if n < 65596 then le_bytes 2 (n - 60) else le_bytes 3 (n - 60)) @ rest) = Some (n + 4, rest)"
proof -
  consider "n \<le> 60" | "60 < n" "n < 316" | "316 \<le> n" "n < 65596" | "65596 \<le> n" by linarith
  then show ?thesis
  proof cases
    case 2
    have "take_le 1 (le_bytes 1 (n - 60) @ rest) = Some (n - 60, rest)"
      using 2 by (intro take_le_le_bytes) simp
    with 2 show ?thesis by (simp add: ext_len_def del: le_bytes.simps of_nat_diff)
  qed (use assms in \<open>simp_all add: ext_len_def\<close>)
qed

abbreviation len_field :: "nat \<Rightarrow> nat" where
  "len_field n \<equiv> if n \<le> 60 then n else if n < 316 then 61 else if n < 65596 then 62 else 63"

abbreviation len_ext :: "nat \<Rightarrow> bytes" where
  "len_ext n \<equiv> if n \<le> 60 then [] else if n < 316 then le_bytes 1 (n - 60)
        else if n < 65596 then le_bytes 2 (n - 60) else le_bytes 3 (n - 60)"

lemma copy2_code_split:
  "copy2_code off n = of_nat (4 * len_field (n - 4) + 2) # le_bytes 2 (off - 64) @ len_ext (n - 4)"
  by (simp add: copy2_code_def Let_def)

lemma copy3_code_split:
  "copy3_code off n lits =
     le_bytes 4 (2048 * (off - 65536) + 32 * len_field (n - 4) + 8 * lits + 7) @ len_ext (n - 4)"
  by (simp add: copy3_code_def Let_def)

lemma parse_copy2_code:
  assumes "MIN_COPY2_OFFSET \<le> off" "off \<le> MAX_COPY2_OFFSET" "4 \<le> n" "n < 64 + 16777216"
  shows "parse_token (copy2_code off n @ rest) = Some (TCopy [] off n, rest)"
proof -
  define f where "f = len_field (n - 4)"
  have f: "f \<le> 63" by (simp add: f_def)
  then have u: "unat (of_nat (4 * f + 2) :: byte) = 4 * f + 2" by (simp only: unat_of_nat_byte) simp
  have t: "(4 * f + 2) mod 4 = 2" "(4 * f + 2) div 4 = f" by presburger+
  have e: "ext_len 60 4 64 f (len_ext (n - 4) @ rest) = Some (n - 4 + 4, rest)"
    unfolding f_def using assms by (intro ext_len_codes) simp
  have o: "take_le 2 (le_bytes 2 (off - 64) @ len_ext (n - 4) @ rest) = Some (off - 64, len_ext (n - 4) @ rest)"
    using assms by (intro take_le_le_bytes) (simp add: format_consts)
  show ?thesis
    using assms unfolding copy2_code_split f_def [symmetric]
    by (simp only: append_Cons append_assoc parse_token.simps u Let_def t parse_copy2_def o e
        Option.bind_lunit prod.case) (simp add: format_consts)
qed

lemma parse_lits2_head:
  assumes "MIN_COPY2_OFFSET \<le> off" "off \<le> MAX_COPY2_OFFSET" "n \<le> 7" "0 < length lits" "length lits \<le> 4"
  shows "parse_token (of_nat (32 * n + 8 * (length lits - 1) + 3) # le_bytes 2 (off - 64) @ lits @ rest)
    = Some (TCopy lits off (n + 4), rest)"
proof -
  define l where "l = length lits - 1"
  have l: "l \<le> 3" "length lits = l + 1" using assms by (auto simp: l_def)
  then have u: "unat (of_nat (32 * n + 8 * l + 3) :: byte) = 32 * n + 8 * l + 3"
    using assms(3) by (simp only: unat_of_nat_byte) simp
  have four: "y = 4 * q + 3 \<Longrightarrow> y mod 4 = 3 \<and> y div 4 = q" for y q :: nat by presburger
  have "32 * n + 8 * l + 3 = 4 * (8 * n + 2 * l) + 3" by simp
  from four [OF this] have t: "(32 * n + 8 * l + 3) mod 4 = 3" "(32 * n + 8 * l + 3) div 4 = 8 * n + 2 * l" by auto
  have t8: "(32 * n + 8 * l + 3) div 8 = 4 * n + l" "(32 * n + 8 * l + 3) div 32 = n"
    using l(1) by (intro div_nat_eqI; simp)+
  have m: "(4 * n + l) mod 4 = l" "(8 * n + 2 * l) mod 2 = 0" using l(1) by auto
  have o: "take_le 2 (le_bytes 2 (off - 64) @ lits @ rest) = Some (off - 64, lits @ rest)"
    using assms by (intro take_le_le_bytes) (simp add: format_consts)
  have b: "take_bytes (l + 1) (lits @ rest) = Some (lits, rest)"
    using l by (intro take_bytes_append) simp
  show ?thesis
    using assms unfolding l_def [symmetric]
    by (simp only: parse_token.simps u Let_def t t8 m parse_copy2_fused_def o b
        Option.bind_lunit prod.case) (simp add: format_consts)
qed

lemma parse_copy3_code:
  assumes "MIN_COPY3_OFFSET \<le> off" "off \<le> MAX_COPY3_OFFSET" "4 \<le> n" "n < 64 + 16777216"
    and "length lits \<le> 3"
  shows "parse_token (copy3_code off n (length lits) @ lits @ rest) = Some (TCopy lits off n, rest)"
proof -
  define f where "f = len_field (n - 4)"
  define o' where "o' = off - 65536"
  define l where "l = length lits"
  define x where "x = 2048 * o' + 32 * f + 8 * l + 7"
  have f: "f \<le> 63" and l: "l \<le> 3" using assms(5) by (simp_all add: f_def l_def)
  have o': "o' < 2097152" "o' + MIN_COPY3_OFFSET = off" using assms by (auto simp: o'_def format_consts)
  have x: "x < 4294967296" using o' f l by (simp add: x_def)
  have x8: "x div 8 = 256 * o' + 4 * f + l" "x div 32 = 64 * o' + f" "x div 2048 = o'"
    using f l by (intro div_nat_eqI; simp add: x_def)+
  have fld: "x div 8 mod 4 = l" "x div 32 mod 64 = f"
    unfolding x8 using f l by (simp_all add: mod_mult_self4 mod_add_left_eq [symmetric])
  have low: "x = 8 * (256 * o' + 4 * f + l) + 7" by (simp add: x_def)
  have eight: "y = 8 * q + 7 \<Longrightarrow> y mod 4 = 3 \<and> y div 4 mod 2 = 1" for y q :: nat by presburger
  have xm: "x mod 256 mod 4 = 3" "x mod 256 div 4 mod 2 = 1"
    using eight [OF low] mod_mult2_eq [of x 4 64] by (simp_all add: mod_mod_cancel)
  have b4: "le_bytes 4 x = of_nat x # le_bytes 3 (x div 256)"
    by (simp add: le_bytes_numeral flip: div_mult2_eq)
  have u: "unat (of_nat x :: byte) = x mod 256" by simp
  have hi: "take_le 3 (le_bytes 3 (x div 256) @ len_ext (n - 4) @ lits @ rest) =
      Some (x div 256, len_ext (n - 4) @ lits @ rest)"
    using x by (intro take_le_le_bytes) simp
  have e: "ext_len 60 4 64 f (len_ext (n - 4) @ lits @ rest) = Some (n - 4 + 4, lits @ rest)"
    unfolding f_def using assms by (intro ext_len_codes) simp
  have b: "take_bytes l (lits @ rest) = Some (lits, rest)"
    by (simp add: l_def)
  have v: "x mod 256 + 256 * (x div 256) = x" by simp
  show ?thesis
    using assms o'(2) unfolding copy3_code_split f_def [symmetric] l_def [symmetric] o'_def [symmetric]
      x_def [symmetric] b4
    by (simp only: append_Cons append_assoc parse_token.simps u Let_def xm parse_copy3_def hi v fld x8(3) e b
        Option.bind_lunit prod.case) simp
qed


section \<open>The effect of the codes\<close>

lemma run_lit_code:
  assumes "length l \<le> 16777245"
  shows "spec_run (lit_code l @ rest) (out, off) = spec_run rest (out @ l, off)"
proof (cases "l = []")
  case True
  then show ?thesis by (simp add: lit_code_def)
next
  case False
  show ?thesis by (rule spec_run_token [OF parse_lit_code [OF False assms]]) simp
qed

lemma run_rep_code:
  assumes "0 < n" "n < 30 + 16777216" "0 < off" "off \<le> length out"
  shows "spec_run (rep_code n @ rest) (out, off) = spec_run rest (lz_copy out off n, off)"
  by (rule spec_run_token [OF parse_rep_code [OF assms(1,2)]]) (simp add: exec_copy_def assms)

lemma run_copy1_code:
  assumes "0 < off'" "off' \<le> MAX_COPY1_OFFSET" "f \<le> 15" "off' \<le> length out"
    and "ext_len 14 4 18 f (ext @ rest) = Some (n, rest)"
  shows "spec_run ((copy1_code off' f @ ext) @ rest) (out, off) = spec_run rest (lz_copy out off' n, off')"
proof (rule spec_run_token)
  show "parse_token ((copy1_code off' f @ ext) @ rest) = Some (TCopy [] off' n, rest)"
    using assms by (simp add: parse_copy1_code)
  show "exec_token (TCopy [] off' n) (out, off) = Some (lz_copy out off' n, off')"
    using assms by (simp add: exec_copy_def)
qed

lemma run_copy_code:
  assumes "0 < off'" "off' \<le> MAX_COPY3_OFFSET" "4 \<le> n" "n < 16777216" "off' \<le> length out"
  shows "spec_run (copy_code off' n @ rest) (out, off) = spec_run rest (lz_copy out off' n, off')"
proof -
  consider "MAX_COPY2_OFFSET < off'" | "MAX_COPY1_OFFSET < off'" "off' \<le> MAX_COPY2_OFFSET"
    | "off' \<le> MAX_COPY1_OFFSET" "n < 19" | "off' \<le> MAX_COPY1_OFFSET" "19 \<le> n" "n < 274"
    | "off' \<le> MAX_COPY1_OFFSET" "274 \<le> n" by linarith
  then show ?thesis
  proof cases
    case 1
    then have "parse_token (copy3_code off' n 0 @ rest) = Some (TCopy [] off' n, rest)"
      using parse_copy3_code [of off' n "[]"] assms by (simp add: format_consts)
    from spec_run_token [OF this] 1 show ?thesis
      using assms by (simp add: copy_code_def exec_copy_def)
  next
    case 2
    then have "parse_token (copy2_code off' n @ rest) = Some (TCopy [] off' n, rest)"
      using assms by (intro parse_copy2_code) (auto simp: format_consts)
    from spec_run_token [OF this] 2 show ?thesis
      using assms by (simp add: copy_code_def exec_copy_def)
  next
    case 3
    then have c: "copy_code off' n = copy1_code off' (n - 4) @ []"
      by (simp add: copy_code_def format_consts)
    show ?thesis unfolding c
      by (rule run_copy1_code) (use 3 assms in \<open>auto simp: ext_len_def\<close>)
  next
    case 4
    then have c: "copy_code off' n = copy1_code off' 15 @ le_bytes 1 (n - 18)"
      by (simp add: copy_code_def format_consts)
    have "take_le 1 (le_bytes 1 (n - 18) @ rest) = Some (n - 18, rest)"
      using 4 by (intro take_le_le_bytes) simp
    then have "ext_len 14 4 18 15 (le_bytes 1 (n - 18) @ rest) = Some (n, rest)"
      using 4 by (simp add: ext_len_def del: le_bytes.simps of_nat_diff)
    then show ?thesis unfolding c
      by (intro run_copy1_code) (use 4 assms in auto)
  next
    case 5
    then have c: "copy_code off' n = (copy1_code off' 14 @ []) @ rep_code (n - 18)"
      by (simp add: copy_code_def format_consts)
    have "spec_run (((copy1_code off' 14 @ []) @ rep_code (n - 18)) @ rest) (out, off) =
        spec_run (rep_code (n - 18) @ rest) (lz_copy out off' 18, off')"
      unfolding append_assoc [of "copy1_code off' 14 @ []" "rep_code (n - 18)" rest]
      by (rule run_copy1_code) (use 5 assms in \<open>auto simp: ext_len_def\<close>)
    then show ?thesis
      unfolding c using 5 assms by (simp add: run_rep_code lz_copy_add)
  qed
qed

lemma run_lits2_code:
  assumes "MIN_COPY2_OFFSET \<le> off'" "off' \<le> MAX_COPY2_OFFSET" "4 \<le> n" "n < 16777216"
    and "0 < length lits" "length lits \<le> 4" "off' \<le> length out + length lits"
  shows "spec_run (lits2_code lits off' n @ rest) (out, off) =
    spec_run rest (lz_copy (out @ lits) off' n, off')"
proof -
  let ?m = "min 7 (n - 4)" and ?rep = "if 11 < n then rep_code (n - 11) else []"
  have pos: "0 < off'" using assms(1) by (simp add: format_consts)
  have "spec_run (lits2_code lits off' n @ rest) (out, off) =
      spec_run ((of_nat (32 * ?m + 8 * (length lits - 1) + 3) # le_bytes 2 (off' - 64) @ lits) @ (?rep @ rest)) (out, off)"
    by (simp only: lits2_code_def append_assoc append_Cons)
  also have "\<dots> = spec_run (?rep @ rest) (lz_copy (out @ lits) off' (?m + 4), off')"
  proof (rule spec_run_token)
    show "parse_token ((of_nat (32 * ?m + 8 * (length lits - 1) + 3) # le_bytes 2 (off' - 64) @ lits) @ (?rep @ rest))
        = Some (TCopy lits off' (?m + 4), ?rep @ rest)"
      using parse_lits2_head [of off' ?m lits "?rep @ rest"] assms by (simp only: append_assoc append_Cons)
    show "exec_token (TCopy lits off' (?m + 4)) (out, off) = Some (lz_copy (out @ lits) off' (?m + 4), off')"
      using assms pos by (simp add: exec_copy_def)
  qed
  also have "\<dots> = spec_run rest (lz_copy (out @ lits) off' n, off')"
    using assms pos by (simp add: run_rep_code lz_copy_add)
  finally show ?thesis .
qed

lemma run_lits3_code:
  assumes "MIN_COPY3_OFFSET \<le> off'" "off' \<le> MAX_COPY3_OFFSET" "4 \<le> n" "n < 16777216"
    and "length lits \<le> 3" "off' \<le> length out + length lits"
  shows "spec_run (lits3_code lits off' n @ rest) (out, off) =
    spec_run rest (lz_copy (out @ lits) off' n, off')"
proof (rule spec_run_token)
  show "parse_token (lits3_code lits off' n @ rest) = Some (TCopy lits off' n, rest)"
    using parse_copy3_code [of off' n lits rest] assms by (simp add: lits3_code_def)
  show "exec_token (TCopy lits off' n) (out, off) = Some (lz_copy (out @ lits) off' n, off')"
    using assms by (simp add: exec_copy_def format_consts)
qed

section \<open>Sizes\<close>

lemma length_len_head:
  "length (len_head tag m n) = (if n \<le> 28 then 1 else if n < m then 2 else if n < 65565 then 3 else 4)"
  by (simp add: len_head_def)

lemma length_lit_code: "length (lit_code l) = length l + (if l = [] then 0 else
    if length l \<le> 29 then 1 else if length l \<le> 284 then 2 else if length l \<le> 65565 then 3 else 4)"
  by (cases l) (auto simp: lit_code_def length_len_head)

lemma length_rep_code: "length (rep_code n) = (if n \<le> 29 then 1 else if n \<le> 285 then 2 else if n \<le> 65565 then 3 else 4)"
  by (auto simp: rep_code_def length_len_head)

lemma length_copy_code:
  "length (copy_code off n) =
     (if MAX_COPY2_OFFSET < off then 4 + (if n \<le> 64 then 0 else if n < 320 then 1 else if n < 65600 then 2 else 3)
      else if off \<le> MAX_COPY1_OFFSET then
        (if n < 19 then 2 else if n < 274 then 3 else 2 + length (rep_code (n - 18)))
      else 3 + (if n \<le> 64 then 0 else if n < 320 then 1 else if n < 65600 then 2 else 3))"
  by (auto simp: copy_code_def copy1_code_def copy2_code_split copy3_code_split)

lemma length_lits2_code:
  "length (lits2_code lits off n) = 3 + length lits + (if 11 < n then length (rep_code (n - 11)) else 0)"
  by (simp add: lits2_code_def)

lemma length_lits3_code:
  "length (lits3_code lits off n) = 4 + length lits + (if n \<le> 64 then 0 else if n < 320 then 1 else if n < 65600 then 2 else 3)"
  by (auto simp: lits3_code_def copy3_code_split)


lemma emit_repeat_size_correct: "0 < n \<Longrightarrow> emit_repeat_size n = length (rep_code n)"
  by (auto simp: emit_repeat_size_def length_rep_code Let_def)

lemma emit_copy2_size_correct:
  "4 \<le> n \<Longrightarrow> emit_copy2_size n = Some (length (copy2_code off n))"
  by (auto simp: emit_copy2_size_def copy2_code_split fault_simps Let_def)

lemma bytes_of_leading_zeros:
  fixes w :: u64
  assumes "0 < unat w" "unat w < 2 ^ 24"
  shows "(64 - leading_zeros w + 7) div 8 = (if unat w < 256 then 1 else if unat w < 65536 then 2 else 3)"
proof -
  define k where "k = leading_zeros w"
  note lz = leading_zeros_bounds [OF assms(1), folded k_def]
  have pow: "63 - k < j" if "unat w < 2 ^ j" for j
    using lz(2) that by (meson le_less_trans nat_power_less_imp_less zero_less_numeral)
  have pow': "j < 64 - k" if "2 ^ j \<le> unat w" for j
    using lz(3) that by (meson le_less_trans nat_power_less_imp_less zero_less_numeral)
  have "63 - k < 24" using pow [of 24] assms(2) by simp
  moreover have "unat w < 256 \<Longrightarrow> 63 - k < 8" "unat w < 65536 \<Longrightarrow> 63 - k < 16"
    "\<not> unat w < 256 \<Longrightarrow> 8 < 64 - k" "\<not> unat w < 65536 \<Longrightarrow> 16 < 64 - k"
    using pow [of 8] pow [of 16] pow' [of 8] pow' [of 16] by simp_all
  ultimately have "(if unat w < 256 then 1 else if unat w < 65536 then 2 else 3) * 8 \<le> 64 - k + 7"
    "64 - k + 7 < (if unat w < 256 then 1 else if unat w < 65536 then 2 else 3) * 8 + 8"
    using lz(1) by auto
  then show ?thesis
    unfolding k_def [symmetric] by (intro div_nat_eqI) (auto simp: mult.commute)
qed

lemma emit_copy_size_correct:
  assumes "4 \<le> n" "n < 16777216"
  shows "emit_copy_size off n = Some (length (copy_code off n))"
proof -
  have lz: "(64 - leading_zeros (of_nat (n - 64) :: u64) + 7) div 8 =
      (if n < 320 then 1 else if n < 65600 then 2 else 3)" if "64 < n"
  proof -
    define x where "x = n - 64"
    have "unat (of_nat x :: u64) = x"
      using assms by (simp add: x_def unsigned_of_nat take_bit_nat_eq_self del: of_nat_diff)
    with bytes_of_leading_zeros [of "of_nat x"] show ?thesis
      unfolding x_def [symmetric] using assms that by (auto simp: x_def)
  qed
  show ?thesis
    using lz emit_copy2_size_correct [of n off] emit_repeat_size_correct [of "n - 18"] assms
    by (auto simp: emit_copy_size_def length_copy_code copy2_code_split Let_def format_consts
        simp del: of_nat_diff)
qed

lemma emit_literal_size_correct:
  "length l \<noteq> 65565 \<Longrightarrow> emit_literal_size_n (length l) + length l = length (lit_code l)"
  "length l = 65565 \<Longrightarrow> emit_literal_size_n (length l) + length l = length (lit_code l) + 1"
  by (auto simp: emit_literal_size_n_def length_lit_code)

end
