(* ===== verification/Decode.thy ===== *)
theory Decode
  imports Block_Spec
begin

text \<open>
  \<^verbatim>\<open>block/decode.rs\<close>: the block decoder. The destination is raw memory, a list of cells that may
  be uninitialised (None); reading an uninitialised cell or touching a cell outside the
  allocation is a fault, as is reading outside the source, an underflow of \<open>usize\<close>, or a
  non-overlapping copy of overlapping ranges. The parameter \<open>be\<close> says whether the target is
  big-endian: one store of the fast loop writes a word in the target's byte order.
\<close>

definition OVERSHOOT_PAD :: nat where "OVERSHOOT_PAD = 16"

section \<open>Raw memory\<close>

type_synonym mem = "byte option list"

definition mem_read :: "mem \<Rightarrow> nat \<Rightarrow> nat \<Rightarrow> bytes option" where
  "mem_read m i n =
     (if i + n \<le> length m \<and> None \<notin> set (take n (drop i m)) then Some (map the (take n (drop i m)))
      else None)"

definition mem_write :: "mem \<Rightarrow> nat \<Rightarrow> bytes \<Rightarrow> mem option" where
  "mem_write m i v =
     (if i + length v \<le> length m then Some (take i m @ map Some v @ drop (i + length v) m) else None)"

definition read_u16_le :: "bytes \<Rightarrow> nat \<Rightarrow> u16 option" where
  "read_u16_le src i = map_option of_le (slice src i (i + 2))"

definition read_u32_le :: "bytes \<Rightarrow> nat \<Rightarrow> u32 option" where
  "read_u32_le src i = map_option of_le (slice src i (i + 4))"

text \<open>The bytes the target writes for a 32-bit value in its own byte order.\<close>

definition native_bytes :: "bool \<Rightarrow> u32 \<Rightarrow> bytes" where
  "native_bytes be v =
     (let le = [ucast v, ucast (drop_bit 8 v), ucast (drop_bit 16 v), ucast (drop_bit 24 v)]
      in if be then rev le else le)"

definition copy_short_literal :: "bytes \<Rightarrow> mem \<Rightarrow> nat \<Rightarrow> nat \<Rightarrow> nat \<Rightarrow> mem option" where
  "copy_short_literal src m d len s =
     (if len \<le> 16 \<and> s + 16 \<le> length src then do {
        v \<leftarrow> slice src s (s + 16);
        mem_write m d v }
      else do {
        v \<leftarrow> slice src s (s + len);
        mem_write m d v })"

definition forward_copy_step :: "nat \<Rightarrow> nat \<Rightarrow> nat \<Rightarrow> mem \<times> nat \<Rightarrow> (mem \<times> nat + mem) option" where
  "forward_copy_step d offset len = (\<lambda>(m, i).
     if i < len then do {
       from \<leftarrow> usub d offset;
       v \<leftarrow> mem_read m (from + i) 1;
       m \<leftarrow> mem_write m (d + i) v;
       Some (Inl (m, i + 1)) }
     else Some (Inr m))"

definition forward_copy_ptr :: "mem \<Rightarrow> nat \<Rightarrow> nat \<Rightarrow> nat \<Rightarrow> mem option" where
  "forward_copy_ptr m d offset len = loop (forward_copy_step d offset len) (m, 0)"

definition copy_nonoverlapping :: "mem \<Rightarrow> nat \<Rightarrow> nat \<Rightarrow> nat \<Rightarrow> mem option" where
  "copy_nonoverlapping m from to' len =
     (if from + len \<le> to' \<or> to' + len \<le> from then do { v \<leftarrow> mem_read m from len; mem_write m to' v }
      else None)"

section \<open>Reading a tag in the fast loop\<close>

text \<open>
  The outcome of the tag match: the length of a literal, or the number of fused literals, the
  length and the offset of a match; with both, the source position behind the header.
\<close>

datatype op = OpLit nat nat | OpCopy nat nat nat nat

definition fast_lit_rep :: "bytes \<Rightarrow> nat \<Rightarrow> byte \<Rightarrow> nat \<Rightarrow> op option" where
  "fast_lit_rep src s tag offset = do {
     let x = drop_bit 3 tag;
     (len, s) \<leftarrow>
       (if x < 29 then Some (unat x + 1, s + 1)
        else if x = 29 then do { n \<leftarrow> idx src (s + 1); Some (30 + unat n, s + 2) }
        else if x = 30 then do { n \<leftarrow> read_u16_le src (s + 1); Some (30 + unat n, s + 3) }
        else do { n \<leftarrow> read_u32_le src s; Some (30 + unat (drop_bit 8 n), s + 4) });
     Some (if tag AND 4 = 0 then OpLit len s else OpCopy 0 len offset s)
   }"

definition fast_copy1 :: "bytes \<Rightarrow> nat \<Rightarrow> op option" where
  "fast_copy1 src s = do {
     lo16 \<leftarrow> read_u16_le src s;
     let len_field = unat (drop_bit 2 lo16 AND 15);
     let offset = unat (drop_bit 6 lo16) + 1;
     if len_field = 15 then do {
       n \<leftarrow> idx src (s + 2);
       Some (OpCopy 0 (unat n + 18) offset (s + 3)) }
     else Some (OpCopy 0 (len_field + 4) offset (s + 2))
   }"

definition fast_copy2 :: "bytes \<Rightarrow> nat \<Rightarrow> byte \<Rightarrow> op option" where
  "fast_copy2 src s tag = do {
     let raw = unat (drop_bit 2 tag);
     o' \<leftarrow> read_u16_le src (s + 1);
     (len, s) \<leftarrow>
       (if raw \<le> 60 then Some (raw + 4, s + 3)
        else if raw = 61 then do { n \<leftarrow> idx src (s + 3); Some (unat n + 64, s + 4) }
        else if raw = 62 then do { n \<leftarrow> read_u16_le src (s + 3); Some (unat n + 64, s + 5) }
        else do { n \<leftarrow> read_u32_le src (s + 2); Some (unat (drop_bit 8 n) + 64, s + 6) });
     Some (OpCopy 0 len (unat o' + MIN_COPY2_OFFSET) s)
   }"

definition fast_copy3 :: "bytes \<Rightarrow> nat \<Rightarrow> op option" where
  "fast_copy3 src s = do {
     val \<leftarrow> read_u32_le src s;
     let lit_len = unat (drop_bit 3 val AND 3);
     if val AND 4 = 0 then
       Some (OpCopy (lit_len + 1) (4 + unat (drop_bit 5 val AND 7))
         (unat (drop_bit 8 val AND 0xffff) + MIN_COPY2_OFFSET) (s + 3))
     else do {
       let length_tmp = unat (drop_bit 5 val AND 63);
       (len, s) \<leftarrow>
         (if length_tmp \<le> 60 then Some (length_tmp + 4, s + 4)
          else if length_tmp = 61 then do { n \<leftarrow> idx src (s + 4); Some (unat n + 64, s + 5) }
          else if length_tmp = 62 then do { n \<leftarrow> read_u16_le src (s + 4); Some (unat n + 64, s + 6) }
          else do { n \<leftarrow> read_u32_le src (s + 3); Some (unat (drop_bit 8 n) + 64, s + 7) });
       Some (OpCopy lit_len len (unat (drop_bit 11 val) + MIN_COPY3_OFFSET) s) }
   }"

definition fast_op :: "bytes \<Rightarrow> nat \<Rightarrow> nat \<Rightarrow> op option" where
  "fast_op src s offset = do {
     tag \<leftarrow> idx src s;
     if tag AND 3 = 0 then fast_lit_rep src s tag offset
     else if tag AND 3 = 1 then fast_copy1 src s
     else if tag AND 3 = 2 then fast_copy2 src s tag
     else fast_copy3 src s
   }"


section \<open>The fast loop\<close>

record dec_state =
  dmem :: mem
  dpos :: nat
  spos :: nat
  doff :: nat

type_synonym dec_step = "dec_state + (error + dec_state)"

text \<open>\<open>docopy\<close>: the match of \<open>len\<close> bytes at \<open>doff\<close>, with the overshooting copy or exact ones.\<close>

definition copy_exact :: "mem \<Rightarrow> nat \<Rightarrow> nat \<Rightarrow> nat \<Rightarrow> mem option" where
  "copy_exact m d offset len =
     (if len < offset then do {
        from \<leftarrow> usub d offset;
        copy_nonoverlapping m from d len }
      else forward_copy_ptr m d offset len)"

definition copy_fast :: "mem \<Rightarrow> nat \<Rightarrow> nat \<Rightarrow> nat \<Rightarrow> mem option" where
  "copy_fast m d offset len =
     (if len < offset \<and> len \<le> 16 \<and> 16 \<le> offset then do {
        from \<leftarrow> usub d offset;
        v \<leftarrow> mem_read m from 16;
        mem_write m d v }
      else copy_exact m d offset len)"

definition fast_docopy :: "nat \<Rightarrow> nat \<Rightarrow> dec_state \<Rightarrow> dec_step option" where
  "fast_docopy dlen len st = do {
     rest \<leftarrow> (if dpos st < doff st then Some 0 else usub dlen (dpos st));
     if dpos st < doff st \<or> rest < len then
       Some (Inr (Inl (Corrupt ''match copy out of bounds'')))
     else do {
       m \<leftarrow> copy_fast (dmem st) (dpos st) (doff st) len;
       Some (Inl (st\<lparr>dmem := m, dpos := dpos st + len\<rparr>)) }
   }"

definition fast_fused :: "bool \<Rightarrow> bytes \<Rightarrow> nat \<Rightarrow> nat \<Rightarrow> dec_state \<Rightarrow> (error + dec_state) option" where
  "fast_fused be src dlen lit_len st =
     (if 0 < lit_len then do {
        rest \<leftarrow> usub dlen (dpos st);
        if rest < 4 then Some (Inl (Corrupt ''truncated output tail''))
        else do {
          v \<leftarrow> read_u32_le src (spos st);
          m \<leftarrow> mem_write (dmem st) (dpos st) (native_bytes be v);
          Some (Inr (st\<lparr>dmem := m, dpos := dpos st + lit_len, spos := spos st + lit_len\<rparr>)) }
      }
      else Some (Inr st))"

definition fast_step :: "bool \<Rightarrow> bytes \<Rightarrow> nat \<Rightarrow> nat \<Rightarrow> dec_state \<Rightarrow> dec_step option" where
  "fast_step be src dlen fast_limit st =
     (if spos st \<le> fast_limit then do {
        opr \<leftarrow> fast_op src (spos st) (doff st);
        case opr of
          OpLit len s \<Rightarrow> do {
            rest \<leftarrow> usub dlen (dpos st);
            left \<leftarrow> usub (length src) s;
            if rest < len \<or> left < len then Some (Inr (Inl (Corrupt ''literal length out of bounds'')))
            else do {
              m \<leftarrow> copy_short_literal src (dmem st) (dpos st) len s;
              Some (Inl (st\<lparr>dmem := m, dpos := dpos st + len, spos := s + len\<rparr>)) } }
        | OpCopy lit_len len offset s \<Rightarrow> do {
            r \<leftarrow> fast_fused be src dlen lit_len (st\<lparr>spos := s, doff := offset\<rparr>);
            case r of
              Inl e \<Rightarrow> Some (Inr (Inl e))
            | Inr st \<Rightarrow> fast_docopy dlen len st }
      }
      else Some (Inr (Inr st)))"

section \<open>Reading a tag in the tail loop\<close>

definition truncated :: "bytes \<Rightarrow> nat \<Rightarrow> (error + unit) option" where
  "truncated src s =
     Some (if length src < s then Inl (Corrupt ''truncated input'') else Inr ())"

text \<open>\<open>src[s - 2] | src[s - 1] << 8\<close> and the three-byte read, as \<open>usize\<close>.\<close>

definition back2 :: "bytes \<Rightarrow> nat \<Rightarrow> nat option" where
  "back2 src s = do {
     a \<leftarrow> idx src (s - 2);
     b \<leftarrow> idx src (s - 1);
     Some (unat a OR push_bit 8 (unat b)) }"

definition back3 :: "bytes \<Rightarrow> nat \<Rightarrow> nat option" where
  "back3 src s = do {
     a \<leftarrow> idx src (s - 3);
     b \<leftarrow> idx src (s - 2);
     c \<leftarrow> idx src (s - 1);
     Some (unat a OR push_bit 8 (unat b) OR push_bit 16 (unat c)) }"

definition back1 :: "bytes \<Rightarrow> nat \<Rightarrow> nat option" where
  "back1 src s = map_option unat (idx src (s - 1))"

text \<open>Advance over a length extension, with the check, and read it: the result and the position.\<close>

definition tail_ext :: "bytes \<Rightarrow> nat \<Rightarrow> (nat \<Rightarrow> nat option) \<Rightarrow> nat \<Rightarrow> (error + nat \<times> nat) option" where
  "tail_ext src s rd bias =
     and_then (truncated src s) (\<lambda>_. do { n \<leftarrow> rd s; Some (Inr (n + bias, s)) })"

definition tail_lit_rep :: "bytes \<Rightarrow> nat \<Rightarrow> byte \<Rightarrow> nat \<Rightarrow> (error + op) option" where
  "tail_lit_rep src s tag offset = (let x = drop_bit 3 tag in
     and_then
       (if x < 29 then Some (Inr (unat x + 1, s + 1))
        else if x = 29 then tail_ext src (s + 2) (back1 src) 30
        else if x = 30 then tail_ext src (s + 3) (back2 src) 30
        else tail_ext src (s + 4) (back3 src) 30)
       (\<lambda>(len, s). Some (Inr (if tag AND 4 = 0 then OpLit len s else OpCopy 0 len offset s))))"

definition tail_copy1 :: "bytes \<Rightarrow> nat \<Rightarrow> (error + op) option" where
  "tail_copy1 src s = (let s = s + 2 in
     and_then (truncated src s) (\<lambda>_. do {
       a \<leftarrow> idx src (s - 2);
       b \<leftarrow> idx src (s - 1);
       let lo16 = (ucast (ucast a OR push_bit 8 (ucast b) :: u16) :: u32);
       let len_field = unat (drop_bit 2 a AND 15);
       let offset = unat (drop_bit 6 lo16) + 1;
       and_then
         (if len_field = 15 then tail_ext src (s + 1) (back1 src) 18
          else Some (Inr (len_field + 4, s)))
         (\<lambda>(len, s). Some (Inr (OpCopy 0 len offset s))) }))"

definition tail_copy2 :: "bytes \<Rightarrow> nat \<Rightarrow> (error + op) option" where
  "tail_copy2 src s = (let s = s + 3 in
     and_then (truncated src s) (\<lambda>_. do {
       a \<leftarrow> idx src (s - 3);
       let raw = unat (drop_bit 2 a);
       o' \<leftarrow> back2 src s;
       and_then
         (if raw \<le> 60 then Some (Inr (raw + 4, s))
          else if raw = 61 then tail_ext src (s + 1) (back1 src) 64
          else if raw = 62 then tail_ext src (s + 2) (back2 src) 64
          else tail_ext src (s + 3) (back3 src) 64)
         (\<lambda>(len, s). Some (Inr (OpCopy 0 len (o' + MIN_COPY2_OFFSET) s))) }))"

definition tail_copy3 :: "bytes \<Rightarrow> nat \<Rightarrow> (error + op) option" where
  "tail_copy3 src s = (let s = s + 4 in
     and_then (truncated src s) (\<lambda>_. do {
       a \<leftarrow> idx src (s - 4);
       b \<leftarrow> idx src (s - 3);
       c \<leftarrow> idx src (s - 2);
       d \<leftarrow> idx src (s - 1);
       let val = (ucast a OR push_bit 8 (ucast b) OR push_bit 16 (ucast c) OR push_bit 24 (ucast d) :: u32);
       let lit_len = unat (drop_bit 3 val AND 3);
       if val AND 4 = 0 then
         Some (Inr (OpCopy (lit_len + 1) (4 + unat (drop_bit 5 val AND 7))
           (unat (drop_bit 8 val AND 0xffff) + MIN_COPY2_OFFSET) (s - 1)))
       else do {
         let length_tmp = unat (drop_bit 5 val AND 63);
         and_then
           (if length_tmp \<le> 60 then Some (Inr (length_tmp + 4, s))
            else if length_tmp = 61 then tail_ext src (s + 1) (back1 src) 64
            else if length_tmp = 62 then tail_ext src (s + 2) (back2 src) 64
            else tail_ext src (s + 3) (back3 src) 64)
           (\<lambda>(len, s). Some (Inr (OpCopy lit_len len (unat (drop_bit 11 val) + MIN_COPY3_OFFSET) s))) } }))"

definition tail_op :: "bytes \<Rightarrow> nat \<Rightarrow> nat \<Rightarrow> (error + op) option" where
  "tail_op src s offset = do {
     tag \<leftarrow> idx src s;
     if tag AND 3 = 0 then tail_lit_rep src s tag offset
     else if tag AND 3 = 1 then tail_copy1 src s
     else if tag AND 3 = 2 then tail_copy2 src s
     else tail_copy3 src s
   }"

section \<open>The tail loop and the decoder\<close>

text \<open>Check and copy \<open>len\<close> bytes of the source: a literal, or the fused literals of a copy.\<close>

definition tail_literal :: "bytes \<Rightarrow> nat \<Rightarrow> nat \<Rightarrow> dec_state \<Rightarrow> (error + dec_state) option" where
  "tail_literal src dlen len st = do {
     rest \<leftarrow> usub dlen (dpos st);
     left \<leftarrow> usub (length src) (spos st);
     if rest < len \<or> left < len then Some (Inl (Corrupt ''literal length out of bounds''))
     else do {
       v \<leftarrow> slice src (spos st) (spos st + len);
       m \<leftarrow> mem_write (dmem st) (dpos st) v;
       Some (Inr (st\<lparr>dmem := m, dpos := dpos st + len, spos := spos st + len\<rparr>)) }
   }"

definition tail_fused :: "bytes \<Rightarrow> nat \<Rightarrow> nat \<Rightarrow> dec_state \<Rightarrow> (error + dec_state) option" where
  "tail_fused src dlen lit_len st =
     (if 0 < lit_len then do {
        rest \<leftarrow> usub dlen (dpos st);
        if rest < lit_len \<or> length src < spos st + lit_len then
          Some (Inl (Corrupt ''literal length out of bounds''))
        else do {
          v \<leftarrow> slice src (spos st) (spos st + lit_len);
          m \<leftarrow> mem_write (dmem st) (dpos st) v;
          Some (Inr (st\<lparr>dmem := m, dpos := dpos st + lit_len, spos := spos st + lit_len\<rparr>)) }
      }
      else Some (Inr st))"

definition tail_docopy :: "nat \<Rightarrow> nat \<Rightarrow> dec_state \<Rightarrow> dec_step option" where
  "tail_docopy dlen len st = do {
     rest \<leftarrow> (if doff st = 0 \<or> dpos st < doff st then Some 0 else usub dlen (dpos st));
     if doff st = 0 \<or> dpos st < doff st \<or> rest < len then
       Some (Inr (Inl (Corrupt ''match offset out of bounds'')))
     else do {
       m \<leftarrow> copy_exact (dmem st) (dpos st) (doff st) len;
       Some (Inl (st\<lparr>dmem := m, dpos := dpos st + len\<rparr>)) }
   }"

definition tail_step :: "bytes \<Rightarrow> nat \<Rightarrow> dec_state \<Rightarrow> dec_step option" where
  "tail_step src dlen st =
     (if spos st < length src then do {
        r \<leftarrow> tail_op src (spos st) (doff st);
        case r of
          Inl e \<Rightarrow> Some (Inr (Inl e))
        | Inr (OpLit len s) \<Rightarrow> do {
            r \<leftarrow> tail_literal src dlen len (st\<lparr>spos := s\<rparr>);
            case r of
              Inl e \<Rightarrow> Some (Inr (Inl e))
            | Inr st \<Rightarrow> Some (Inl st) }
        | Inr (OpCopy lit_len len offset s) \<Rightarrow> do {
            r \<leftarrow> tail_fused src dlen lit_len (st\<lparr>spos := s, doff := offset\<rparr>);
            case r of
              Inl e \<Rightarrow> Some (Inr (Inl e))
            | Inr st \<Rightarrow> tail_docopy dlen len st }
      }
      else Some (Inr (Inr st)))"

definition minlz_decode :: "bool \<Rightarrow> mem \<Rightarrow> nat \<Rightarrow> bytes \<Rightarrow> (error + mem) option" where
  "minlz_decode be m dlen src =
     (let st = \<lparr>dmem = m, dpos = 0, spos = 0, doff = 1\<rparr> in
      and_then
        (if 16 \<le> length src then loop (fast_step be src dlen (length src - 16)) st
         else Some (Inr st))
        (\<lambda>st. and_then (loop (tail_step src dlen) st)
          (\<lambda>st. if dpos st \<noteq> dlen then Some (Inl (Corrupt ''output length mismatch''))
                else Some (Inr (dmem st)))))"

end
