(* ===== verification/Encode_Common.thy ===== *)
theory Encode_Common
  imports Code_Meaning
begin

text \<open>
  What the three encoders share: a match is found as an equal four-byte load at an earlier
  position, extended backwards byte by byte and forwards eight bytes at a time, and emitted. The
  invariant \<open>enc_ok\<close> says that the bytes written so far mean the input consumed so far.
\<close>

section \<open>The state of an encoder\<close>

text \<open>
  The variables \<open>next_emit\<close>, \<open>s\<close>, \<open>cv\<close>, \<open>repeat\<close>, the destination slice and \<open>d\<close>; the encoders
  add their tables.
\<close>

record enc_state =
  nemit :: nat
  cur :: nat
  cv :: u64
  rept :: nat
  outb :: bytes
  opos :: nat

definition S_LIMIT :: "bytes \<Rightarrow> nat" where
  "S_LIMIT src = length src - INPUT_MARGIN"

definition DST_LIMIT :: "bytes \<Rightarrow> nat" where
  "DST_LIMIT src = length src - length src div 2 ^ 5 - 6"

text \<open>How an inner loop is left: \<open>break 'outer\<close>, \<open>return 0\<close> (with the slice as it is), or onwards.\<close>

datatype ('s, 'a) enc_exit = BreakOuter 's | Return0 bytes | Onward 'a

text \<open>
  \<open>with_l_table_big\<close>, \<open>with_l_table_64k\<close> and \<open>with_tables\<close>: the vector kept by the thread is
  enlarged or cleared and its first \<open>n\<close> entries are lent to the encoder.
\<close>

definition lend_table :: "nat \<Rightarrow> 'a::zero list \<Rightarrow> 'a list" where
  "lend_table n t =
     take n (if length t < n then t @ replicate (n - length t) 0 else replicate (length t) 0)"

section \<open>Extending a match\<close>

text \<open>\<open>while cand > 0 && s > next_emit && src[cand - 1] == src[s - 1]\<close>: both step back.\<close>

fun extend_back :: "bytes \<Rightarrow> nat \<Rightarrow> nat \<Rightarrow> nat \<Rightarrow> (nat \<times> nat) option" where
  "extend_back src next_emit cand s =
     (if 0 < cand \<and> next_emit < s then do {
        a \<leftarrow> idx src (cand - 1);
        b \<leftarrow> idx src (s - 1);
        if a = b then extend_back src next_emit (cand - 1) (s - 1) else Some (cand, s) }
      else Some (cand, s))"

declare extend_back.simps [simp del]

text \<open>
  \<open>while s + 8 <= src.len()\<close>: compare eight bytes at \<open>s\<close> and \<open>cand\<close>; stop at the first difference
  or when fewer than eight bytes are left. The result is the new \<open>s\<close>.
\<close>

definition extend_fwd_step :: "bytes \<Rightarrow> nat \<times> nat \<Rightarrow> (nat \<times> nat + nat) option" where
  "extend_fwd_step src = (\<lambda>(s, cand).
     if s + 8 \<le> length src then do {
       a \<leftarrow> load64 src s;
       b \<leftarrow> load64 src cand;
       (let diff = a XOR b in
        if diff \<noteq> 0 then Some (Inr (s + trailing_zeros diff div 8))
        else Some (Inl (s + 8, cand + 8))) }
     else Some (Inr s))"

definition extend_fwd :: "bytes \<Rightarrow> nat \<Rightarrow> nat \<Rightarrow> nat option" where
  "extend_fwd src s cand = loop (extend_fwd_step src) (s, cand)"

text \<open>
  The variant of the second and third level, \<open>while s < src.len()\<close>: the last seven bytes are
  compared one by one.
\<close>

definition extend_full_step :: "bytes \<Rightarrow> nat \<times> nat \<Rightarrow> (nat \<times> nat + nat) option" where
  "extend_full_step src = (\<lambda>(s, cand).
     if s < length src then
       if length src - s < 8 then do {
         a \<leftarrow> idx src s;
         b \<leftarrow> idx src cand;
         if a = b then Some (Inl (s + 1, cand + 1)) else Some (Inr s) }
       else do {
         a \<leftarrow> load64 src s;
         b \<leftarrow> load64 src cand;
         (let diff = a XOR b in
          if diff \<noteq> 0 then Some (Inr (s + trailing_zeros diff div 8))
          else Some (Inl (s + 8, cand + 8))) }
     else Some (Inr s))"

definition extend_full :: "bytes \<Rightarrow> nat \<Rightarrow> nat \<Rightarrow> nat option" where
  "extend_full src s cand = loop (extend_full_step src) (s, cand)"

text \<open>\<open>same src i j n\<close>: the \<open>n\<close> bytes at \<open>i\<close> and at \<open>j\<close> are equal.\<close>

definition same :: "bytes \<Rightarrow> nat \<Rightarrow> nat \<Rightarrow> nat \<Rightarrow> bool" where
  "same src i j n \<longleftrightarrow> (\<forall>m<n. src ! (i + m) = src ! (j + m))"

lemma same_0 [simp]: "same src i j 0"
  by (simp add: same_def)

lemma same_extend:
  assumes "same src i j n" "same src (i + n) (j + n) k"
  shows "same src i j (n + k)"
  unfolding same_def
proof (intro allI impI)
  fix m assume "m < n + k"
  then show "src ! (i + m) = src ! (j + m)"
    using assms(1) assms(2) unfolding same_def
    by (cases "m < n") (auto dest!: spec [of _ "m - n"])
qed

lemma same_take: "same src i j n \<Longrightarrow> k \<le> n \<Longrightarrow> same src i j k"
  by (auto simp: same_def)

lemma load32_match:
  assumes "i + 4 \<le> length src" "j + 4 \<le> length src" "word_at 4 src i = (word_at 4 src j :: u32)"
  shows "same src i j 4"
  unfolding same_def using word_at_eqD [OF assms(3,1,2)] by simp

lemma extend_back_ok:
  assumes "cand < s" "s \<le> length src" "next_emit \<le> s"
  shows "\<exists>k. extend_back src next_emit cand s = Some (cand - k, s - k) \<and> k \<le> cand \<and>
    next_emit \<le> s - k \<and> same src (cand - k) (s - k) k"
  using assms
proof (induction cand arbitrary: s)
  case 0
  then show ?case by (intro exI [of _ 0]) (simp add: extend_back.simps)
next
  case (Suc c)
  show ?case
  proof (cases "next_emit < s \<and> src ! c = src ! (s - 1)")
    case True
    with Suc.prems have "c < s - 1" "s - 1 \<le> length src" "next_emit \<le> s - 1" by auto
    from Suc.IH [OF this] obtain k where k: "extend_back src next_emit c (s - 1) = Some (c - k, s - 1 - k)"
      "k \<le> c" "next_emit \<le> s - 1 - k" "same src (c - k) (s - 1 - k) k" by blast
    have "same src (c - k + k) (s - 1 - k + k) 1"
      using True Suc.prems k(2) by (simp add: same_def)
    from same_extend [OF k(4) this] have "same src (c - k) (s - 1 - k) (Suc k)" by simp
    moreover have "extend_back src next_emit (Suc c) s = extend_back src next_emit c (s - 1)"
      using True Suc.prems by (subst extend_back.simps) (simp add: fault_simps)
    ultimately show ?thesis
      using k by (intro exI [of _ "Suc k"]) simp
  next
    case False
    have "extend_back src next_emit (Suc c) s = Some (Suc c, s)"
      using False Suc.prems by (subst extend_back.simps) (auto simp: fault_simps)
    with Suc.prems show ?thesis by (intro exI [of _ 0]) simp
  qed
qed

text \<open>Both loops stop at a difference or at the end of the input; what they passed is equal.\<close>

definition stops :: "bytes \<Rightarrow> nat \<Rightarrow> nat \<Rightarrow> nat \<Rightarrow> bool" where
  "stops src s cand s' \<longleftrightarrow> s \<le> s' \<and> s' \<le> length src \<and> same src cand s (s' - s) \<and>
     (s' + 8 \<le> length src \<longrightarrow> src ! (cand + (s' - s)) \<noteq> src ! s')"

lemma word_step:
  assumes I: "s \<le> p" "c + s = p + cand" "same src cand s (p - s)" and lt: "cand < s" "p + 8 \<le> length src"
  defines "d \<equiv> word_at 8 src p XOR (word_at 8 src c :: u64)"
  shows "d = 0 \<Longrightarrow> same src cand s (p + 8 - s)"
    "d \<noteq> 0 \<Longrightarrow> stops src s cand (p + trailing_zeros d div 8)"
proof -
  have c: "c < p" "cand + (p - s) = c" "s + (p - s) = p" "c + 8 \<le> length src" using I(1,2) lt by auto
  show "same src cand s (p + 8 - s)" if z: "d = 0"
  proof -
    have "same src (cand + (p - s)) (s + (p - s)) 8"
      unfolding same_def c using xor_load_same [OF lt(2) c(4) z [unfolded d_def]] by simp
    from same_extend [OF I(3) this] show ?thesis using I(1) by simp
  qed
  show "stops src s cand (p + trailing_zeros d div 8)" if nz: "d \<noteq> 0"
  proof -
    let ?k = "trailing_zeros d div 8"
    note x = xor_load_diff [OF lt(2) c(4) nz [unfolded d_def], folded d_def]
    have "same src (cand + (p - s)) (s + (p - s)) ?k"
      unfolding same_def c using x(2) by simp
    from same_extend [OF I(3) this] have "same src cand s (p + ?k - s)" using I(1) by simp
    moreover have "src ! (cand + (p + ?k - s)) \<noteq> src ! (p + ?k)"
    proof -
      have "cand + (p + ?k - s) = c + ?k" using c(2) I(1) by linarith
      with x(3) show ?thesis by metis
    qed
    ultimately show ?thesis using I(1) lt(2) x(1) by (simp add: stops_def)
  qed
qed

lemma byte_step:
  assumes "s \<le> p" "c + s = p + cand" "same src cand s (p - s)" "src ! p = src ! c"
  shows "same src cand s (Suc p - s)"
proof -
  have "same src (cand + (p - s)) (s + (p - s)) 1"
  proof -
    have "cand + (p - s) = c" "s + (p - s) = p" using assms(1,2) by auto
    then show ?thesis using assms(4) by (simp add: same_def)
  qed
  from same_extend [OF assms(3) this] show ?thesis using assms(1) by (simp add: Suc_diff_le)
qed

lemma extend_loop:
  assumes "cand < s" "s \<le> length src"
    and step: "\<And>p c. s \<le> p \<Longrightarrow> p \<le> length src \<Longrightarrow> c + s = p + cand \<Longrightarrow> same src cand s (p - s) \<Longrightarrow>
      (\<exists>k>0. f (p, c) = Some (Inl (p + k, c + k)) \<and> p + k \<le> length src \<and> same src cand s (p + k - s)) \<or>
      (\<exists>s'. f (p, c) = Some (Inr s') \<and> stops src s cand s')"
  shows "\<exists>s'. loop f (s, cand) = Some s' \<and> stops src s cand s'"
proof (rule loop_total [where I = "\<lambda>(p, c). s \<le> p \<and> p \<le> length src \<and> c + s = p + cand \<and> same src cand s (p - s)"
      and m = "\<lambda>(p, c). length src - p"])
  fix st assume "case st of (p, c) \<Rightarrow> s \<le> p \<and> p \<le> length src \<and> c + s = p + cand \<and> same src cand s (p - s)"
  then show "(\<exists>s'. f st = Some (Inl s') \<and>
        (case s' of (p, c) \<Rightarrow> s \<le> p \<and> p \<le> length src \<and> c + s = p + cand \<and> same src cand s (p - s)) \<and>
        (case s' of (p, c) \<Rightarrow> length src - p) < (case st of (p, c) \<Rightarrow> length src - p)) \<or>
      (\<exists>r. f st = Some (Inr r) \<and> stops src s cand r)"
    using step [of "fst st" "snd st"] by (cases st) fastforce
qed (use assms in auto)

lemma extend_fwd_ok:
  assumes "cand < s" "s \<le> length src"
  shows "\<exists>s'. extend_fwd src s cand = Some s' \<and> stops src s cand s'"
  unfolding extend_fwd_def
proof (rule extend_loop [OF assms])
  fix p c assume I: "s \<le> p" "p \<le> length src" "c + s = p + cand" "same src cand s (p - s)"
  show "(\<exists>k>0. extend_fwd_step src (p, c) = Some (Inl (p + k, c + k)) \<and> p + k \<le> length src \<and>
        same src cand s (p + k - s)) \<or>
      (\<exists>s'. extend_fwd_step src (p, c) = Some (Inr s') \<and> stops src s cand s')"
  proof (cases "p + 8 \<le> length src")
    case False
    with I show ?thesis by (auto simp: extend_fwd_step_def stops_def)
  next
    case True
    then have l: "c + 8 \<le> length src" using I assms(1) by simp
    have "extend_fwd_step src (p, c) = (let d = word_at 8 src p XOR (word_at 8 src c :: u64) in
        if d \<noteq> 0 then Some (Inr (p + trailing_zeros d div 8)) else Some (Inl (p + 8, c + 8)))"
      using True l by (simp add: extend_fwd_step_def fault_simps word_at_def Let_def)
    with word_step [OF I(1,3,4) assms(1) True] True show ?thesis
      by (cases "word_at 8 src p XOR (word_at 8 src c :: u64) = 0") (auto simp: Let_def)
  qed
qed

lemma extend_full_ok:
  assumes "cand < s" "s \<le> length src"
  shows "\<exists>s'. extend_full src s cand = Some s' \<and> stops src s cand s'"
  unfolding extend_full_def
proof (rule extend_loop [OF assms])
  fix p c assume I: "s \<le> p" "p \<le> length src" "c + s = p + cand" "same src cand s (p - s)"
  have c: "c < p" using I assms(1) by simp
  show "(\<exists>k>0. extend_full_step src (p, c) = Some (Inl (p + k, c + k)) \<and> p + k \<le> length src \<and>
        same src cand s (p + k - s)) \<or>
      (\<exists>s'. extend_full_step src (p, c) = Some (Inr s') \<and> stops src s cand s')"
  proof (cases "p + 8 \<le> length src")
    case True
    then have "c + 8 \<le> length src" using c by simp
    with True have "extend_full_step src (p, c) = (let d = word_at 8 src p XOR (word_at 8 src c :: u64) in
        if d \<noteq> 0 then Some (Inr (p + trailing_zeros d div 8)) else Some (Inl (p + 8, c + 8)))"
      by (auto simp: extend_full_step_def fault_simps word_at_def Let_def)
    with word_step [OF I(1,3,4) assms(1) True] True show ?thesis
      by (cases "word_at 8 src p XOR (word_at 8 src c :: u64) = 0") (auto simp: Let_def)
  next
    case False
    show ?thesis
    proof (cases "p < length src \<and> src ! p = src ! c")
      case True
      with False c have "extend_full_step src (p, c) = Some (Inl (p + 1, c + 1))"
        by (auto simp: extend_full_step_def fault_simps)
      with True byte_step [OF I(1,3,4)] show ?thesis by auto
    next
      case ne: False
      with False c I(2) have "extend_full_step src (p, c) = Some (Inr p)"
        by (auto simp: extend_full_step_def fault_simps)
      with False I show ?thesis by (auto simp: stops_def)
    qed
  qed
qed

text \<open>\<open>emitRemainder\<close>: the slice and the number of bytes written, 0 for an incompressible block.\<close>

definition emit_remainder :: "bytes \<Rightarrow> 'a enc_state_scheme \<Rightarrow> (bytes \<times> nat) option" where
  "emit_remainder src st =
     (if nemit st < length src then do {
        rest \<leftarrow> usub (opos st + length src) (nemit st);
        if DST_LIMIT src < rest then Some (outb st, 0)
        else do {
          lit \<leftarrow> slice_from src (nemit st);
          emit_at (opos st) (\<lambda>dst. emit_literal dst lit) (outb st) } }
      else Some (outb st, opos st))"

section \<open>Emitting\<close>

definition enc_ok :: "bytes \<Rightarrow> bytes \<Rightarrow> nat \<Rightarrow> nat \<Rightarrow> nat \<Rightarrow> bool" where
  "enc_ok src dst d next_emit off \<longleftrightarrow>
     d \<le> length dst \<and> next_emit \<le> length src \<and> 0 < off \<and>
     spec_run (take d dst) ([], 1) = Some (take next_emit src, off)"

lemma enc_ok_init: "enc_ok src dst 0 0 1"
  by (simp add: enc_ok_def)

lemma emit_at_fits:
  assumes "emits f code" "d + length code \<le> length dst"
  shows "emit_at d f dst = Some (take d dst @ code @ drop (d + length code) dst, d + length code)"
  using emit_at_append [OF assms(1), of "take d dst" d "drop d dst"] assms(2)
  by (simp add: add.commute)

lemma enc_emit:
  assumes "enc_ok src dst d ne off" "emits f code" "d + length code \<le> length dst"
    and run: "\<And>rest. spec_run (code @ rest) (take ne src, off) = spec_run rest (take ne' src, off')"
    and "ne' \<le> length src" "0 < off'"
  obtains dst' where "emit_at d f dst = Some (dst', d + length code)" "length dst' = length dst"
    "enc_ok src dst' (d + length code) ne' off'"
proof -
  let ?dst' = "take d dst @ code @ drop (d + length code) dst"
  have d: "d \<le> length dst" and r: "spec_run (take d dst) ([], 1) = Some (take ne src, off)"
    using assms(1) by (auto simp: enc_ok_def)
  have "spec_run (take d dst @ code) ([], 1) = Some (take ne' src, off')"
    using spec_run_append [OF r, of code] run [of "[]"] by simp
  moreover have "take (d + length code) ?dst' = take d dst @ code" "length ?dst' = length dst"
    using d assms(3) by simp_all
  ultimately have "enc_ok src ?dst' (d + length code) ne' off'"
    using assms(3,5,6) unfolding enc_ok_def by (simp only:)
  with emit_at_fits [OF assms(2,3)] show ?thesis using that assms(3) by simp
qed

lemma take_append_slice: "ne \<le> base \<Longrightarrow> take ne src @ take (base - ne) (drop ne src) = take base src"
  by (metis le_add_diff_inverse take_add)

lemma enc_literal:
  assumes "enc_ok src dst d ne off" "ne \<le> base" "base \<le> length src" "length src \<le> MAX_BLOCK_SIZE"
    and "lit = take (base - ne) (drop ne src)" "d + length (lit_code lit) \<le> length dst"
  obtains dst' where "emit_at d (\<lambda>dst. emit_literal dst lit) dst = Some (dst', d + length (lit_code lit))"
    "length dst' = length dst" "enc_ok src dst' (d + length (lit_code lit)) base off"
proof -
  have l: "length lit \<le> 16777245" using assms by (simp add: format_consts)
  show ?thesis
  proof (rule enc_emit [OF assms(1) emits_literal [OF l] assms(6)])
    show "spec_run (lit_code lit @ rest) (take ne src, off) = spec_run rest (take base src, off)" for rest
      using run_lit_code [OF l] assms(2,5) take_append_slice [of ne base src] by simp
  qed (use that assms in \<open>auto simp: enc_ok_def\<close>)
qed

text \<open>A match of \<open>n\<close> bytes at \<open>base\<close>, \<open>off\<close> bytes back.\<close>

definition is_match :: "bytes \<Rightarrow> nat \<Rightarrow> nat \<Rightarrow> nat \<Rightarrow> bool" where
  "is_match src base off n \<longleftrightarrow>
     0 < off \<and> off \<le> base \<and> base + n \<le> length src \<and> same src (base - off) base n"

lemma is_match_copy: "is_match src base off n \<Longrightarrow> lz_copy (take base src) off n = take (base + n) src"
  by (rule lz_copy_prefix) (auto simp: is_match_def same_def)

lemma enc_repeat:
  assumes "enc_ok src dst d base off" "is_match src base off n" "0 < n" "length src \<le> MAX_BLOCK_SIZE"
    and "d + length (rep_code n) \<le> length dst"
  obtains dst' where "emit_at d (\<lambda>dst. emit_repeat dst n) dst = Some (dst', d + length (rep_code n))"
    "length dst' = length dst" "enc_ok src dst' (d + length (rep_code n)) (base + n) off"
proof -
  have n: "n < 16777216 + 30" "off \<le> length (take base src)"
    using assms(2,4) by (auto simp: is_match_def format_consts)
  show ?thesis
  proof (rule enc_emit [OF assms(1) emits_repeat [OF assms(3) n(1)] assms(5)])
    show "spec_run (rep_code n @ rest) (take base src, off) = spec_run rest (take (base + n) src, off)" for rest
      using run_rep_code [of n off "take base src" rest] n assms(2,3) is_match_copy [OF assms(2)]
      by (simp add: is_match_def)
  qed (use that assms in \<open>auto simp: is_match_def\<close>)
qed

lemma enc_copy:
  assumes "enc_ok src dst d base r" "is_match src base off n" "4 \<le> n" "length src \<le> MAX_BLOCK_SIZE"
    and "off \<le> MAX_COPY3_OFFSET" "d + length (copy_code off n) \<le> length dst"
  obtains dst' where "emit_at d (\<lambda>dst. emit_copy dst off n) dst = Some (dst', d + length (copy_code off n))"
    "length dst' = length dst" "enc_ok src dst' (d + length (copy_code off n)) (base + n) off"
proof -
  have n: "0 < off" "n < 16777216" "off \<le> length (take base src)"
    using assms(2,4) by (auto simp: is_match_def format_consts)
  show ?thesis
  proof (rule enc_emit [OF assms(1) emits_copy [OF n(1) assms(5,3) n(2)] assms(6)])
    show "spec_run (copy_code off n @ rest) (take base src, r) = spec_run rest (take (base + n) src, off)" for rest
      using run_copy_code [OF n(1) assms(5,3) n(2,3), of rest r] is_match_copy [OF assms(2)] by simp
  qed (use that assms in \<open>auto simp: is_match_def\<close>)
qed

lemma enc_lits2:
  assumes "enc_ok src dst d ne r" "is_match src base off n" "4 \<le> n" "length src \<le> MAX_BLOCK_SIZE"
    and "MIN_COPY2_OFFSET \<le> off" "off \<le> MAX_COPY2_OFFSET" "ne < base" "base \<le> ne + MAX_COPY2_LITS"
    and "lit = take (base - ne) (drop ne src)" "d + length (lits2_code lit off n) \<le> length dst"
  obtains dst' where "emit_at d (\<lambda>dst. emit_copy_lits2 dst lit off n) dst =
      Some (dst', d + length (lits2_code lit off n))"
    "length dst' = length dst" "enc_ok src dst' (d + length (lits2_code lit off n)) (base + n) off"
proof -
  have b: "base \<le> length src" using assms(2) by (simp add: is_match_def)
  have l: "length lit = base - ne" "lit \<noteq> []" "length lit \<le> MAX_COPY2_LITS" "length lit \<le> 4" "0 < length lit"
    using assms(7,8,9) b by (auto simp: format_consts)
  have n: "0 < off" "n < 16777216" "off \<le> length (take ne src) + length lit"
    using assms(2,4,7) l b by (auto simp: is_match_def format_consts)
  show ?thesis
  proof (rule enc_emit [OF assms(1) emits_copy_lits2 [OF assms(5,6,3) n(2) l(2,3)] assms(10)])
    show "spec_run (lits2_code lit off n @ rest) (take ne src, r) = spec_run rest (take (base + n) src, off)" for rest
      using run_lits2_code [OF assms(5,6,3) n(2) l(5,4) n(3), of rest r] is_match_copy [OF assms(2)]
        take_append_slice [of ne base src] assms(7,9) by simp
  qed (use that assms in \<open>auto simp: is_match_def\<close>)
qed

lemma enc_lits3:
  assumes "enc_ok src dst d ne r" "is_match src base off n" "4 \<le> n" "length src \<le> MAX_BLOCK_SIZE"
    and "MIN_COPY3_OFFSET \<le> off" "off \<le> MAX_COPY3_OFFSET" "ne < base" "base \<le> ne + MAX_COPY3_LITS"
    and "lit = take (base - ne) (drop ne src)" "d + length (lits3_code lit off n) \<le> length dst"
  obtains dst' where "emit_at d (\<lambda>dst. emit_copy_lits3 dst lit off n) dst =
      Some (dst', d + length (lits3_code lit off n))"
    "length dst' = length dst" "enc_ok src dst' (d + length (lits3_code lit off n)) (base + n) off"
proof -
  have b: "base \<le> length src" using assms(2) by (simp add: is_match_def)
  have l: "length lit = base - ne" "length lit \<le> MAX_COPY3_LITS" "length lit \<le> 3"
    using assms(7,8,9) b by (auto simp: format_consts)
  have n: "0 < off" "n < 16777216" "off \<le> length (take ne src) + length lit"
    using assms(2,4,7) l b by (auto simp: is_match_def format_consts)
  show ?thesis
  proof (rule enc_emit [OF assms(1) emits_copy_lits3 [OF assms(5,6,3) l(2)] assms(10)])
    show "spec_run (lits3_code lit off n @ rest) (take ne src, r) = spec_run rest (take (base + n) src, off)" for rest
      using run_lits3_code [OF assms(5,6,3) n(2) l(3) n(3), of rest r] is_match_copy [OF assms(2)]
        take_append_slice [of ne base src] assms(7,9) by simp
  qed (use that assms in \<open>auto simp: is_match_def\<close>)
qed

end
