(* ===== verification/Encode_L1.thy ===== *)
theory Encode_L1
  imports Encode_Common
begin

text \<open>
  \<^verbatim>\<open>block/encode_l1.rs\<close>: the fastest encoder. The two functions of the file have one shape; what
  differs (table size and entry width, hash, skip rate, the bound on match offsets, how many
  literals are fused and how) is a configuration. A table entry is a position cast to \<open>u32\<close> or
  \<open>u16\<close>, kept as a number below \<open>2 ^ cast_bits\<close>.
\<close>

record l1_config =
  table_bits :: nat
  cast_bits :: nat
  skip_log :: nat
  l1_hash :: "u64 \<Rightarrow> nat \<Rightarrow> u32"
  in_reach :: "nat \<Rightarrow> nat \<Rightarrow> bool"
  max_fused :: nat
  emit_fused :: "bytes \<Rightarrow> bytes \<Rightarrow> nat \<Rightarrow> nat \<Rightarrow> (bytes \<times> nat) option"

text \<open>
  \<open>encode_block_big\<close>: a candidate \<open>c\<close> for the position \<open>p\<close> is used when \<open>c + MAX_COPY3_OFFSET >= p\<close>
  (the code writes the tests for \<open>s\<close>, \<open>s + 1\<close> and \<open>s + 2\<close>, and for the immediate match).
\<close>

definition emit_fused_big :: "bytes \<Rightarrow> bytes \<Rightarrow> nat \<Rightarrow> nat \<Rightarrow> (bytes \<times> nat) option" where
  "emit_fused_big dst lits repeat len =
     (if repeat \<le> MAX_COPY2_OFFSET then emit_copy_lits2 dst lits repeat len
      else emit_copy_lits3 dst lits repeat len)"

definition l1_big :: l1_config where
  "l1_big = \<lparr>table_bits = 15, cast_bits = 32, skip_log = 6, l1_hash = hash6,
     in_reach = (\<lambda>c p. p \<le> c + MAX_COPY3_OFFSET), max_fused = MAX_COPY3_LITS,
     emit_fused = emit_fused_big\<rparr>"

definition l1_64k :: "nat \<Rightarrow> l1_config" where
  "l1_64k bits = \<lparr>table_bits = bits, cast_bits = 16, skip_log = 5, l1_hash = hash5,
     in_reach = (\<lambda>c p. True), max_fused = MAX_COPY2_LITS,
     emit_fused = emit_copy_lits2\<rparr>"

record l1_state = enc_state +
  tbl :: "nat list"

definition l1_load_eq :: "bytes \<Rightarrow> nat \<Rightarrow> u32 \<Rightarrow> bool option" where
  "l1_load_eq src i v = do { w \<leftarrow> load32 src i; Some (v = w) }"

definition l1_candidate :: "l1_config \<Rightarrow> bytes \<Rightarrow> nat \<Rightarrow> nat \<Rightarrow> u32 \<Rightarrow> bool option" where
  "l1_candidate cfg src c p v = (if in_reach cfg c p then l1_load_eq src c v else Some False)"

definition l1_store :: "l1_config \<Rightarrow> nat \<Rightarrow> nat \<Rightarrow> nat list \<Rightarrow> nat list option" where
  "l1_store cfg h s t = (if h < length t then Some (t[h := s mod 2 ^ cast_bits cfg]) else None)"

definition l1_slot :: "l1_config \<Rightarrow> u64 \<Rightarrow> nat" where
  "l1_slot cfg v = unat (l1_hash cfg v (table_bits cfg))"

section \<open>The search loop\<close>

text \<open>The repeat match at \<open>cur + 1\<close>: extended, emitted, and the search goes on behind it.\<close>

definition l1_repeat :: "bytes \<Rightarrow> l1_state \<Rightarrow> (l1_state + (l1_state, nat \<times> l1_state) enc_exit) option" where
  "l1_repeat src st = do {
     let base = cur st + 1;
     i \<leftarrow> usub base (rept st);
     (i, base) \<leftarrow> extend_back src (nemit st) i base;
     lits \<leftarrow> usub base (nemit st);
     if DST_LIMIT src < opos st + lits then Some (Inr (Return0 (outb st)))
     else do {
       lit \<leftarrow> slice src (nemit st) base;
       (out, d) \<leftarrow> emit_at (opos st) (\<lambda>dst. emit_literal dst lit) (outb st);
       k \<leftarrow> usub (cur st) (rept st);
       s \<leftarrow> extend_fwd src (cur st + 4 + 1) (k + 4 + 1);
       len \<leftarrow> usub s base;
       (out, d) \<leftarrow> emit_at d (\<lambda>dst. emit_repeat dst len) out;
       let st = st\<lparr>cur := s, nemit := s, outb := out, opos := d\<rparr>;
       if S_LIMIT src \<le> s then Some (Inr (BreakOuter st))
       else do { v \<leftarrow> load64 src s; Some (Inl (st\<lparr>cv := v\<rparr>)) } }
   }"

definition l1_search_step ::
  "l1_config \<Rightarrow> bytes \<Rightarrow> l1_state \<Rightarrow> (l1_state + (l1_state, nat \<times> l1_state) enc_exit) option" where
  "l1_search_step cfg src st = do {
     let s = cur st;
     gap \<leftarrow> usub s (nemit st);
     let next_s = s + gap div 2 ^ skip_log cfg + 4;
     if S_LIMIT src < next_s then Some (Inr (BreakOuter st))
     else do {
       let hash0 = l1_slot cfg (cv st);
       let hash1 = l1_slot cfg (drop_bit 8 (cv st));
       c0 \<leftarrow> idx (tbl st) hash0;
       c1 \<leftarrow> idx (tbl st) hash1;
       t \<leftarrow> l1_store cfg hash0 s (tbl st);
       t \<leftarrow> l1_store cfg hash1 (s + 1) t;
       let hash2 = l1_slot cfg (drop_bit 16 (cv st));
       let prev = wrapping_add (wrapping_sub s (rept st)) 1;
       rep \<leftarrow> (if prev \<le> s then l1_load_eq src prev (ucast (drop_bit 8 (cv st))) else Some False);
       if rep then l1_repeat src (st\<lparr>tbl := t\<rparr>)
       else do {
         m0 \<leftarrow> l1_candidate cfg src c0 s (ucast (cv st));
         if m0 then Some (Inr (Onward (c0, st\<lparr>tbl := t\<rparr>)))
         else do {
           c2 \<leftarrow> idx t hash2;
           m1 \<leftarrow> l1_candidate cfg src c1 (s + 1) (ucast (drop_bit 8 (cv st)));
           t \<leftarrow> l1_store cfg hash2 (s + 2) t;
           if m1 then Some (Inr (Onward (c1, st\<lparr>tbl := t, cur := s + 1\<rparr>)))
           else do {
             m2 \<leftarrow> l1_candidate cfg src c2 (s + 2) (ucast (drop_bit 16 (cv st)));
             if m2 then Some (Inr (Onward (c2, st\<lparr>tbl := t, cur := s + 2\<rparr>)))
             else do {
               v \<leftarrow> load64 src next_s;
               Some (Inl (st\<lparr>tbl := t, cv := v, cur := next_s\<rparr>)) } } } } }
   }"

section \<open>Emitting a found match\<close>

definition l1_emit :: "l1_config \<Rightarrow> bytes \<Rightarrow> nat \<Rightarrow> nat \<Rightarrow> l1_state \<Rightarrow> (bytes \<times> nat) option option" where
  "l1_emit cfg src base len st = do {
     let repeat = rept st;
     if nemit st \<noteq> base then do {
       lit_count \<leftarrow> usub base (nemit st);
       lit \<leftarrow> slice src (nemit st) base;
       if max_fused cfg < lit_count \<or> repeat < MIN_COPY2_OFFSET then
         if DST_LIMIT src < opos st + lit_count then Some None
         else do {
           (out, d) \<leftarrow> emit_at (opos st) (\<lambda>dst. emit_literal dst lit) (outb st);
           r \<leftarrow> emit_at d (\<lambda>dst. emit_copy dst repeat len) out;
           Some (Some r) }
       else do {
         r \<leftarrow> emit_at (opos st) (\<lambda>dst. emit_fused cfg dst lit repeat len) (outb st);
         Some (Some r) } }
     else do {
       r \<leftarrow> emit_at (opos st) (\<lambda>dst. emit_copy dst repeat len) (outb st);
       Some (Some r) }
   }"

text \<open>Extend the match at \<open>cur\<close> both ways and emit it; None is \<open>return 0\<close>.\<close>

definition l1_match :: "l1_config \<Rightarrow> bytes \<Rightarrow> nat \<Rightarrow> l1_state \<Rightarrow> l1_state option option" where
  "l1_match cfg src candidate st = do {
     (candidate_pos, base) \<leftarrow> extend_back src (nemit st) candidate (cur st);
     repeat \<leftarrow> usub base candidate_pos;
     s \<leftarrow> extend_fwd src (base + 4) (candidate_pos + 4);
     len \<leftarrow> usub s base;
     r \<leftarrow> l1_emit cfg src base len (st\<lparr>rept := repeat\<rparr>);
     case r of
       None \<Rightarrow> Some None
     | Some (out, d) \<Rightarrow> Some (Some (st\<lparr>cur := s, rept := repeat, outb := out, opos := d\<rparr>))
   }"

section \<open>The immediate matches\<close>

definition l1_immediate_step :: "l1_config \<Rightarrow> bytes \<Rightarrow> l1_state \<Rightarrow> (l1_state + (l1_state, l1_state) enc_exit) option" where
  "l1_immediate_step cfg src st = do {
     let s = cur st;
     let st = st\<lparr>nemit := s\<rparr>;
     if S_LIMIT src \<le> s then Some (Inr (BreakOuter st))
     else do {
       p \<leftarrow> usub s 2;
       x \<leftarrow> load64 src p;
       if DST_LIMIT src < opos st then Some (Inr (Return0 (outb st)))
       else do {
         let x_top = drop_bit 16 x;
         let m2_hash = l1_slot cfg x;
         let curr_hash = l1_slot cfg x_top;
         cand \<leftarrow> idx (tbl st) curr_hash;
         t \<leftarrow> l1_store cfg m2_hash p (tbl st);
         t \<leftarrow> l1_store cfg curr_hash s t;
         m \<leftarrow> l1_candidate cfg src cand s (ucast x_top);
         if \<not> m then do {
           v \<leftarrow> load64 src (s + 1);
           Some (Inr (Onward (st\<lparr>tbl := t, cv := v, cur := s + 1\<rparr>))) }
         else do {
           repeat \<leftarrow> usub s cand;
           s' \<leftarrow> extend_fwd src (s + 4) (cand + 4);
           len \<leftarrow> usub s' s;
           (out, d) \<leftarrow> emit_at (opos st) (\<lambda>dst. emit_copy dst repeat len) (outb st);
           Some (Inl (st\<lparr>tbl := t, cur := s', rept := repeat, outb := out, opos := d\<rparr>)) } } }
   }"

section \<open>The encoder\<close>

text \<open>One round of the outer loop: \<open>Inl\<close> is \<open>return 0\<close>, \<open>Inr\<close> the way to the remainder.\<close>

definition l1_outer_step :: "l1_config \<Rightarrow> bytes \<Rightarrow> l1_state \<Rightarrow> (l1_state + (bytes + l1_state)) option" where
  "l1_outer_step cfg src st = do {
     e \<leftarrow> loop (l1_search_step cfg src) st;
     case e of
       BreakOuter st \<Rightarrow> Some (Inr (Inr st))
     | Return0 out \<Rightarrow> Some (Inr (Inl out))
     | Onward (candidate, st) \<Rightarrow> do {
         m \<leftarrow> l1_match cfg src candidate st;
         case m of
           None \<Rightarrow> Some (Inr (Inl (outb st)))
         | Some st \<Rightarrow> do {
             e \<leftarrow> loop (l1_immediate_step cfg src) st;
             case e of
               BreakOuter st \<Rightarrow> Some (Inr (Inr st))
             | Return0 out \<Rightarrow> Some (Inr (Inl out))
             | Onward st \<Rightarrow> Some (Inl st) } }
   }"

definition l1_encode :: "l1_config \<Rightarrow> bytes \<Rightarrow> bytes \<Rightarrow> (bytes \<times> nat) option" where
  "l1_encode cfg dst src = do {
     _ \<leftarrow> usub (length src) INPUT_MARGIN;
     l \<leftarrow> usub (length src) (length src div 2 ^ 5);
     _ \<leftarrow> usub l 6;
     v \<leftarrow> load64 src 1;
     e \<leftarrow> loop (l1_outer_step cfg src)
       \<lparr>nemit = 0, cur = 1, cv = v, rept = 1, outb = dst, opos = 0,
        tbl = replicate (2 ^ table_bits cfg) 0\<rparr>;
     case e of
       Inl out \<Rightarrow> Some (out, 0)
     | Inr st \<Rightarrow> emit_remainder src st
   }"

definition SMALL_TABLE_MAX_LEN :: nat where "SMALL_TABLE_MAX_LEN = 2 * 2 ^ 10"

text \<open>\<open>SMALL_TABLE_SIZE\<close> and the full table of the 64 KiB encoder, by their number of bits.\<close>

definition SMALL_TABLE_BITS :: nat where "SMALL_TABLE_BITS = 10"

definition encode_block_big :: "bytes \<Rightarrow> bytes \<Rightarrow> (bytes \<times> nat) option" where
  "encode_block_big dst src = l1_encode l1_big dst src"

definition encode_block_64k :: "nat \<Rightarrow> bytes \<Rightarrow> bytes \<Rightarrow> (bytes \<times> nat) option" where
  "encode_block_64k bits dst src = l1_encode (l1_64k bits) dst src"

definition l1_encode_block :: "bytes \<Rightarrow> bytes \<Rightarrow> (bytes \<times> nat) option" where
  "l1_encode_block dst src =
     (if length src < MIN_NON_LITERAL_BLOCK_SIZE then Some (dst, 0)
      else if length src \<le> SMALL_TABLE_MAX_LEN then encode_block_64k SMALL_TABLE_BITS dst src
      else if length src \<le> 65536 then encode_block_64k 13 dst src
      else encode_block_big dst src)"

end
