(* ===== verification/Encode_L2.thy ===== *)
theory Encode_L2
  imports Encode_Common
begin

text \<open>
  \<^verbatim>\<open>block/encode_l2.rs\<close>, the balanced encoder: a table of long matches and a table of short
  ones, a match of eight bytes preferred, then the repeat at \<open>s + 1\<close>, then four bytes at the long
  or the short candidate. The source has the same function twice, for inputs up to and above 64
  KiB; the constants and the conditions in which the two differ are the fields of \<open>l2_config\<close>.
\<close>

record l2_config =
  l_bits :: nat
  s_bits :: nat
  l2_cast :: nat
  long_hash :: "u64 \<Rightarrow> nat \<Rightarrow> u32"
  above_min :: "nat \<Rightarrow> nat \<Rightarrow> bool"
  from_min :: "nat \<Rightarrow> nat \<Rightarrow> bool"
  gives_up :: "nat \<Rightarrow> nat \<Rightarrow> nat \<Rightarrow> bool"
  fuses :: "nat \<Rightarrow> nat \<Rightarrow> bool"
  l2_fused :: "bytes \<Rightarrow> bytes \<Rightarrow> nat \<Rightarrow> nat \<Rightarrow> (bytes \<times> nat) option"

text \<open>The code computes \<open>min_src_pos\<close> in \<open>isize\<close>, for it is negative near the start.\<close>

definition min_src_pos :: "nat \<Rightarrow> int" where
  "min_src_pos s = int s - int MAX_COPY3_OFFSET + 1"

definition l2_fused_big :: "bytes \<Rightarrow> bytes \<Rightarrow> nat \<Rightarrow> nat \<Rightarrow> (bytes \<times> nat) option" where
  "l2_fused_big dst lits offset len =
     (if offset \<le> MAX_COPY2_OFFSET then emit_copy_lits2 dst lits offset len
      else emit_copy_lits3 dst lits offset len)"

definition l2_big :: l2_config where
  "l2_big = \<lparr>l_bits = 17, s_bits = 14, l2_cast = 32, long_hash = hash7,
     above_min = (\<lambda>c s. min_src_pos s < int c), from_min = (\<lambda>c s. min_src_pos s \<le> int c),
     gives_up = (\<lambda>offset len repeat. 65535 < offset \<and> len \<le> 4 \<and> repeat \<noteq> offset),
     fuses = (\<lambda>lits offset. if offset \<le> MAX_COPY2_OFFSET then \<not> (MAX_COPY2_LITS < lits \<or> offset < 64)
       else \<not> MAX_COPY3_LITS < lits),
     l2_fused = l2_fused_big\<rparr>"

definition l2_64k :: l2_config where
  "l2_64k = \<lparr>l_bits = 15, s_bits = 12, l2_cast = 16, long_hash = hash6,
     above_min = (\<lambda>c s. True), from_min = (\<lambda>c s. True), gives_up = (\<lambda>offset len repeat. False),
     fuses = (\<lambda>lits offset. \<not> (MAX_COPY2_LITS < lits \<or> offset < 64)),
     l2_fused = emit_copy_lits2\<rparr>"

record l2_state = enc_state +
  ltbl :: "nat list"
  stbl :: "nat list"

definition long_slot :: "l2_config \<Rightarrow> u64 \<Rightarrow> nat" where
  "long_slot cfg v = unat (long_hash cfg v (l_bits cfg))"

definition short_slot :: "l2_config \<Rightarrow> u64 \<Rightarrow> nat" where
  "short_slot cfg v = unat (hash4 v (s_bits cfg))"

definition l2_store :: "l2_config \<Rightarrow> nat \<Rightarrow> nat \<Rightarrow> nat list \<Rightarrow> nat list option" where
  "l2_store cfg h s t = (if h < length t then Some (t[h := s mod 2 ^ l2_cast cfg]) else None)"

section \<open>Indexing what a match has passed\<close>

text \<open>The two positions of one round: each in the long table, its successor in the short one.\<close>

definition l2_index_pair :: "l2_config \<Rightarrow> bytes \<Rightarrow> nat \<Rightarrow> nat \<Rightarrow> nat list \<times> nat list \<Rightarrow> (nat list \<times> nat list) option" where
  "l2_index_pair cfg src idx0 idx1 = (\<lambda>(l, t). do {
     cv0 \<leftarrow> load64 src idx0;
     cv1 \<leftarrow> load64 src idx1;
     l \<leftarrow> l2_store cfg (long_slot cfg cv0) idx0 l;
     t \<leftarrow> l2_store cfg (short_slot cfg (drop_bit 8 cv0)) (idx0 + 1) t;
     l \<leftarrow> l2_store cfg (long_slot cfg cv1) idx1 l;
     t \<leftarrow> l2_store cfg (short_slot cfg (drop_bit 8 cv1)) (idx1 + 1) t;
     Some (l, t)
   })"

definition l2_between_step ::
  "l2_config \<Rightarrow> bytes \<Rightarrow> nat \<times> nat \<times> nat list \<times> nat list \<Rightarrow>
     (nat \<times> nat \<times> nat list \<times> nat list + nat list \<times> nat list) option" where
  "l2_between_step cfg src = (\<lambda>(idx0, idx1, ts).
     if idx0 < idx1 then do {
       ts \<leftarrow> l2_index_pair cfg src idx0 idx1 ts;
       Some (Inl (idx0 + 2, saturating_sub idx1 2, ts)) }
     else Some (Inr ts))"

definition l2_sparse_step ::
  "l2_config \<Rightarrow> bytes \<Rightarrow> nat \<Rightarrow> nat \<times> nat \<times> nat list \<Rightarrow> (nat \<times> nat \<times> nat list + nat list) option" where
  "l2_sparse_step cfg src idx1 = (\<lambda>(idx0, idx2, l).
     if idx2 < idx1 then do {
       v0 \<leftarrow> load64 src idx0;
       l \<leftarrow> l2_store cfg (long_slot cfg v0) idx0 l;
       v2 \<leftarrow> load64 src idx2;
       l \<leftarrow> l2_store cfg (long_slot cfg v2) idx2 l;
       Some (Inl (idx0 + 2, idx2 + 2, l)) }
     else Some (Inr l))"

section \<open>The search loop\<close>

definition l2_repeat ::
  "l2_config \<Rightarrow> bytes \<Rightarrow> l2_state \<Rightarrow> (l2_state + (l2_state, nat \<times> nat \<times> l2_state) enc_exit) option" where
  "l2_repeat cfg src st = do {
     let base = cur st + 1;
     i \<leftarrow> usub base (rept st);
     (i, base) \<leftarrow> extend_back src (nemit st) i base;
     lits \<leftarrow> usub base (nemit st);
     if DST_LIMIT src < opos st + lits then Some (Inr (Return0 (outb st)))
     else do {
       lit \<leftarrow> slice src (nemit st) base;
       (out, d) \<leftarrow> emit_at (opos st) (\<lambda>dst. emit_literal dst lit) (outb st);
       k \<leftarrow> usub (cur st) (rept st);
       s \<leftarrow> extend_full src (cur st + 4 + 1) (k + 4 + 1);
       len \<leftarrow> usub s base;
       (out, d) \<leftarrow> emit_at d (\<lambda>dst. emit_repeat dst len) out;
       let st = st\<lparr>cur := s, nemit := s, outb := out, opos := d\<rparr>;
       if S_LIMIT src \<le> s then Some (Inr (BreakOuter st))
       else do {
         (l, t) \<leftarrow> loop (l2_between_step cfg src) (base + 1, saturating_sub s 2, ltbl st, stbl st);
         v \<leftarrow> load64 src s;
         Some (Inl (st\<lparr>cv := v, ltbl := l, stbl := t\<rparr>)) } }
   }"

definition l2_search_step ::
  "l2_config \<Rightarrow> bytes \<Rightarrow> l2_state \<Rightarrow> (l2_state + (l2_state, nat \<times> nat \<times> l2_state) enc_exit) option" where
  "l2_search_step cfg src st = do {
     let s = cur st;
     gap \<leftarrow> usub s (nemit st);
     let next_s = s + gap div 2 ^ 7 + 1;
     if S_LIMIT src < next_s then Some (Inr (BreakOuter st))
     else do {
       let hash_l = long_slot cfg (cv st);
       let hash_s = short_slot cfg (cv st);
       cand_l \<leftarrow> idx (ltbl st) hash_l;
       cand_s \<leftarrow> idx (stbl st) hash_s;
       l \<leftarrow> l2_store cfg hash_l s (ltbl st);
       t \<leftarrow> l2_store cfg hash_s s (stbl st);
       let st = st\<lparr>stbl := t, ltbl := l\<rparr>;
       val_long \<leftarrow> load64 src cand_l;
       val_short \<leftarrow> load64 src cand_s;
       if above_min cfg cand_l s \<and> cv st = val_long then Some (Inr (Onward (cand_l, next_s, st)))
       else do {
         let repeat_mask = (0x000000ffffffff00 :: u64);
         rep \<leftarrow> (if 0 < rept st \<and> rept st \<le> s then do {
                   prev_v \<leftarrow> load64 src (s - rept st);
                   Some (cv st AND repeat_mask = prev_v AND repeat_mask) }
                 else Some False);
         if rep then l2_repeat cfg src st
         else if from_min cfg cand_l s \<and> (ucast (cv st) :: u32) = ucast val_long then
           Some (Inr (Onward (cand_l, next_s, st)))
         else if from_min cfg cand_s s \<and> (ucast (cv st) :: u32) = ucast val_short then do {
           let hash_l2 = long_slot cfg (drop_bit 8 (cv st));
           cand_l2 \<leftarrow> idx l hash_l2;
           l \<leftarrow> l2_store cfg hash_l2 (s + 1) l;
           m \<leftarrow> (if above_min cfg cand_l2 s then do {
                   w \<leftarrow> load32 src cand_l2;
                   Some (ucast (drop_bit 8 (cv st)) = w) }
                 else Some False);
           if m then Some (Inr (Onward (cand_l2, next_s, st\<lparr>ltbl := l, cur := s + 1\<rparr>)))
           else Some (Inr (Onward (cand_s, next_s, st\<lparr>ltbl := l\<rparr>))) }
         else do {
           v \<leftarrow> load64 src next_s;
           Some (Inl (st\<lparr>cv := v, cur := next_s\<rparr>)) } } }
   }"

section \<open>Emitting a found match\<close>

definition l2_emit :: "l2_config \<Rightarrow> bytes \<Rightarrow> nat \<Rightarrow> nat \<Rightarrow> nat \<Rightarrow> l2_state \<Rightarrow> (bytes \<times> nat) option" where
  "l2_emit cfg src base offset len st = do {
     lits \<leftarrow> slice src (nemit st) base;
     if lits \<noteq> [] then
       if fuses cfg (length lits) offset then
         emit_at (opos st) (\<lambda>dst. l2_fused cfg dst lits offset len) (outb st)
       else do {
         (out, d) \<leftarrow> emit_at (opos st) (\<lambda>dst. emit_literal dst lits) (outb st);
         emit_at d (\<lambda>dst. emit_copy dst offset len) out }
     else emit_at (opos st) (\<lambda>dst. emit_copy dst offset len) (outb st)
   }"

text \<open>Both tables after a match from \<open>base\<close> to \<open>s\<close>, and the next eight bytes.\<close>

definition l2_index_match :: "l2_config \<Rightarrow> bytes \<Rightarrow> nat \<Rightarrow> nat \<Rightarrow> l2_state \<Rightarrow> l2_state option" where
  "l2_index_match cfg src base s st = do {
     let idx0 = base + 1;
     idx1 \<leftarrow> usub s 2;
     (l, t) \<leftarrow> l2_index_pair cfg src idx0 idx1 (ltbl st, stbl st);
     let idx0 = idx0 + 1;
     let idx1 = saturating_sub idx1 1;
     v \<leftarrow> load64 src s;
     l \<leftarrow> loop (l2_sparse_step cfg src idx1) (idx0, (idx0 + idx1 + 1) div 2, l);
     Some (st\<lparr>cv := v, ltbl := l, stbl := t\<rparr>)
   }"

section \<open>The encoder\<close>

definition l2_outer_step :: "l2_config \<Rightarrow> bytes \<Rightarrow> l2_state \<Rightarrow> (l2_state + (bytes + l2_state)) option" where
  "l2_outer_step cfg src st = do {
     e \<leftarrow> loop (l2_search_step cfg src) st;
     case e of
       BreakOuter st \<Rightarrow> Some (Inr (Inr st))
     | Return0 out \<Rightarrow> Some (Inr (Inl out))
     | Onward (candidate, next_s, st) \<Rightarrow> do {
         (candidate_pos, base) \<leftarrow> extend_back src (nemit st) candidate (cur st);
         k \<leftarrow> usub base (nemit st);
         if DST_LIMIT src < opos st + k then Some (Inr (Inl (outb st)))
         else do {
           offset \<leftarrow> usub base candidate_pos;
           s \<leftarrow> extend_full src (base + 4) (candidate_pos + 4);
           len \<leftarrow> usub s base;
           if gives_up cfg offset len (rept st) then
             let s = next_s + 1 in
             if S_LIMIT src \<le> s then Some (Inr (Inr (st\<lparr>cur := s\<rparr>)))
             else do { v \<leftarrow> load64 src s; Some (Inl (st\<lparr>cur := s, cv := v\<rparr>)) }
           else do {
             (out, d) \<leftarrow> l2_emit cfg src base offset len st;
             let st = st\<lparr>rept := offset, nemit := s, cur := s, outb := out, opos := d\<rparr>;
             if S_LIMIT src \<le> s then Some (Inr (Inr st))
             else if DST_LIMIT src < d then Some (Inr (Inl out))
             else do { st \<leftarrow> l2_index_match cfg src base s st; Some (Inl st) } } } }
   }"

definition l2_encode :: "l2_config \<Rightarrow> nat list \<Rightarrow> bytes \<Rightarrow> bytes \<Rightarrow> (bytes \<times> nat) option" where
  "l2_encode cfg l_table dst src = do {
     _ \<leftarrow> usub (length src) INPUT_MARGIN;
     n \<leftarrow> usub (length src) (length src div 2 ^ 5);
     _ \<leftarrow> usub n 6;
     v \<leftarrow> load64 src 1;
     e \<leftarrow> loop (l2_outer_step cfg src)
       \<lparr>nemit = 0, cur = 1, cv = v, rept = 1, outb = dst, opos = 0,
        ltbl = l_table, stbl = replicate (2 ^ s_bits cfg) 0\<rparr>;
     case e of
       Inl out \<Rightarrow> Some (out, 0)
     | Inr st \<Rightarrow> emit_remainder src st
   }"

definition l2_encode_big :: "nat list \<Rightarrow> bytes \<Rightarrow> bytes \<Rightarrow> (bytes \<times> nat) option" where
  "l2_encode_big kept dst src = l2_encode l2_big (lend_table (2 ^ 17) kept) dst src"

definition l2_encode_64k :: "nat list \<Rightarrow> bytes \<Rightarrow> bytes \<Rightarrow> (bytes \<times> nat) option" where
  "l2_encode_64k kept dst src = l2_encode l2_64k (lend_table (2 ^ 15) kept) dst src"

text \<open>
  The entry point, on a thread that keeps the given tables. A thread starts without any, and
  \<open>l2_tables_irrelevant\<close> shows that what it keeps afterwards makes no difference.
\<close>

definition l2_encode_block_on :: "nat list \<Rightarrow> nat list \<Rightarrow> bytes \<Rightarrow> bytes \<Rightarrow> (bytes \<times> nat) option" where
  "l2_encode_block_on kept_big kept_64k dst src =
     (if length src < MIN_NON_LITERAL_BLOCK_SIZE then Some (dst, 0)
      else if length src \<le> 64 * 2 ^ 10 then l2_encode_64k kept_64k dst src
      else l2_encode_big kept_big dst src)"

definition l2_encode_block :: "bytes \<Rightarrow> bytes \<Rightarrow> (bytes \<times> nat) option" where
  "l2_encode_block = l2_encode_block_on [] []"

end
