(* ===== verification/Encode_L3.thy ===== *)
theory Encode_L3
  imports Encode_Common
begin

text \<open>
  \<^verbatim>\<open>block/encode_l3.rs\<close>, the smallest-output encoder: two tables whose entries pack the last two
  positions of a hash, and a search that scores every candidate at \<open>s\<close>, \<open>s + 1\<close>, \<open>s + 2\<close> and at the
  end of the best match so far by the bytes it saves. Scores are \<open>i64\<close> in the code; their operands
  are below \<open>2 ^ 24\<close>, so they are integers here.
\<close>

definition INPUT_MARGIN_L3 :: nat where "INPUT_MARGIN_L3 = 8 + 2"
definition L_TABLE_BITS :: nat where "L_TABLE_BITS = 20"
definition S_TABLE_BITS :: nat where "S_TABLE_BITS = 18"
definition MAX_SKIP :: nat where "MAX_SKIP = 64"

section \<open>Table entries\<close>

definition get_cur :: "u64 \<Rightarrow> nat" where
  "get_cur x = unat (x AND 0xffffffff)"

definition get_prev :: "u64 \<Rightarrow> nat" where
  "get_prev x = unat (drop_bit 32 x)"

definition pack_entry :: "nat \<Rightarrow> u64 \<Rightarrow> u64" where
  "pack_entry new_cur prev_entry = of_nat new_cur OR push_bit 32 prev_entry"

definition l3_store :: "nat \<Rightarrow> u64 \<Rightarrow> u64 list \<Rightarrow> u64 list option" where
  "l3_store h e t = (if h < length t then Some (t[h := e]) else None)"

definition l3_long :: "u64 \<Rightarrow> nat" where
  "l3_long v = unat (hash8 v L_TABLE_BITS)"

definition l3_short :: "u64 \<Rightarrow> nat" where
  "l3_short v = unat (hash4 v S_TABLE_BITS)"

section \<open>Matches\<close>

text \<open>The struct \<open>Match\<close>.\<close>

record l3_match =
  m_off :: nat
  m_s :: nat
  m_len :: nat
  m_score :: int
  m_rep :: bool
  m_nextrep :: bool

definition no_match :: "nat \<Rightarrow> nat \<Rightarrow> l3_match" where
  "no_match offset s =
     \<lparr>m_off = offset, m_s = s, m_len = 0, m_score = 0, m_rep = False, m_nextrep = False\<rparr>"

definition best_of :: "l3_match \<Rightarrow> l3_match \<Rightarrow> l3_match" where
  "best_of a b =
     (if m_len b = 0 then a
      else if m_len a = 0 then b
      else if m_score b < m_score a then a
      else if m_score a < m_score b then b
      else if m_s a \<noteq> m_s b then (if m_s a < m_s b then a else b)
      else if m_nextrep a \<noteq> m_nextrep b then (if m_nextrep a then a else b)
      else if m_off b < m_off a then a else b)"

definition l3_score :: "l3_match \<Rightarrow> nat \<Rightarrow> int option" where
  "l3_score m next_emit = do {
     ll \<leftarrow> usub (m_s m) next_emit;
     let score = int (m_len m) - int (emit_literal_size_n ll) - int (m_s m);
     let offset = int (m_s m) - int (m_off m);
     if m_rep m then Some (score - int (emit_repeat_size (m_len m)))
     else do {
       let fused_copy2 = (ll \<le> MAX_COPY2_LITS \<and> offset < 65536 + 63 \<and> m_len m \<le> COPY2_LIT_MAX_LEN);
       let fused_copy3 = (ll \<le> MAX_COPY3_LITS);
       let score = (if 0 < ll \<and> 1024 < offset \<and> (fused_copy2 \<or> fused_copy3) then score + 1 else score);
       if offset \<le> 0 then Some (- (2 ^ 63))
       else do {
         size \<leftarrow> emit_copy_size (nat offset) (m_len m);
         Some (score - int size) } }
   }"

text \<open>Whether a repeat match follows: four equal bytes one after the end of the match.\<close>

definition l3_nextrep :: "bytes \<Rightarrow> nat \<Rightarrow> l3_match \<Rightarrow> l3_match option" where
  "l3_nextrep src s_limit m =
     (if m_s m + m_len m < s_limit then
        let a = m_s m + m_len m + 1; b = m_off m + m_len m + 1 in
        if a + 4 \<le> length src \<and> b + 4 \<le> length src then do {
          x \<leftarrow> load32 src a;
          y \<leftarrow> load32 src b;
          Some (m\<lparr>m_nextrep := (x = y)\<rparr>) }
        else Some m
      else Some m)"

text \<open>
  The match of at least \<open>n\<close> bytes at \<open>offset\<close> and \<open>s\<close>, extended both ways. The code lets \<open>length\<close>
  run along the earlier position and subtracts \<open>offset\<close> in the end.
\<close>

definition l3_extend :: "bytes \<Rightarrow> nat \<Rightarrow> nat \<Rightarrow> nat \<Rightarrow> bool \<Rightarrow> nat \<Rightarrow> l3_match option" where
  "l3_extend src offset s n rep next_emit = do {
     sx \<leftarrow> extend_full src (s + n) (offset + n);
     let len = offset + n + (sx - (s + n));
     (o', s') \<leftarrow> extend_back src next_emit offset s;
     len \<leftarrow> usub (len + (s - s')) offset;
     Some \<lparr>m_off = o', m_s = s', m_len = len, m_score = 0, m_rep = rep, m_nextrep = False\<rparr>
   }"

definition match_at ::
  "bytes \<Rightarrow> nat \<Rightarrow> nat \<Rightarrow> nat \<Rightarrow> nat \<Rightarrow> u32 \<Rightarrow> l3_match \<Rightarrow> l3_match option" where
  "match_at src next_emit s_limit offset s first best =
     (if (m_len best \<noteq> 0 \<and> wrapping_sub (m_s best) (m_off best) = wrapping_sub s offset) \<or>
         MAX_COPY3_OFFSET \<le> saturating_sub s offset \<or> s \<le> offset \<or> offset = 0 \<or> length src < offset + 4
      then Some (no_match offset s)
      else do {
        v \<leftarrow> load32 src offset;
        if v \<noteq> first then Some (no_match offset s)
        else do {
          m \<leftarrow> l3_extend src offset s 4 False next_emit;
          sc \<leftarrow> l3_score m next_emit;
          let m = m\<lparr>m_score := sc\<rparr>;
          let m = (if sc \<le> - int (m_s m) then m\<lparr>m_len := 0\<rparr> else m);
          l3_nextrep src s_limit m } })"

definition match_at_repeat ::
  "bytes \<Rightarrow> nat \<Rightarrow> nat \<Rightarrow> nat \<Rightarrow> nat \<Rightarrow> u32 \<Rightarrow> l3_match \<Rightarrow> l3_match option" where
  "match_at_repeat src next_emit s_limit offset s first best =
     (if m_rep best \<or> offset = 0 \<or> s \<le> offset \<or> length src < offset + 3 then Some (no_match offset s)
      else if length src < offset + 4 then Some (no_match offset s)
      else do {
        v \<leftarrow> load32 src offset;
        let bits = mask (8 * 3);
        if v AND bits \<noteq> first AND bits then Some (no_match offset s)
        else do {
          m \<leftarrow> l3_extend src offset s 3 True next_emit;
          m \<leftarrow> l3_nextrep src s_limit m;
          sc \<leftarrow> l3_score m next_emit;
          Some (m\<lparr>m_score := sc\<rparr>) } })"

text \<open>\<open>best = best_of(best, match_at(...))\<close>, and the two positions of a table entry in turn.\<close>

definition try_at :: "bytes \<Rightarrow> nat \<Rightarrow> nat \<Rightarrow> nat \<Rightarrow> nat \<Rightarrow> u32 \<Rightarrow> l3_match \<Rightarrow> l3_match option" where
  "try_at src next_emit s_limit offset s first best = do {
     m \<leftarrow> match_at src next_emit s_limit offset s first best;
     Some (best_of best m)
   }"

definition try_repeat :: "bytes \<Rightarrow> nat \<Rightarrow> nat \<Rightarrow> nat \<Rightarrow> nat \<Rightarrow> u32 \<Rightarrow> l3_match \<Rightarrow> l3_match option" where
  "try_repeat src next_emit s_limit offset s first best = do {
     m \<leftarrow> match_at_repeat src next_emit s_limit offset s first best;
     Some (best_of best m)
   }"

definition try_entry :: "bytes \<Rightarrow> nat \<Rightarrow> nat \<Rightarrow> u64 \<Rightarrow> nat \<Rightarrow> u32 \<Rightarrow> l3_match \<Rightarrow> l3_match option" where
  "try_entry src next_emit s_limit e s first best = do {
     best \<leftarrow> try_at src next_emit s_limit (get_cur e) s first best;
     try_at src next_emit s_limit (get_prev e) s first best
   }"

text \<open>An entry found at the end of the best match: its positions less \<open>back_l\<close>, when positive.\<close>

definition try_back :: "bytes \<Rightarrow> nat \<Rightarrow> nat \<Rightarrow> nat \<Rightarrow> nat \<Rightarrow> nat \<Rightarrow> u32 \<Rightarrow> l3_match \<Rightarrow> l3_match option" where
  "try_back src next_emit s_limit pos back_l s first best =
     (case usub pos back_l of
        Some check_at \<Rightarrow>
          if 0 < check_at then try_at src next_emit s_limit check_at s first best else Some best
      | None \<Rightarrow> Some best)"

section \<open>The search\<close>

record l3_state = enc_state +
  llong :: "u64 list"
  lshort :: "u64 list"

definition S_LIMIT3 :: "bytes \<Rightarrow> nat" where "S_LIMIT3 src = length src - INPUT_MARGIN_L3"
definition DST_LIMIT3 :: "bytes \<Rightarrow> nat" where "DST_LIMIT3 src = length src - 5"

definition l3_repeats :: "bytes \<Rightarrow> l3_state \<Rightarrow> l3_match \<Rightarrow> l3_match option" where
  "l3_repeats src st best = (let s = cur st; r = rept st in
     if 0 < r \<and> r \<le> s then do {
       best \<leftarrow> try_repeat src (nemit st) (S_LIMIT3 src) (s - r) s (ucast (cv st)) best;
       if r \<le> s + 1 \<and> s < S_LIMIT3 src then
         try_repeat src (nemit st) (S_LIMIT3 src) (s + 1 - r) (s + 1) (ucast (drop_bit 8 (cv st))) best
       else Some best }
     else Some best)"

text \<open>The candidates at \<open>s + 2\<close>, at \<open>s + 1\<close>, and near the end of the best match.\<close>

definition l3_ahead2 :: "bytes \<Rightarrow> l3_state \<Rightarrow> l3_match \<Rightarrow> l3_match option" where
  "l3_ahead2 src st best = (let s2 = cur st + 2 in
     if s2 + 8 \<le> length src then do {
       cv2 \<leftarrow> load64 src s2;
       next_long2 \<leftarrow> idx (llong st) (l3_long cv2);
       best \<leftarrow> (if 0 < rept st \<and> rept st \<le> s2 then
                  try_repeat src (nemit st) (S_LIMIT3 src) (s2 - rept st) s2 (ucast cv2) best
                else Some best);
       next_short2 \<leftarrow> idx (lshort st) (l3_short cv2);
       best \<leftarrow> try_entry src (nemit st) (S_LIMIT3 src) next_short2 s2 (ucast cv2) best;
       try_entry src (nemit st) (S_LIMIT3 src) next_long2 s2 (ucast cv2) best }
     else Some best)"

definition l3_ahead :: "bytes \<Rightarrow> l3_state \<Rightarrow> l3_match \<Rightarrow> l3_match option" where
  "l3_ahead src st best = (let s1 = cur st + 1 in
     if s1 + 8 \<le> length src then do {
       next_short \<leftarrow> idx (lshort st) (l3_short (drop_bit 8 (cv st)));
       cv1 \<leftarrow> load64 src s1;
       next_long \<leftarrow> idx (llong st) (l3_long cv1);
       best \<leftarrow> try_entry src (nemit st) (S_LIMIT3 src) next_short s1 (ucast cv1) best;
       best \<leftarrow> try_entry src (nemit st) (S_LIMIT3 src) next_long s1 (ucast cv1) best;
       l3_ahead2 src st best }
     else Some best)"

definition l3_behind :: "bytes \<Rightarrow> l3_state \<Rightarrow> l3_match \<Rightarrow> l3_match option" where
  "l3_behind src st best = do {
     s_at \<leftarrow> usub (m_s best + m_len best) 1;
     if s_at < S_LIMIT3 src \<and> 2 + 1 < m_len best then do {
       s_back \<leftarrow> usub (m_s best + 2) 1;
       back_l \<leftarrow> usub (m_len best) 2;
       if s_back + 8 \<le> length src \<and> s_at + 8 \<le> length src then do {
         cv_back \<leftarrow> load64 src s_back;
         cv_at \<leftarrow> load64 src s_at;
         next \<leftarrow> idx (llong st) (l3_long cv_at);
         best \<leftarrow> try_back src (nemit st) (S_LIMIT3 src) (get_cur next) back_l s_back (ucast cv_back) best;
         best \<leftarrow> try_back src (nemit st) (S_LIMIT3 src) (get_prev next) back_l s_back (ucast cv_back) best;
         next_s \<leftarrow> idx (lshort st) (l3_short cv_at);
         best \<leftarrow> try_back src (nemit st) (S_LIMIT3 src) (get_cur next_s) back_l s_back (ucast cv_back) best;
         try_back src (nemit st) (S_LIMIT3 src) (get_prev next_s) back_l s_back (ucast cv_back) best }
       else Some best }
     else Some best
   }"

text \<open>All candidates of one position.\<close>

definition l3_best :: "bytes \<Rightarrow> u64 \<Rightarrow> u64 \<Rightarrow> l3_state \<Rightarrow> l3_match \<Rightarrow> l3_match option" where
  "l3_best src cand_l cand_s st best = do {
     best \<leftarrow> (if 0 < cur st then do {
                best \<leftarrow> try_entry src (nemit st) (S_LIMIT3 src) cand_l (cur st) (ucast (cv st)) best;
                try_entry src (nemit st) (S_LIMIT3 src) cand_s (cur st) (ucast (cv st)) best }
              else Some best);
     best \<leftarrow> l3_repeats src st best;
     if 0 < m_len best then do {
       best \<leftarrow> l3_ahead src st best;
       l3_behind src st best }
     else Some best
   }"

definition l3_search_step ::
  "bytes \<Rightarrow> l3_match \<times> l3_state \<Rightarrow> (l3_match \<times> l3_state + (l3_state, l3_match \<times> l3_state) enc_exit) option" where
  "l3_search_step src = (\<lambda>(best, st). do {
     let s = cur st;
     gap \<leftarrow> usub s (nemit st);
     let step = gap div 2 ^ 8;
     let next_s = (if MAX_SKIP < step + 1 then s + MAX_SKIP else s + step + 1);
     if S_LIMIT3 src < next_s then Some (Inr (BreakOuter st))
     else do {
       let hash_l = l3_long (cv st);
       let hash_s = l3_short (cv st);
       cand_l \<leftarrow> idx (llong st) hash_l;
       cand_s \<leftarrow> idx (lshort st) hash_s;
       best \<leftarrow> l3_best src cand_l cand_s st best;
       l \<leftarrow> l3_store hash_l (pack_entry s cand_l) (llong st);
       t \<leftarrow> l3_store hash_s (pack_entry s cand_s) (lshort st);
       let st = st\<lparr>llong := l, lshort := t\<rparr>;
       if 0 < m_len best then Some (Inr (Onward (best, st)))
       else do {
         v \<leftarrow> load64 src next_s;
         Some (Inl (best, st\<lparr>cv := v, cur := next_s\<rparr>)) } }
   })"

section \<open>Emitting\<close>

text \<open>The literals up to the match and the match itself; the last component is \<open>s_after\<close>.\<close>

definition l3_emit :: "bytes \<Rightarrow> l3_match \<Rightarrow> nat \<Rightarrow> l3_state \<Rightarrow> (bytes \<times> nat \<times> nat) option" where
  "l3_emit src best offset st = do {
     let base = m_s best;
     let len = m_len best;
     lits \<leftarrow> slice src (nemit st) base;
     let s_after = base + len;
     if m_rep best then do {
       (out, d) \<leftarrow> emit_at (opos st) (\<lambda>dst. emit_literal dst lits) (outb st);
       (out, d) \<leftarrow> emit_at d (\<lambda>dst. emit_repeat dst len) out;
       Some (out, d, s_after) }
     else if lits \<noteq> [] then
       if offset \<le> MAX_COPY2_OFFSET then
         if MAX_COPY2_LITS < length lits \<or> offset < 64 \<or> (offset \<le> MAX_COPY1_OFFSET \<and> COPY2_LIT_MAX_LEN < len)
         then do {
           (out, d) \<leftarrow> emit_at (opos st) (\<lambda>dst. emit_literal dst lits) (outb st);
           (out, d) \<leftarrow> emit_at d (\<lambda>dst. if 18 < len \<and> len \<le> 64 \<and> 64 \<le> offset then encode_copy2 dst offset len
                                     else emit_copy dst offset len) out;
           Some (out, d, s_after) }
         else if 11 < len then do {
           (out, d) \<leftarrow> emit_at (opos st) (\<lambda>dst. emit_copy_lits2 dst lits offset 11) (outb st);
           Some (out, d, base + 11) }
         else do {
           (out, d) \<leftarrow> emit_at (opos st) (\<lambda>dst. emit_copy_lits2 dst lits offset len) (outb st);
           Some (out, d, s_after) }
       else if MAX_COPY3_LITS < length lits then do {
         (out, d) \<leftarrow> emit_at (opos st) (\<lambda>dst. emit_literal dst lits) (outb st);
         (out, d) \<leftarrow> emit_at d (\<lambda>dst. emit_copy dst offset len) out;
         Some (out, d, s_after) }
       else do {
         (out, d) \<leftarrow> emit_at (opos st) (\<lambda>dst. emit_copy_lits3 dst lits offset len) (outb st);
         Some (out, d, s_after) }
     else do {
       (out, d) \<leftarrow> emit_at (opos st) (\<lambda>dst. if 18 < len \<and> len \<le> 64 \<and> 64 \<le> offset \<and> offset \<le> MAX_COPY2_OFFSET
           then encode_copy2 dst offset len else emit_copy dst offset len) (outb st);
       Some (out, d, s_after) }
   }"

text \<open>Both tables for every position from \<open>i\<close> to \<open>s\<close>.\<close>

definition l3_fill_step ::
  "bytes \<Rightarrow> nat \<Rightarrow> nat \<times> u64 list \<times> u64 list \<Rightarrow> (nat \<times> u64 list \<times> u64 list + u64 list \<times> u64 list) option" where
  "l3_fill_step src s = (\<lambda>(i, l, t).
     if i < s then do {
       cv0 \<leftarrow> load64 src i;
       let long0 = l3_long cv0;
       let short0 = l3_short cv0;
       e \<leftarrow> idx l long0;
       l \<leftarrow> l3_store long0 (pack_entry i e) l;
       e \<leftarrow> idx t short0;
       t \<leftarrow> l3_store short0 (pack_entry i e) t;
       Some (Inl (i + 1, l, t)) }
     else Some (Inr (l, t)))"

text \<open>The match that does not justify its encoding.\<close>

definition l3_gives_up :: "l3_match \<Rightarrow> nat \<Rightarrow> nat \<Rightarrow> bool" where
  "l3_gives_up best offset lits \<longleftrightarrow> \<not> m_rep best \<and> m_len best \<le> 4 \<and>
     (65535 < offset \<or> MAX_COPY1_OFFSET < offset \<and> offset \<le> MAX_COPY2_OFFSET \<and> MAX_COPY2_LITS < lits)"

section \<open>The encoder\<close>

definition l3_outer_step :: "bytes \<Rightarrow> l3_state \<Rightarrow> (l3_state + (bytes + l3_state)) option" where
  "l3_outer_step src st = do {
     e \<leftarrow> loop (l3_search_step src) (no_match 0 0, st);
     case e of
       BreakOuter st \<Rightarrow> Some (Inr (Inr st))
     | Return0 out \<Rightarrow> Some (Inr (Inl out))
     | Onward (best, st) \<Rightarrow> do {
         let start_idx = cur st + 1;
         let s = m_s best;
         lits \<leftarrow> usub s (nemit st);
         if DST_LIMIT3 src < opos st + lits then Some (Inr (Inl (outb st)))
         else do {
           offset \<leftarrow> usub s (m_off best);
           if l3_gives_up best offset lits then
             let s = start_idx + 1 in
             if S_LIMIT3 src \<le> s then Some (Inr (Inr (st\<lparr>cur := s\<rparr>)))
             else do { v \<leftarrow> load64 src s; Some (Inl (st\<lparr>cur := s, cv := v\<rparr>)) }
           else do {
             (out, d, s) \<leftarrow> l3_emit src best offset st;
             let st = st\<lparr>rept := offset, nemit := s, cur := s, outb := out, opos := d\<rparr>;
             if S_LIMIT3 src \<le> s then Some (Inr (Inr st))
             else if DST_LIMIT3 src < d then Some (Inr (Inl out))
             else do {
               (l, t) \<leftarrow> loop (l3_fill_step src s) (start_idx, llong st, lshort st);
               v \<leftarrow> load64 src s;
               Some (Inl (st\<lparr>cv := v, llong := l, lshort := t\<rparr>)) } } } }
   }"

text \<open>\<open>emitRemainder\<close>, here with the size of the literal's header in the check.\<close>

definition l3_remainder :: "bytes \<Rightarrow> l3_state \<Rightarrow> (bytes \<times> nat) option" where
  "l3_remainder src st =
     (if nemit st < length src then do {
        lit_len \<leftarrow> usub (length src) (nemit st);
        if DST_LIMIT3 src < opos st + lit_len + emit_literal_size_n lit_len then Some (outb st, 0)
        else do {
          lit \<leftarrow> slice_from src (nemit st);
          emit_at (opos st) (\<lambda>dst. emit_literal dst lit) (outb st) } }
      else Some (outb st, opos st))"

definition l3_inner :: "bytes \<Rightarrow> bytes \<Rightarrow> u64 list \<Rightarrow> u64 list \<Rightarrow> (bytes \<times> nat) option" where
  "l3_inner dst src l_table s_table = do {
     _ \<leftarrow> usub (length src) INPUT_MARGIN_L3;
     _ \<leftarrow> usub (length src) 5;
     v \<leftarrow> load64 src 1;
     e \<leftarrow> loop (l3_outer_step src)
       \<lparr>nemit = 0, cur = 1, cv = v, rept = 1, outb = dst, opos = 0, llong = l_table, lshort = s_table\<rparr>;
     case e of
       Inl out \<Rightarrow> Some (out, 0)
     | Inr st \<Rightarrow> l3_remainder src st
   }"

text \<open>The entry point on a thread that keeps the given tables, and on a fresh thread.\<close>

definition l3_encode_block_on :: "u64 list \<Rightarrow> u64 list \<Rightarrow> bytes \<Rightarrow> bytes \<Rightarrow> (bytes \<times> nat) option" where
  "l3_encode_block_on kept_l kept_s dst src =
     (if length src < MIN_NON_LITERAL_BLOCK_SIZE then Some (dst, 0)
      else l3_inner dst src (lend_table (2 ^ L_TABLE_BITS) kept_l) (lend_table (2 ^ S_TABLE_BITS) kept_s))"

definition l3_encode_block :: "bytes \<Rightarrow> bytes \<Rightarrow> (bytes \<times> nat) option" where
  "l3_encode_block = l3_encode_block_on [] []"

end
