(* ===== verification/Block.thy ===== *)
theory Block
  imports Decode Encode_L1 Encode_L2 Encode_L3
begin

text \<open>
  \<^verbatim>\<open>block/mod.rs\<close>, the public block codec: the levels, the header in front of a compressed body, the
  encoder with its fallback to an uncompressed block, the decoder, and the same for the body of a
  stream chunk. A \<open>Vec\<close> that a function appends to is the list it holds, before and after. The
  result is None for a fault, \<open>Inl\<close> for an error and \<open>Inr\<close> for the appended vector.
\<close>

section \<open>Levels\<close>

datatype level = Fastest | Balanced | Smallest

definition level_of_int :: "int \<Rightarrow> error + level" where
  "level_of_int v =
     (if v = 1 then Inr Fastest else if v = 2 then Inr Balanced else if v = 3 then Inr Smallest
      else Inl InvalidLevel)"

fun int_of_level :: "level \<Rightarrow> int" where
  "int_of_level Fastest = 1"
| "int_of_level Balanced = 2"
| "int_of_level Smallest = 3"

section \<open>Vectors\<close>

text \<open>\<open>Vec::resize(n, 0)\<close>, and the bytes that \<open>set_len\<close> exposes, which must have been written.\<close>

definition vec_resize :: "nat \<Rightarrow> bytes \<Rightarrow> bytes" where
  "vec_resize n xs = take n xs @ replicate (n - length xs) 0"

definition set_len :: "nat \<Rightarrow> mem \<Rightarrow> bytes option" where
  "set_len n m = (if n \<le> length m \<and> None \<notin> set (take n m) then Some (map the (take n m)) else None)"

section \<open>Encoding\<close>

definition encode_block :: "level \<Rightarrow> bytes \<Rightarrow> bytes \<Rightarrow> (bytes \<times> nat) option" where
  "encode_block level dst src = (case level of
     Fastest \<Rightarrow> l1_encode_block dst src
   | Balanced \<Rightarrow> l2_encode_block dst src
   | Smallest \<Rightarrow> l3_encode_block dst src)"

definition encode_uncompressed :: "bytes \<Rightarrow> bytes \<Rightarrow> bytes" where
  "encode_uncompressed dst src = (if src = [] then dst @ [0] else dst @ [0] @ [0] @ src)"

definition append_encoded :: "bytes \<Rightarrow> bytes \<Rightarrow> level \<Rightarrow> (error + bytes) option" where
  "append_encoded dst src level = (case max_encoded_len (length src) of
     None \<Rightarrow> Some (Inl TooLarge)
   | Some worst \<Rightarrow>
       let start = length dst in
       if length src < MIN_NON_LITERAL_BLOCK_SIZE then Some (Inr (encode_uncompressed dst src))
       else do {
         let dst = put_uvarint (dst @ [0]) (of_nat (length src));
         let body_start = length dst;
         let dst = vec_resize (start + worst) dst;
         body \<leftarrow> slice_from dst body_start;
         (body, n) \<leftarrow> encode_block level body src;
         let dst = take body_start dst @ body;
         if 0 < n then Some (Inr (take (body_start + n) dst))
         else Some (Inr (encode_uncompressed (take start dst) src)) })"

definition encode :: "bytes \<Rightarrow> bytes \<Rightarrow> level \<Rightarrow> (error + bytes) option" where
  "encode dst src level = append_encoded [] src level"

definition try_encode :: "bytes \<Rightarrow> bytes \<Rightarrow> level \<Rightarrow> (error + bytes \<times> bool) option" where
  "try_encode dst src level = (case max_encoded_len (length src) of
     None \<Rightarrow> Some (Inl TooLarge)
   | Some worst \<Rightarrow>
       if length src < MIN_NON_LITERAL_BLOCK_SIZE then Some (Inr (dst, False))
       else do {
         let start = length dst;
         let dst = put_uvarint (dst @ [0]) (of_nat (length src));
         let body_start = length dst;
         let dst = vec_resize (start + worst) dst;
         body \<leftarrow> slice_from dst body_start;
         (body, n) \<leftarrow> encode_block level body src;
         let dst = take body_start dst @ body;
         header \<leftarrow> usub body_start start;
         if 0 < n \<and> header + n < length src then Some (Inr (take (body_start + n) dst, True))
         else Some (Inr (take start dst, False)) })"

section \<open>Decoding\<close>

text \<open>The header: whether the block is literal, its body, and its decoded length.\<close>

definition parse_header :: "bytes \<Rightarrow> (error + bool \<times> bytes \<times> nat) option" where
  "parse_header src =
     (if src = [] then Some (Inl (Corrupt ''empty input''))
      else if length src = 1 then
        if src ! 0 = 0 then Some (Inr (True, drop 1 src, 0))
        else Some (Inl (Corrupt ''invalid single-byte block''))
      else if src ! 0 \<noteq> 0 then Some (Inl (Corrupt ''snappy/s2 stream not supported''))
      else
        let after_magic = drop 1 src in
        case get_uvarint after_magic of
          None \<Rightarrow> Some (Inl (Corrupt ''bad decoded-length varint''))
        | Some (v, n) \<Rightarrow>
            if 0xffffffff < v then Some (Inl (Corrupt ''decoded length exceeds u32''))
            else if of_nat MAX_BLOCK_SIZE < v then Some (Inl TooLarge)
            else do {
              let dlen = unat v;
              body \<leftarrow> slice_from after_magic n;
              if body = [] then Some (Inl (Corrupt ''empty block body''))
              else if dlen = 0 then Some (Inr (True, body, length body))
              else if dlen < length body then Some (Inl (Corrupt ''compressed larger than decoded size''))
              else Some (Inr (False, body, dlen)) })"

text \<open>
  The decoder runs on the spare capacity that \<open>reserve\<close> made, \<open>dlen\<close> bytes and the padding, none of
  which has been written. \<open>be\<close> is the byte order of the target.
\<close>

definition decode_into :: "bool \<Rightarrow> bytes \<Rightarrow> nat \<Rightarrow> bytes \<Rightarrow> (error + bytes) option" where
  "decode_into be dst dlen body =
     and_then (minlz_decode be (replicate (dlen + OVERSHOOT_PAD) None) dlen body)
       (\<lambda>m. do { out \<leftarrow> set_len dlen m; Some (Inr (dst @ out)) })"

definition append_decoded :: "bool \<Rightarrow> bytes \<Rightarrow> bytes \<Rightarrow> (error + bytes) option" where
  "append_decoded be dst src =
     and_then (parse_header src) (\<lambda>(literals, body, dlen).
       if literals then Some (Inr (dst @ body)) else decode_into be dst dlen body)"

definition decode :: "bool \<Rightarrow> bytes \<Rightarrow> bytes \<Rightarrow> (error + bytes) option" where
  "decode be dst src = append_decoded be [] src"

definition decoded_len :: "bytes \<Rightarrow> (error + nat) option" where
  "decoded_len src = and_then (parse_header src) (\<lambda>(_, _, dlen). Some (Inr dlen))"

definition is_minlz :: "bytes \<Rightarrow> (error + nat option) option" where
  "is_minlz src =
     (if src = [] then Some (Inl (Corrupt ''empty input''))
      else if src ! 0 \<noteq> 0 then Some (Inr None)
      else and_then (parse_header src) (\<lambda>(_, _, dlen). Some (Inr (Some dlen))))"

section \<open>Chunk bodies\<close>

text \<open>The body of a compressed chunk of the stream format has no leading zero.\<close>

definition append_encoded_chunk_body :: "bytes \<Rightarrow> bytes \<Rightarrow> level \<Rightarrow> (error + bytes \<times> bool) option" where
  "append_encoded_chunk_body dst src level =
     (let start = length dst in
      if length src < MIN_NON_LITERAL_BLOCK_SIZE then Some (Inr (dst, False))
      else case max_encoded_len (length src) of
        None \<Rightarrow> Some (Inl TooLarge)
      | Some worst \<Rightarrow> do {
          let dst = put_uvarint dst (of_nat (length src));
          let body_start = length dst;
          let dst = vec_resize (start + worst) dst;
          body \<leftarrow> slice_from dst body_start;
          (body, n) \<leftarrow> encode_block level body src;
          let dst = take body_start dst @ body;
          header \<leftarrow> usub body_start start;
          if 0 < n \<and> header + n < length src then Some (Inr (take (body_start + n) dst, True))
          else Some (Inr (take start dst, False)) })"

definition split_chunk_body :: "bytes \<Rightarrow> (error + nat \<times> bytes) option" where
  "split_chunk_body body = (case get_uvarint body of
     None \<Rightarrow> Some (Inl (Corrupt ''bad chunk length varint''))
   | Some (v, n) \<Rightarrow>
       if 0xffffffff < v then Some (Inl (Corrupt ''chunk decoded length exceeds u32''))
       else if of_nat MAX_BLOCK_SIZE < v then Some (Inl TooLarge)
       else do {
         compressed \<leftarrow> slice_from body n;
         let dlen = unat v;
         if dlen = 0 then Some (Inl (Corrupt ''zero decoded length in chunk''))
         else if dlen < length compressed then Some (Inl (Corrupt ''compressed larger than decoded size''))
         else Some (Inr (dlen, compressed)) })"

definition append_decoded_chunk_body :: "bool \<Rightarrow> bytes \<Rightarrow> bytes \<Rightarrow> (error + bytes) option" where
  "append_decoded_chunk_body be dst body =
     and_then (split_chunk_body body) (\<lambda>(dlen, compressed). decode_into be dst dlen compressed)"

definition decoded_len_chunk_body :: "bytes \<Rightarrow> (error + nat) option" where
  "decoded_len_chunk_body body = and_then (split_chunk_body body) (\<lambda>(dlen, _). Some (Inr dlen))"

end
