(* ===== verification/Decode_Correct.thy ===== *)
theory Decode_Correct
  imports Decode
begin

text \<open>
  The decoder computes the meaning of the block: for every input it returns (no fault, no
  endless loop), it returns \<open>Ok\<close> exactly when the block means an output of the announced length,
  and then that output is what the memory holds.
\<close>

section \<open>Little-endian numbers at a position\<close>

definition le_at :: "bytes \<Rightarrow> nat \<Rightarrow> nat \<Rightarrow> nat" where
  "le_at src p k = le_nat (take k (drop p src))"

lemma le_at_0 [simp]: "le_at src p 0 = 0"
  by (simp add: le_at_def)

lemma le_at_Suc: "p < length src \<Longrightarrow> le_at src p (Suc k) = unat (src ! p) + 256 * le_at src (p + 1) k"
  by (simp add: le_at_def flip: Cons_nth_drop_Suc)

lemma le_at_1: "p < length src \<Longrightarrow> le_at src p 1 = unat (src ! p)"
  using le_at_Suc [of p src 0] by simp

lemma le_at_2: "p + 2 \<le> length src \<Longrightarrow> le_at src p 2 = unat (src ! p) + 256 * unat (src ! (p + 1))"
  using le_at_Suc [of p src 1] le_at_1 [of "p + 1" src] by (simp only: one_add_one Suc_eq_plus1)

lemma le_at_3: "p + 3 \<le> length src \<Longrightarrow> le_at src p 3 = unat (src ! p) + 256 * le_at src (p + 1) 2"
  using le_at_Suc [of p src 2] by simp

lemma le_at_4: "p + 4 \<le> length src \<Longrightarrow> le_at src p 4 = unat (src ! p) + 256 * le_at src (p + 1) 3"
  using le_at_Suc [of p src 3] by simp

lemma le_at_bound: "le_at src p k < 256 ^ k"
proof -
  have "le_nat (take k (drop p src)) < 256 ^ length (take k (drop p src))" by (rule le_nat_bound)
  also have "(256 :: nat) ^ length (take k (drop p src)) \<le> 256 ^ k"
    by (intro power_increasing) simp_all
  finally show ?thesis by (simp add: le_at_def)
qed

lemma read_u16_le_at:
  "p + 2 \<le> length src \<Longrightarrow> \<exists>w. read_u16_le src p = Some w \<and> unat w = le_at src p 2"
  by (auto simp: read_u16_le_def fault_simps le_at_def unat_simps)

lemma read_u32_le_at:
  "p + 4 \<le> length src \<Longrightarrow> \<exists>w. read_u32_le src p = Some w \<and> unat w = le_at src p 4"
  by (auto simp: read_u32_le_def fault_simps le_at_def unat_simps)

lemma le_at_drop8: "p + 4 \<le> length src \<Longrightarrow> le_at src p 4 div 2 ^ 8 = le_at src (p + 1) 3"
  by (simp add: le_at_4)

lemma take_le_at: "take_le k (drop p src) =
    (if p \<le> length src \<and> p + k \<le> length src then Some (le_at src p k, drop (p + k) src)
     else if k = 0 then Some (0, []) else None)"
  by (auto simp: take_le_def le_at_def add.commute)

lemma or_shift_nat: "(b :: nat) < 2 ^ k \<Longrightarrow> b OR push_bit k a = b + 2 ^ k * a"
proof -
  assume b: "b < 2 ^ k"
  then have "take_bit k b = b" by (simp add: take_bit_nat_eq_self)
  then have "\<not> bit b n" if "k \<le> n" for n
    using that by (metis bit_take_bit_iff not_less)
  then have "b + push_bit k a = b OR push_bit k a"
    by (intro disjunctive_add) (auto simp: bit_push_bit_iff)
  then show ?thesis by (simp add: push_bit_eq_mult mult.commute)
qed

lemma back_at:
  "1 \<le> s \<Longrightarrow> s \<le> length src \<Longrightarrow> back1 src s = Some (le_at src (s - 1) 1)"
  "2 \<le> s \<Longrightarrow> s \<le> length src \<Longrightarrow> back2 src s = Some (le_at src (s - 2) 2)"
  "3 \<le> s \<Longrightarrow> s \<le> length src \<Longrightarrow> back3 src s = Some (le_at src (s - 3) 3)"
proof -
  show "1 \<le> s \<Longrightarrow> s \<le> length src \<Longrightarrow> back1 src s = Some (le_at src (s - 1) 1)"
    by (simp add: back1_def fault_simps le_at_1 [simplified])
  have or2: "unat a OR push_bit 8 (unat b) = unat a + 256 * unat b" for a b :: byte
    using or_shift_nat [of "unat a" 8 "unat b"] by simp
  have s1: "2 \<le> s \<Longrightarrow> s - 2 + 1 = s - 1" by simp
  show "2 \<le> s \<Longrightarrow> s \<le> length src \<Longrightarrow> back2 src s = Some (le_at src (s - 2) 2)"
    using le_at_2 [of "s - 2" src] by (simp add: back2_def fault_simps or2 s1 [simplified])
  have or3: "unat a OR push_bit 8 (unat b) OR push_bit 16 (unat c) = unat a + 256 * unat b + 65536 * unat c"
    for a b c :: byte
  proof -
    have "unat a + 256 * unat b < 65536"
      using unat_byte_bound [of a] unat_byte_bound [of b] by linarith
    then have "unat a + 256 * unat b < 2 ^ 16" by simp
    from or_shift_nat [OF this, of "unat c"] show ?thesis
      by (simp add: or2 flip: or.assoc)
  qed
  assume s: "3 \<le> s" "s \<le> length src"
  have i: "idx src (s - 3) = Some (src ! (s - 3))" "idx src (s - 2) = Some (src ! (s - 2))"
    "idx src (s - 1) = Some (src ! (s - 1))"
    using s by (intro idx_Some; linarith)+
  from s have "s - 3 + 1 = s - 2" "s - 2 + 1 = s - 1" by simp_all
  with s show "back3 src s = Some (le_at src (s - 3) 3)"
    using le_at_3 [of "s - 3" src] le_at_2 [of "s - 2" src] by (simp add: back3_def i [simplified] or3)
qed

section \<open>Fields of a tag\<close>

lemma byte_and3:
  fixes w :: byte
  shows "(w AND 3 = 0) = (unat w mod 4 = 0)" "(w AND 3 = 1) = (unat w mod 4 = 1)"
    "(w AND 3 = 2) = (unat w mod 4 = 2)"
  by (simp_all add: word_unat_eq_iff unat_simps)

lemma and4_eq_0: "(w AND 4 = (0 :: 'a::len word)) = (unat w div 4 mod 2 = 0)"
proof -
  have "(w AND 4 = 0) = (\<not> bit w 2)"
    using and_exp_eq_0_iff_not_bit [of w 2] by simp
  also have "bit w 2 = bit (unat w) 2"
    by (simp add: bit_unsigned_iff)
  also have "(\<not> bit (unat w) 2) = (unat w div 4 mod 2 = 0)"
    by (simp add: bit_iff_odd even_iff_mod_2_eq_zero)
  finally show ?thesis .
qed


lemma drop3_tag:
  fixes w :: byte
  shows "unat (drop_bit 3 w) = unat w div 8" "(drop_bit 3 w < 29) = (unat w div 8 < 29)"
    "(drop_bit 3 w = 29) = (unat w div 8 = 29)" "(drop_bit 3 w = 30) = (unat w div 8 = 30)"
  by (simp_all add: word_less_nat_alt word_unat_eq_iff unat_simps)

section \<open>What an operation means\<close>

text \<open>
  The token at the front of a string run on a state, with what is left of the string; and the
  same for the operation a loop has read from the header.
\<close>

definition token_step :: "bytes \<Rightarrow> lz_state \<Rightarrow> (lz_state \<times> bytes) option" where
  "token_step bs st = (case parse_token bs of
     None \<Rightarrow> None | Some (t, r) \<Rightarrow> map_option (\<lambda>st'. (st', r)) (exec_token t st))"

fun op_step :: "bytes \<Rightarrow> op \<Rightarrow> bytes \<Rightarrow> nat \<Rightarrow> (lz_state \<times> bytes) option" where
  "op_step src (OpLit len s) out off =
     (if s + len \<le> length src then Some ((out @ take len (drop s src), off), drop (s + len) src) else None)"
| "op_step src (OpCopy k len off' s) out off =
     (if s + k \<le> length src
      then map_option (\<lambda>st. (st, drop (s + k) src)) (exec_copy (out @ take k (drop s src)) off' len)
      else None)"

fun op_wf :: "bytes \<Rightarrow> nat \<Rightarrow> op \<Rightarrow> bool" where
  "op_wf src s (OpLit len s') \<longleftrightarrow> s < s' \<and> s' \<le> s + 7 \<and> s' \<le> length src \<and> 0 < len"
| "op_wf src s (OpCopy k len off s') \<longleftrightarrow>
     s < s' \<and> s' \<le> s + 7 \<and> s' \<le> length src \<and> k \<le> 4 \<and> (0 < k \<longrightarrow> 4 \<le> len) \<and> 0 < off"

definition op_ok :: "bytes \<Rightarrow> nat \<Rightarrow> nat \<Rightarrow> op \<Rightarrow> bool" where
  "op_ok src s off opr \<longleftrightarrow>
     op_wf src s opr \<and> (\<forall>out. token_step (drop s src) (out, off) = op_step src opr out off)"

lemma spec_run_step: "bs \<noteq> [] \<Longrightarrow> spec_run bs st =
    (case token_step bs st of None \<Rightarrow> None | Some (st', r) \<Rightarrow> spec_run r st')"
  by (subst spec_run.simps) (auto simp: token_step_def split: option.splits)

lemma take_bytes_drop: "take_bytes k (drop p src) =
    (if p + k \<le> length src then Some (take k (drop p src), drop (p + k) src)
     else if k = 0 then Some ([], []) else None)"
  by (auto simp: take_bytes_def add.commute)

lemma parse_at:
  assumes "s < length src"
  shows "parse_token (drop s src) = (let tag = unat (src ! s); bs = drop (s + 1) src in
     if tag mod 4 = 0 then parse_lit_rep tag bs
     else if tag mod 4 = 1 then parse_copy1 tag bs
     else if tag mod 4 = 2 then parse_copy2 tag bs
     else if tag div 4 mod 2 = 0 then parse_copy2_fused tag bs
     else parse_copy3 tag bs)"
proof -
  have "drop s src = src ! s # drop (s + 1) src"
    using assms by (simp add: Cons_nth_drop_Suc)
  then show ?thesis by (simp add: Let_def)
qed

text \<open>Reading a length field with its extension, at a position.\<close>

definition ext_at :: "bytes \<Rightarrow> nat \<Rightarrow> nat \<Rightarrow> nat \<Rightarrow> nat \<Rightarrow> nat \<Rightarrow> (nat \<times> nat) option" where
  "ext_at src m a c x p =
     (if x \<le> m then Some (x + a, p)
      else if p + (x - m) \<le> length src then Some (le_at src p (x - m) + c, p + (x - m)) else None)"

lemma ext_len_at: "p \<le> length src \<Longrightarrow> ext_len m a c x (drop p src) =
    map_option (\<lambda>(n, q). (n, drop q src)) (ext_at src m a c x p)"
  by (auto simp: ext_len_def ext_at_def take_le_at)

lemma ext_at_bounds: "ext_at src m a c x p = Some (n, q) \<Longrightarrow> p \<le> length src \<Longrightarrow>
    p \<le> q \<and> q \<le> p + (x - m) \<and> q \<le> length src \<and> min (a + x) c \<le> n"
  by (auto simp: ext_at_def split: if_splits)

lemma lit_rep_ok:
  assumes "s < length src" "unat (src ! s) mod 4 = 0"
    and "ext_at src 28 1 30 (unat (src ! s) div 8) (s + 1) = Some (len, s')" "0 < off"
  shows "op_ok src s off (if src ! s AND 4 = 0 then OpLit len s' else OpCopy 0 len off s')"
proof -
  have "unat (src ! s) div 8 < 32"
    using unat_byte_bound [of "src ! s"] by (intro less_mult_imp_div_less) simp
  then have b: "s + 1 \<le> s'" "s' \<le> s + 7" "s' \<le> length src" "0 < len"
    using ext_at_bounds [OF assms(3)] assms(1) by auto
  have e: "ext_len 28 1 30 (unat (src ! s) div 8) (drop (Suc s) src) = Some (len, drop s' src)"
    using assms(1,3) ext_len_at [of "s + 1" src] by simp
  show ?thesis
  proof (cases "src ! s AND 4 = 0")
    case True
    then have "unat (src ! s) div 4 mod 2 = 0" by (simp add: and4_eq_0)
    with True b e assms show ?thesis
      by (auto simp: op_ok_def token_step_def parse_at Let_def parse_lit_rep_def take_bytes_drop)
  next
    case False
    then have "unat (src ! s) div 4 mod 2 \<noteq> 0" by (simp add: and4_eq_0)
    with False b e assms show ?thesis
      by (auto simp: op_ok_def token_step_def parse_at Let_def parse_lit_rep_def)
  qed
qed

lemma lit_rep_trunc:
  assumes "s < length src" "unat (src ! s) mod 4 = 0"
    and "ext_at src 28 1 30 (unat (src ! s) div 8) (s + 1) = None"
  shows "token_step (drop s src) st = None"
  using assms ext_len_at [of "s + 1" src]
  by (simp add: token_step_def parse_at Let_def parse_lit_rep_def)


lemma take_le_tag:
  "s + 2 \<le> length src \<Longrightarrow> take_le 1 (drop (Suc s) src) = Some (unat (src ! (s + 1)), drop (s + 2) src)"
  "s + 3 \<le> length src \<Longrightarrow> take_le 2 (drop (Suc s) src) = Some (le_at src (Suc s) 2, drop (s + 3) src)"
  "s + 4 \<le> length src \<Longrightarrow> take_le 3 (drop (Suc s) src) = Some (le_at src (Suc s) 3, drop (s + 4) src)"
  "length src < s + 2 \<Longrightarrow> take_le 1 (drop (Suc s) src) = None"
  "length src < s + 3 \<Longrightarrow> take_le 2 (drop (Suc s) src) = None"
  "length src < s + 4 \<Longrightarrow> take_le 3 (drop (Suc s) src) = None"
proof -
  have p: "Suc s + 1 = s + 2" "Suc s + 2 = s + 3" "Suc s + 3 = s + 4" by simp_all
  show "s + 2 \<le> length src \<Longrightarrow> take_le 1 (drop (Suc s) src) = Some (unat (src ! (s + 1)), drop (s + 2) src)"
    "s + 3 \<le> length src \<Longrightarrow> take_le 2 (drop (Suc s) src) = Some (le_at src (Suc s) 2, drop (s + 3) src)"
    "s + 4 \<le> length src \<Longrightarrow> take_le 3 (drop (Suc s) src) = Some (le_at src (Suc s) 3, drop (s + 4) src)"
    "length src < s + 2 \<Longrightarrow> take_le 1 (drop (Suc s) src) = None"
    "length src < s + 3 \<Longrightarrow> take_le 2 (drop (Suc s) src) = None"
    "length src < s + 4 \<Longrightarrow> take_le 3 (drop (Suc s) src) = None"
    unfolding take_le_at p using le_at_1 [of "Suc s" src] by simp_all
qed

lemma copy1_ok:
  assumes "s + 2 \<le> length src" "unat (src ! s) mod 4 = 1"
    and "ext_at src 14 4 18 (unat (src ! s) div 4 mod 16) (s + 2) = Some (len, s')"
  shows "op_ok src s off (OpCopy 0 len (le_at src s 2 div 64 + 1) s')"
proof -
  have b: "s + 2 \<le> s'" "s' \<le> s + 7" "s' \<le> length src"
    using ext_at_bounds [OF assms(3)] assms(1) by auto
  note hi = take_le_tag(1) [OF assms(1)]
  have e: "ext_len 14 4 18 (unat (src ! s) div 4 mod 16) (drop (s + 2) src) = Some (len, drop s' src)"
    using assms(1,3) ext_len_at [of "s + 2" src] by simp
  have "(unat (src ! s) + 256 * unat (src ! (s + 1))) div 64 = unat (src ! s) div 64 + 4 * unat (src ! (s + 1))"
    by presburger
  then have "le_at src s 2 div 64 = unat (src ! s) div 64 + 4 * unat (src ! (s + 1))"
    using assms(1) by (simp add: le_at_2)
  with b e hi [simplified] assms(1,2) show ?thesis
    by (auto simp: op_ok_def token_step_def parse_at Let_def parse_copy1_def)
qed

lemma copy1_trunc:
  assumes "s < length src" "unat (src ! s) mod 4 = 1"
    and "s + 2 \<le> length src \<Longrightarrow> ext_at src 14 4 18 (unat (src ! s) div 4 mod 16) (s + 2) = None"
  shows "token_step (drop s src) st = None"
  using assms ext_len_at [of "s + 2" src] take_le_tag(1) [of s src] take_le_tag(4) [of src s]
  by (cases "s + 2 \<le> length src") (auto simp: token_step_def parse_at Let_def parse_copy1_def)

lemma copy2_ok:
  assumes "s + 3 \<le> length src" "unat (src ! s) mod 4 = 2"
    and "ext_at src 60 4 64 (unat (src ! s) div 4) (s + 3) = Some (len, s')"
  shows "op_ok src s off (OpCopy 0 len (le_at src (s + 1) 2 + MIN_COPY2_OFFSET) s')"
proof -
  have "unat (src ! s) div 4 < 64"
    using unat_byte_bound [of "src ! s"] by (intro less_mult_imp_div_less) simp
  then have b: "s + 3 \<le> s'" "s' \<le> s + 7" "s' \<le> length src"
    using ext_at_bounds [OF assms(3)] assms(1) by auto
  have e: "ext_len 60 4 64 (unat (src ! s) div 4) (drop (s + 3) src) = Some (len, drop s' src)"
    using assms(1,3) ext_len_at [of "s + 3" src] by simp
  with b assms(1,2) take_le_tag(2) [OF assms(1)] show ?thesis
    by (auto simp: op_ok_def token_step_def parse_at Let_def parse_copy2_def format_consts)
qed

lemma copy2_trunc:
  assumes "s < length src" "unat (src ! s) mod 4 = 2"
    and "s + 3 \<le> length src \<Longrightarrow> ext_at src 60 4 64 (unat (src ! s) div 4) (s + 3) = None"
  shows "token_step (drop s src) st = None"
  using assms ext_len_at [of "s + 3" src] take_le_tag(2) [of s src] take_le_tag(5) [of src s]
  by (cases "s + 3 \<le> length src") (auto simp: token_step_def parse_at Let_def parse_copy2_def)

lemma copy2_fused_ok:
  assumes "s + 3 \<le> length src" "unat (src ! s) mod 4 = 3" "unat (src ! s) div 4 mod 2 = 0"
  shows "op_ok src s off (OpCopy (unat (src ! s) div 8 mod 4 + 1) (4 + unat (src ! s) div 32)
    (le_at src (s + 1) 2 + MIN_COPY2_OFFSET) (s + 3))"
proof -
  define k where "k = unat (src ! s) div 8 mod 4 + 1"
  have k: "0 < k" "k \<le> 4" by (simp_all add: k_def Suc_le_eq)
  have kS: "Suc (unat (src ! s) div 8 mod 4) = k" by (simp add: k_def)
  have "parse_token (drop s src) = do {
       (lits, r) \<leftarrow> take_bytes k (drop (s + 3) src);
       Some (TCopy lits (le_at src (s + 1) 2 + MIN_COPY2_OFFSET) (4 + unat (src ! s) div 32), r) }"
    using assms take_le_tag(2) [OF assms(1)]
    by (simp add: parse_at Let_def parse_copy2_fused_def kS add.commute [of _ 4])
  with k assms(1) show ?thesis
    unfolding k_def [symmetric]
    by (auto simp: op_ok_def token_step_def take_bytes_drop format_consts)
qed

lemma copy2_fused_trunc:
  assumes "s < length src" "unat (src ! s) mod 4 = 3" "unat (src ! s) div 4 mod 2 = 0"
    and "length src < s + 4"
  shows "token_step (drop s src) st = None"
  using assms take_le_tag(2) [of s src] take_le_tag(5) [of src s]
  by (cases "s + 3 \<le> length src")
    (auto simp: token_step_def parse_at Let_def parse_copy2_fused_def take_bytes_def)

lemma copy3_ok:
  assumes "s + 4 \<le> length src" "unat (src ! s) mod 4 = 3" "unat (src ! s) div 4 mod 2 = 1"
    and "ext_at src 60 4 64 (le_at src s 4 div 32 mod 64) (s + 4) = Some (len, s')"
  shows "op_ok src s off (OpCopy (le_at src s 4 div 8 mod 4) len
    (le_at src s 4 div 2048 + MIN_COPY3_OFFSET) s')"
proof -
  have "le_at src s 4 div 32 mod 64 < 64" by simp
  then have b: "s + 4 \<le> s'" "s' \<le> s + 7" "s' \<le> length src" "4 \<le> len"
    using ext_at_bounds [OF assms(4)] assms(1) by auto
  have k: "le_at src s 4 div 8 mod 4 \<le> 4" by (simp add: less_imp_le)
  have hi: "take_le 3 (drop (s + 1) src) = Some (le_at src (s + 1) 3, drop (s + 4) src)"
    using take_le_tag(3) [OF assms(1)] by simp
  have e: "ext_len 60 4 64 (le_at src s 4 div 32 mod 64) (drop (s + 4) src) = Some (len, drop s' src)"
    using assms(1,4) ext_len_at [of "s + 4" src] by simp
  have v: "unat (src ! s) + 256 * le_at src (Suc s) 3 = le_at src s 4"
    using assms(1) by (simp add: le_at_4)
  have "op_wf src s (OpCopy (le_at src s 4 div 8 mod 4) len (le_at src s 4 div 2048 + MIN_COPY3_OFFSET) s')"
    using b k by (simp add: format_consts)
  moreover have "parse_token (drop s src) = do {
       (lits, r) \<leftarrow> take_bytes (le_at src s 4 div 8 mod 4) (drop s' src);
       Some (TCopy lits (le_at src s 4 div 2048 + MIN_COPY3_OFFSET) len, r) }"
    using assms(1-3) hi e by (simp add: parse_at Let_def parse_copy3_def v)
  ultimately show ?thesis
    using b by (auto simp: op_ok_def token_step_def take_bytes_drop)
qed

lemma copy3_trunc:
  assumes "s < length src" "unat (src ! s) mod 4 = 3" "unat (src ! s) div 4 mod 2 = 1"
    and "s + 4 \<le> length src \<Longrightarrow> ext_at src 60 4 64 (le_at src s 4 div 32 mod 64) (s + 4) = None"
  shows "token_step (drop s src) st = None"
proof -
  have "parse_token (drop s src) = None"
  proof (cases "s + 4 \<le> length src")
    case True
    then have v: "unat (src ! s) + 256 * le_at src (Suc s) 3 = le_at src s 4"
      by (simp add: le_at_4)
    have hi: "take_le 3 (drop (s + 1) src) = Some (le_at src (s + 1) 3, drop (s + 4) src)"
      using take_le_tag(3) [OF True] by simp
    have e: "ext_len 60 4 64 (le_at src s 4 div 32 mod 64) (drop (s + 4) src) = None"
      using True assms(4) ext_len_at [of "s + 4" src] by simp
    show ?thesis using assms(1-3) hi e by (simp add: parse_at Let_def parse_copy3_def v)
  next
    case False
    then show ?thesis
      using assms(1-3) take_le_tag(6) [of src s] by (simp add: parse_at Let_def parse_copy3_def)
  qed
  then show ?thesis by (simp add: token_step_def)
qed


section \<open>The loops read operations\<close>

lemma ext_at_field:
  "x \<le> m \<Longrightarrow> ext_at src m a c x p = Some (x + a, p)"
  "m < x \<Longrightarrow> p + (x - m) \<le> length src \<Longrightarrow> ext_at src m a c x p = Some (le_at src p (x - m) + c, p + (x - m))"
  by (simp_all add: ext_at_def)

lemma fast_lit_rep_ext:
  assumes "s + 16 \<le> length src"
  obtains len s' where "ext_at src 28 1 30 (unat (src ! s) div 8) (s + 1) = Some (len, s')"
    "fast_lit_rep src s (src ! s) off =
       Some (if src ! s AND 4 = 0 then OpLit len s' else OpCopy 0 len off s')"
proof -
  define x where "x = unat (src ! s) div 8"
  have "x < 32"
    using unat_byte_bound [of "src ! s"] unfolding x_def by (intro less_mult_imp_div_less) simp
  then consider "x < 29" | "x = 29" | "x = 30" | "x = 31" by linarith
  then show ?thesis
  proof cases
    case 1
    then show ?thesis
      by (intro that [of "x + 1" "s + 1"]) (simp_all add: ext_at_def fast_lit_rep_def drop3_tag flip: x_def)
  next
    case 2
    then show ?thesis using assms le_at_1 [of "s + 1" src]
      by (intro that [of "30 + unat (src ! (s + 1))" "s + 2"])
        (simp_all add: ext_at_def fast_lit_rep_def drop3_tag fault_simps flip: x_def)
  next
    case 3
    obtain w where "read_u16_le src (s + 1) = Some w" "unat w = le_at src (s + 1) 2"
      using read_u16_le_at [of "s + 1" src] assms by auto
    then show ?thesis using 3 assms
      by (intro that [of "30 + le_at src (s + 1) 2" "s + 3"])
        (simp_all add: ext_at_def fast_lit_rep_def drop3_tag flip: x_def)
  next
    case 4
    obtain w where "read_u32_le src s = Some w" "unat w = le_at src s 4"
      using read_u32_le_at [of s src] assms by auto
    then show ?thesis using 4 assms le_at_drop8 [of s src]
      by (intro that [of "30 + le_at src (s + 1) 3" "s + 4"])
        (simp_all add: ext_at_def fast_lit_rep_def drop3_tag unat_drop_bit_div flip: x_def)
  qed
qed

lemma ext60_fast:
  assumes "x < 64" "p + 3 \<le> length src" "1 \<le> p"
  obtains len s' where "ext_at src 60 4 64 x p = Some (len, s')"
    "(if x \<le> 60 then Some (x + 4, p)
      else if x = 61 then do { n \<leftarrow> idx src p; Some (unat n + 64, p + 1) }
      else if x = 62 then do { n \<leftarrow> read_u16_le src p; Some (unat n + 64, p + 2) }
      else do { n \<leftarrow> read_u32_le src (p - 1); Some (unat (drop_bit 8 n) + 64, p + 3) }) = Some (len, s')"
proof -
  consider "x \<le> 60" | "x = 61" | "x = 62" | "x = 63" using assms(1) by linarith
  then show ?thesis
  proof cases
    case 1
    then show ?thesis by (intro that [of "x + 4" p]) (simp_all add: ext_at_def)
  next
    case 2
    then show ?thesis using assms le_at_1 [of p src]
      by (intro that [of "unat (src ! p) + 64" "p + 1"]) (simp_all add: ext_at_def fault_simps)
  next
    case 3
    obtain w where "read_u16_le src p = Some w" "unat w = le_at src p 2"
      using read_u16_le_at [of p src] assms by auto
    then show ?thesis using 3 assms
      by (intro that [of "le_at src p 2 + 64" "p + 2"]) (simp_all add: ext_at_def)
  next
    case 4
    obtain w where "read_u32_le src (p - 1) = Some w" "unat w = le_at src (p - 1) 4"
      using read_u32_le_at [of "p - 1" src] assms by auto
    then show ?thesis using 4 assms le_at_drop8 [of "p - 1" src]
      by (intro that [of "le_at src p 3 + 64" "p + 3"]) (simp_all add: ext_at_def unat_drop_bit_div)
  qed
qed

text \<open>The fields of the 32-bit header, read from the whole word or from its low byte.\<close>

lemma low_fields:
  fixes t x :: nat
  shows "(t + 256 * x) div 8 mod 4 = t div 8 mod 4" "(t + 256 * x) div 4 mod 2 = t div 4 mod 2"
    "(t + 256 * x) div 4 mod 16 = t div 4 mod 16"
    "t < 256 \<Longrightarrow> (t + 256 * x) div 32 mod 8 = t div 32" "t < 256 \<Longrightarrow> (t + 256 * x) div 256 = x"
proof -
  have d: "(t + 256 * x) div 8 = 32 * x + t div 8" "(t + 256 * x) div 4 = 64 * x + t div 4"
    "(t + 256 * x) div 32 = 8 * x + t div 32" "(t + 256 * x) div 256 = x + t div 256"
    using div_mult_self2 [of 8 t "32 * x"] div_mult_self2 [of 4 t "64 * x"]
      div_mult_self2 [of 32 t "8 * x"] div_mult_self2 [of 256 t x] by simp_all
  have m: "(32 * x + y) mod 4 = y mod 4" "(64 * x + y) mod 2 = y mod 2" "(64 * x + y) mod 16 = y mod 16"
    "(8 * x + y) mod 8 = y mod 8" for y
    using mod_mult_self4 [of 4 "8 * x" y] mod_mult_self4 [of 2 "32 * x" y]
      mod_mult_self4 [of 16 "4 * x" y] by simp_all
  show "(t + 256 * x) div 8 mod 4 = t div 8 mod 4" "(t + 256 * x) div 4 mod 2 = t div 4 mod 2"
    "(t + 256 * x) div 4 mod 16 = t div 4 mod 16" unfolding d m by (rule refl)+
  assume t: "t < 256"
  then have "t div 32 < 8" by (intro less_mult_imp_div_less) simp
  then show "(t + 256 * x) div 32 mod 8 = t div 32" unfolding d m by simp
  show "(t + 256 * x) div 256 = x" unfolding d using t by simp
qed

lemma fast_op_ok:
  assumes "s + 16 \<le> length src" "0 < off"
  shows "\<exists>opr. fast_op src s off = Some opr \<and> op_ok src s off opr"
proof -
  define t where "t = unat (src ! s)"
  have t: "t < 256" by (simp add: t_def)
  have tag: "idx src s = Some (src ! s)" using assms by (simp add: fault_simps)
  have "t mod 4 < 4" by simp
  then consider "t mod 4 = 0" | "t mod 4 = 1" | "t mod 4 = 2" | "t mod 4 = 3" "t div 4 mod 2 = 0"
    | "t mod 4 = 3" "t div 4 mod 2 = 1" by linarith
  then show ?thesis
  proof cases
    case 1
    obtain len s' where "ext_at src 28 1 30 (t div 8) (s + 1) = Some (len, s')"
      "fast_lit_rep src s (src ! s) off = Some (if src ! s AND 4 = 0 then OpLit len s' else OpCopy 0 len off s')"
      unfolding t_def by (rule fast_lit_rep_ext [OF assms(1), of off])
    with 1 assms lit_rep_ok [of s src len s' off] show ?thesis
      by (simp add: fast_op_def tag byte_and3 t_def)
  next
    case 2
    obtain w where w: "read_u16_le src s = Some w" "unat w = le_at src s 2"
      using read_u16_le_at [of s src] assms by auto
    define x where "x = t div 4 mod 16"
    have "x < 16" by (simp add: x_def)
    have wx: "unat (drop_bit 2 w AND 15) = x" "unat (drop_bit 6 w) = le_at src s 2 div 64"
    proof -
      show "unat (drop_bit 2 w AND 15) = x"
        using assms low_fields(3) [of t] by (simp add: unat_simps w le_at_2 x_def t_def)
      show "unat (drop_bit 6 w) = le_at src s 2 div 64" by (simp add: unat_simps w)
    qed
    obtain len s' where e: "ext_at src 14 4 18 x (s + 2) = Some (len, s')"
      "fast_copy1 src s = Some (OpCopy 0 len (le_at src s 2 div 64 + 1) s')"
    proof (cases "x = 15")
      case True
      then show ?thesis using assms le_at_1 [of "s + 2" src]
        by (intro that [of "unat (src ! (s + 2)) + 18" "s + 3"])
          (simp_all add: ext_at_def fast_copy1_def w wx fault_simps)
    next
      case False
      then show ?thesis using \<open>x < 16\<close>
        by (intro that [of "x + 4" "s + 2"]) (simp_all add: ext_at_def fast_copy1_def w wx)
    qed
    with 2 assms copy1_ok [of s src len s' off] show ?thesis
      by (simp add: fast_op_def tag byte_and3 t_def x_def)
  next
    case 3
    obtain w where w: "read_u16_le src (s + 1) = Some w" "unat w = le_at src (s + 1) 2"
      using read_u16_le_at [of "s + 1" src] assms by auto
    have x: "t div 4 < 64" using t by (intro less_mult_imp_div_less) simp
    obtain len s' where e: "ext_at src 60 4 64 (t div 4) (s + 3) = Some (len, s')"
      "(if t div 4 \<le> 60 then Some (t div 4 + 4, s + 3)
      else if t div 4 = 61 then do { n \<leftarrow> idx src (s + 3); Some (unat n + 64, s + 3 + 1) }
      else if t div 4 = 62 then do { n \<leftarrow> read_u16_le src (s + 3); Some (unat n + 64, s + 3 + 2) }
      else do { n \<leftarrow> read_u32_le src (s + 3 - 1); Some (unat (drop_bit 8 n) + 64, s + 3 + 3) }) = Some (len, s')"
      by (rule ext60_fast [of "t div 4" "s + 3" src]) (use x assms in auto)
    have raw: "unat (drop_bit 2 (src ! s)) = t div 4" by (simp add: unat_simps t_def)
    have p: "s + 2 = s + 3 - 1" "s + 4 = s + 3 + 1" "s + 5 = s + 3 + 2" "s + 6 = s + 3 + 3" by simp_all
    have "fast_copy2 src s (src ! s) = Some (OpCopy 0 len (le_at src (s + 1) 2 + MIN_COPY2_OFFSET) s')"
      unfolding fast_copy2_def w p raw by (simp only: e(2) w Let_def Option.bind_lunit prod.case)
    with 3 e(1) assms copy2_ok [of s src len s' off] show ?thesis
      by (simp add: fast_op_def tag byte_and3 t_def)
  next
    case 4
    obtain w where w: "read_u32_le src s = Some w" "unat w = le_at src s 4"
      using read_u32_le_at [of s src] assms by auto
    have v: "le_at src s 4 = t + 256 * le_at src (s + 1) 3" "le_at src (s + 1) 3 mod 65536 = le_at src (s + 1) 2"
    proof -
      show "le_at src s 4 = t + 256 * le_at src (s + 1) 3" using assms by (simp add: le_at_4 t_def)
      have "le_at src (s + 1) 3 = le_at src (s + 1) 2 + 65536 * unat (src ! Suc (Suc (Suc s)))"
        using assms le_at_3 [of "s + 1" src] le_at_2 [of "s + 1" src] le_at_2 [of "s + 2" src]
        by simp
      then show "le_at src (s + 1) 3 mod 65536 = le_at src (s + 1) 2"
        using le_at_bound [of src "s + 1" 2] by simp
    qed
    have "fast_copy3 src s = Some (OpCopy (t div 8 mod 4 + 1) (4 + t div 32)
        (le_at src (s + 1) 2 + MIN_COPY2_OFFSET) (s + 3))"
      using 4 t by (simp add: fast_copy3_def w and4_eq_0 unat_simps v v(2) [simplified] low_fields)
    with 4 assms copy2_fused_ok [of s src off] show ?thesis
      by (simp add: fast_op_def tag byte_and3 t_def)
  next
    case 5
    obtain w where w: "read_u32_le src s = Some w" "unat w = le_at src s 4"
      using read_u32_le_at [of s src] assms by auto
    have v: "le_at src s 4 = t + 256 * le_at src (s + 1) 3" using assms by (simp add: le_at_4 t_def)
    define x where "x = le_at src s 4 div 32 mod 64"
    obtain len s' where e: "ext_at src 60 4 64 x (s + 4) = Some (len, s')"
      "(if x \<le> 60 then Some (x + 4, s + 4)
      else if x = 61 then do { n \<leftarrow> idx src (s + 4); Some (unat n + 64, s + 4 + 1) }
      else if x = 62 then do { n \<leftarrow> read_u16_le src (s + 4); Some (unat n + 64, s + 4 + 2) }
      else do { n \<leftarrow> read_u32_le src (s + 4 - 1); Some (unat (drop_bit 8 n) + 64, s + 4 + 3) }) = Some (len, s')"
      by (rule ext60_fast [of x "s + 4" src]) (use assms in \<open>auto simp: x_def\<close>)
    have fld: "unat (drop_bit 5 w AND 63) = x" "unat (drop_bit 3 w AND 3) = le_at src s 4 div 8 mod 4"
      "unat (drop_bit 11 w) = le_at src s 4 div 2048" "(w AND 4 = 0) = False"
      using 5 by (simp_all add: unat_simps w x_def and4_eq_0 v low_fields)
    have p: "s + 3 = s + 4 - 1" "s + 5 = s + 4 + 1" "s + 6 = s + 4 + 2" "s + 7 = s + 4 + 3" by simp_all
    have "fast_copy3 src s = Some (OpCopy (le_at src s 4 div 8 mod 4) len
        (le_at src s 4 div 2048 + MIN_COPY3_OFFSET) s')"
      unfolding fast_copy3_def w p
      by (simp only: e(2) fld Let_def Option.bind_lunit prod.case if_False)
    with 5 assms copy3_ok [of s src len s' off] e(1) show ?thesis
      by (simp add: fast_op_def tag byte_and3 t_def x_def)
  qed
qed


definition res_at :: "'a option \<Rightarrow> (error + 'a) option" where
  "res_at r = Some (case r of None \<Rightarrow> Inl (Corrupt ''truncated input'') | Some q \<Rightarrow> Inr q)"

lemma res_at_simps [simp]:
  "res_at None = Some (Inl (Corrupt ''truncated input''))" "res_at (Some q) = Some (Inr q)"
  by (simp_all add: res_at_def)

lemma tail_ext_at:
  "tail_ext src (p + 1) (back1 src) c = res_at (if p + 1 \<le> length src then Some (le_at src p 1 + c, p + 1) else None)"
  "tail_ext src (p + 2) (back2 src) c = res_at (if p + 2 \<le> length src then Some (le_at src p 2 + c, p + 2) else None)"
  "tail_ext src (p + 3) (back3 src) c = res_at (if p + 3 \<le> length src then Some (le_at src p 3 + c, p + 3) else None)"
  using back_at(1) [of "p + 1" src] back_at(2) [of "p + 2" src] back_at(3) [of "p + 3" src]
  by (simp_all add: tail_ext_def truncated_def)

lemma tail_ext_28:
  assumes "x < 32"
  shows "(if x < 29 then Some (Inr (x + 1, p))
        else if x = 29 then tail_ext src (p + 1) (back1 src) 30
        else if x = 30 then tail_ext src (p + 2) (back2 src) 30
        else tail_ext src (p + 3) (back3 src) 30) = res_at (ext_at src 28 1 30 x p)"
proof -
  consider "x < 29" | "x = 29" | "x = 30" | "x = 31" using assms by linarith
  then show ?thesis by cases (simp_all add: tail_ext_at [simplified] ext_at_def)
qed

lemma tail_ext_60:
  assumes "x < 64"
  shows "(if x \<le> 60 then Some (Inr (x + 4, p))
        else if x = 61 then tail_ext src (p + 1) (back1 src) 64
        else if x = 62 then tail_ext src (p + 2) (back2 src) 64
        else tail_ext src (p + 3) (back3 src) 64) = res_at (ext_at src 60 4 64 x p)"
proof -
  consider "x \<le> 60" | "x = 61" | "x = 62" | "x = 63" using assms by linarith
  then show ?thesis by cases (simp_all add: tail_ext_at [simplified] ext_at_def)
qed

lemma tail_ext_14:
  assumes "x < 16"
  shows "(if x = 15 then tail_ext src (p + 1) (back1 src) 18 else Some (Inr (x + 4, p))) =
    res_at (ext_at src 14 4 18 x p)"
  using assms by (cases "x = 15") (simp_all add: tail_ext_at [simplified] ext_at_def)

lemma u32_of_bytes:
  "unat (ucast a OR push_bit 8 (ucast b) OR push_bit 16 (ucast c) OR push_bit 24 (ucast (d :: byte)) :: u32)
     = le_nat [a, b, c, d]"
proof -
  have "(ucast a OR push_bit 8 (ucast b) OR push_bit 16 (ucast c) OR push_bit 24 (ucast d) :: u32)
      = of_le [a, b, c, d]"
    by (simp add: push_bit_or)
  moreover have "unat (of_le [a, b, c, d] :: u32) = le_nat [a, b, c, d]" by (rule unat_of_le) simp
  ultimately show ?thesis by (simp only:)
qed

lemma u16_of_bytes: "unat (ucast (ucast a OR push_bit 8 (ucast (b :: byte)) :: u16) :: u32) = le_nat [a, b]"
proof -
  have "(ucast a OR push_bit 8 (ucast b) :: u16) = of_le [a, b]" by simp
  moreover have "unat (of_le [a, b] :: u16) = le_nat [a, b]" by (rule unat_of_le) simp
  ultimately have eq: "unat (ucast a OR push_bit 8 (ucast b) :: u16) = le_nat [a, b]" by (simp only:)
  have up: "unat (ucast w :: u32) = unat w" for w :: u16
    using unsigned_less [of w, where 'a = nat] by (simp add: unsigned_ucast_eq take_bit_nat_eq_self)
  show ?thesis unfolding up by (rule eq)
qed

lemma le_nat_at:
  "s + 2 \<le> length src \<Longrightarrow> le_nat [src ! s, src ! (s + 1)] = le_at src s 2"
  "s + 4 \<le> length src \<Longrightarrow> le_nat [src ! s, src ! (s + 1), src ! (s + 2), src ! (s + 3)] = le_at src s 4"
proof -
  show "s + 2 \<le> length src \<Longrightarrow> le_nat [src ! s, src ! (s + 1)] = le_at src s 2"
    by (simp add: le_at_2)
  have e: "src ! (s + 3) = src ! Suc (Suc (Suc s))" by (simp add: numeral_3_eq_3)
  show "s + 4 \<le> length src \<Longrightarrow> le_nat [src ! s, src ! (s + 1), src ! (s + 2), src ! (s + 3)] = le_at src s 4"
    using le_at_4 [of s src] le_at_3 [of "Suc s" src] le_at_2 [of "s + 2" src] by (simp add: e)
qed

lemma tail_lit_rep_eq:
  "tail_lit_rep src s tag off = and_then (res_at (ext_at src 28 1 30 (unat tag div 8) (s + 1)))
     (\<lambda>(len, s). Some (Inr (if tag AND 4 = 0 then OpLit len s else OpCopy 0 len off s)))"
proof -
  have "unat tag div 8 < 32" using unat_byte_bound [of tag] by (intro less_mult_imp_div_less) simp
  note e = tail_ext_28 [OF this, of "s + 1" src]
  have p: "s + 2 = s + 1 + 1" "s + 3 = s + 1 + 2" "s + 4 = s + 1 + 3" by simp_all
  show ?thesis unfolding tail_lit_rep_def Let_def drop3_tag p e ..
qed

lemma tail_copy1_eq:
  assumes "s + 2 \<le> length src"
  shows "tail_copy1 src s = and_then (res_at (ext_at src 14 4 18 (unat (src ! s) div 4 mod 16) (s + 2)))
     (\<lambda>(len, s'). Some (Inr (OpCopy 0 len (le_at src s 2 div 64 + 1) s')))"
proof -
  define x where "x = unat (src ! s) div 4 mod 16"
  have "x < 16" by (simp add: x_def)
  note e = tail_ext_14 [OF this, of src "s + 2"]
  have i: "idx src (s + 2 - 2) = Some (src ! s)" "idx src (s + 2 - 1) = Some (src ! (s + 1))"
    using assms by (simp_all add: fault_simps)
  have f: "unat (drop_bit 2 (src ! s) AND 15) = x" by (simp add: unat_simps x_def)
  have o: "unat (drop_bit 6 (ucast (ucast (src ! s) OR push_bit 8 (ucast (src ! (s + 1))) :: u16) :: u32)) =
      le_at src s 2 div 64"
    using assms by (simp only: unat_drop_bit_div u16_of_bytes le_nat_at) simp
  have tr: "truncated src (s + 2) = Some (Inr ())" using assms by (simp add: truncated_def)
  show ?thesis
    unfolding x_def [symmetric] tail_copy1_def Let_def tr and_then_simps i Option.bind_lunit f o e ..
qed

lemma tail_copy2_eq:
  assumes "s + 3 \<le> length src"
  shows "tail_copy2 src s = and_then (res_at (ext_at src 60 4 64 (unat (src ! s) div 4) (s + 3)))
     (\<lambda>(len, s'). Some (Inr (OpCopy 0 len (le_at src (s + 1) 2 + MIN_COPY2_OFFSET) s')))"
proof -
  have "unat (src ! s) div 4 < 64"
    using unat_byte_bound [of "src ! s"] by (intro less_mult_imp_div_less) simp
  note e = tail_ext_60 [OF this, of "s + 3" src]
  have i: "idx src (s + 3 - 3) = Some (src ! s)" "back2 src (s + 3) = Some (le_at src (s + 1) 2)"
    using assms back_at(2) [of "s + 3" src] by (simp_all add: fault_simps)
  have f: "unat (drop_bit 2 (src ! s)) = unat (src ! s) div 4" by (simp add: unat_simps)
  have tr: "truncated src (s + 3) = Some (Inr ())" using assms by (simp add: truncated_def)
  show ?thesis
    unfolding tail_copy2_def Let_def tr and_then_simps i Option.bind_lunit f e ..
qed

lemma header_word_fields:
  assumes "s + 4 \<le> length src"
  shows "le_at src s 4 div 4 mod 2 = unat (src ! s) div 4 mod 2"
    "le_at src s 4 div 8 mod 4 = unat (src ! s) div 8 mod 4"
    "le_at src s 4 div 32 mod 8 = unat (src ! s) div 32"
    "le_at src s 4 div 256 mod 65536 = le_at src (s + 1) 2"
proof -
  have v: "le_at src s 4 = unat (src ! s) + 256 * le_at src (s + 1) 3" using assms by (simp add: le_at_4)
  have "le_at src (s + 1) 3 = le_at src (s + 1) 2 + 65536 * unat (src ! Suc (Suc (Suc s)))"
    using assms le_at_3 [of "s + 1" src] le_at_2 [of "s + 1" src] le_at_2 [of "s + 2" src]
    by simp
  then have "le_at src (s + 1) 3 mod 65536 = le_at src (s + 1) 2"
    using le_at_bound [of src "s + 1" 2] by simp
  then show "le_at src s 4 div 4 mod 2 = unat (src ! s) div 4 mod 2"
    "le_at src s 4 div 8 mod 4 = unat (src ! s) div 8 mod 4"
    "le_at src s 4 div 32 mod 8 = unat (src ! s) div 32"
    "le_at src s 4 div 256 mod 65536 = le_at src (s + 1) 2"
    by (simp_all add: v low_fields)
qed

lemma tail_copy3_eq:
  assumes "s + 4 \<le> length src"
  shows "tail_copy3 src s =
    (if unat (src ! s) div 4 mod 2 = 0 then
       Some (Inr (OpCopy (unat (src ! s) div 8 mod 4 + 1) (4 + unat (src ! s) div 32)
         (le_at src (s + 1) 2 + MIN_COPY2_OFFSET) (s + 3)))
     else and_then (res_at (ext_at src 60 4 64 (le_at src s 4 div 32 mod 64) (s + 4)))
       (\<lambda>(len, s'). Some (Inr (OpCopy (le_at src s 4 div 8 mod 4) len
          (le_at src s 4 div 2048 + MIN_COPY3_OFFSET) s'))))"
proof -
  define x where "x = le_at src s 4 div 32 mod 64"
  have "x < 64" by (simp add: x_def)
  note e = tail_ext_60 [OF this, of "s + 4" src]
  have i: "idx src (s + 4 - 4) = Some (src ! s)" "idx src (s + 4 - 3) = Some (src ! (s + 1))"
    "idx src (s + 4 - 2) = Some (src ! (s + 2))" "idx src (s + 4 - 1) = Some (src ! (s + 3))"
    using assms by (simp_all add: fault_simps add.commute)
  define val :: u32 where "val = ucast (src ! s) OR push_bit 8 (ucast (src ! (s + 1))) OR
      push_bit 16 (ucast (src ! (s + 2))) OR push_bit 24 (ucast (src ! (s + 3)))"
  have val: "unat val = le_at src s 4"
    using assms by (simp only: val_def u32_of_bytes le_nat_at)
  have f: "unat (drop_bit 3 val AND 3) = unat (src ! s) div 8 mod 4"
    "unat (drop_bit 3 val AND 3) = le_at src s 4 div 8 mod 4"
    "unat (drop_bit 5 val AND 7) = unat (src ! s) div 32"
    "unat (drop_bit 8 val AND 65535) = le_at src (s + 1) 2"
    "unat (drop_bit 5 val AND 63) = x"
    "unat (drop_bit 11 val) = le_at src s 4 div 2048"
    "(val AND 4 = 0) = (unat (src ! s) div 4 mod 2 = 0)"
    by (simp_all only: unat_simps unat_drop_bit_div val and4_eq_0 x_def header_word_fields [OF assms, symmetric]) simp_all
  have tr: "truncated src (s + 4) = Some (Inr ())" using assms by (simp add: truncated_def)
  have p: "s + 4 - 1 = s + 3" by simp
  show ?thesis
    unfolding x_def [symmetric] tail_copy3_def Let_def tr and_then_simps i Option.bind_lunit val_def [symmetric]
      f(2-6) f(7) e
    by (simp add: p header_word_fields(2) [OF assms])
qed

lemma tail_trunc:
  "length src < s + 2 \<Longrightarrow> tail_copy1 src s = Some (Inl (Corrupt ''truncated input''))"
  "length src < s + 3 \<Longrightarrow> tail_copy2 src s = Some (Inl (Corrupt ''truncated input''))"
  "length src < s + 4 \<Longrightarrow> tail_copy3 src s = Some (Inl (Corrupt ''truncated input''))"
  by (simp_all add: tail_copy1_def tail_copy2_def tail_copy3_def truncated_def Let_def)

definition tail_agrees :: "bytes \<Rightarrow> nat \<Rightarrow> nat \<Rightarrow> (error + op) option \<Rightarrow> bool" where
  "tail_agrees src s off r \<longleftrightarrow>
     (\<exists>opr. r = Some (Inr opr) \<and> op_ok src s off opr) \<or>
     (\<exists>e. r = Some (Inl e) \<and> (\<forall>st. token_step (drop s src) st = None))"

lemma tail_agrees_ext:
  assumes "\<And>n q. e = Some (n, q) \<Longrightarrow> op_ok src s off (f n q)"
    and "e = None \<Longrightarrow> (\<forall>st. token_step (drop s src) st = None)"
  shows "tail_agrees src s off (and_then (res_at e) (\<lambda>(n, q). Some (Inr (f n q))))"
  using assms by (cases e) (auto simp: tail_agrees_def)

lemma tail_op_ok:
  assumes s: "s < length src" and off: "0 < off"
  shows "tail_agrees src s off (tail_op src s off)"
proof -
  define t where "t = unat (src ! s)"
  have tag: "idx src s = Some (src ! s)" using assms by (simp add: fault_simps)
  have "t mod 4 < 4" by simp
  then consider "t mod 4 = 0" | "t mod 4 = 1" "s + 2 \<le> length src" | "t mod 4 = 2" "s + 3 \<le> length src"
    | "t mod 4 = 3" "s + 4 \<le> length src" | "t mod 4 = 1" "length src < s + 2"
    | "t mod 4 = 2" "length src < s + 3" | "t mod 4 = 3" "length src < s + 4" by linarith
  then show ?thesis
  proof cases
    case 1
    then have "tail_op src s off = tail_lit_rep src s (src ! s) off"
      by (simp add: tail_op_def tag byte_and3 flip: t_def)
    then show ?thesis
      unfolding tail_lit_rep_eq using 1 unfolding t_def
      by (simp only:) (intro tail_agrees_ext lit_rep_ok allI lit_rep_trunc s off; simp)
  next
    case 2
    then have "tail_op src s off = tail_copy1 src s"
      by (simp add: tail_op_def tag byte_and3 flip: t_def)
    then show ?thesis
      unfolding tail_copy1_eq [OF 2(2)] using 2 unfolding t_def
      by (simp only:) (intro tail_agrees_ext copy1_ok allI copy1_trunc s; simp)
  next
    case 3
    then have "tail_op src s off = tail_copy2 src s"
      by (simp add: tail_op_def tag byte_and3 flip: t_def)
    then show ?thesis
      unfolding tail_copy2_eq [OF 3(2)] using 3 unfolding t_def
      by (simp only:) (intro tail_agrees_ext copy2_ok allI copy2_trunc s; simp)
  next
    case 4
    then have "tail_op src s off = tail_copy3 src s"
      by (simp add: tail_op_def tag byte_and3 flip: t_def)
    note eq = this [unfolded tail_copy3_eq [OF 4(2)]]
    show ?thesis
    proof (cases "t div 4 mod 2 = 0")
      case True
      with 4 show ?thesis
        using eq copy2_fused_ok [of s src off] by (simp add: tail_agrees_def t_def)
    next
      case False
      then have odd: "unat (src ! s) div 4 mod 2 = 1" unfolding t_def by simp
      show ?thesis
        unfolding eq using 4 odd unfolding t_def
        by (simp only: if_False one_neq_zero) (intro tail_agrees_ext copy3_ok allI copy3_trunc s; simp)
    qed
  next
    case 5
    then have "tail_op src s off = tail_copy1 src s"
      by (simp add: tail_op_def tag byte_and3 flip: t_def)
    with 5 s copy1_trunc [of s src] show ?thesis by (simp add: tail_trunc tail_agrees_def t_def)
  next
    case 6
    then have "tail_op src s off = tail_copy2 src s"
      by (simp add: tail_op_def tag byte_and3 flip: t_def)
    with 6 s copy2_trunc [of s src] show ?thesis by (simp add: tail_trunc tail_agrees_def t_def)
  next
    case 7
    then have "tail_op src s off = tail_copy3 src s"
      by (simp add: tail_op_def tag byte_and3 flip: t_def)
    with 7 s copy3_trunc [of s src] copy2_fused_trunc [of s src] show ?thesis
      by (cases "t div 4 mod 2 = 0") (simp_all add: tail_trunc tail_agrees_def t_def)
  qed
qed


section \<open>Memory that holds an output\<close>

text \<open>\<open>holds m out\<close>: the memory starts with \<open>out\<close>; what follows is arbitrary or uninitialised.\<close>

definition holds :: "mem \<Rightarrow> bytes \<Rightarrow> bool" where
  "holds m out \<longleftrightarrow> length out \<le> length m \<and> take (length out) m = map Some out"

lemma holds_read:
  assumes "holds m out" "i + n \<le> length out"
  shows "mem_read m i n = Some (take n (drop i out))"
proof -
  have "take n (drop i m) = take n (drop i (take (length out) m))"
    using assms(2) by (simp add: drop_take min_def)
  also have "\<dots> = map Some (take n (drop i out))"
    using assms(1) by (simp add: holds_def take_map drop_map)
  finally have "take n (drop i m) = map Some (take n (drop i out))" .
  then show ?thesis using assms by (auto simp: mem_read_def holds_def comp_def)
qed

lemma holds_write:
  assumes "holds m out" "length out + length v \<le> length m" "k \<le> length v"
  obtains m' where "mem_write m (length out) v = Some m'" "length m' = length m"
    "holds m' (out @ take k v)"
  using assms by (intro that [of "take (length out) m @ map Some v @ drop (length out + length v) m"])
    (auto simp: mem_write_def holds_def take_map min_def)

lemma holds_forward:
  assumes "holds m out" "0 < off" "off \<le> length out" "length out + len \<le> length m"
  shows "\<exists>m'. forward_copy_ptr m (length out) off len = Some m' \<and> length m' = length m \<and>
    holds m' (lz_copy out off len)"
  unfolding forward_copy_ptr_def
proof (rule loop_total [where m = "\<lambda>(m', i). len - i" and
      I = "\<lambda>(m', i). i \<le> len \<and> length m' = length m \<and> holds m' (lz_copy out off i)"])
  show "case (m, 0) of (m', i) \<Rightarrow> i \<le> len \<and> length m' = length m \<and> holds m' (lz_copy out off i)"
    using assms by simp
  fix st :: "mem \<times> nat"
  obtain m1 i where st: "st = (m1, i)" by fastforce
  assume "case st of (m', i) \<Rightarrow> i \<le> len \<and> length m' = length m \<and> holds m' (lz_copy out off i)"
  then have I: "i \<le> len" "length m1 = length m" "holds m1 (lz_copy out off i)" by (auto simp: st)
  show "(\<exists>s'. forward_copy_step (length out) off len st = Some (Inl s') \<and>
        (case s' of (m', i) \<Rightarrow> i \<le> len \<and> length m' = length m \<and> holds m' (lz_copy out off i)) \<and>
        (case s' of (m', i) \<Rightarrow> len - i) < (case st of (m', i) \<Rightarrow> len - i)) \<or>
    (\<exists>r. forward_copy_step (length out) off len st = Some (Inr r) \<and>
        length r = length m \<and> holds r (lz_copy out off len))"
  proof (cases "i < len")
    case True
    let ?o = "lz_copy out off i"
    let ?b = "?o ! (length out - off + i)"
    have "length out - off + i < length ?o" using assms(2,3) by simp
    then have rd: "mem_read m1 (length out - off + i) 1 = Some [?b]"
      using holds_read [OF I(3), of "length out - off + i" 1]
      by (simp add: take_Suc_conv_app_nth flip: Cons_nth_drop_Suc)
    obtain m2 where m2: "mem_write m1 (length ?o) [?b] = Some m2" "length m2 = length m1"
      "holds m2 (?o @ take 1 [?b])"
      by (rule holds_write [OF I(3), of "[?b]" 1]) (use True I(2) assms(4) in auto)
    have "?o @ take 1 [?b] = lz_copy out off (Suc i)"
      using assms(3) by (simp add: lz_copy_Suc del: lz_copy.simps)
    with m2 rd True I assms(3) show ?thesis
      by (auto simp: forward_copy_step_def st usub_Some)
  next
    case False
    with I show ?thesis by (simp add: forward_copy_step_def st)
  qed
qed

lemma holds_copy_exact:
  assumes "holds m out" "0 < off" "off \<le> length out" "length out + len \<le> length m"
  shows "\<exists>m'. copy_exact m (length out) off len = Some m' \<and> length m' = length m \<and>
    holds m' (lz_copy out off len)"
proof (cases "len < off")
  case True
  let ?v = "take len (drop (length out - off) out)"
  have rd: "mem_read m (length out - off) len = Some ?v"
    using True assms by (intro holds_read) auto
  have lv: "length ?v = len" using True assms(3) by simp
  obtain m' where "mem_write m (length out) ?v = Some m'" "length m' = length m" "holds m' (out @ take len ?v)"
    by (rule holds_write [OF assms(1), of ?v len]) (use lv assms in auto)
  moreover have "length out - off + len \<le> length out" using True assms(3) by linarith
  ultimately show ?thesis
    using True rd assms
    by (simp add: copy_exact_def copy_nonoverlapping_def usub_Some lz_copy_disjoint
        del: diff_add_assoc2 Nat.diff_add_assoc2)
next
  case False
  with holds_forward [OF assms] show ?thesis by (simp add: copy_exact_def)
qed

lemma holds_copy_fast:
  assumes "holds m out" "0 < off" "off \<le> length out" "length out + len \<le> length m"
    and "length out + 16 \<le> length m"
  shows "\<exists>m'. copy_fast m (length out) off len = Some m' \<and> length m' = length m \<and>
    holds m' (lz_copy out off len)"
proof (cases "len < off \<and> len \<le> 16 \<and> 16 \<le> off")
  case True
  let ?v = "take 16 (drop (length out - off) out)"
  have rd: "mem_read m (length out - off) 16 = Some ?v"
    using True assms by (intro holds_read) auto
  have lv: "length ?v = 16" using True assms(3) by simp
  obtain m' where "mem_write m (length out) ?v = Some m'" "length m' = length m" "holds m' (out @ take len ?v)"
    by (rule holds_write [OF assms(1), of ?v len]) (use lv True assms in auto)
  with True rd assms show ?thesis
    by (simp add: copy_fast_def usub_Some lz_copy_disjoint min_def)
next
  case False
  with holds_copy_exact [OF assms(1-4)] show ?thesis by (auto simp: copy_fast_def)
qed

lemma native_bytes_le: "length v = 4 \<Longrightarrow> native_bytes False (of_le v) = v"
proof -
  assume l: "length v = 4"
  then obtain a b c d where v: "v = [a, b, c, d]"
    by (auto simp: numeral_eq_Suc length_Suc_conv)
  define w :: u32 where "w = of_le v"
  have bit_w: "bit w k \<longleftrightarrow> k div 8 < 4 \<and> bit (v ! (k div 8)) (k mod 8)" if "k < 32" for k
    unfolding w_def using bit_of_le [of k v, where 'a = 32] l that by simp
  have "ucast (drop_bit (8 * i) w) = v ! i" if "i < 4" for i
  proof (rule byte_eq_iff [THEN iffD2], intro allI impI)
    fix n :: nat assume n: "n < 8"
    have "(8 * i + n) div 8 = i" "(8 * i + n) mod 8 = n" using n by simp_all
    then show "bit (ucast (drop_bit (8 * i) w) :: byte) n = bit (v ! i) n"
      using n that bit_w [of "8 * i + n"] by (simp add: bit_simps)
  qed
  from this [of 0] this [of 1] this [of 2] this [of 3] show ?thesis
    unfolding w_def [symmetric] by (simp add: native_bytes_def v)
qed

end
