(* ===== verification/Decode_Refine.thy ===== *)
theory Decode_Refine
  imports Decode_Correct
begin

text \<open>
  The two loops of the decoder keep an invariant that relates the memory to the meaning of the
  block, so \<open>minlz_decode\<close> never faults and agrees with \<open>spec_decode\<close>. On a big-endian target the
  invariant keeps only what memory safety needs.
\<close>

section \<open>The invariant\<close>

definition dec_inv :: "bool \<Rightarrow> bytes \<Rightarrow> nat \<Rightarrow> dec_state \<Rightarrow> bool" where
  "dec_inv be src dlen st \<longleftrightarrow> (\<exists>out. length out = dpos st \<and> holds (dmem st) out \<and>
     length (dmem st) = dlen + 16 \<and> dpos st \<le> dlen \<and> spos st \<le> length src \<and> 0 < doff st \<and>
     (be \<or> spec_run src ([], 1) = spec_run (drop (spos st) src) (out, doff st)))"

text \<open>A source that does not mean an output of length \<open>dlen\<close>.\<close>

definition rejected :: "bytes \<Rightarrow> nat \<Rightarrow> bool" where
  "rejected src dlen \<longleftrightarrow> (\<forall>out. spec_decode src = Some out \<longrightarrow> length out \<noteq> dlen)"

lemma rejected_none: "spec_run src ([], 1) = None \<Longrightarrow> rejected src dlen"
  by (simp add: rejected_def spec_decode_def)

lemma rejected_long:
  assumes "spec_run src ([], 1) = spec_run r (out, off)" "dlen < length out"
  shows "rejected src dlen"
  using assms spec_run_length [of r "(out, off)"] by (fastforce simp: rejected_def spec_decode_def)

definition step_ok :: "bool \<Rightarrow> bytes \<Rightarrow> nat \<Rightarrow> dec_state \<Rightarrow> dec_step option \<Rightarrow> bool" where
  "step_ok be src dlen st r \<longleftrightarrow>
     (\<exists>st'. r = Some (Inl st') \<and> dec_inv be src dlen st' \<and> spos st < spos st') \<or>
     (\<exists>e. r = Some (Inr (Inl e)) \<and> (be \<or> rejected src dlen))"

text \<open>What a state that the loop is in means for the operation it has read.\<close>

lemma op_continues:
  assumes "spec_run src ([], 1) = spec_run (drop s src) (out, off)" "s < length src" "op_ok src s off opr"
  shows "spec_run src ([], 1) = (case op_step src opr out off of
    None \<Rightarrow> None | Some (st, r) \<Rightarrow> spec_run r st)"
  using assms by (simp add: spec_run_step op_ok_def)

section \<open>Literals and copies\<close>

lemma fast_lit_step:
  assumes out: "length out = dpos st" "holds (dmem st) out" "length (dmem st) = dlen + 16" "dpos st \<le> dlen"
    and s: "s < s'" "s' \<le> length src" "s = spos st" "0 < doff st" "0 < len"
    and spec: "be \<or> spec_run src ([], 1) = (case op_step src (OpLit len s') out (doff st) of
      None \<Rightarrow> None | Some (st, r) \<Rightarrow> spec_run r st)"
  shows "step_ok be src dlen st (do {
      rest \<leftarrow> usub dlen (dpos st);
      left \<leftarrow> usub (length src) s';
      if rest < len \<or> left < len then Some (Inr (Inl (Corrupt ''literal length out of bounds'')))
      else do {
        m \<leftarrow> copy_short_literal src (dmem st) (dpos st) len s';
        Some (Inl (st\<lparr>dmem := m, dpos := dpos st + len, spos := s' + len\<rparr>)) } })"
proof (cases "dlen - dpos st < len \<or> length src - s' < len")
  case True
  have "be \<or> rejected src dlen"
  proof (cases "length src < s' + len")
    case A: True
    then show ?thesis using spec by (auto intro: rejected_none)
  next
    case False
    with True s have "dlen < length (out @ take len (drop s' src))" using out by auto
    with False spec show ?thesis by (auto intro: rejected_long simp del: append.simps)
  qed
  with True out s show ?thesis by (auto simp: step_ok_def usub_Some)
next
  case False
  then have l: "dpos st + len \<le> dlen" "s' + len \<le> length src" using out s by auto
  obtain v where v: "copy_short_literal src (dmem st) (dpos st) len s' = mem_write (dmem st) (length out) v"
    "take len v = take len (drop s' src)" "len \<le> length v" "length v \<le> max 16 len"
  proof (cases "len \<le> 16 \<and> s' + 16 \<le> length src")
    case True
    then show ?thesis
      by (intro that [of "take 16 (drop s' src)"])
        (auto simp: copy_short_literal_def slice_Some out min_def)
  next
    case False
    then show ?thesis using l
      by (intro that [of "take len (drop s' src)"]) (auto simp: copy_short_literal_def slice_Some out)
  qed
  obtain m' where m': "mem_write (dmem st) (length out) v = Some m'" "length m' = length (dmem st)"
    "holds m' (out @ take len v)"
    by (rule holds_write [OF out(2), of v len]) (use v out l in auto)
  have "dec_inv be src dlen (st\<lparr>dmem := m', dpos := dpos st + len, spos := s' + len\<rparr>)"
    unfolding dec_inv_def
    using m' v out l s spec by (intro exI [of _ "out @ take len v"]) auto
  with False m' v out s l show ?thesis by (auto simp: step_ok_def usub_Some)
qed

lemma exec_copy_rejected:
  assumes "length out < off \<or> dlen < length out + len"
    and "be \<or> spec_run src ([], 1) = (case exec_copy out off len of
      None \<Rightarrow> None | Some st \<Rightarrow> spec_run r st)"
  shows "be \<or> rejected src dlen"
proof (cases "exec_copy out off len")
  case None
  with assms(2) show ?thesis by (auto intro: rejected_none)
next
  case (Some st')
  obtain o' off' where st': "st' = (o', off')" by fastforce
  have "off \<le> length out" using Some by (auto simp: exec_copy_def split: if_splits)
  then have "dlen < length o'"
    using exec_copy_length [of out off len o' off'] Some st' assms(1) by auto
  with assms(2) Some st' show ?thesis by (auto intro: rejected_long)
qed

lemma docopy_inv:
  assumes "length out = dpos st" "dpos st + len \<le> dlen" "doff st \<le> dpos st" "0 < doff st"
    and "length m' = dlen + 16" "holds m' (lz_copy out (doff st) len)" "spos st \<le> length src"
    and "be \<or> spec_run src ([], 1) = (case exec_copy out (doff st) len of
      None \<Rightarrow> None | Some st' \<Rightarrow> spec_run (drop (spos st) src) st')"
  shows "dec_inv be src dlen (st\<lparr>dmem := m', dpos := dpos st + len\<rparr>)"
  unfolding dec_inv_def
  using assms by (intro exI [of _ "lz_copy out (doff st) len"]) (auto simp: exec_copy_def)

lemma fast_docopy_ok:
  assumes out: "length out = dpos st" "holds (dmem st) out" "length (dmem st) = dlen + 16" "dpos st \<le> dlen"
    and s: "0 < doff st" "spos st0 < spos st" "spos st \<le> length src"
    and spec: "be \<or> spec_run src ([], 1) = (case exec_copy out (doff st) len of
      None \<Rightarrow> None | Some st' \<Rightarrow> spec_run (drop (spos st) src) st')"
  shows "step_ok be src dlen st0 (fast_docopy dlen len st)"
proof (cases "dpos st < doff st \<or> dlen - dpos st < len")
  case True
  then have "be \<or> rejected src dlen"
    using out by (intro exec_copy_rejected [OF _ spec]) auto
  with True out(4) show ?thesis by (auto simp: step_ok_def fast_docopy_def usub_Some)
next
  case False
  then have "dpos st + len \<le> dlen" using out(4) by linarith
  then obtain m' where m': "copy_fast (dmem st) (dpos st) (doff st) len = Some m'"
    "length m' = length (dmem st)" "holds m' (lz_copy out (doff st) len)"
    using holds_copy_fast [OF out(2), of "doff st" len] out s(1) False by auto
  have "dec_inv be src dlen (st\<lparr>dmem := m', dpos := dpos st + len\<rparr>)"
    by (rule docopy_inv [OF out(1)]) (use False m' out s spec in auto)
  with False m' out s show ?thesis by (auto simp: step_ok_def fast_docopy_def usub_Some)
qed

lemma tail_docopy_ok:
  assumes out: "length out = dpos st" "holds (dmem st) out" "length (dmem st) = dlen + 16" "dpos st \<le> dlen"
    and s: "0 < doff st" "spos st0 < spos st" "spos st \<le> length src"
    and spec: "be \<or> spec_run src ([], 1) = (case exec_copy out (doff st) len of
      None \<Rightarrow> None | Some st' \<Rightarrow> spec_run (drop (spos st) src) st')"
  shows "step_ok be src dlen st0 (tail_docopy dlen len st)"
proof (cases "dpos st < doff st \<or> dlen - dpos st < len")
  case True
  then have "be \<or> rejected src dlen"
    using out by (intro exec_copy_rejected [OF _ spec]) auto
  with True out(4) s(1) show ?thesis by (auto simp: step_ok_def tail_docopy_def usub_Some)
next
  case False
  then have "dpos st + len \<le> dlen" using out(4) by linarith
  then obtain m' where m': "copy_exact (dmem st) (dpos st) (doff st) len = Some m'"
    "length m' = length (dmem st)" "holds m' (lz_copy out (doff st) len)"
    using holds_copy_exact [OF out(2), of "doff st" len] out s(1) False by auto
  have "dec_inv be src dlen (st\<lparr>dmem := m', dpos := dpos st + len\<rparr>)"
    by (rule docopy_inv [OF out(1)]) (use False m' out s spec in auto)
  with False m' out s show ?thesis by (auto simp: step_ok_def tail_docopy_def usub_Some)
qed


section \<open>The steps of the loops\<close>

lemma dec_invE:
  assumes "dec_inv be src dlen st"
  obtains out where "length out = dpos st" "holds (dmem st) out" "length (dmem st) = dlen + 16"
    "dpos st \<le> dlen" "spos st \<le> length src" "0 < doff st"
    "be \<or> spec_run src ([], 1) = spec_run (drop (spos st) src) (out, doff st)"
  using assms by (auto simp: dec_inv_def)

lemma native_bytes_length: "length (native_bytes be v) = 4"
  by (simp add: native_bytes_def Let_def)

lemma fast_step_ok:
  assumes I: "dec_inv be src dlen st" and len: "16 \<le> length src"
  shows "step_ok be src dlen st (fast_step be src dlen (length src - 16) st) \<or>
    fast_step be src dlen (length src - 16) st = Some (Inr (Inr st))"
proof (cases "spos st \<le> length src - 16")
  case False
  then show ?thesis by (simp add: fast_step_def)
next
  case True
  obtain out where out: "length out = dpos st" "holds (dmem st) out" "length (dmem st) = dlen + 16"
    "dpos st \<le> dlen" and s: "spos st \<le> length src" "0 < doff st"
    and spec: "be \<or> spec_run src ([], 1) = spec_run (drop (spos st) src) (out, doff st)"
    using I by (rule dec_invE)
  from True len have s16: "spos st + 16 \<le> length src" by simp
  then obtain opr where opr: "fast_op src (spos st) (doff st) = Some opr" "op_ok src (spos st) (doff st) opr"
    using fast_op_ok s(2) by blast
  have spec1: "be \<or> spec_run src ([], 1) = (case op_step src opr out (doff st) of
      None \<Rightarrow> None | Some (st, r) \<Rightarrow> spec_run r st)"
    using spec op_continues [OF _ _ opr(2)] s16 by auto
  show ?thesis
  proof (cases opr)
    case (OpLit len s')
    with opr have w: "spos st < s'" "s' \<le> length src" "0 < len" by (auto simp: op_ok_def)
    from fast_lit_step [OF out w(1,2) refl s(2) w(3) spec1 [unfolded OpLit]] True
    show ?thesis by (simp add: fast_step_def opr(1) OpLit)
  next
    case (OpCopy k len off s')
    with opr have w: "spos st < s'" "s' \<le> spos st + 7" "s' \<le> length src" "k \<le> 4" "0 < k \<longrightarrow> 4 \<le> len" "0 < off"
      by (auto simp: op_ok_def)
    then have sk: "s' + k \<le> length src" "s' + 4 \<le> length src" using s16 by linarith+
    have spec2: "be \<or> spec_run src ([], 1) = (case exec_copy (out @ take k (drop s' src)) off len of
        None \<Rightarrow> None | Some st' \<Rightarrow> spec_run (drop (s' + k) src) st')"
      using spec1 sk(1) unfolding OpCopy by (auto split: option.splits)
    let ?st = "st\<lparr>spos := s', doff := off\<rparr>"
    have step: "fast_step be src dlen (length src - 16) st =
      (fast_fused be src dlen k ?st \<bind> (\<lambda>r. case r of
         Inl e \<Rightarrow> Some (Inr (Inl e)) | Inr st \<Rightarrow> fast_docopy dlen len st))"
      using True by (simp add: fast_step_def opr(1) OpCopy)
    show ?thesis
    proof (cases "k = 0")
      case True
      have "step_ok be src dlen st (fast_docopy dlen len ?st)"
        by (rule fast_docopy_ok [where out = out])
          (use out w spec2 True in \<open>auto cong: option.case_cong\<close>)
      then show ?thesis unfolding step by (simp add: fast_fused_def True)
    next
      case k: False
      show ?thesis
      proof (cases "dlen - dpos st < 4")
        case True
        have "be \<or> rejected src dlen"
          by (rule exec_copy_rejected [OF _ spec2]) (use True out w k sk in auto)
        then show ?thesis
          unfolding step using True out k by (simp add: fast_fused_def usub_Some step_ok_def)
      next
        case False
        define v where "v = take 4 (drop s' src)"
        have rd: "read_u32_le src s' = Some (of_le v)"
          using sk(2) by (simp add: read_u32_le_def slice_Some v_def)
        let ?w = "native_bytes be (of_le v)"
        obtain m' where m': "mem_write (dmem st) (length out) ?w = Some m'" "length m' = length (dmem st)"
          "holds m' (out @ take k ?w)"
          by (rule holds_write [OF out(2), of ?w k]) (use out w(4) native_bytes_length False in auto)
        let ?st' = "?st\<lparr>dmem := m', dpos := dpos st + k, spos := s' + k\<rparr>"
        have lv: "length v = 4" using sk(2) by (simp add: v_def)
        have "take k v = take k (drop s' src)" using w(4) by (simp add: v_def min_def)
        then have "be \<or> take k ?w = take k (drop s' src)"
          using native_bytes_le [OF lv] by (cases be) auto
        then have spec3: "be \<or> spec_run src ([], 1) = (case exec_copy (out @ take k ?w) off len of
            None \<Rightarrow> None | Some st' \<Rightarrow> spec_run (drop (s' + k) src) st')"
          using spec2 by auto
        have "step_ok be src dlen st (fast_docopy dlen len ?st')"
          by (rule fast_docopy_ok [where out = "out @ take k ?w"])
            (use out w sk m' spec3 False native_bytes_length in \<open>auto cong: option.case_cong\<close>)
        then show ?thesis
          unfolding step using False out k rd m' by (simp add: fast_fused_def usub_Some)
      qed
    qed
  qed
qed

lemma tail_literal_inv:
  assumes out: "length out = dpos st" "holds (dmem st) out" "length (dmem st) = dlen + 16" "dpos st \<le> dlen"
    and len: "dpos st + len \<le> dlen" "s' + len \<le> length src"
  obtains m' where "slice src s' (s' + len) = Some (take len (drop s' src))"
    "mem_write (dmem st) (dpos st) (take len (drop s' src)) = Some m'" "length m' = length (dmem st)"
    "holds m' (out @ take len (drop s' src))"
proof -
  have l: "length (take len (drop s' src)) = len" using len by simp
  obtain m' where "mem_write (dmem st) (length out) (take len (drop s' src)) = Some m'"
    "length m' = length (dmem st)" "holds m' (out @ take len (take len (drop s' src)))"
    by (rule holds_write [OF out(2), of "take len (drop s' src)" len]) (use l len out in auto)
  then show ?thesis using that len out(1) by (simp add: slice_Some)
qed

lemma tail_step_ok:
  assumes I: "dec_inv be src dlen st"
  shows "step_ok be src dlen st (tail_step src dlen st) \<or>
    tail_step src dlen st = Some (Inr (Inr st)) \<and> spos st = length src"
proof (cases "spos st < length src")
  case False
  with I show ?thesis by (auto simp: tail_step_def dec_inv_def)
next
  case True
  obtain out where out: "length out = dpos st" "holds (dmem st) out" "length (dmem st) = dlen + 16"
    "dpos st \<le> dlen" and s: "spos st \<le> length src" "0 < doff st"
    and spec: "be \<or> spec_run src ([], 1) = spec_run (drop (spos st) src) (out, doff st)"
    using I by (rule dec_invE)
  from tail_op_ok [OF True s(2)] consider
    opr where "tail_op src (spos st) (doff st) = Some (Inr opr)" "op_ok src (spos st) (doff st) opr"
    | e where "tail_op src (spos st) (doff st) = Some (Inl e)" "\<forall>st'. token_step (drop (spos st) src) st' = None"
    by (auto simp: tail_agrees_def)
  then show ?thesis
  proof cases
    case (2 e)
    have "be \<or> rejected src dlen"
      using spec True 2(2) by (auto simp: spec_run_step intro: rejected_none)
    with 2 True show ?thesis by (simp add: tail_step_def step_ok_def)
  next
    case (1 opr)
    have spec1: "be \<or> spec_run src ([], 1) = (case op_step src opr out (doff st) of
        None \<Rightarrow> None | Some (st, r) \<Rightarrow> spec_run r st)"
      using spec op_continues [OF _ True 1(2)] by auto
    show ?thesis
    proof (cases opr)
      case (OpLit len s')
      with 1 have w: "spos st < s'" "s' \<le> length src" "0 < len" by (auto simp: op_ok_def)
      show ?thesis
      proof (cases "dlen - dpos st < len \<or> length src - s' < len")
        case F: True
        have "be \<or> rejected src dlen"
        proof (cases "length src < s' + len")
          case A: True
          then show ?thesis using spec1 OpLit by (auto intro: rejected_none)
        next
          case False
          with F w have "dlen < length (out @ take len (drop s' src))" using out by auto
          with False spec1 show ?thesis unfolding OpLit by (auto intro: rejected_long simp del: append.simps)
        qed
        with F True out w 1 show ?thesis
          by (auto simp: tail_step_def OpLit tail_literal_def step_ok_def usub_Some)
      next
        case F: False
        then have l: "dpos st + len \<le> dlen" "s' + len \<le> length src" using out w by auto
        obtain m' where m': "slice src s' (s' + len) = Some (take len (drop s' src))"
          "mem_write (dmem st) (dpos st) (take len (drop s' src)) = Some m'" "length m' = length (dmem st)"
          "holds m' (out @ take len (drop s' src))"
          by (rule tail_literal_inv [OF out l])
        have "dec_inv be src dlen (st\<lparr>dmem := m', dpos := dpos st + len, spos := s' + len\<rparr>)"
          unfolding dec_inv_def
          using m' out l s spec1 OpLit by (intro exI [of _ "out @ take len (drop s' src)"]) auto
        with F True m' out w 1 show ?thesis
          by (auto simp: tail_step_def OpLit tail_literal_def step_ok_def usub_Some)
      qed
    next
      case (OpCopy k len off s')
      with 1 have w: "spos st < s'" "s' \<le> length src" "k \<le> 4" "0 < k \<longrightarrow> 4 \<le> len" "0 < off"
        by (auto simp: op_ok_def)
      let ?st = "st\<lparr>spos := s', doff := off\<rparr>"
      have step: "tail_step src dlen st = (tail_fused src dlen k ?st \<bind> (\<lambda>r. case r of
           Inl e \<Rightarrow> Some (Inr (Inl e)) | Inr st \<Rightarrow> tail_docopy dlen len st))"
        using True 1 by (simp add: tail_step_def OpCopy)
      show ?thesis
      proof (cases "length src < s' + k")
        case A: True
        then have "be \<or> rejected src dlen" using spec1 OpCopy by (auto intro: rejected_none)
        moreover have "0 < k" using A w by simp
        ultimately show ?thesis
          unfolding step using A out by (simp add: tail_fused_def usub_Some step_ok_def)
      next
        case False
        then have spec2: "be \<or> spec_run src ([], 1) = (case exec_copy (out @ take k (drop s' src)) off len of
            None \<Rightarrow> None | Some st' \<Rightarrow> spec_run (drop (s' + k) src) st')"
          using spec1 unfolding OpCopy by (auto split: option.splits)
        show ?thesis
        proof (cases "dlen - dpos st < k")
          case A: True
          have "be \<or> rejected src dlen"
            by (rule exec_copy_rejected [OF _ spec2]) (use A False out in auto)
          with A show ?thesis
            unfolding step using False out by (auto simp: tail_fused_def usub_Some step_ok_def)
        next
          case B: False
          then have l: "dpos st + k \<le> dlen" "s' + k \<le> length src" using False out by auto
          obtain m' where m': "slice src s' (s' + k) = Some (take k (drop s' src))"
            "mem_write (dmem st) (dpos st) (take k (drop s' src)) = Some m'" "length m' = length (dmem st)"
            "holds m' (out @ take k (drop s' src))"
            by (rule tail_literal_inv [OF out l])
          let ?st' = "if 0 < k then ?st\<lparr>dmem := m', dpos := dpos st + k, spos := s' + k\<rparr> else ?st"
          have f: "tail_fused src dlen k ?st = Some (Inr ?st')"
            using B l out m' by (simp add: tail_fused_def usub_Some)
          have "step_ok be src dlen st (tail_docopy dlen len ?st')"
            by (rule tail_docopy_ok [where out = "out @ take k (drop s' src)"])
              (use out w l m' spec2 in \<open>auto cong: option.case_cong\<close>)
          then show ?thesis unfolding step f by simp
        qed
      qed
    qed
  qed
qed


section \<open>The decoder\<close>

lemma rejected_mismatch:
  assumes "spec_run src ([], 1) = Some (out, off)" "length out \<noteq> dlen"
  shows "rejected src dlen"
  using assms by (simp add: rejected_def spec_decode_def)

lemma fast_loop_ok:
  assumes "dec_inv be src dlen st" "16 \<le> length src"
  shows "\<exists>r. loop (fast_step be src dlen (length src - 16)) st = Some r \<and>
    (case r of Inl e \<Rightarrow> be \<or> rejected src dlen | Inr st' \<Rightarrow> dec_inv be src dlen st')"
proof (rule loop_total [where I = "dec_inv be src dlen" and m = "\<lambda>st. length src - spos st"])
  fix st assume I: "dec_inv be src dlen st"
  from fast_step_ok [OF I assms(2)] I
  show "(\<exists>s'. fast_step be src dlen (length src - 16) st = Some (Inl s') \<and> dec_inv be src dlen s' \<and>
      length src - spos s' < length src - spos st) \<or>
    (\<exists>r. fast_step be src dlen (length src - 16) st = Some (Inr r) \<and>
      (case r of Inl e \<Rightarrow> be \<or> rejected src dlen | Inr st' \<Rightarrow> dec_inv be src dlen st'))"
    by (fastforce simp: step_ok_def dec_inv_def)
qed fact

lemma tail_loop_ok:
  assumes "dec_inv be src dlen st"
  shows "\<exists>r. loop (tail_step src dlen) st = Some r \<and>
    (case r of Inl e \<Rightarrow> be \<or> rejected src dlen
     | Inr st' \<Rightarrow> dec_inv be src dlen st' \<and> spos st' = length src)"
proof (rule loop_total [where I = "dec_inv be src dlen" and m = "\<lambda>st. length src - spos st"])
  fix st assume I: "dec_inv be src dlen st"
  from tail_step_ok [OF I] I
  show "(\<exists>s'. tail_step src dlen st = Some (Inl s') \<and> dec_inv be src dlen s' \<and>
      length src - spos s' < length src - spos st) \<or>
    (\<exists>r. tail_step src dlen st = Some (Inr r) \<and>
      (case r of Inl e \<Rightarrow> be \<or> rejected src dlen
       | Inr st' \<Rightarrow> dec_inv be src dlen st' \<and> spos st' = length src))"
    by (fastforce simp: step_ok_def dec_inv_def)
qed fact

lemma minlz_decode_ok:
  assumes "length m = dlen + OVERSHOOT_PAD"
  obtains e where "minlz_decode be m dlen src = Some (Inl e)" "be \<or> rejected src dlen"
  | m' out where "minlz_decode be m dlen src = Some (Inr m')" "length m' = length m" "holds m' out"
    "length out = dlen" "be \<or> spec_decode src = Some out"
proof -
  define st where "st = \<lparr>dmem = m, dpos = 0, spos = 0, doff = 1\<rparr>"
  have I: "dec_inv be src dlen st"
    unfolding dec_inv_def st_def using assms by (intro exI [of _ "[]"]) (auto simp: holds_def OVERSHOOT_PAD_def)
  have "\<exists>r. (if 16 \<le> length src then loop (fast_step be src dlen (length src - 16)) st else Some (Inr st)) = Some r \<and>
      (case r of Inl e \<Rightarrow> be \<or> rejected src dlen | Inr st' \<Rightarrow> dec_inv be src dlen st')"
    using fast_loop_ok [OF I] I by auto
  then obtain r where r: "(if 16 \<le> length src then loop (fast_step be src dlen (length src - 16)) st
      else Some (Inr st)) = Some r"
    "case r of Inl e \<Rightarrow> be \<or> rejected src dlen | Inr st' \<Rightarrow> dec_inv be src dlen st'" by blast
  show ?thesis
  proof (cases r)
    case (Inl e)
    with r show ?thesis by (intro that(1) [of e]) (simp_all add: minlz_decode_def Let_def st_def [symmetric] del: One_nat_def)
  next
    case (Inr st1)
    with r have "dec_inv be src dlen st1" by simp
    from tail_loop_ok [OF this] obtain r2 where r2: "loop (tail_step src dlen) st1 = Some r2"
      "case r2 of Inl e \<Rightarrow> be \<or> rejected src dlen | Inr st' \<Rightarrow> dec_inv be src dlen st' \<and> spos st' = length src"
      by blast
    show ?thesis
    proof (cases r2)
      case (Inl e)
      with r r2 Inr show ?thesis by (intro that(1) [of e]) (simp_all add: minlz_decode_def Let_def st_def [symmetric] del: One_nat_def)
    next
      case R2: (Inr st2)
      with r2(2) have I2: "dec_inv be src dlen st2" and e: "spos st2 = length src" by simp_all
      from I2 obtain out where out: "length out = dpos st2" "holds (dmem st2) out" "length (dmem st2) = dlen + 16"
        and spec: "be \<or> spec_run src ([], 1) = spec_run (drop (spos st2) src) (out, doff st2)"
        by (rule dec_invE)
      have spec: "be \<or> spec_run src ([], 1) = Some (out, doff st2)" using spec e by simp
      have dec: "minlz_decode be m dlen src = (if dpos st2 \<noteq> dlen
          then Some (Inl (Corrupt ''output length mismatch'')) else Some (Inr (dmem st2)))"
        using r r2 Inr R2 by (simp add: minlz_decode_def Let_def st_def [symmetric] del: One_nat_def)
      show ?thesis
      proof (cases "dpos st2 = dlen")
        case True
        with out spec dec assms show ?thesis
          by (intro that(2) [of "dmem st2" out]) (auto simp: spec_decode_def OVERSHOOT_PAD_def)
      next
        case False
        with out have "be \<or> rejected src dlen" using spec rejected_mismatch by auto
        with False dec show ?thesis by (intro that(1)) auto
      qed
    qed
  qed
qed

end
