(* ===== verification/Encode_Room.thy ===== *)
theory Encode_Room
  imports Encode_Common
begin

text \<open>
  What the correctness proofs of the encoders share: the arithmetic of the slice they write to (how
  far a checked or an unchecked emission can carry the output position beyond \<open>dst_limit\<close>), the
  matches that backward and forward extension give, and the tables of positions.
\<close>

section \<open>Room in the slice\<close>

text \<open>The slice holds at least \<open>n + 1\<close> bytes less the bytes of the length header.\<close>

definition room :: "nat \<Rightarrow> nat \<Rightarrow> bool" where
  "room n cap \<longleftrightarrow> n + 1 \<le> cap + (if n < 128 then 1 else if n < 16384 then 2 else if n < 2097152 then 3 else 4)"

definition limit :: "nat \<Rightarrow> nat" where "limit n = n - n div 32 - 6"

text \<open>
  How far the output may be when the encoder searches: small inputs never expand; on larger ones
  a repeat may carry the position a few bytes beyond the limit.
\<close>

definition budget :: "nat \<Rightarrow> nat \<Rightarrow> nat \<Rightarrow> bool" where
  "budget n d ne \<longleftrightarrow> (n < 288 \<longrightarrow> d \<le> ne) \<and>
     (288 \<le> n \<longrightarrow> d \<le> limit n + (if n < 571 then 5 else 8))"

lemma limit_slack:
  assumes "16 \<le> n" "n \<le> 8388608" "room n cap"
  shows "limit n + 6 \<le> cap" "288 \<le> n \<Longrightarrow> limit n + 14 \<le> cap" "320 \<le> n \<Longrightarrow> limit n + 15 \<le> cap"
    "571 \<le> n \<Longrightarrow> limit n + 22 \<le> cap" "limit n \<le> n"
proof -
  define q where "q = n div 32"
  have d: "32 * q \<le> n" "n < 32 * q + 32" unfolding q_def by simp_all
  have lim: "limit n + q + 6 = n" using d assms(1) unfolding limit_def q_def [symmetric] by linarith
  have r: "n + 1 \<le> cap + (if n < 128 then 1 else if n < 16384 then 2 else if n < 2097152 then 3 else 4)"
    using assms(3) by (simp add: room_def)
  then have r: "n + 1 \<le> cap + 4" "n < 128 \<Longrightarrow> n \<le> cap" "n < 16384 \<Longrightarrow> n \<le> cap + 1"
    by (auto split: if_splits)
  show "limit n + 6 \<le> cap" using d lim r by (cases "n < 128"; cases "n < 16384"; linarith)
  show "288 \<le> n \<Longrightarrow> limit n + 14 \<le> cap" using d lim r by (cases "n < 16384"; linarith)
  show "320 \<le> n \<Longrightarrow> limit n + 15 \<le> cap" using d lim r by (cases "n < 16384"; linarith)
  show "571 \<le> n \<Longrightarrow> limit n + 22 \<le> cap" using d lim r by (cases "n < 16384"; linarith)
  show "limit n \<le> n" using lim by linarith
qed

lemma lit_code_le:
  "length (lit_code l) \<le> length l + 4" "length l \<le> 284 \<Longrightarrow> length (lit_code l) \<le> length l + 2"
  "length l \<le> 65565 \<Longrightarrow> length (lit_code l) \<le> length l + 3"
  "length l \<le> 29 \<Longrightarrow> length (lit_code l) \<le> length l + 1"
  by (simp_all add: length_lit_code)

lemma rep_code_le:
  "length (rep_code m) \<le> 4" "m \<le> 29 \<Longrightarrow> length (rep_code m) \<le> 1"
  "m \<le> 285 \<Longrightarrow> length (rep_code m) \<le> 2" "m \<le> 65565 \<Longrightarrow> length (rep_code m) \<le> 3"
  by (simp_all add: length_rep_code)

lemma small_room: "n < 288 \<Longrightarrow> room n cap \<Longrightarrow> d < n \<Longrightarrow> d \<le> cap"
  by (auto simp: room_def split: if_splits)

text \<open>An emission that starts within the limit with its literals has this much room left.\<close>

lemma within_room:
  assumes "16 \<le> n" "n \<le> 8388608" "room n cap" "d + k \<le> limit n"
    and "c \<le> k + 14" "n < 288 \<Longrightarrow> c \<le> k + 6"
  shows "d + c \<le> cap"
  using limit_slack(1,2) [OF assms(1-3)] assms(4-6) by (cases "n < 288") auto

lemma lit_rep_length:
  assumes "length lit = k" "k + m \<le> n" "4 \<le> m"
  shows "length (lit_code lit) + length (rep_code m) \<le> k + 8"
    "n < 571 \<Longrightarrow> length (lit_code lit) + length (rep_code m) \<le> k + 5"
    "n < 288 \<Longrightarrow> length (lit_code lit) + length (rep_code m) \<le> k + 4 \<and>
      length (lit_code lit) + length (rep_code m) \<le> k + m"
proof -
  show "length (lit_code lit) + length (rep_code m) \<le> k + 8"
    using lit_code_le(1) [of lit] rep_code_le(1) [of m] assms(1) by simp
  show "length (lit_code lit) + length (rep_code m) \<le> k + 5" if "n < 571"
  proof (cases "k \<le> 284")
    case True
    then show ?thesis using lit_code_le(2) [of lit] rep_code_le(4) [of m] that assms by simp
  next
    case False
    then show ?thesis using lit_code_le(3) [of lit] rep_code_le(3) [of m] that assms by simp
  qed
  show "length (lit_code lit) + length (rep_code m) \<le> k + 4 \<and>
      length (lit_code lit) + length (rep_code m) \<le> k + m" if "n < 288"
  proof (cases "m \<le> 29")
    case True
    then show ?thesis using lit_code_le(2) [of lit] rep_code_le(2) [of m] that assms by simp
  next
    case False
    show ?thesis
    proof (cases "m \<le> 285")
      case True
      then show ?thesis using lit_code_le(2) [of lit] rep_code_le(3) [of m] that assms \<open>\<not> m \<le> 29\<close> by simp
    next
      case False
      then show ?thesis using lit_code_le(4) [of lit] rep_code_le(4) [of m] that assms by simp
    qed
  qed
qed

lemma lit_rep_fits:
  assumes "16 \<le> n" "n \<le> 8388608" "room n cap" "budget n d ne"
    and "d + k \<le> limit n" "length lit = k" "ne + k + m \<le> n" "4 \<le> m"
  shows "d + length (lit_code lit) + length (rep_code m) \<le> cap"
    "budget n (d + length (lit_code lit) + length (rep_code m)) (ne + k + m)"
proof -
  have "k + m \<le> n" using assms(7) by simp
  note len = lit_rep_length [OF assms(6) this assms(8)]
  have len3: "length (lit_code lit) + length (rep_code m) \<le> k + 4"
    "length (lit_code lit) + length (rep_code m) \<le> k + m" if "n < 288" using len(3) [OF that] by simp_all
  show "d + length (lit_code lit) + length (rep_code m) \<le> cap"
    using within_room [OF assms(1-3,5), of "length (lit_code lit) + length (rep_code m)"] len(1) len3(1)
    by (cases "n < 288") simp_all
  show "budget n (d + length (lit_code lit) + length (rep_code m)) (ne + k + m)"
    using len(1,2) len3(2) assms(4,5) unfolding budget_def by auto
qed

lemma copy_code_le: "4 \<le> m \<Longrightarrow> length (copy_code off m) \<le> 7"
  "m < 288 \<Longrightarrow> off \<le> 1024 \<Longrightarrow> length (copy_code off m) \<le> 4"
  "4 \<le> m \<Longrightarrow> m < 288 \<Longrightarrow> off \<le> 1024 \<Longrightarrow> length (copy_code off m) + 2 \<le> m"
  by (auto simp: length_copy_code length_rep_code format_consts)

lemma lit_copy_room:
  assumes "16 \<le> n" "n \<le> 8388608" "room n cap"
    and "d + k \<le> limit n" "length lit = k" "k + m \<le> n" "4 \<le> m" "off \<le> n"
  shows "d + length (lit_code lit) + length (copy_code off m) \<le> cap"
proof -
  have "length (lit_code lit) + length (copy_code off m) \<le> k + 6" if "n < 288"
    using lit_code_le(2) [of lit] copy_code_le(2) [of m off] that assms(5-8) by simp
  then have "d + (length (lit_code lit) + length (copy_code off m)) \<le> cap"
    using lit_code_le(1) [of lit] copy_code_le(1) [of m off] assms(5,7)
    by (intro within_room [OF assms(1-4)]) auto
  then show ?thesis by simp
qed

lemma lit_copy_fits:
  assumes "16 \<le> n" "n \<le> 8388608" "room n cap" "budget n d ne"
    and "d + k \<le> limit n" "length lit = k" "ne + k + m \<le> n" "4 \<le> m" "off \<le> n"
  shows "d + length (lit_code lit) + length (copy_code off m) \<le> cap"
    "n < 288 \<longrightarrow> d + length (lit_code lit) + length (copy_code off m) \<le> ne + k + m"
proof -
  show "d + length (lit_code lit) + length (copy_code off m) \<le> cap"
    by (rule lit_copy_room [OF assms(1-3,5,6) _ assms(8,9)]) (use assms(7) in simp)
  show "n < 288 \<longrightarrow> d + length (lit_code lit) + length (copy_code off m) \<le> ne + k + m"
    using lit_code_le(2) [of lit] copy_code_le(3) [of m off] assms(4,6-9) unfolding budget_def by auto
qed

lemma copy_fits:
  assumes "16 \<le> n" "n \<le> 8388608" "room n cap" "budget n d ne"
    and "ne + m \<le> n" "4 \<le> m" "off \<le> n"
  shows "d + length (copy_code off m) \<le> cap" "n < 288 \<longrightarrow> d + length (copy_code off m) \<le> ne + m"
proof -
  note s = limit_slack [OF assms(1-3)]
  have c: "length (copy_code off m) \<le> 7" "n < 288 \<Longrightarrow> length (copy_code off m) + 2 \<le> m"
    using copy_code_le [of m off] assms(5-7) by auto
  show n: "n < 288 \<longrightarrow> d + length (copy_code off m) \<le> ne + m"
    using c assms(4) unfolding budget_def by linarith
  show "d + length (copy_code off m) \<le> cap"
  proof (cases "n < 288")
    case True
    then have "d + length (copy_code off m) < n" using c(2) assms(4,5) unfolding budget_def by linarith
    with small_room [OF True assms(3)] show ?thesis .
  next
    case False
    then show ?thesis using c s assms(4) unfolding budget_def by (cases "n < 571") auto
  qed
qed

lemma fused_fits:
  assumes "16 \<le> n" "n \<le> 8388608" "room n cap" "budget n d ne"
    and "ne + k + m \<le> n" "4 \<le> m" "64 \<le> ne + k" "k \<le> 4"
    and c: "c \<le> k + 7" "n < 571 \<Longrightarrow> c \<le> k + 3 + (if m \<le> 11 then 0 else if m \<le> 40 then 1 else if m \<le> 296 then 2 else 3)"
  shows "d + c \<le> cap" "n < 288 \<longrightarrow> d + c \<le> ne + k + m"
proof -
  note s = limit_slack [OF assms(1-3)]
  have c1: "c < k + m" if "n < 288" using that c(2) assms(5-7) by (auto split: if_splits)
  show "n < 288 \<longrightarrow> d + c \<le> ne + k + m"
    using c1 assms(4) unfolding budget_def by linarith
  show "d + c \<le> cap"
  proof (cases "n < 288")
    case True
    then have "d + c < n" using c1 assms(4,5) unfolding budget_def by linarith
    with small_room [OF True assms(3)] show ?thesis .
  next
    case F: False
    consider "n < 320" | "320 \<le> n" "n < 571" | "571 \<le> n" by linarith
    then show ?thesis
    proof cases
      case 1
      then have "c \<le> 9" using c(2) assms(5-8) by (auto split: if_splits)
      then show ?thesis using s(2) F 1 assms(4) unfolding budget_def by simp
    next
      case 2
      then have "c \<le> 10" using c(2) assms(8) by (auto split: if_splits)
      then show ?thesis using s(3) F 2 assms(4) unfolding budget_def by simp
    next
      case 3
      then show ?thesis using s(4) F c(1) assms(4,8) unfolding budget_def by simp
    qed
  qed
qed

lemma rest_fits:
  assumes "16 \<le> n" "n \<le> 8388608" "room n cap" "d + length lit \<le> limit n"
  shows "d + length (lit_code lit) \<le> cap"
  using limit_slack(1) [OF assms(1-3)] lit_code_le(1) [of lit] assms(4) by simp


definition fused_bound :: "nat \<Rightarrow> nat" where
  "fused_bound m = (if m \<le> 11 then 0 else if m \<le> 40 then 1 else if m \<le> 296 then 2 else 3)"

text \<open>The code of a fused emission that chooses between the two kinds by the offset.\<close>

definition fused_code_big :: "bytes \<Rightarrow> nat \<Rightarrow> nat \<Rightarrow> bytes" where
  "fused_code_big lit off m = (if off \<le> MAX_COPY2_OFFSET then lits2_code lit off m else lits3_code lit off m)"

lemma lits2_length_bounds:
  "length (lits2_code lit off m) \<le> length lit + 7"
  "m < 571 \<Longrightarrow> length (lits2_code lit off m) \<le> length lit + 3 + fused_bound m"
  by (auto simp: length_lits2_code length_rep_code fused_bound_def)

section \<open>Matches\<close>

text \<open>
  The contract of a forward extension, which both loops keep, and the matches it completes: one
  found at the repeat offset, and one found at a candidate position.
\<close>

locale extender =
  fixes extend :: "bytes \<Rightarrow> nat \<Rightarrow> nat \<Rightarrow> nat option"
  assumes extends: "cand < s \<Longrightarrow> s \<le> length src \<Longrightarrow> \<exists>s'. extend src s cand = Some s' \<and> stops src s cand s'"
begin

lemma match_from_repeat:
  assumes "same src (p - r) p 4" "0 < r" "r \<le> p" "p + 4 \<le> length src" "ne \<le> p"
  obtains i base s' where "extend_back src ne (p - r) p = Some (i, base)"
    "extend src (p + 4) (p - r + 4) = Some s'" "ne \<le> base" "base \<le> p" "p + 4 \<le> s'" "s' \<le> length src"
    "is_match src base r (s' - base)"
proof -
  obtain k where k: "extend_back src ne (p - r) p = Some (p - r - k, p - k)" "k \<le> p - r" "ne \<le> p - k"
    "same src (p - r - k) (p - k) k"
    using extend_back_ok [of "p - r" p src ne] assms by auto
  obtain s' where s': "extend src (p + 4) (p - r + 4) = Some s'" "p + 4 \<le> s'" "s' \<le> length src"
    "same src (p - r + 4) (p + 4) (s' - (p + 4))"
    using extends [of "p - r + 4" "p + 4" src] assms by (auto simp: stops_def)
  have "same src (p - r - k + k) (p - k + k) 4" using assms(1,3) k(2) by simp
  from same_extend [OF k(4) this] have s1: "same src (p - r - k) (p - k) (k + 4)" .
  have "same src (p - r - k + (k + 4)) (p - k + (k + 4)) (s' - (p + 4))"
    using s'(4) assms(3) k(2) by (simp add: add.assoc [symmetric])
  from same_extend [OF s1 this] have "same src (p - k - r) (p - k) (s' - (p - k))"
    using k(2) s'(2) by (simp add: algebra_simps)
  then have "is_match src (p - k) r (s' - (p - k))"
    using assms(2,3) k(2) s'(2,3) by (auto simp: is_match_def)
  with k s' show ?thesis using that by simp
qed

lemma match_from_candidate:
  assumes "same src c p 4" "c < p" "p + 4 \<le> length src" "ne \<le> p"
  obtains cp base s' where "extend_back src ne c p = Some (cp, base)" "cp \<le> base" "base - cp = p - c"
    "extend src (base + 4) (cp + 4) = Some s'" "ne \<le> base" "base \<le> p" "base + 4 \<le> s'" "s' \<le> length src"
    "is_match src base (p - c) (s' - base)" "p + 4 \<le> s' \<or> length src < s' + 8"
proof -
  obtain k where k: "extend_back src ne c p = Some (c - k, p - k)" "k \<le> c" "ne \<le> p - k"
    "same src (c - k) (p - k) k"
    using extend_back_ok [of c p src ne] assms by auto
  let ?b = "p - k" and ?c = "c - k"
  obtain s' where s': "extend src (?b + 4) (?c + 4) = Some s'" "?b + 4 \<le> s'" "s' \<le> length src"
    "same src (?c + 4) (?b + 4) (s' - (?b + 4))"
    "s' + 8 \<le> length src \<longrightarrow> src ! (?c + 4 + (s' - (?b + 4))) \<noteq> src ! s'"
  proof -
    have "?c + 4 < ?b + 4" "?b + 4 \<le> length src" using assms k(2) by auto
    from extends [OF this] show ?thesis using that unfolding stops_def by blast
  qed
  have "same src (?c + k) (?b + k) 4" using assms(1,2) k(2) by simp
  from same_extend [OF k(4) this] have s1: "same src ?c ?b (k + 4)" .
  then have "same src ?c ?b 4" by (rule same_take) simp
  from same_extend [OF this s'(4)] have s2: "same src ?c ?b (s' - ?b)" using s'(2) by simp
  have off: "?b - ?c = p - c" "?c \<le> ?b" using k(2) assms(2) by simp_all
  then have "is_match src ?b (p - c) (s' - ?b)"
    using assms(2) k(2) s'(2,3) s2 by (auto simp: is_match_def)
  moreover have "p + 4 \<le> s' \<or> length src < s' + 8"
  proof (rule ccontr)
    assume "\<not> ?thesis"
    then have lt: "s' - ?b < k + 4" and le: "s' + 8 \<le> length src" using k(2) assms(2) s'(2) by linarith+
    have "?c + (s' - ?b) = ?c + 4 + (s' - (?b + 4))" "?b + (s' - ?b) = s'" using s'(2) by linarith+
    with s1 lt s'(5) le show False unfolding same_def by metis
  qed
  ultimately show ?thesis using that [of ?c ?b s'] k off s' by simp
qed

end

interpretation fwd: extender extend_fwd
  by unfold_locales (rule extend_fwd_ok)

interpretation full: extender extend_full
  by unfold_locales (rule extend_full_ok)

section \<open>Tables\<close>

definition tbl_ok :: "nat \<Rightarrow> nat \<Rightarrow> nat list \<Rightarrow> bool" where
  "tbl_ok bits bound t \<longleftrightarrow> length t = 2 ^ bits \<and> (\<forall>x \<in> set t. x < bound)"

lemma tbl_ok_mono: "tbl_ok bits a t \<Longrightarrow> a \<le> b \<Longrightarrow> tbl_ok bits b t"
  by (fastforce simp: tbl_ok_def)

lemma tbl_ok_idx: "tbl_ok bits b t \<Longrightarrow> h < 2 ^ bits \<Longrightarrow> idx t h = Some (t ! h) \<and> t ! h < b"
  by (auto simp: tbl_ok_def idx_def)

text \<open>The encoder between two operations: what is written means the input up to \<open>nemit\<close>.\<close>

definition enc_state_ok :: "bytes \<Rightarrow> nat \<Rightarrow> 'a enc_state_scheme \<Rightarrow> bool" where
  "enc_state_ok src cap st \<longleftrightarrow>
     length (outb st) = cap \<and> enc_ok src (outb st) (opos st) (nemit st) (rept st)"

lemma remainder_ok:
  assumes g: "16 \<le> length src" "length src \<le> 8388608" "room (length src) cap"
    and st: "enc_state_ok src cap st"
  shows "\<exists>out d. emit_remainder src st = Some (out, d) \<and> length out = cap \<and>
    (d = 0 \<or> d \<le> cap \<and> spec_decode (take d out) = Some src)"
proof -
  have lim: "DST_LIMIT src = limit (length src)" and g2: "length src \<le> MAX_BLOCK_SIZE"
    using g(2) by (simp_all add: DST_LIMIT_def limit_def format_consts)
  have e: "enc_ok src (outb st) (opos st) (nemit st) (rept st)" "length (outb st) = cap"
    using st by (auto simp: enc_state_ok_def)
  have fin: "d \<le> cap \<and> spec_decode (take d out) = Some src"
    if "enc_ok src out d (length src) r" "length out = cap" for out d r
    using that by (simp add: enc_ok_def spec_decode_def)
  have le: "nemit st \<le> length src" using e by (simp add: enc_ok_def)
  show ?thesis
  proof (cases "nemit st < length src")
    case False
    with le e fin [of "outb st" "opos st" "rept st"] show ?thesis by (simp add: emit_remainder_def)
  next
    case True
    define lit where "lit = drop (nemit st) src"
    have u: "usub (opos st + length src) (nemit st) = Some (opos st + (length src - nemit st))"
      using True by (simp add: usub_Some)
    have f: "emit_remainder src st = (if DST_LIMIT src < opos st + (length src - nemit st) then Some (outb st, 0)
        else emit_at (opos st) (\<lambda>dst. emit_literal dst lit) (outb st))"
      using True by (simp add: emit_remainder_def u slice_from_Some lit_def)
    show ?thesis
    proof (cases "DST_LIMIT src < opos st + (length src - nemit st)")
      case True
      with f e show ?thesis by simp
    next
      case False
      then have "opos st + length lit \<le> limit (length src)" using lim by (simp add: lit_def)
      from rest_fits [OF g this] have f1: "opos st + length (lit_code lit) \<le> length (outb st)"
        using e(2) by simp
      have l: "lit = take (length src - nemit st) (drop (nemit st) src)" by (simp add: lit_def)
      obtain out where "emit_at (opos st) (\<lambda>dst. emit_literal dst lit) (outb st) = Some (out, opos st + length (lit_code lit))"
        "length out = length (outb st)" "enc_ok src out (opos st + length (lit_code lit)) (length src) (rept st)"
        by (rule enc_literal [OF e(1) le order_refl g2 l f1])
      with False f e(2) fin show ?thesis by fastforce
    qed
  qed
qed

text \<open>The subtractions and the load with which every encoder starts.\<close>

lemma encode_prologue:
  assumes "16 \<le> length src"
  shows "usub (length src) INPUT_MARGIN = Some (length src - INPUT_MARGIN)"
    "usub (length src) (length src div 2 ^ 5) = Some (length src - length src div 2 ^ 5)"
    "usub (length src - length src div 2 ^ 5) 6 = Some (length src - length src div 2 ^ 5 - 6)"
    "load64 src 1 = Some (word_at 8 src 1)"
proof -
  have "length src div 32 + 6 \<le> length src" using assms by linarith
  then show "usub (length src) INPUT_MARGIN = Some (length src - INPUT_MARGIN)"
    "usub (length src) (length src div 2 ^ 5) = Some (length src - length src div 2 ^ 5)"
    "usub (length src - length src div 2 ^ 5) 6 = Some (length src - length src div 2 ^ 5 - 6)"
    "load64 src 1 = Some (word_at 8 src 1)"
    using assms by (simp_all add: usub_Some format_consts load64_def word_at_def)
qed

end
