(* ===== verification/Encode_L1_Correct.thy ===== *)
theory Encode_L1_Correct
  imports Encode_L1 Encode_Room
begin

text \<open>
  The fastest encoder never faults on a slice of the size its callers provide, and what it writes
  means its input.
\<close>

section \<open>Invariants\<close>

definition search_inv :: "nat \<Rightarrow> bytes \<Rightarrow> nat \<Rightarrow> nat \<Rightarrow> l1_state \<Rightarrow> bool" where
  "search_inv bits src cap s0 st \<longleftrightarrow> s0 \<le> cur st \<and> 0 < cur st \<and> cur st + 8 \<le> length src \<and>
     cv st = word_at 8 src (cur st) \<and> nemit st \<le> cur st \<and> rept st \<le> cur st \<and>
     tbl_ok bits (cur st) (tbl st) \<and> enc_state_ok src cap st \<and>
     budget (length src) (opos st) (nemit st)"

definition found_inv :: "nat \<Rightarrow> bytes \<Rightarrow> nat \<Rightarrow> nat \<Rightarrow> nat \<Rightarrow> l1_state \<Rightarrow> bool" where
  "found_inv bits src cap s0 c st \<longleftrightarrow> s0 \<le> cur st \<and> c < cur st \<and> cur st + 8 \<le> length src \<and>
     same src c (cur st) 4 \<and> cur st - c \<le> MAX_COPY3_OFFSET \<and> nemit st \<le> cur st \<and>
     tbl_ok bits (cur st + 4) (tbl st) \<and> enc_state_ok src cap st \<and>
     budget (length src) (opos st) (nemit st)"

definition imm_inv :: "nat \<Rightarrow> bytes \<Rightarrow> nat \<Rightarrow> nat \<Rightarrow> l1_state \<Rightarrow> bool" where
  "imm_inv bits src cap s0 st \<longleftrightarrow> (cur st + 8 < length src \<longrightarrow> s0 \<le> cur st) \<and> 4 \<le> cur st \<and> cur st \<le> length src \<and> rept st \<le> cur st \<and>
     enc_state_ok src cap (st\<lparr>nemit := cur st\<rparr>) \<and> (length src < 288 \<longrightarrow> opos st \<le> cur st) \<and>
     (cur st + 8 < length src \<longrightarrow> tbl_ok bits (cur st) (tbl st))"

fun search_exit_ok :: "nat \<Rightarrow> bytes \<Rightarrow> nat \<Rightarrow> nat \<Rightarrow> (l1_state, nat \<times> l1_state) enc_exit \<Rightarrow> bool" where
  "search_exit_ok bits src cap s0 (BreakOuter st) \<longleftrightarrow> enc_state_ok src cap st"
| "search_exit_ok bits src cap s0 (Return0 out) \<longleftrightarrow> length out = cap"
| "search_exit_ok bits src cap s0 (Onward (c, st)) \<longleftrightarrow> found_inv bits src cap s0 c st"

fun imm_exit_ok :: "nat \<Rightarrow> bytes \<Rightarrow> nat \<Rightarrow> nat \<Rightarrow> (l1_state, l1_state) enc_exit \<Rightarrow> bool" where
  "imm_exit_ok bits src cap s0 (BreakOuter st) \<longleftrightarrow> enc_state_ok src cap st"
| "imm_exit_ok bits src cap s0 (Return0 out) \<longleftrightarrow> length out = cap"
| "imm_exit_ok bits src cap s0 (Onward st) \<longleftrightarrow> search_inv bits src cap s0 st"

section \<open>The interface of a configuration\<close>

text \<open>
  What the proof needs of a configuration: hashes below the table size, entries wide enough for
  the positions, bounded offsets, and a fused emission that writes a code with the right effect
  and a bounded length. \<open>min_len\<close> and \<open>max_len\<close> are the input lengths it is used for.
\<close>

locale l1_encoder =
  fixes cfg :: l1_config
    and fused_code :: "bytes \<Rightarrow> nat \<Rightarrow> nat \<Rightarrow> bytes"
    and min_len max_len :: nat
  assumes lengths: "16 \<le> min_len" "max_len \<le> MAX_BLOCK_SIZE" "max_len \<le> 2 ^ cast_bits cfg"
    and slot_bound: "l1_slot cfg v < 2 ^ table_bits cfg"
    and reach_bound: "in_reach cfg c p \<Longrightarrow> p \<le> max_len \<Longrightarrow> p - c \<le> MAX_COPY3_OFFSET"
    and few_fused: "max_fused cfg \<le> 4"
    and fused_emits: "MIN_COPY2_OFFSET \<le> off \<Longrightarrow> off \<le> MAX_COPY3_OFFSET \<Longrightarrow> off \<le> max_len \<Longrightarrow> 4 \<le> m \<Longrightarrow>
        m < 16777216 \<Longrightarrow> lit \<noteq> [] \<Longrightarrow> length lit \<le> max_fused cfg \<Longrightarrow>
        emits (\<lambda>dst. emit_fused cfg dst lit off m) (fused_code lit off m)"
    and fused_run: "MIN_COPY2_OFFSET \<le> off \<Longrightarrow> off \<le> MAX_COPY3_OFFSET \<Longrightarrow> off \<le> max_len \<Longrightarrow> 4 \<le> m \<Longrightarrow>
        m < 16777216 \<Longrightarrow> lit \<noteq> [] \<Longrightarrow> length lit \<le> max_fused cfg \<Longrightarrow> off \<le> length out + length lit \<Longrightarrow>
        spec_run (fused_code lit off m @ rest) (out, r) = spec_run rest (lz_copy (out @ lit) off m, off)"
    and fused_length: "length lit \<le> max_fused cfg \<Longrightarrow> length (fused_code lit off m) \<le> length lit + 7"
    and fused_length_small: "min_len < 571 \<Longrightarrow> length lit \<le> max_fused cfg \<Longrightarrow> m < 571 \<Longrightarrow>
        length (fused_code lit off m) \<le> length lit + 3 + fused_bound m"

text \<open>An input and a slice the configuration is used for.\<close>

definition usable :: "nat \<Rightarrow> nat \<Rightarrow> bytes \<Rightarrow> nat \<Rightarrow> bool" where
  "usable min_len max_len src cap \<longleftrightarrow>
     min_len \<le> length src \<and> length src \<le> max_len \<and> room (length src) cap"

context l1_encoder
begin

abbreviation good :: "bytes \<Rightarrow> nat \<Rightarrow> bool" where
  "good \<equiv> usable min_len max_len"

lemma good_props:
  assumes "good src cap"
  shows "16 \<le> length src" "length src \<le> MAX_BLOCK_SIZE" "length src \<le> 8388608" "room (length src) cap"
    "DST_LIMIT src = limit (length src)" "S_LIMIT src + 8 = length src"
  using assms lengths by (auto simp: usable_def format_consts limit_def DST_LIMIT_def S_LIMIT_def)

lemma store_ok:
  assumes "tbl_ok (table_bits cfg) a t" "a \<le> b" "s < b" "good src cap" "s < length src"
  obtains t' where "l1_store cfg (l1_slot cfg v) s t = Some t'" "tbl_ok (table_bits cfg) b t'"
proof -
  have "s mod 2 ^ cast_bits cfg = s" using assms(4,5) lengths by (simp add: usable_def)
  moreover have "l1_slot cfg v < length t" using assms(1) slot_bound by (simp add: tbl_ok_def)
  moreover have "tbl_ok (table_bits cfg) b (t[l1_slot cfg v := s])"
    using assms(1-3) set_update_subset_insert [of t "l1_slot cfg v" s] by (fastforce simp: tbl_ok_def)
  ultimately show ?thesis using that by (simp add: l1_store_def)
qed

lemma repeat_ok:
  assumes good: "good src cap"
    and st: "s0 \<le> cur st" "cur st + 12 \<le> length src" "nemit st \<le> cur st" "rept st \<le> cur st"
      "tbl_ok (table_bits cfg) (cur st + 2) (tbl st)" "enc_state_ok src cap st"
      "budget (length src) (opos st) (nemit st)"
    and m: "same src (cur st + 1 - rept st) (cur st + 1) 4"
  shows "(\<exists>st'. l1_repeat src st = Some (Inl st') \<and>
      search_inv (table_bits cfg) src cap s0 st' \<and> cur st < cur st') \<or>
    (\<exists>e. l1_repeat src st = Some (Inr e) \<and> search_exit_ok (table_bits cfg) src cap s0 e)"
proof -
  note g = good_props [OF good]
  define p r ne d where "p = cur st + 1" and "r = rept st" and "ne = nemit st" and "d = opos st"
  have e: "enc_ok src (outb st) d ne r" "length (outb st) = cap"
    using st(6) by (auto simp: enc_state_ok_def d_def ne_def r_def)
  then have r: "0 < r" "r \<le> p" using st(4) by (auto simp: enc_ok_def r_def p_def)
  obtain i base s where x: "extend_back src ne (p - r) p = Some (i, base)"
    "extend_fwd src (p + 4) (p - r + 4) = Some s" "ne \<le> base" "base \<le> p" "p + 4 \<le> s" "s \<le> length src"
    "is_match src base r (s - base)"
    by (rule fwd.match_from_repeat [of src p r ne]) (use m r st in \<open>auto simp: p_def r_def ne_def\<close>)
  have pos: "cur st + 4 + 1 = p + 4" "cur st - rept st + 4 + 1 = p - r + 4"
    using st(4) by (simp_all add: p_def r_def)
  have fw: "extend_fwd src (cur st + 4 + 1) (cur st - rept st + 4 + 1) = Some s"
    unfolding pos by (rule x(2))
  define lit where "lit = take (base - ne) (drop ne src)"
  have sl: "slice src ne base = Some lit" using x(3,4) st(2) by (simp add: slice_Some lit_def p_def)
  have u: "usub (cur st + 1) (rept st) = Some (p - r)" "usub base ne = Some (base - ne)"
    "usub (cur st) (rept st) = Some (cur st - rept st)" "usub s base = Some (s - base)"
    using st(4) x by (simp_all add: usub_Some p_def r_def)
  have head: "l1_repeat src st = (if DST_LIMIT src < d + (base - ne) then Some (Inr (Return0 (outb st)))
     else do {
       (out, d) \<leftarrow> emit_at d (\<lambda>dst. emit_literal dst lit) (outb st);
       (out, d) \<leftarrow> emit_at d (\<lambda>dst. emit_repeat dst (s - base)) out;
       let st = st\<lparr>cur := s, nemit := s, outb := out, opos := d\<rparr>;
       if S_LIMIT src \<le> s then Some (Inr (BreakOuter st))
       else do { v \<leftarrow> load64 src s; Some (Inl (st\<lparr>cv := v\<rparr>)) } })"
    using x(1) fw [simplified] sl u unfolding l1_repeat_def p_def [symmetric] ne_def [symmetric] d_def [symmetric]
    by (simp add: Let_def)
  show ?thesis
  proof (cases "DST_LIMIT src < d + (base - ne)")
    case True
    with head e show ?thesis by simp
  next
    case False
    have lit: "length lit = base - ne" using x(3,4) st(2) by (simp add: lit_def p_def)
    have "ne + (base - ne) + (s - base) \<le> length src" "4 \<le> s - base" using x by auto
    note fit = lit_rep_fits [OF g(1,3,4) st(7) [folded d_def ne_def] _ lit this]
    have lim: "d + (base - ne) \<le> limit (length src)" using False g(5) by simp
    note fit = fit [OF lim]
    have f1: "d + length (lit_code lit) \<le> length (outb st)" using fit(1) e(2) by simp
    obtain out1 where o1: "emit_at d (\<lambda>dst. emit_literal dst lit) (outb st) = Some (out1, d + length (lit_code lit))"
      "length out1 = length (outb st)" "enc_ok src out1 (d + length (lit_code lit)) base r"
      by (rule enc_literal [OF e(1) x(3) _ g(2) lit_def]) (use f1 x st p_def in auto)
    let ?d' = "d + length (lit_code lit) + length (rep_code (s - base))"
    have f2: "?d' \<le> length out1" using fit(1) e(2) o1(2) by simp
    obtain out2 where o2: "emit_at (d + length (lit_code lit)) (\<lambda>dst. emit_repeat dst (s - base)) out1 = Some (out2, ?d')"
      "length out2 = length out1" "enc_ok src out2 ?d' (base + (s - base)) r"
      by (rule enc_repeat [OF o1(3) x(7) _ g(2)]) (use f2 x in auto)
    have bs: "base + (s - base) = s" "ne + (base - ne) + (s - base) = s" using x by auto
    let ?st = "st\<lparr>cur := s, nemit := s, outb := out2, opos := ?d'\<rparr>"
    have ok: "enc_state_ok src cap ?st"
      using o1 o2 e bs by (simp add: enc_state_ok_def r_def)
    have res: "l1_repeat src st = (if S_LIMIT src \<le> s then Some (Inr (BreakOuter ?st))
       else do { v \<leftarrow> load64 src s; Some (Inl (?st\<lparr>cv := v\<rparr>)) })"
      using head False o1(1) o2(1) by (simp add: Let_def)
    show ?thesis
    proof (cases "S_LIMIT src \<le> s")
      case True
      with res ok show ?thesis by simp
    next
      case False
      then have s8: "s + 8 \<le> length src" using g(6) by simp
      have "search_inv (table_bits cfg) src cap s0 (?st\<lparr>cv := word_at 8 src s\<rparr>)"
        unfolding search_inv_def
        using ok s8 fit(2) bs x(5) st p_def tbl_ok_mono [OF st(5), of s]
        by (auto simp: enc_state_ok_def)
      with res False s8 x(5) show ?thesis by (auto simp: load64_def word_at_def p_def)
    qed
  qed
qed

lemma load_eq_ok:
  assumes "i + 4 \<le> length src" "p + 4 \<le> length src"
  shows "l1_load_eq src i (word_at 4 src p) = Some (word_at 4 src p = (word_at 4 src i :: u32))"
    "word_at 4 src p = (word_at 4 src i :: u32) \<Longrightarrow> same src i p 4"
  using assms load32_match [of i src p] by (simp_all add: l1_load_eq_def load32_def word_at_def)

lemma candidate_ok:
  assumes "c < p" "p + 4 \<le> length src" "good src cap"
  obtains b where "l1_candidate cfg src c p (word_at 4 src p) = Some b"
    "b \<Longrightarrow> same src c p 4" "b \<Longrightarrow> p - c \<le> MAX_COPY3_OFFSET"
proof (cases "in_reach cfg c p")
  case True
  then have r: "p - c \<le> MAX_COPY3_OFFSET" using reach_bound assms(2,3) by (simp add: usable_def)
  have "l1_candidate cfg src c p (word_at 4 src p) = Some (word_at 4 src p = (word_at 4 src c :: u32))"
    using True load_eq_ok(1) [of c src p] assms(1,2) by (simp add: l1_candidate_def)
  then show ?thesis
    by (rule that) (use r load_eq_ok(2) [of c src p] assms(1,2) in auto)
next
  case False
  then show ?thesis by (intro that [of False]) (simp_all add: l1_candidate_def)
qed

lemma found_intro:
  assumes "search_inv (table_bits cfg) src cap s0 st" "c < cur st + m" "m \<le> 2" "cur st + 12 \<le> length src"
    "same src c (cur st + m) 4" "cur st + m - c \<le> MAX_COPY3_OFFSET" "tbl_ok (table_bits cfg) (cur st + 3) t"
  shows "found_inv (table_bits cfg) src cap s0 c (st\<lparr>tbl := t, cur := cur st + m\<rparr>)"
  using assms tbl_ok_mono [OF assms(7), of "cur st + m + 4"]
  by (auto simp: found_inv_def search_inv_def enc_state_ok_def)

lemma search_step_ok:
  assumes good: "good src cap" and I: "search_inv (table_bits cfg) src cap s0 st"
  shows "(\<exists>st'. l1_search_step cfg src st = Some (Inl st') \<and>
      search_inv (table_bits cfg) src cap s0 st' \<and> length src - cur st' < length src - cur st) \<or>
    (\<exists>e. l1_search_step cfg src st = Some (Inr e) \<and> search_exit_ok (table_bits cfg) src cap s0 e)"
proof -
  note g = good_props [OF good]
  define s where "s = cur st"
  have i: "s0 \<le> s" "0 < s" "s + 8 \<le> length src" "cv st = word_at 8 src s" "nemit st \<le> s" "rept st \<le> s"
    "tbl_ok (table_bits cfg) s (tbl st)" "enc_state_ok src cap st"
    "budget (length src) (opos st) (nemit st)"
    using I by (auto simp: search_inv_def s_def)
  have r: "0 < rept st" using i(8) by (auto simp: enc_state_ok_def enc_ok_def)
  define next_s where "next_s = s + (s - nemit st) div 2 ^ skip_log cfg + 4"
  show ?thesis
  proof (cases "S_LIMIT src < next_s")
    case True
    then have "l1_search_step cfg src st = Some (Inr (BreakOuter st))"
      using i(5) unfolding l1_search_step_def s_def [symmetric] Let_def
      by (simp add: usub_Some next_s_def)
    with i(8) show ?thesis by simp
  next
    case False
    then have nx: "next_s + 8 \<le> length src" "s + 4 \<le> next_s" using g(6) by (auto simp: next_s_def)
    define v0 where "v0 = cv st"
    define v1 v2 where "v1 = drop_bit 8 v0" and "v2 = drop_bit 16 v0"
    obtain c0 c1 where c: "idx (tbl st) (l1_slot cfg v0) = Some c0" "c0 < s"
      "idx (tbl st) (l1_slot cfg v1) = Some c1" "c1 < s"
      using tbl_ok_idx [OF i(7) slot_bound] by metis
    obtain t0 where t0: "l1_store cfg (l1_slot cfg v0) s (tbl st) = Some t0" "tbl_ok (table_bits cfg) (s + 1) t0"
      by (rule store_ok [OF i(7), of "s + 1" s src cap v0]) (use good i(3) in auto)
    obtain t1 where t1: "l1_store cfg (l1_slot cfg v1) (s + 1) t0 = Some t1" "tbl_ok (table_bits cfg) (s + 2) t1"
      by (rule store_ok [OF t0(2), of "s + 2" "s + 1" src cap v1]) (use good nx in auto)
    obtain t2 where t2: "l1_store cfg (l1_slot cfg v2) (s + 2) t1 = Some t2" "tbl_ok (table_bits cfg) (s + 3) t2"
      by (rule store_ok [OF t1(2), of "s + 3" "s + 2" src cap v2]) (use good nx in auto)
    obtain c2 where c2: "idx t1 (l1_slot cfg v2) = Some c2" "c2 < s + 2"
      using tbl_ok_idx [OF t1(2) slot_bound] by metis
    have w: "ucast v0 = (word_at 4 src s :: u32)" "ucast v1 = (word_at 4 src (s + 1) :: u32)"
      "ucast v2 = (word_at 4 src (s + 2) :: u32)"
      using ucast_word_at [OF i(3), of 0] ucast_word_at [OF i(3), of 1] ucast_word_at [OF i(3), of 2]
      by (simp_all add: v0_def v1_def v2_def i(4))
    have prev: "wrapping_add (wrapping_sub s (rept st)) 1 = s + 1 - rept st" "s + 1 - rept st \<le> s"
      using i(3,6) r g(3) by (auto simp: wrapping_add_def wrapping_sub_def)
    define b where "b = (word_at 4 src (s + 1) = (word_at 4 src (s + 1 - rept st) :: u32))"
    have b: "l1_load_eq src (s + 1 - rept st) (word_at 4 src (s + 1)) = Some b"
      "b \<Longrightarrow> same src (s + 1 - rept st) (s + 1) 4"
      using load_eq_ok [of "s + 1 - rept st" src "s + 1"] nx prev(2) unfolding b_def by auto
    obtain b0 where b0: "l1_candidate cfg src c0 s (word_at 4 src s) = Some b0"
      "b0 \<Longrightarrow> same src c0 s 4" "b0 \<Longrightarrow> s - c0 \<le> MAX_COPY3_OFFSET"
      by (rule candidate_ok [OF c(2) _ good]) (use i(3) in auto)
    obtain b1 where b1: "l1_candidate cfg src c1 (s + 1) (word_at 4 src (s + 1)) = Some b1"
      "b1 \<Longrightarrow> same src c1 (s + 1) 4" "b1 \<Longrightarrow> s + 1 - c1 \<le> MAX_COPY3_OFFSET"
      by (rule candidate_ok [of c1 "s + 1" src cap]) (use c nx good in auto)
    obtain b2 where b2: "l1_candidate cfg src c2 (s + 2) (word_at 4 src (s + 2)) = Some b2"
      "b2 \<Longrightarrow> same src c2 (s + 2) 4" "b2 \<Longrightarrow> s + 2 - c2 \<le> MAX_COPY3_OFFSET"
      by (rule candidate_ok [of c2 "s + 2" src cap]) (use c2 nx good in auto)
    have ld: "load64 src next_s = Some (word_at 8 src next_s)"
      using nx by (simp add: load64_def word_at_def)
    have step: "l1_search_step cfg src st =
       (if b then l1_repeat src (st\<lparr>tbl := t1\<rparr>)
        else if b0 then Some (Inr (Onward (c0, st\<lparr>tbl := t1\<rparr>)))
        else if b1 then Some (Inr (Onward (c1, st\<lparr>tbl := t2, cur := s + 1\<rparr>)))
        else if b2 then Some (Inr (Onward (c2, st\<lparr>tbl := t2, cur := s + 2\<rparr>)))
        else Some (Inl (st\<lparr>tbl := t2, cv := word_at 8 src next_s, cur := next_s\<rparr>)))"
      using False i(5) unfolding l1_search_step_def Let_def s_def [symmetric] usub_Some [OF i(5)]
        Option.bind_lunit next_s_def [symmetric] v0_def [symmetric] v1_def [symmetric] v2_def [symmetric]
        c(1,3) t0(1) t1(1) t2(1) c2(1) w prev(1) b b0(1) b1(1) b2(1) ld
      using prev(2) by (simp add: b b0 b1 b2)
    have n12: "cur st + 12 \<le> length src" using nx by (simp add: s_def)
    consider "b" | "\<not> b" "b0" | "\<not> b" "\<not> b0" "b1" | "\<not> b" "\<not> b0" "\<not> b1" "b2"
      | "\<not> b" "\<not> b0" "\<not> b1" "\<not> b2" by blast
    then show ?thesis
    proof cases
      case 1
      have "(\<exists>st'. l1_repeat src (st\<lparr>tbl := t1\<rparr>) = Some (Inl st') \<and>
          search_inv (table_bits cfg) src cap s0 st' \<and> cur (st\<lparr>tbl := t1\<rparr>) < cur st') \<or>
        (\<exists>e. l1_repeat src (st\<lparr>tbl := t1\<rparr>) = Some (Inr e) \<and> search_exit_ok (table_bits cfg) src cap s0 e)"
        by (rule repeat_ok [OF good])
          (use 1 b i n12 t1(2) in \<open>auto simp: s_def enc_state_ok_def\<close>)
      then show ?thesis using 1 step by (fastforce simp: search_inv_def)
    next
      case 2
      have "found_inv (table_bits cfg) src cap s0 c0 (st\<lparr>tbl := t1, cur := cur st + 0\<rparr>)"
        by (rule found_intro [OF I]) (use 2 b0 c n12 tbl_ok_mono [OF t1(2)] in \<open>auto simp: s_def\<close>)
      with 2 step show ?thesis by simp
    next
      case 3
      have "found_inv (table_bits cfg) src cap s0 c1 (st\<lparr>tbl := t2, cur := cur st + 1\<rparr>)"
        by (rule found_intro [OF I]) (use 3 b1 c n12 t2 in \<open>auto simp: s_def\<close>)
      with 3 step show ?thesis by (simp add: s_def)
    next
      case 4
      have "found_inv (table_bits cfg) src cap s0 c2 (st\<lparr>tbl := t2, cur := cur st + 2\<rparr>)"
        by (rule found_intro [OF I]) (use 4 b2 c2 n12 t2 in \<open>auto simp: s_def\<close>)
      with 4 step show ?thesis by (simp add: s_def)
    next
      case 5
      have "search_inv (table_bits cfg) src cap s0 (st\<lparr>tbl := t2, cv := word_at 8 src next_s, cur := next_s\<rparr>)"
        using i nx tbl_ok_mono [OF t2(2), of next_s] by (auto simp: search_inv_def enc_state_ok_def)
      with 5 step nx show ?thesis by (auto simp: s_def)
    qed
  qed
qed

lemma emit_ok:
  assumes good: "good src cap"
    and st: "enc_state_ok src cap (st\<lparr>rept := rp\<rparr>)" "budget (length src) (opos st) (nemit st)"
    and m: "nemit st \<le> base" "is_match src base (rept st) m" "4 \<le> m" "rept st \<le> MAX_COPY3_OFFSET"
  shows "l1_emit cfg src base m st = Some None \<or>
    (\<exists>out d. l1_emit cfg src base m st = Some (Some (out, d)) \<and> length out = cap \<and>
      enc_ok src out d (base + m) (rept st) \<and> (length src < 288 \<longrightarrow> d \<le> base + m))"
proof -
  note g = good_props [OF good]
  define ne d off where "ne = nemit st" and "d = opos st" and "off = rept st"
  have e: "enc_ok src (outb st) d ne rp" "length (outb st) = cap"
    using st(1) by (auto simp: enc_state_ok_def d_def ne_def)
  note bud = st(2) [folded d_def ne_def]
  have b: "ne \<le> base" "base + m \<le> length src" "0 < off" "off \<le> base" "off \<le> length src"
    using m(1,2) by (auto simp: is_match_def ne_def off_def)
  note mt = m(2) [folded off_def] and off3 = m(4) [folded off_def]
  define lit where "lit = take (base - ne) (drop ne src)"
  have lit: "length lit = base - ne" using b by (simp add: lit_def)
  have sl: "slice src ne base = Some lit" using b by (simp add: slice_Some lit_def)
  have nb: "ne + (base - ne) = base" using b by simp
  have f: "l1_emit cfg src base m st =
    (if ne \<noteq> base then
       if max_fused cfg < base - ne \<or> off < MIN_COPY2_OFFSET then
         if DST_LIMIT src < d + (base - ne) then Some None
         else do {
           (out, d) \<leftarrow> emit_at d (\<lambda>dst. emit_literal dst lit) (outb st);
           r \<leftarrow> emit_at d (\<lambda>dst. emit_copy dst off m) out;
           Some (Some r) }
       else do {
         r \<leftarrow> emit_at d (\<lambda>dst. emit_fused cfg dst lit off m) (outb st);
         Some (Some r) }
     else do {
       r \<leftarrow> emit_at d (\<lambda>dst. emit_copy dst off m) (outb st);
       Some (Some r) })"
    using b(1) by (simp add: l1_emit_def Let_def usub_Some sl flip: ne_def d_def off_def)
  consider "ne = base" | "ne < base" "max_fused cfg < base - ne \<or> off < MIN_COPY2_OFFSET"
    | "ne < base" "base - ne \<le> max_fused cfg" "MIN_COPY2_OFFSET \<le> off" using b(1) by linarith
  then show ?thesis
  proof cases
    case 1
    note fit = copy_fits [OF g(1,3,4) bud, of m off]
    have f1: "d + length (copy_code off m) \<le> length (outb st)"
      using fit(1) b m(3) 1 e(2) by simp
    have e1: "enc_ok src (outb st) d base rp" using e(1) 1 by simp
    obtain out where "emit_at d (\<lambda>dst. emit_copy dst off m) (outb st) = Some (out, d + length (copy_code off m))"
      "length out = length (outb st)" "enc_ok src out (d + length (copy_code off m)) (base + m) off"
      by (rule enc_copy [OF e1 mt m(3) g(2) off3 f1])
    with f 1 e fit(2) b m(3) show ?thesis by (simp add: off_def)
  next
    case 2
    show ?thesis
    proof (cases "DST_LIMIT src < d + (base - ne)")
      case True
      with 2 f show ?thesis by simp
    next
      case False
      then have lim: "d + (base - ne) \<le> limit (length src)" using g(5) by simp
      have "ne + (base - ne) + m \<le> length src" using b by simp
      note fit = lit_copy_fits [OF g(1,3,4) bud lim lit this m(3) b(5)]
      have f1: "d + length (lit_code lit) \<le> length (outb st)" using fit(1) e(2) by simp
      obtain out1 where o1: "emit_at d (\<lambda>dst. emit_literal dst lit) (outb st) = Some (out1, d + length (lit_code lit))"
        "length out1 = length (outb st)" "enc_ok src out1 (d + length (lit_code lit)) base rp"
        by (rule enc_literal [OF e(1) b(1) _ g(2) lit_def f1]) (use b in auto)
      let ?d' = "d + length (lit_code lit) + length (copy_code off m)"
      have f2: "?d' \<le> length out1" using fit(1) e(2) o1(2) by simp
      obtain out2 where "emit_at (d + length (lit_code lit)) (\<lambda>dst. emit_copy dst off m) out1 = Some (out2, ?d')"
        "length out2 = length out1" "enc_ok src out2 ?d' (base + m) off"
        by (rule enc_copy [OF o1(3) mt m(3) g(2) off3 f2])
      with f 2 False o1 e fit(2) nb show ?thesis by (simp add: off_def)
    qed
  next
    case 3
    let ?c = "fused_code lit off m"
    have l: "lit \<noteq> []" "length lit \<le> max_fused cfg" "length lit \<le> 4"
      using 3 lit few_fused by auto
    have m24: "m < 16777216" using b(2) g(3) by simp
    have offm: "off \<le> max_len" using b(5) good by (simp add: usable_def)
    have small: "length ?c \<le> base - ne + 3 + (if m \<le> 11 then 0 else if m \<le> 40 then 1 else if m \<le> 296 then 2 else 3)"
      if "length src < 571"
      using fused_length_small [of lit m off] that l(2) good b(2) lit by (simp add: usable_def fused_bound_def)
    have big: "length ?c \<le> base - ne + 7" using fused_length [of lit off m] l(2) lit by simp
    have k: "ne + (base - ne) + m \<le> length src" "64 \<le> ne + (base - ne)" "base - ne \<le> 4"
      using b 3 l(3) lit by (auto simp: format_consts)
    note fit = fused_fits [OF g(1,3,4) bud k(1) m(3) k(2,3) big small]
    have f1: "d + length ?c \<le> length (outb st)" using fit(1) e(2) by simp
    obtain out where o: "emit_at d (\<lambda>dst. emit_fused cfg dst lit off m) (outb st) = Some (out, d + length ?c)"
      "length out = length (outb st)" "enc_ok src out (d + length ?c) (base + m) off"
    proof (rule enc_emit [OF e(1) fused_emits [OF 3(3) off3 offm m(3) m24 l(1,2)] f1])
      have "off \<le> length (take ne src) + length lit" using b lit by simp
      note run = fused_run [OF 3(3) off3 offm m(3) m24 l(1,2) this]
      show "spec_run (?c @ rest) (take ne src, rp) = spec_run rest (take (base + m) src, off)" for rest
        using run [of rest rp] is_match_copy [OF mt] take_append_slice [OF b(1), of src] lit_def by simp
    qed (use b in auto)
    with f 3 e fit(2) nb show ?thesis by (auto simp: off_def)
  qed
qed

lemma match_ok:
  assumes good: "good src cap" and I: "found_inv (table_bits cfg) src cap s0 c st"
  shows "l1_match cfg src c st = Some None \<or>
    (\<exists>st'. l1_match cfg src c st = Some (Some st') \<and> imm_inv (table_bits cfg) src cap (s0 + 4) st')"
proof -
  note g = good_props [OF good]
  have i: "s0 \<le> cur st" "c < cur st" "cur st + 8 \<le> length src" "same src c (cur st) 4"
    "cur st - c \<le> MAX_COPY3_OFFSET" "nemit st \<le> cur st" "tbl_ok (table_bits cfg) (cur st + 4) (tbl st)"
    "enc_state_ok src cap st" "budget (length src) (opos st) (nemit st)"
    using I by (auto simp: found_inv_def)
  obtain cp base s' where x: "extend_back src (nemit st) c (cur st) = Some (cp, base)" "cp \<le> base"
    "base - cp = cur st - c" "extend_fwd src (base + 4) (cp + 4) = Some s'" "nemit st \<le> base" "base \<le> cur st"
    "base + 4 \<le> s'" "s' \<le> length src" "is_match src base (cur st - c) (s' - base)"
    "cur st + 4 \<le> s' \<or> length src < s' + 8"
    by (rule fwd.match_from_candidate [OF i(4,2) _ i(6)]) (use i(3) in auto)
  let ?st = "st\<lparr>rept := base - cp\<rparr>"
  have u: "usub base cp = Some (base - cp)" "usub s' base = Some (s' - base)" using x by (simp_all add: usub_Some)
  have f: "l1_match cfg src c st = (l1_emit cfg src base (s' - base) ?st \<bind> (\<lambda>r. case r of
       None \<Rightarrow> Some None
     | Some (out, d) \<Rightarrow> Some (Some (st\<lparr>cur := s', rept := base - cp, outb := out, opos := d\<rparr>))))"
    by (simp add: l1_match_def x(1,4) u)
  have "l1_emit cfg src base (s' - base) ?st = Some None \<or>
    (\<exists>out d. l1_emit cfg src base (s' - base) ?st = Some (Some (out, d)) \<and> length out = cap \<and>
      enc_ok src out d (base + (s' - base)) (rept ?st) \<and> (length src < 288 \<longrightarrow> d \<le> base + (s' - base)))"
    by (rule emit_ok [OF good, where rp = "rept st"])
      (use i x in \<open>auto simp: enc_state_ok_def\<close>)
  then show ?thesis
  proof
    assume "l1_emit cfg src base (s' - base) ?st = Some None"
    with f show ?thesis by simp
  next
    assume "\<exists>out d. l1_emit cfg src base (s' - base) ?st = Some (Some (out, d)) \<and> length out = cap \<and>
      enc_ok src out d (base + (s' - base)) (rept ?st) \<and> (length src < 288 \<longrightarrow> d \<le> base + (s' - base))"
    then obtain out d where o: "l1_emit cfg src base (s' - base) ?st = Some (Some (out, d))" "length out = cap"
      "enc_ok src out d s' (base - cp)" "length src < 288 \<longrightarrow> d \<le> s'" using x(7) by auto
    have "imm_inv (table_bits cfg) src cap (s0 + 4) (st\<lparr>cur := s', rept := base - cp, outb := out, opos := d\<rparr>)"
      using o x i tbl_ok_mono [OF i(7), of s'] by (auto simp: imm_inv_def enc_state_ok_def)
    with f o(1) show ?thesis by simp
  qed
qed

lemma immediate_step_ok:
  assumes good: "good src cap" and I: "imm_inv (table_bits cfg) src cap s0 st"
  shows "(\<exists>st'. l1_immediate_step cfg src st = Some (Inl st') \<and>
      imm_inv (table_bits cfg) src cap s0 st' \<and> length src - cur st' < length src - cur st) \<or>
    (\<exists>e. l1_immediate_step cfg src st = Some (Inr e) \<and> imm_exit_ok (table_bits cfg) src cap s0 e)"
proof -
  note g = good_props [OF good]
  define s d where "s = cur st" and "d = opos st"
  have i: "s + 8 < length src \<Longrightarrow> s0 \<le> s" "4 \<le> s" "s \<le> length src" "rept st \<le> s"
    "length src < 288 \<Longrightarrow> d \<le> s" "s + 8 < length src \<Longrightarrow> tbl_ok (table_bits cfg) s (tbl st)"
    and e: "length (outb st) = cap" "enc_ok src (outb st) d s (rept st)"
    using I by (auto simp: imm_inv_def enc_state_ok_def s_def d_def)
  show ?thesis
  proof (cases "S_LIMIT src \<le> s")
    case True
    then have "l1_immediate_step cfg src st = Some (Inr (BreakOuter (st\<lparr>nemit := s\<rparr>)))"
      by (simp add: l1_immediate_step_def Let_def s_def)
    then show ?thesis using e by (simp add: enc_state_ok_def d_def)
  next
    case False
    then have n: "s + 8 < length src" using g(6) by simp
    note tb = i(6) [OF n]
    have p: "usub s 2 = Some (s - 2)" using i(2) by (simp add: usub_Some)
    define x where "x = (word_at 8 src (s - 2) :: u64)"
    have ldx: "load64 src (s - 2) = Some x" using n i(2) by (simp add: load64_def word_at_def x_def)
    define xt where "xt = drop_bit 16 x"
    have w: "ucast xt = (word_at 4 src s :: u32)"
    proof -
      have "s - 2 + 2 = s" using i(2) by simp
      then show ?thesis
        using ucast_word_at [of "s - 2" src 2] n i(2) unfolding xt_def x_def by simp
    qed
    obtain c where c: "idx (tbl st) (l1_slot cfg xt) = Some c" "c < s"
      using tbl_ok_idx [OF tb slot_bound] by metis
    obtain t0 where t0: "l1_store cfg (l1_slot cfg x) (s - 2) (tbl st) = Some t0" "tbl_ok (table_bits cfg) s t0"
      by (rule store_ok [OF tb, of s "s - 2" src cap x]) (use good n i(2) in auto)
    obtain t1 where t1: "l1_store cfg (l1_slot cfg xt) s t0 = Some t1" "tbl_ok (table_bits cfg) (s + 1) t1"
      by (rule store_ok [OF t0(2), of "s + 1" s src cap xt]) (use good n in auto)
    obtain b where b: "l1_candidate cfg src c s (word_at 4 src s) = Some b"
      "b \<Longrightarrow> same src c s 4" "b \<Longrightarrow> s - c \<le> MAX_COPY3_OFFSET"
      by (rule candidate_ok [OF c(2) _ good]) (use n in auto)
    have ld1: "load64 src (s + 1) = Some (word_at 8 src (s + 1))" using n by (simp add: load64_def word_at_def)
    have uc: "usub s c = Some (s - c)" using c(2) by (simp add: usub_Some)
    have f: "l1_immediate_step cfg src st = (if DST_LIMIT src < d then Some (Inr (Return0 (outb st)))
       else if \<not> b then Some (Inr (Onward (st\<lparr>nemit := s, tbl := t1, cv := word_at 8 src (s + 1), cur := s + 1\<rparr>)))
       else do {
           s' \<leftarrow> extend_fwd src (s + 4) (c + 4);
           len \<leftarrow> usub s' s;
           (out, d) \<leftarrow> emit_at d (\<lambda>dst. emit_copy dst (s - c) len) (outb st);
           Some (Inl (st\<lparr>nemit := s, tbl := t1, cur := s', rept := s - c, outb := out, opos := d\<rparr>)) })"
      using False unfolding l1_immediate_step_def Let_def s_def [symmetric] p ldx Option.bind_lunit
      by (simp add: xt_def [symmetric] c(1) t0(1) t1(1) w b(1) ld1 [simplified] uc d_def)
    show ?thesis
    proof (cases "DST_LIMIT src < d")
      case True
      with f e show ?thesis by simp
    next
      case lim: False
      then have lim': "d \<le> limit (length src)" using g(5) by simp
      then have bud: "budget (length src) d s" using i(5) by (simp add: budget_def)
      show ?thesis
      proof (cases b)
        case False
        have "search_inv (table_bits cfg) src cap s0
            (st\<lparr>nemit := s, tbl := t1, cv := word_at 8 src (s + 1), cur := s + 1\<rparr>)"
          using i(1) [OF n] i(4) n t1(2) e bud by (auto simp: search_inv_def enc_state_ok_def d_def)
        with f lim False show ?thesis by simp
      next
        case True
        have m4: "same src c s 4" "s - c \<le> MAX_COPY3_OFFSET" using b True by auto
        obtain s' where s': "extend_fwd src (s + 4) (c + 4) = Some s'" "s + 4 \<le> s'" "s' \<le> length src"
          "same src (c + 4) (s + 4) (s' - (s + 4))"
          using fwd.extends [of "c + 4" "s + 4" src] c n by (auto simp: stops_def)
        have "same src c s (s' - s)" using same_extend [OF m4(1) s'(4)] s'(2) by simp
        then have mt: "is_match src s (s - c) (s' - s)" using c(2) s'(2,3) by (auto simp: is_match_def)
        have m: "4 \<le> s' - s" "s + (s' - s) \<le> length src" "s - c \<le> length src" "s + (s' - s) = s'"
          using s' n by auto
        note fit = copy_fits [OF g(1,3,4) bud m(2,1,3)]
        have f1: "d + length (copy_code (s - c) (s' - s)) \<le> length (outb st)" using fit(1) e(1) by simp
        obtain out where o: "emit_at d (\<lambda>dst. emit_copy dst (s - c) (s' - s)) (outb st) =
            Some (out, d + length (copy_code (s - c) (s' - s)))"
          "length out = length (outb st)" "enc_ok src out (d + length (copy_code (s - c) (s' - s))) (s + (s' - s)) (s - c)"
          by (rule enc_copy [OF e(2) mt m(1) g(2) m4(2) f1])
        let ?st = "st\<lparr>nemit := s, tbl := t1, cur := s', rept := s - c, outb := out,
            opos := d + length (copy_code (s - c) (s' - s))\<rparr>"
        have r: "l1_immediate_step cfg src st = Some (Inl ?st)"
          using f lim True s' o(1) by (simp add: usub_Some)
        have "imm_inv (table_bits cfg) src cap s0 ?st"
          using i(1) [OF n] s' fit(2) m(4) o e tbl_ok_mono [OF t1(2), of s']
          by (auto simp: imm_inv_def enc_state_ok_def)
        with r s' n show ?thesis by (auto simp: s_def)
      qed
    qed
  qed
qed

lemma outer_step_ok:
  assumes good: "good src cap" and I: "search_inv (table_bits cfg) src cap s0 st"
  shows "(\<exists>st'. l1_outer_step cfg src st = Some (Inl st') \<and>
      search_inv (table_bits cfg) src cap s0 st' \<and> length src - cur st' < length src - cur st) \<or>
    (\<exists>e. l1_outer_step cfg src st = Some (Inr e) \<and>
      (case e of Inl out \<Rightarrow> length out = cap | Inr st \<Rightarrow> enc_state_ok src cap st))"
proof -
  have I': "search_inv (table_bits cfg) src cap (cur st) st" and s0: "s0 \<le> cur st" "cur st < length src"
    using I by (auto simp: search_inv_def)
  from loop_total [of "search_inv (table_bits cfg) src cap (cur st)" st "l1_search_step cfg src"
      "\<lambda>st. length src - cur st", OF I' search_step_ok [OF good]]
  obtain e where e: "loop (l1_search_step cfg src) st = Some e"
    "search_exit_ok (table_bits cfg) src cap (cur st) e" by blast
  show ?thesis
  proof (cases e)
    case (BreakOuter st1)
    with e show ?thesis by (simp add: l1_outer_step_def)
  next
    case (Return0 out)
    with e show ?thesis by (simp add: l1_outer_step_def)
  next
    case (Onward p)
    obtain c st1 where p: "p = (c, st1)" by fastforce
    with e Onward have F: "found_inv (table_bits cfg) src cap (cur st) c st1" by simp
    then have o: "length (outb st1) = cap" by (simp add: found_inv_def enc_state_ok_def)
    from match_ok [OF good F] show ?thesis
    proof
      assume "l1_match cfg src c st1 = Some None"
      with e Onward p o show ?thesis by (simp add: l1_outer_step_def)
    next
      assume "\<exists>st'. l1_match cfg src c st1 = Some (Some st') \<and>
        imm_inv (table_bits cfg) src cap (cur st + 4) st'"
      then obtain st2 where st2: "l1_match cfg src c st1 = Some (Some st2)"
        "imm_inv (table_bits cfg) src cap (cur st + 4) st2" by blast
      from loop_total [of "imm_inv (table_bits cfg) src cap (cur st + 4)" st2 "l1_immediate_step cfg src"
          "\<lambda>st. length src - cur st", OF st2(2) immediate_step_ok [OF good]]
      obtain e2 where e2: "loop (l1_immediate_step cfg src) st2 = Some e2"
        "imm_exit_ok (table_bits cfg) src cap (cur st + 4) e2" by blast
      show ?thesis
      proof (cases e2)
        case (BreakOuter st3)
        with e Onward p st2 e2 show ?thesis by (simp add: l1_outer_step_def)
      next
        case (Return0 out)
        with e Onward p st2 e2 show ?thesis by (simp add: l1_outer_step_def)
      next
        case O: (Onward st3)
        with e2 have S: "search_inv (table_bits cfg) src cap (cur st + 4) st3" by simp
        then have "search_inv (table_bits cfg) src cap s0 st3" "cur st < cur st3"
          using s0 by (auto simp: search_inv_def)
        with O e Onward p st2 e2 s0 show ?thesis by (simp add: l1_outer_step_def)
      qed
    qed
  qed
qed

lemma encode_ok:
  assumes good: "good src (length dst)"
  shows "\<exists>out d. l1_encode cfg dst src = Some (out, d) \<and> length out = length dst \<and>
    (d = 0 \<or> d \<le> length dst \<and> spec_decode (take d out) = Some src)"
proof -
  note g = good_props [OF good]
  let ?st = "\<lparr>nemit = 0, cur = 1, cv = word_at 8 src 1, rept = 1, outb = dst, opos = 0,
        tbl = replicate (2 ^ table_bits cfg) 0\<rparr>"
  have I: "search_inv (table_bits cfg) src (length dst) 0 ?st"
    using g(1) enc_ok_init [of src dst]
    by (auto simp: search_inv_def tbl_ok_def enc_state_ok_def budget_def)
  from loop_total [of "search_inv (table_bits cfg) src (length dst) 0" ?st "l1_outer_step cfg src"
      "\<lambda>st. length src - cur st", OF I outer_step_ok [OF good]]
  obtain e where e: "loop (l1_outer_step cfg src) ?st = Some e"
    "case e of Inl out \<Rightarrow> length out = length dst | Inr st \<Rightarrow> enc_state_ok src (length dst) st" by blast
  note u = encode_prologue [OF g(1)]
  have f: "l1_encode cfg dst src = (case e of Inl out \<Rightarrow> Some (out, 0) | Inr st \<Rightarrow> emit_remainder src st)"
    unfolding l1_encode_def u Option.bind_lunit e(1) ..
  show ?thesis
    using f e(2) remainder_ok [OF g(1,3,4)] by (cases e) auto
qed

end

section \<open>The two encoders\<close>

interpretation l1_big: l1_encoder l1_big fused_code_big 65537 MAX_BLOCK_SIZE
proof
  show "l1_slot l1_big v < 2 ^ table_bits l1_big" for v
    using hash_bounds(3) [of 15 v] by (simp add: l1_slot_def l1_big_def)
  show "length (fused_code_big lit off m) \<le> length lit + 7" for lit off m
    by (simp add: fused_code_big_def lits2_length_bounds length_lits3_code)
qed (auto simp: l1_big_def emit_fused_big_def fused_code_big_def format_consts run_lits2_code run_lits3_code
    intro!: emits_copy_lits2 emits_copy_lits3)

lemma l1_64k_encoder:
  assumes "0 < bits" "bits \<le> 32"
  shows "l1_encoder (l1_64k bits) lits2_code 16 65536"
proof
  show "l1_slot (l1_64k bits) v < 2 ^ table_bits (l1_64k bits)" for v
    using hash_bounds(2) [of bits v] assms by (simp add: l1_slot_def l1_64k_def)
qed (auto simp: l1_64k_def format_consts run_lits2_code lits2_length_bounds intro!: emits_copy_lits2)

interpretation l1_small: l1_encoder "l1_64k SMALL_TABLE_BITS" lits2_code 16 65536
  by (rule l1_64k_encoder) (simp_all add: SMALL_TABLE_BITS_def)

interpretation l1_medium: l1_encoder "l1_64k 13" lits2_code 16 65536
  by (rule l1_64k_encoder) simp_all

lemma l1_encode_block_ok:
  assumes "length src \<le> MAX_BLOCK_SIZE" "room (length src) (length dst)"
  shows "\<exists>out d. l1_encode_block dst src = Some (out, d) \<and> length out = length dst \<and>
    (d = 0 \<or> d \<le> length dst \<and> spec_decode (take d out) = Some src)"
proof -
  consider "length src < 16" | "16 \<le> length src" "length src \<le> SMALL_TABLE_MAX_LEN"
    | "SMALL_TABLE_MAX_LEN < length src" "length src \<le> 65536" | "65536 < length src" by linarith
  then show ?thesis
  proof cases
    case 1
    then show ?thesis by (simp add: l1_encode_block_def format_consts)
  next
    case 2
    with assms l1_small.encode_ok [of src dst] show ?thesis
      by (simp add: l1_encode_block_def encode_block_64k_def usable_def format_consts SMALL_TABLE_MAX_LEN_def)
  next
    case 3
    with assms l1_medium.encode_ok [of src dst] show ?thesis
      by (simp add: l1_encode_block_def encode_block_64k_def usable_def format_consts SMALL_TABLE_MAX_LEN_def)
  next
    case 4
    with assms l1_big.encode_ok [of src dst] show ?thesis
      by (simp add: l1_encode_block_def encode_block_big_def usable_def format_consts SMALL_TABLE_MAX_LEN_def)
  qed
qed

end
