(* ===== verification/Encode_L2_Correct.thy ===== *)
theory Encode_L2_Correct
  imports Encode_L2 Encode_Room
begin

text \<open>
  The balanced encoder never faults on a slice of the size its callers provide, ends on every
  input, and what it writes means its input. It checks the limit before every emission, so the
  slice is large enough without a budget for the positions between them.
\<close>

section \<open>Invariants\<close>

definition l2_tbls_ok :: "l2_config \<Rightarrow> nat \<Rightarrow> l2_state \<Rightarrow> bool" where
  "l2_tbls_ok cfg bound st \<longleftrightarrow> tbl_ok (l_bits cfg) bound (ltbl st) \<and> tbl_ok (s_bits cfg) bound (stbl st)"

lemma l2_tbls_ok_mono: "l2_tbls_ok cfg a st \<Longrightarrow> a \<le> b \<Longrightarrow> l2_tbls_ok cfg b st"
  by (auto simp: l2_tbls_ok_def intro: tbl_ok_mono)

definition l2_search_inv :: "l2_config \<Rightarrow> bytes \<Rightarrow> nat \<Rightarrow> nat \<Rightarrow> l2_state \<Rightarrow> bool" where
  "l2_search_inv cfg src cap s0 st \<longleftrightarrow> s0 \<le> cur st \<and> 0 < cur st \<and> cur st + 8 \<le> length src \<and>
     cv st = word_at 8 src (cur st) \<and> nemit st \<le> cur st \<and> rept st \<le> cur st \<and>
     l2_tbls_ok cfg (cur st) st \<and> enc_state_ok src cap st"

definition l2_found_inv :: "l2_config \<Rightarrow> bytes \<Rightarrow> nat \<Rightarrow> nat \<Rightarrow> nat \<Rightarrow> nat \<Rightarrow> l2_state \<Rightarrow> bool" where
  "l2_found_inv cfg src cap s0 c next_s st \<longleftrightarrow> s0 \<le> cur st \<and> c < cur st \<and> cur st \<le> next_s \<and>
     next_s + 8 \<le> length src \<and> same src c (cur st) 4 \<and> cur st - c \<le> MAX_COPY3_OFFSET \<and>
     nemit st \<le> cur st \<and> rept st \<le> cur st \<and> l2_tbls_ok cfg (min (cur st + 2) (next_s + 1)) st \<and>
     enc_state_ok src cap st"

fun l2_exit_ok :: "l2_config \<Rightarrow> bytes \<Rightarrow> nat \<Rightarrow> nat \<Rightarrow> (l2_state, nat \<times> nat \<times> l2_state) enc_exit \<Rightarrow> bool" where
  "l2_exit_ok cfg src cap s0 (BreakOuter st) \<longleftrightarrow> enc_state_ok src cap st"
| "l2_exit_ok cfg src cap s0 (Return0 out) \<longleftrightarrow> length out = cap"
| "l2_exit_ok cfg src cap s0 (Onward (c, next_s, st)) \<longleftrightarrow> l2_found_inv cfg src cap s0 c next_s st"

lemma load64_match:
  assumes "i + 8 \<le> length src" "j + 8 \<le> length src" "word_at 8 src i = (word_at 8 src j :: u64)"
  shows "same src i j 4"
  unfolding same_def using word_at_eqD [OF assms(3,1,2)] by simp

lemma mask_eq_word:
  assumes "a AND 0xffffffff00 = b AND (0xffffffff00 :: u64)"
  shows "(ucast (drop_bit 8 a) :: u32) = ucast (drop_bit 8 b)"
proof (rule bit_word_eqI)
  fix n assume n: "n < LENGTH(32)"
  have m: "(0xffffffff00 :: u64) = push_bit 8 (mask 32)"
    by (simp add: push_bit_eq_mult mask_eq_exp_minus_1)
  have "bit (a AND 0xffffffff00) (n + 8) = bit (b AND 0xffffffff00) (n + 8)" using assms by simp
  then have "bit a (n + 8) = bit b (n + 8)"
    using n unfolding m by (simp add: bit_and_iff bit_push_bit_iff bit_mask_iff)
  then show "bit (ucast (drop_bit 8 a) :: u32) n = bit (ucast (drop_bit 8 b) :: u32) n"
    using n by (simp add: bit_ucast_iff bit_drop_bit_eq add.commute)
qed

section \<open>The interface of a configuration\<close>

locale l2_encoder =
  fixes cfg :: l2_config
    and fused_code :: "bytes \<Rightarrow> nat \<Rightarrow> nat \<Rightarrow> bytes"
    and min_len max_len :: nat
  assumes lengths: "16 \<le> min_len" "max_len \<le> MAX_BLOCK_SIZE" "max_len \<le> 2 ^ l2_cast cfg"
    and long_bound: "long_slot cfg v < 2 ^ l_bits cfg"
    and short_bound: "short_slot cfg v < 2 ^ s_bits cfg"
    and above_bound: "above_min cfg c s \<Longrightarrow> s \<le> max_len \<Longrightarrow> s + 1 - c \<le> MAX_COPY3_OFFSET"
    and from_bound: "from_min cfg c s \<Longrightarrow> s \<le> max_len \<Longrightarrow> s - c \<le> MAX_COPY3_OFFSET"
    and fused_emits: "fuses cfg (length lit) off \<Longrightarrow> lit \<noteq> [] \<Longrightarrow> off \<le> MAX_COPY3_OFFSET \<Longrightarrow>
        off \<le> max_len \<Longrightarrow> 4 \<le> m \<Longrightarrow> m < 16777216 \<Longrightarrow>
        emits (\<lambda>dst. l2_fused cfg dst lit off m) (fused_code lit off m)"
    and fused_run: "fuses cfg (length lit) off \<Longrightarrow> lit \<noteq> [] \<Longrightarrow> off \<le> MAX_COPY3_OFFSET \<Longrightarrow>
        off \<le> max_len \<Longrightarrow> 4 \<le> m \<Longrightarrow> m < 16777216 \<Longrightarrow> off \<le> length out + length lit \<Longrightarrow>
        spec_run (fused_code lit off m @ rest) (out, r) = spec_run rest (lz_copy (out @ lit) off m, off)"
    and fused_length: "length (fused_code lit off m) \<le> length lit + 7"
    and fused_length_small: "min_len < 288 \<Longrightarrow> m < 288 \<Longrightarrow> off \<le> 288 \<Longrightarrow>
        length (fused_code lit off m) \<le> length lit + 5"

definition l2_usable :: "nat \<Rightarrow> nat \<Rightarrow> bytes \<Rightarrow> nat \<Rightarrow> bool" where
  "l2_usable min_len max_len src cap \<longleftrightarrow>
     min_len \<le> length src \<and> length src \<le> max_len \<and> room (length src) cap"

context l2_encoder
begin

abbreviation good :: "bytes \<Rightarrow> nat \<Rightarrow> bool" where
  "good \<equiv> l2_usable min_len max_len"

lemma good_props:
  assumes "good src cap"
  shows "16 \<le> length src" "length src \<le> MAX_BLOCK_SIZE" "length src \<le> 8388608" "room (length src) cap"
    "DST_LIMIT src = limit (length src)" "S_LIMIT src + 8 = length src"
  using assms lengths by (auto simp: l2_usable_def format_consts limit_def DST_LIMIT_def S_LIMIT_def)

lemma store_ok:
  assumes "tbl_ok bits a t" "h < 2 ^ bits" "a \<le> b" "s < b" "good src cap" "s < length src"
  obtains t' where "l2_store cfg h s t = Some t'" "tbl_ok bits b t'"
proof -
  have "s mod 2 ^ l2_cast cfg = s" using assms(5,6) lengths by (simp add: l2_usable_def)
  moreover have "h < length t" using assms(1,2) by (simp add: tbl_ok_def)
  moreover have "tbl_ok bits b (t[h := s])"
    using assms(1,3,4) set_update_subset_insert [of t h s] by (fastforce simp: tbl_ok_def)
  ultimately show ?thesis using that by (simp add: l2_store_def)
qed

lemma index_pair_ok:
  assumes "good src cap" "tbl_ok (l_bits cfg) b l" "tbl_ok (s_bits cfg) b t"
    and "i0 + 1 < b" "i1 + 1 < b" "b + 7 \<le> length src"
  shows "\<exists>l' t'. l2_index_pair cfg src i0 i1 (l, t) = Some (l', t') \<and>
    tbl_ok (l_bits cfg) b l' \<and> tbl_ok (s_bits cfg) b t'"
proof -
  let ?v0 = "word_at 8 src i0 :: u64" and ?v1 = "word_at 8 src i1 :: u64"
  obtain l1 where l1: "l2_store cfg (long_slot cfg ?v0) i0 l = Some l1" "tbl_ok (l_bits cfg) b l1"
    by (rule store_ok [OF assms(2) long_bound order_refl _ assms(1), of i0]) (use assms in auto)
  obtain t1 where t1: "l2_store cfg (short_slot cfg (drop_bit 8 ?v0)) (i0 + 1) t = Some t1" "tbl_ok (s_bits cfg) b t1"
    by (rule store_ok [OF assms(3) short_bound order_refl _ assms(1), of "i0 + 1"]) (use assms in auto)
  obtain l2 where l2: "l2_store cfg (long_slot cfg ?v1) i1 l1 = Some l2" "tbl_ok (l_bits cfg) b l2"
    by (rule store_ok [OF l1(2) long_bound order_refl _ assms(1), of i1]) (use assms in auto)
  obtain t2 where t2: "l2_store cfg (short_slot cfg (drop_bit 8 ?v1)) (i1 + 1) t1 = Some t2" "tbl_ok (s_bits cfg) b t2"
    by (rule store_ok [OF t1(2) short_bound order_refl _ assms(1), of "i1 + 1"]) (use assms in auto)
  have ld: "load64 src i0 = Some ?v0" "load64 src i1 = Some ?v1" using assms by (auto intro: load64_word)
  show ?thesis
    unfolding l2_index_pair_def prod.case ld Option.bind_lunit l1(1) t1(1) l2(1) t2(1)
    using l2(2) t2(2) by blast
qed

lemma between_ok:
  assumes "good src cap" "tbl_ok (l_bits cfg) b l" "tbl_ok (s_bits cfg) b t" "i1 + 1 < b" "b + 7 \<le> length src"
  shows "\<exists>l' t'. loop (l2_between_step cfg src) (i0, i1, l, t) = Some (l', t') \<and>
    tbl_ok (l_bits cfg) b l' \<and> tbl_ok (s_bits cfg) b t'"
proof -
  let ?I = "\<lambda>(i0 :: nat, i1, l, t). i1 + 1 < b \<and> tbl_ok (l_bits cfg) b l \<and> tbl_ok (s_bits cfg) b t"
  let ?Q = "\<lambda>(l, t). tbl_ok (l_bits cfg) b l \<and> tbl_ok (s_bits cfg) b t"
  have "\<exists>r. loop (l2_between_step cfg src) (i0, i1, l, t) = Some r \<and> ?Q r"
  proof (rule loop_total [where I = ?I and m = "\<lambda>(i0, i1, l, t). i1 - i0"])
    show "?I (i0, i1, l, t)" using assms by simp
    fix st assume I: "?I st"
    obtain i0 i1 l t where st: "st = (i0, i1, l, t)" by (cases st)
    from I have I: "i1 + 1 < b" "tbl_ok (l_bits cfg) b l" "tbl_ok (s_bits cfg) b t" by (auto simp: st)
    show "(\<exists>s'. l2_between_step cfg src st = Some (Inl s') \<and> ?I s' \<and>
        (case s' of (i0, i1, l, t) \<Rightarrow> i1 - i0) < (case st of (i0, i1, l, t) \<Rightarrow> i1 - i0)) \<or>
      (\<exists>r. l2_between_step cfg src st = Some (Inr r) \<and> ?Q r)"
    proof (cases "i0 < i1")
      case True
      with index_pair_ok [OF assms(1) I(2,3) _ I(1) assms(5), of i0] I(1)
      obtain l' t' where "l2_index_pair cfg src i0 i1 (l, t) = Some (l', t')"
        "tbl_ok (l_bits cfg) b l'" "tbl_ok (s_bits cfg) b t'" by auto
      with True I(1) show ?thesis by (auto simp: st l2_between_step_def saturating_sub_def)
    next
      case False
      with I show ?thesis by (simp add: st l2_between_step_def)
    qed
  qed
  then show ?thesis by auto
qed

lemma sparse_ok:
  assumes "good src cap" "tbl_ok (l_bits cfg) b l" "i0 \<le> i2" "i1 < b" "b + 7 \<le> length src"
  shows "\<exists>l'. loop (l2_sparse_step cfg src i1) (i0, i2, l) = Some l' \<and> tbl_ok (l_bits cfg) b l'"
proof (rule loop_total [where I = "\<lambda>(i0, i2, l). i0 \<le> i2 \<and> tbl_ok (l_bits cfg) b l" and m = "\<lambda>(i0, i2, l). i1 - i2"])
  show "case (i0, i2, l) of (i0, i2, l) \<Rightarrow> i0 \<le> i2 \<and> tbl_ok (l_bits cfg) b l" using assms by simp
  fix st :: "nat \<times> nat \<times> nat list" assume I: "case st of (i0, i2, l) \<Rightarrow> i0 \<le> i2 \<and> tbl_ok (l_bits cfg) b l"
  obtain i0 i2 l where st: "st = (i0, i2, l)" by (cases st)
  from I have I: "i0 \<le> i2" "tbl_ok (l_bits cfg) b l" by (auto simp: st)
  show "(\<exists>s'. l2_sparse_step cfg src i1 st = Some (Inl s') \<and>
        (case s' of (i0, i2, l) \<Rightarrow> i0 \<le> i2 \<and> tbl_ok (l_bits cfg) b l) \<and>
        (case s' of (i0, i2, l) \<Rightarrow> i1 - i2) < (case st of (i0, i2, l) \<Rightarrow> i1 - i2)) \<or>
      (\<exists>r. l2_sparse_step cfg src i1 st = Some (Inr r) \<and> tbl_ok (l_bits cfg) b r)"
  proof (cases "i2 < i1")
    case True
    let ?v0 = "word_at 8 src i0 :: u64" and ?v2 = "word_at 8 src i2 :: u64"
    obtain l1 where l1: "l2_store cfg (long_slot cfg ?v0) i0 l = Some l1" "tbl_ok (l_bits cfg) b l1"
      by (rule store_ok [OF I(2) long_bound order_refl _ assms(1), of i0]) (use assms True I in auto)
    obtain l2 where l2: "l2_store cfg (long_slot cfg ?v2) i2 l1 = Some l2" "tbl_ok (l_bits cfg) b l2"
      by (rule store_ok [OF l1(2) long_bound order_refl _ assms(1), of i2]) (use assms True I in auto)
    have "load64 src i0 = Some ?v0" "load64 src i2 = Some ?v2"
      using assms(4,5) True I(1) by (auto intro: load64_word)
    with True l1 l2 I show ?thesis by (simp add: st l2_sparse_step_def)
  next
    case False
    with I show ?thesis by (simp add: st l2_sparse_step_def)
  qed
qed

lemma repeat_ok:
  assumes good: "good src cap"
    and st: "s0 \<le> cur st" "cur st + 9 \<le> length src" "nemit st \<le> cur st" "rept st \<le> cur st"
      "l2_tbls_ok cfg (cur st + 1) st" "enc_state_ok src cap st"
    and m: "same src (cur st + 1 - rept st) (cur st + 1) 4"
  shows "(\<exists>st'. l2_repeat cfg src st = Some (Inl st') \<and> l2_search_inv cfg src cap s0 st' \<and> cur st < cur st') \<or>
    (\<exists>e. l2_repeat cfg src st = Some (Inr e) \<and> l2_exit_ok cfg src cap s0 e)"
proof -
  note g = good_props [OF good]
  define p r ne d where "p = cur st + 1" and "r = rept st" and "ne = nemit st" and "d = opos st"
  have e: "enc_ok src (outb st) d ne r" "length (outb st) = cap"
    using st(6) by (auto simp: enc_state_ok_def d_def ne_def r_def)
  then have r: "0 < r" "r \<le> p" using st(4) by (auto simp: enc_ok_def r_def p_def)
  obtain i base s where x: "extend_back src ne (p - r) p = Some (i, base)"
    "extend_full src (p + 4) (p - r + 4) = Some s" "ne \<le> base" "base \<le> p" "p + 4 \<le> s" "s \<le> length src"
    "is_match src base r (s - base)"
    by (rule full.match_from_repeat [of src p r ne]) (use m r st in \<open>auto simp: p_def r_def ne_def\<close>)
  have pos: "cur st + 4 + 1 = p + 4" "cur st - rept st + 4 + 1 = p - r + 4"
    using st(4) by (simp_all add: p_def r_def)
  have fw: "extend_full src (cur st + 4 + 1) (cur st - rept st + 4 + 1) = Some s"
    unfolding pos by (rule x(2))
  define lit where "lit = take (base - ne) (drop ne src)"
  have sl: "slice src ne base = Some lit" using x(3,4) st(2) by (simp add: slice_Some lit_def p_def)
  have u: "usub (cur st + 1) (rept st) = Some (p - r)" "usub base ne = Some (base - ne)"
    "usub (cur st) (rept st) = Some (cur st - rept st)" "usub s base = Some (s - base)"
    using st(4) x by (simp_all add: usub_Some p_def r_def)
  have head: "l2_repeat cfg src st = (if DST_LIMIT src < d + (base - ne) then Some (Inr (Return0 (outb st)))
     else do {
       (out, d) \<leftarrow> emit_at d (\<lambda>dst. emit_literal dst lit) (outb st);
       (out, d) \<leftarrow> emit_at d (\<lambda>dst. emit_repeat dst (s - base)) out;
       let st = st\<lparr>cur := s, nemit := s, outb := out, opos := d\<rparr>;
       if S_LIMIT src \<le> s then Some (Inr (BreakOuter st))
       else do {
         (l, t) \<leftarrow> loop (l2_between_step cfg src) (base + 1, saturating_sub s 2, ltbl st, stbl st);
         v \<leftarrow> load64 src s;
         Some (Inl (st\<lparr>cv := v, ltbl := l, stbl := t\<rparr>)) } })"
    using x(1) fw [simplified] sl u unfolding l2_repeat_def p_def [symmetric] ne_def [symmetric] d_def [symmetric]
    by (simp add: Let_def)
  show ?thesis
  proof (cases "DST_LIMIT src < d + (base - ne)")
    case True
    with head e show ?thesis by simp
  next
    case False
    then have lim: "d + (base - ne) \<le> limit (length src)" using g(5) by simp
    have lit: "length lit = base - ne" using x(3,4) st(2) by (simp add: lit_def p_def)
    have "base - ne + (s - base) \<le> length src" "4 \<le> s - base" using x by auto
    note len = lit_rep_length [OF lit this]
    have fit: "d + (length (lit_code lit) + length (rep_code (s - base))) \<le> cap"
      by (rule within_room [OF g(1,3,4) lim]) (use len in auto)
    have f1: "d + length (lit_code lit) \<le> length (outb st)" using fit e(2) by simp
    obtain out1 where o1: "emit_at d (\<lambda>dst. emit_literal dst lit) (outb st) = Some (out1, d + length (lit_code lit))"
      "length out1 = length (outb st)" "enc_ok src out1 (d + length (lit_code lit)) base r"
      by (rule enc_literal [OF e(1) x(3) _ g(2) lit_def]) (use f1 x st p_def in auto)
    let ?d' = "d + length (lit_code lit) + length (rep_code (s - base))"
    have f2: "?d' \<le> length out1" using fit e(2) o1(2) by simp
    obtain out2 where o2: "emit_at (d + length (lit_code lit)) (\<lambda>dst. emit_repeat dst (s - base)) out1 = Some (out2, ?d')"
      "length out2 = length out1" "enc_ok src out2 ?d' (base + (s - base)) r"
      by (rule enc_repeat [OF o1(3) x(7) _ g(2)]) (use f2 x in auto)
    have bs: "base + (s - base) = s" using x by auto
    let ?st = "st\<lparr>cur := s, nemit := s, outb := out2, opos := ?d'\<rparr>"
    have ok: "enc_state_ok src cap ?st"
      using o1 o2 e bs by (simp add: enc_state_ok_def r_def)
    have res: "l2_repeat cfg src st = (if S_LIMIT src \<le> s then Some (Inr (BreakOuter ?st))
       else do {
         (l, t) \<leftarrow> loop (l2_between_step cfg src) (base + 1, saturating_sub s 2, ltbl st, stbl st);
         v \<leftarrow> load64 src s;
         Some (Inl (?st\<lparr>cv := v, ltbl := l, stbl := t\<rparr>)) })"
      using head False o1(1) o2(1) by (simp add: Let_def)
    show ?thesis
    proof (cases "S_LIMIT src \<le> s")
      case True
      with res ok show ?thesis by simp
    next
      case False
      then have s8: "s + 8 \<le> length src" using g(6) by simp
      have tb: "tbl_ok (l_bits cfg) s (ltbl st)" "tbl_ok (s_bits cfg) s (stbl st)"
        using l2_tbls_ok_mono [OF st(5), of s] x(5) by (simp_all add: l2_tbls_ok_def p_def)
      have "saturating_sub s 2 + 1 < s" using x(5) by (simp add: saturating_sub_def)
      from between_ok [OF good tb this, of "base + 1"] s8 obtain l t where
        lp: "loop (l2_between_step cfg src) (base + 1, saturating_sub s 2, ltbl st, stbl st) = Some (l, t)"
        and tb': "tbl_ok (l_bits cfg) s l" "tbl_ok (s_bits cfg) s t" by auto
      have "l2_search_inv cfg src cap s0 (?st\<lparr>cv := word_at 8 src s, ltbl := l, stbl := t\<rparr>)"
        unfolding l2_search_inv_def l2_tbls_ok_def
        using ok s8 bs x(5) st p_def tb' by (auto simp: enc_state_ok_def)
      with res False lp x(5) load64_word [OF s8] show ?thesis by (auto simp: p_def)
    qed
  qed
qed

text \<open>The repeat check compares the bytes one to four of two words under a mask.\<close>

lemma repeat_check:
  assumes "0 < r" "r \<le> s" "s + 9 \<le> length src"
    and "word_at 8 src s AND 0xffffffff00 = word_at 8 src (s - r) AND (0xffffffff00 :: u64)"
  shows "same src (s + 1 - r) (s + 1) 4"
proof -
  have "word_at 4 src (s + 1) = (word_at 4 src (s - r + 1) :: u32)"
    using mask_eq_word [OF assms(4)] ucast_word_at [of s src 1] ucast_word_at [of "s - r" src 1] assms(3)
    by simp
  moreover have "s - r + 1 = s + 1 - r" using assms(2) by simp
  ultimately show ?thesis using load32_match [of "s + 1 - r" src "s + 1"] assms by simp
qed

lemma search_step_ok:
  assumes good: "good src cap" and I: "l2_search_inv cfg src cap s0 st"
  shows "(\<exists>st'. l2_search_step cfg src st = Some (Inl st') \<and>
      l2_search_inv cfg src cap s0 st' \<and> length src - cur st' < length src - cur st) \<or>
    (\<exists>e. l2_search_step cfg src st = Some (Inr e) \<and> l2_exit_ok cfg src cap s0 e)"
proof -
  note g = good_props [OF good]
  define s v r where "s = cur st" and "v = cv st" and "r = rept st"
  have i: "s0 \<le> s" "0 < s" "s + 8 \<le> length src" "v = word_at 8 src s" "nemit st \<le> s" "r \<le> s"
    "tbl_ok (l_bits cfg) s (ltbl st)" "tbl_ok (s_bits cfg) s (stbl st)" "enc_state_ok src cap st"
    using I by (auto simp: l2_search_inv_def l2_tbls_ok_def s_def v_def r_def)
  have r: "0 < r" using i(9) by (auto simp: enc_state_ok_def enc_ok_def r_def)
  have sm: "s \<le> max_len" using good i(3) by (simp add: l2_usable_def)
  define next_s where "next_s = s + (s - nemit st) div 2 ^ 7 + 1"
  show ?thesis
  proof (cases "S_LIMIT src < next_s")
    case True
    then have "l2_search_step cfg src st = Some (Inr (BreakOuter st))"
      using i(5) unfolding l2_search_step_def s_def [symmetric] Let_def
      by (simp add: usub_Some next_s_def)
    with i(9) show ?thesis by simp
  next
    case False
    then have nx: "next_s + 8 \<le> length src" "s + 1 \<le> next_s" using g(6) by (auto simp: next_s_def)
    obtain cl cs where c: "idx (ltbl st) (long_slot cfg v) = Some cl" "cl < s"
      "idx (stbl st) (short_slot cfg v) = Some cs" "cs < s"
      using tbl_ok_idx [OF i(7) long_bound] tbl_ok_idx [OF i(8) short_bound] by metis
    obtain l where l: "l2_store cfg (long_slot cfg v) s (ltbl st) = Some l" "tbl_ok (l_bits cfg) (s + 1) l"
      by (rule store_ok [OF i(7) long_bound, of "s + 1" s src cap v]) (use good i(3) in auto)
    obtain t where t: "l2_store cfg (short_slot cfg v) s (stbl st) = Some t" "tbl_ok (s_bits cfg) (s + 1) t"
      by (rule store_ok [OF i(8) short_bound, of "s + 1" s src cap v]) (use good i(3) in auto)
    let ?v1 = "drop_bit 8 v"
    obtain c2 where c2: "idx l (long_slot cfg ?v1) = Some c2" "c2 < s + 1"
      using tbl_ok_idx [OF l(2) long_bound] by metis
    obtain l2 where l2: "l2_store cfg (long_slot cfg ?v1) (s + 1) l = Some l2" "tbl_ok (l_bits cfg) (s + 2) l2"
      by (rule store_ok [OF l(2) long_bound, of "s + 2" "s + 1" src cap ?v1]) (use good nx in auto)
    define vl vs where "vl = (word_at 8 src cl :: u64)" and "vs = (word_at 8 src cs :: u64)"
    have ld: "load64 src cl = Some vl" "load64 src cs = Some vs" "load64 src (s - r) = Some (word_at 8 src (s - r))"
      "load64 src next_s = Some (word_at 8 src next_s)" "load32 src c2 = Some (word_at 4 src c2)"
      using c i(3) c2(2) nx load64_word by (auto simp: vl_def vs_def load32_def word_at_def)
    define b0 where "b0 \<longleftrightarrow> above_min cfg cl s \<and> v = vl"
    define b1 where "b1 \<longleftrightarrow> v AND 0x000000ffffffff00 = word_at 8 src (s - r) AND (0x000000ffffffff00 :: u64)"
    define b2 where "b2 \<longleftrightarrow> from_min cfg cl s \<and> (ucast v :: u32) = ucast vl"
    define b3 where "b3 \<longleftrightarrow> from_min cfg cs s \<and> (ucast v :: u32) = ucast vs"
    define b4 where "b4 \<longleftrightarrow> above_min cfg c2 s \<and> (ucast ?v1 :: u32) = word_at 4 src c2"
    let ?st = "st\<lparr>stbl := t, ltbl := l\<rparr>"
    have step: "l2_search_step cfg src st =
       (if above_min cfg cl s \<and> v = vl then Some (Inr (Onward (cl, next_s, ?st)))
        else if v AND 0x000000ffffffff00 = word_at 8 src (s - r) AND 0x000000ffffffff00 then l2_repeat cfg src ?st
        else if from_min cfg cl s \<and> (ucast v :: u32) = ucast vl then Some (Inr (Onward (cl, next_s, ?st)))
        else if from_min cfg cs s \<and> (ucast v :: u32) = ucast vs then
          if above_min cfg c2 s \<and> (ucast ?v1 :: u32) = word_at 4 src c2 then
            Some (Inr (Onward (c2, next_s, ?st\<lparr>ltbl := l2, cur := s + 1\<rparr>)))
          else Some (Inr (Onward (cs, next_s, ?st\<lparr>ltbl := l2\<rparr>)))
        else Some (Inl (?st\<lparr>cv := word_at 8 src next_s, cur := next_s\<rparr>)))"
      using False r i(6) unfolding l2_search_step_def Let_def s_def [symmetric] usub_Some [OF i(5)]
        Option.bind_lunit next_s_def [symmetric] v_def [symmetric] c(1,3) l(1) t(1) ld(1,2)
      by (simp add: c2(1) l2(1) [simplified] ld(3-5) flip: r_def v_def)
    note step = step [folded b0_def b1_def b2_def b3_def b4_def]
    have w: "ucast v = (word_at 4 src s :: u32)" "ucast vl = (word_at 4 src cl :: u32)"
      "ucast vs = (word_at 4 src cs :: u32)" "ucast ?v1 = (word_at 4 src (s + 1) :: u32)"
      using ucast_word_at [OF i(3), of 0] ucast_word_at [of cl src 0] ucast_word_at [of cs src 0]
        ucast_word_at [OF i(3), of 1] i(3) c by (simp_all add: i(4) vl_def vs_def)
    have found: "l2_found_inv cfg src cap s0 c next_s (?st\<lparr>ltbl := l'\<rparr>)"
      if "c < s" "same src c s 4" "s - c \<le> MAX_COPY3_OFFSET" "tbl_ok (l_bits cfg) (s + 2) l'" for c l'
      using that i nx tbl_ok_mono [OF that(4), of "min (s + 2) (next_s + 1)"]
        tbl_ok_mono [OF t(2), of "min (s + 2) (next_s + 1)"]
      by (auto simp: l2_found_inv_def l2_tbls_ok_def enc_state_ok_def s_def r_def)
    have l': "tbl_ok (l_bits cfg) (s + 2) l" using tbl_ok_mono [OF l(2), of "s + 2"] by simp
    consider "b0" | "\<not> b0" "b1" | "\<not> b0" "\<not> b1" "b2" | "\<not> b0" "\<not> b1" "\<not> b2" "b3" "b4"
      | "\<not> b0" "\<not> b1" "\<not> b2" "b3" "\<not> b4" | "\<not> b0" "\<not> b1" "\<not> b2" "\<not> b3" by blast
    then show ?thesis
    proof cases
      case 1
      then have "same src cl s 4" "s - cl \<le> MAX_COPY3_OFFSET"
        using load64_match [of cl src s] above_bound [of cl s] i(3,4) c sm by (auto simp: b0_def vl_def)
      from found [OF c(2) this l'] 1 step show ?thesis by simp
    next
      case 2
      have "same src (s + 1 - r) (s + 1) 4"
        by (rule repeat_check) (use 2 r i nx in \<open>auto simp: b1_def\<close>)
      then have "(\<exists>st'. l2_repeat cfg src ?st = Some (Inl st') \<and> l2_search_inv cfg src cap s0 st' \<and> cur ?st < cur st') \<or>
          (\<exists>e. l2_repeat cfg src ?st = Some (Inr e) \<and> l2_exit_ok cfg src cap s0 e)"
        by (intro repeat_ok [OF good])
          (use i nx l t in \<open>auto simp: s_def r_def enc_state_ok_def l2_tbls_ok_def\<close>)
      then show ?thesis using 2 step by (fastforce simp: l2_search_inv_def)
    next
      case 3
      then have "same src cl s 4" "s - cl \<le> MAX_COPY3_OFFSET"
        using load32_match [of cl src s] from_bound [of cl s] i(3) c sm w by (auto simp: b2_def)
      from found [OF c(2) this l'] 3 step show ?thesis by simp
    next
      case 4
      then have "same src c2 (s + 1) 4" "s + 1 - c2 \<le> MAX_COPY3_OFFSET"
        using load32_match [of c2 src "s + 1"] above_bound [of c2 s] i(3) nx c2 sm w by (auto simp: b4_def)
      moreover have "l2_tbls_ok cfg (min (s + 1 + 2) (next_s + 1)) (?st\<lparr>ltbl := l2, cur := s + 1\<rparr>)"
        using tbl_ok_mono [OF l2(2)] tbl_ok_mono [OF t(2)] nx(2) by (auto simp: l2_tbls_ok_def)
      ultimately have "l2_found_inv cfg src cap s0 c2 next_s (?st\<lparr>ltbl := l2, cur := s + 1\<rparr>)"
        unfolding l2_found_inv_def using i nx c2 by (auto simp: enc_state_ok_def s_def r_def)
      with 4 step show ?thesis by simp
    next
      case 5
      then have "same src cs s 4" "s - cs \<le> MAX_COPY3_OFFSET"
        using load32_match [of cs src s] from_bound [of cs s] i(3) c sm w by (auto simp: b3_def)
      from found [OF c(4) this l2(2)] 5 step show ?thesis by simp
    next
      case 6
      have "l2_search_inv cfg src cap s0 (?st\<lparr>cv := word_at 8 src next_s, cur := next_s\<rparr>)"
        using i nx tbl_ok_mono [OF l(2), of next_s] tbl_ok_mono [OF t(2), of next_s]
        by (auto simp: l2_search_inv_def l2_tbls_ok_def enc_state_ok_def r_def)
      with 6 step nx show ?thesis by (auto simp: s_def)
    qed
  qed
qed

lemma emit_ok:
  assumes good: "good src cap" and st: "enc_state_ok src cap st" and ne: "nemit st \<le> base"
    and lim: "opos st + (base - nemit st) \<le> limit (length src)"
    and m: "is_match src base off m" "4 \<le> m" "off \<le> MAX_COPY3_OFFSET"
  shows "\<exists>out d. l2_emit cfg src base off m st = Some (out, d) \<and> length out = cap \<and>
    enc_ok src out d (base + m) off"
proof -
  note g = good_props [OF good]
  define ne d r where "ne = nemit st" and "d = opos st" and "r = rept st"
  have e: "enc_ok src (outb st) d ne r" "length (outb st) = cap"
    using st by (auto simp: enc_state_ok_def d_def ne_def r_def)
  have b: "ne \<le> base" "base + m \<le> length src" "0 < off" "off \<le> base" "off \<le> length src"
    using ne m(1) by (auto simp: is_match_def ne_def)
  note lim = lim [folded d_def ne_def]
  define lit where "lit = take (base - ne) (drop ne src)"
  have lit: "length lit = base - ne" using b by (simp add: lit_def)
  have sl: "slice src ne base = Some lit" using b by (simp add: slice_Some lit_def)
  have f: "l2_emit cfg src base off m st =
     (if lit \<noteq> [] then
       if fuses cfg (length lit) off then
         emit_at d (\<lambda>dst. l2_fused cfg dst lit off m) (outb st)
       else do {
         (out, d) \<leftarrow> emit_at d (\<lambda>dst. emit_literal dst lit) (outb st);
         emit_at d (\<lambda>dst. emit_copy dst off m) out }
     else emit_at d (\<lambda>dst. emit_copy dst off m) (outb st))"
    by (simp add: l2_emit_def sl flip: ne_def d_def)
  have km: "base - ne + m \<le> length src" using b by simp
  have fit: "d + length (lit_code lit) + length (copy_code off m) \<le> cap"
    by (rule lit_copy_room [OF g(1,3,4) lim lit km m(2) b(5)])
  have bm: "base + m \<le> length src" "base \<le> length src" using b by simp_all
  consider "lit = []" | "lit \<noteq> []" "\<not> fuses cfg (length lit) off" | "lit \<noteq> []" "fuses cfg (length lit) off"
    by blast
  then show ?thesis
  proof cases
    case 1
    then have "ne = base" using lit b(1) by simp
    then have e1: "enc_ok src (outb st) d base r" using e(1) by simp
    have f1: "d + length (copy_code off m) \<le> length (outb st)" using fit e(2) by simp
    obtain out where "emit_at d (\<lambda>dst. emit_copy dst off m) (outb st) = Some (out, d + length (copy_code off m))"
      "length out = length (outb st)" "enc_ok src out (d + length (copy_code off m)) (base + m) off"
      by (rule enc_copy [OF e1 m(1,2) g(2) m(3) f1])
    with f 1 e(2) show ?thesis by auto
  next
    case 2
    have f1: "d + length (lit_code lit) \<le> length (outb st)" using fit e(2) by simp
    obtain out1 where o1: "emit_at d (\<lambda>dst. emit_literal dst lit) (outb st) = Some (out1, d + length (lit_code lit))"
      "length out1 = length (outb st)" "enc_ok src out1 (d + length (lit_code lit)) base r"
      by (rule enc_literal [OF e(1) b(1) bm(2) g(2) lit_def f1])
    have f2: "d + length (lit_code lit) + length (copy_code off m) \<le> length out1" using fit e(2) o1(2) by simp
    obtain out2 where "emit_at (d + length (lit_code lit)) (\<lambda>dst. emit_copy dst off m) out1 =
        Some (out2, d + length (lit_code lit) + length (copy_code off m))"
      "length out2 = length out1"
      "enc_ok src out2 (d + length (lit_code lit) + length (copy_code off m)) (base + m) off"
      by (rule enc_copy [OF o1(3) m(1,2) g(2) m(3) f2])
    with f 2 o1 e(2) show ?thesis by auto
  next
    case 3
    let ?c = "fused_code lit off m"
    have m24: "m < 16777216" "off \<le> max_len" using b(2,5) g(3) good by (simp_all add: l2_usable_def)
    have small: "length ?c \<le> base - ne + 6" if "length src < 288"
      using fused_length_small [of m off lit] that good b(2,5) lit by (simp add: l2_usable_def)
    have "d + length ?c \<le> cap"
      by (rule within_room [OF g(1,3,4) lim]) (use fused_length [of lit off m] lit small in auto)
    then have f1: "d + length ?c \<le> length (outb st)" using e(2) by simp
    obtain out where "emit_at d (\<lambda>dst. l2_fused cfg dst lit off m) (outb st) = Some (out, d + length ?c)"
      "length out = length (outb st)" "enc_ok src out (d + length ?c) (base + m) off"
    proof (rule enc_emit [OF e(1) fused_emits [OF 3(2,1) m(3) m24(2) m(2) m24(1)] f1])
      have "off \<le> length (take ne src) + length lit" using b lit by simp
      note run = fused_run [OF 3(2,1) m(3) m24(2) m(2) m24(1) this]
      show "spec_run (?c @ rest) (take ne src, r) = spec_run rest (take (base + m) src, off)" for rest
        using run [of rest r] is_match_copy [OF m(1)] take_append_slice [OF b(1), of src] lit_def by simp
    qed (use b in auto)
    with f 3 e(2) show ?thesis by auto
  qed
qed

lemma index_match_ok:
  assumes "good src cap" "l2_tbls_ok cfg s st" "base + 4 \<le> s" "s + 8 \<le> length src"
  shows "\<exists>l t. l2_index_match cfg src base s st = Some (st\<lparr>cv := word_at 8 src s, ltbl := l, stbl := t\<rparr>) \<and>
    tbl_ok (l_bits cfg) s l \<and> tbl_ok (s_bits cfg) s t"
proof -
  have tb: "tbl_ok (l_bits cfg) s (ltbl st)" "tbl_ok (s_bits cfg) s (stbl st)"
    using assms(2) by (simp_all add: l2_tbls_ok_def)
  obtain l t where p: "l2_index_pair cfg src (base + 1) (s - 2) (ltbl st, stbl st) = Some (l, t)"
    "tbl_ok (l_bits cfg) s l" "tbl_ok (s_bits cfg) s t"
  proof -
    have "base + 1 + 1 < s" "s - 2 + 1 < s" "s + 7 \<le> length src" using assms(3,4) by linarith+
    from index_pair_ok [OF assms(1) tb this] show ?thesis using that by blast
  qed
  let ?i1 = "saturating_sub (s - 2) 1"
  have "base + 1 + 1 \<le> (base + 1 + 1 + ?i1 + 1) div 2 \<or> ?i1 = base + 1" "?i1 < s"
    using assms(3) by (auto simp: saturating_sub_def)
  moreover have "base + 1 + 1 \<le> (base + 1 + 1 + (base + 1) + 1) div 2" by simp
  ultimately obtain l' where l': "loop (l2_sparse_step cfg src ?i1)
      (base + 1 + 1, (base + 1 + 1 + ?i1 + 1) div 2, l) = Some l'" "tbl_ok (l_bits cfg) s l'"
    using sparse_ok [OF assms(1) p(2), of "base + 1 + 1" "(base + 1 + 1 + ?i1 + 1) div 2" ?i1] assms(4)
    by auto
  have "usub s 2 = Some (s - 2)" using assms(3) by (simp add: usub_Some)
  then have "l2_index_match cfg src base s st = Some (st\<lparr>cv := word_at 8 src s, ltbl := l', stbl := t\<rparr>)"
    unfolding l2_index_match_def Let_def
    by (simp only: Option.bind_lunit p(1) prod.case load64_word [OF assms(4)] l'(1))
  with l' p show ?thesis by blast
qed

lemma outer_step_ok:
  assumes good: "good src cap" and I: "l2_search_inv cfg src cap s0 st"
  shows "(\<exists>st'. l2_outer_step cfg src st = Some (Inl st') \<and>
      l2_search_inv cfg src cap s0 st' \<and> length src - cur st' < length src - cur st) \<or>
    (\<exists>e. l2_outer_step cfg src st = Some (Inr e) \<and>
      (case e of Inl out \<Rightarrow> length out = cap | Inr st \<Rightarrow> enc_state_ok src cap st))"
proof -
  note g = good_props [OF good]
  have I': "l2_search_inv cfg src cap (cur st) st" and s0: "s0 \<le> cur st" "cur st < length src"
    using I by (auto simp: l2_search_inv_def)
  from loop_total [of "l2_search_inv cfg src cap (cur st)" st "l2_search_step cfg src"
      "\<lambda>st. length src - cur st", OF I' search_step_ok [OF good]]
  obtain e where e: "loop (l2_search_step cfg src) st = Some e" "l2_exit_ok cfg src cap (cur st) e" by blast
  show ?thesis
  proof (cases e)
    case (BreakOuter st1)
    with e show ?thesis by (simp add: l2_outer_step_def)
  next
    case (Return0 out)
    with e show ?thesis by (simp add: l2_outer_step_def)
  next
    case (Onward p)
    obtain c next_s st1 where p: "p = (c, next_s, st1)" by (cases p)
    with e Onward have i: "cur st \<le> cur st1" "c < cur st1" "cur st1 \<le> next_s" "next_s + 8 \<le> length src"
      "same src c (cur st1) 4" "cur st1 - c \<le> MAX_COPY3_OFFSET" "nemit st1 \<le> cur st1" "rept st1 \<le> cur st1"
      "l2_tbls_ok cfg (min (cur st1 + 2) (next_s + 1)) st1" "enc_state_ok src cap st1"
      by (simp_all add: l2_found_inv_def)
    have e1: "length (outb st1) = cap" using i(10) by (simp add: enc_state_ok_def)
    obtain cp base s' where x: "extend_back src (nemit st1) c (cur st1) = Some (cp, base)" "cp \<le> base"
      "base - cp = cur st1 - c" "extend_full src (base + 4) (cp + 4) = Some s'" "nemit st1 \<le> base" "base \<le> cur st1"
      "base + 4 \<le> s'" "s' \<le> length src" "is_match src base (cur st1 - c) (s' - base)"
      "cur st1 + 4 \<le> s' \<or> length src < s' + 8"
      by (rule full.match_from_candidate [OF i(5,2) _ i(7)]) (use i(3,4) in auto)
    have u: "usub base (nemit st1) = Some (base - nemit st1)" "usub base cp = Some (base - cp)"
      "usub s' base = Some (s' - base)" using x by (simp_all add: usub_Some)
    have m4: "4 \<le> s' - base" "base + (s' - base) = s'" using x(7) by auto
    have step: "l2_outer_step cfg src st = (if DST_LIMIT src < opos st1 + (base - nemit st1) then Some (Inr (Inl (outb st1)))
        else if gives_up cfg (cur st1 - c) (s' - base) (rept st1) then
          if S_LIMIT src \<le> next_s + 1 then Some (Inr (Inr (st1\<lparr>cur := next_s + 1\<rparr>)))
          else do { v \<leftarrow> load64 src (next_s + 1); Some (Inl (st1\<lparr>cur := next_s + 1, cv := v\<rparr>)) }
        else do {
          (out, d) \<leftarrow> l2_emit cfg src base (cur st1 - c) (s' - base) st1;
          let st = st1\<lparr>rept := cur st1 - c, nemit := s', cur := s', outb := out, opos := d\<rparr>;
          if S_LIMIT src \<le> s' then Some (Inr (Inr st))
          else if DST_LIMIT src < d then Some (Inr (Inl out))
          else do { st \<leftarrow> l2_index_match cfg src base s' st; Some (Inl st) } })"
      unfolding l2_outer_step_def e(1) Option.bind_lunit Onward p enc_exit.case prod.case x(1,4) u Let_def x(3) ..
    show ?thesis
    proof (cases "DST_LIMIT src < opos st1 + (base - nemit st1)")
      case True
      with step e1 show ?thesis by simp
    next
      case lim: False
      show ?thesis
      proof (cases "gives_up cfg (cur st1 - c) (s' - base) (rept st1)")
        case give: True
        show ?thesis
        proof (cases "S_LIMIT src \<le> next_s + 1")
          case True
          with step lim give i(10) show ?thesis by (simp add: enc_state_ok_def)
        next
          case False
          then have n: "next_s + 1 + 8 \<le> length src" using g(6) by simp
          have "l2_search_inv cfg src cap s0 (st1\<lparr>cur := next_s + 1, cv := word_at 8 src (next_s + 1)\<rparr>)"
            using i n s0 l2_tbls_ok_mono [OF i(9), of "next_s + 1"]
            by (auto simp: l2_search_inv_def l2_tbls_ok_def enc_state_ok_def)
          with step lim give False load64_word [OF n] i(1,3) s0 n show ?thesis by auto
        qed
      next
        case keep: False
        have lim': "opos st1 + (base - nemit st1) \<le> limit (length src)" using lim g(5) by simp
        from emit_ok [OF good i(10) x(5) lim' x(9) m4(1) i(6)] obtain out d where
          o: "l2_emit cfg src base (cur st1 - c) (s' - base) st1 = Some (out, d)" "length out = cap"
          "enc_ok src out d s' (cur st1 - c)" unfolding m4(2) by blast
        let ?st = "st1\<lparr>rept := cur st1 - c, nemit := s', cur := s', outb := out, opos := d\<rparr>"
        have step: "l2_outer_step cfg src st = (if S_LIMIT src \<le> s' then Some (Inr (Inr ?st))
          else if DST_LIMIT src < d then Some (Inr (Inl out))
          else do { st \<leftarrow> l2_index_match cfg src base s' ?st; Some (Inl st) })"
          using step lim keep o(1) by (simp add: Let_def)
        have ok: "enc_state_ok src cap ?st" using o by (simp add: enc_state_ok_def)
        show ?thesis
        proof (cases "S_LIMIT src \<le> s' \<or> DST_LIMIT src < d")
          case True
          with step ok o(2) show ?thesis by auto
        next
          case False
          then have n: "s' + 8 \<le> length src" "S_LIMIT src > s'" using g(6) by simp_all
          have c4: "cur st1 + 4 \<le> s'" using x(10) n g(6) by auto
          have "l2_tbls_ok cfg s' ?st"
            using l2_tbls_ok_mono [OF i(9), of s'] c4 by (auto simp: l2_tbls_ok_def)
          from index_match_ok [OF good this x(7) n(1)] obtain l t where
            ix: "l2_index_match cfg src base s' ?st = Some (?st\<lparr>cv := word_at 8 src s', ltbl := l, stbl := t\<rparr>)"
            "tbl_ok (l_bits cfg) s' l" "tbl_ok (s_bits cfg) s' t" by blast
          have "l2_search_inv cfg src cap s0 (?st\<lparr>cv := word_at 8 src s', ltbl := l, stbl := t\<rparr>)"
            using ix ok n c4 i(1) s0 by (auto simp: l2_search_inv_def l2_tbls_ok_def enc_state_ok_def)
          with step False ix(1) c4 i(1) n(1) show ?thesis by auto
        qed
      qed
    qed
  qed
qed

lemma encode_ok:
  assumes good: "good src (length dst)" and tab: "t = replicate (2 ^ l_bits cfg) 0"
  shows "\<exists>out d. l2_encode cfg t dst src = Some (out, d) \<and> length out = length dst \<and>
    (d = 0 \<or> d \<le> length dst \<and> spec_decode (take d out) = Some src)"
proof -
  note g = good_props [OF good]
  let ?st = "\<lparr>nemit = 0, cur = 1, cv = word_at 8 src 1, rept = 1, outb = dst, opos = 0,
        ltbl = t, stbl = replicate (2 ^ s_bits cfg) 0\<rparr>"
  have I: "l2_search_inv cfg src (length dst) 0 ?st"
    using g(1) enc_ok_init [of src dst] tab
    by (auto simp: l2_search_inv_def tbl_ok_def l2_tbls_ok_def enc_state_ok_def)
  from loop_total [of "l2_search_inv cfg src (length dst) 0" ?st "l2_outer_step cfg src"
      "\<lambda>st. length src - cur st", OF I outer_step_ok [OF good]]
  obtain e where e: "loop (l2_outer_step cfg src) ?st = Some e"
    "case e of Inl out \<Rightarrow> length out = length dst | Inr st \<Rightarrow> enc_state_ok src (length dst) st" by blast
  note u = encode_prologue [OF g(1)]
  have f: "l2_encode cfg t dst src = (case e of Inl out \<Rightarrow> Some (out, 0) | Inr st \<Rightarrow> emit_remainder src st)"
    unfolding l2_encode_def u Option.bind_lunit e(1) ..
  show ?thesis
    using f e(2) remainder_ok [OF g(1,3,4)] by (cases e) auto
qed

end

section \<open>The two encoders\<close>

interpretation l2_big: l2_encoder l2_big fused_code_big 65537 MAX_BLOCK_SIZE
proof
  show "long_slot l2_big v < 2 ^ l_bits l2_big" for v
    using hash_bounds(4) [of 17 v] by (simp add: long_slot_def l2_big_def)
  show "short_slot l2_big v < 2 ^ s_bits l2_big" for v
    using hash_bounds(1) [of 14 v] by (simp add: short_slot_def l2_big_def)
  show "length (fused_code_big lit off m) \<le> length lit + 7" for lit off m
    by (simp add: fused_code_big_def lits2_length_bounds length_lits3_code)
qed (auto simp: l2_big_def l2_fused_big_def fused_code_big_def min_src_pos_def format_consts
    run_lits2_code run_lits3_code Suc_le_eq split: if_splits intro!: emits_copy_lits2 emits_copy_lits3)

interpretation l2_64k: l2_encoder l2_64k lits2_code 16 65536
proof
  show "long_slot l2_64k v < 2 ^ l_bits l2_64k" for v
    using hash_bounds(3) [of 15 v] by (simp add: long_slot_def l2_64k_def)
  show "short_slot l2_64k v < 2 ^ s_bits l2_64k" for v
    using hash_bounds(1) [of 12 v] by (simp add: short_slot_def l2_64k_def)
  show "length (lits2_code lit off m) \<le> length lit + 5" if "m < 288" for lit off m
    using lits2_length_bounds(2) [of m lit off] that by (auto simp: fused_bound_def split: if_splits)
qed (auto simp: l2_64k_def format_consts run_lits2_code lits2_length_bounds Suc_le_eq intro!: emits_copy_lits2)

lemma lend_table_zero: "t = [] \<or> length t = n \<Longrightarrow> lend_table n t = replicate n 0"
  by (auto simp: lend_table_def)

lemma l2_encode_block_on_eq:
  assumes "kb = [] \<or> length kb = 2 ^ 17" "ks = [] \<or> length ks = 2 ^ 15"
  shows "l2_encode_block_on kb ks dst src = l2_encode_block dst src"
  using lend_table_zero [OF assms(1)] lend_table_zero [OF assms(2)] lend_table_zero [of "[] :: nat list"]
  unfolding l2_encode_block_def l2_encode_block_on_def l2_encode_big_def l2_encode_64k_def by simp

lemma l2_encode_block_ok:
  assumes "length src \<le> MAX_BLOCK_SIZE" "room (length src) (length dst)"
  shows "\<exists>out d. l2_encode_block dst src = Some (out, d) \<and> length out = length dst \<and>
    (d = 0 \<or> d \<le> length dst \<and> spec_decode (take d out) = Some src)"
proof -
  have l: "lend_table (2 ^ 17) [] = replicate (2 ^ l_bits l2_big) 0"
    "lend_table (2 ^ 15) [] = replicate (2 ^ l_bits l2_64k) 0"
    by (simp_all add: lend_table_zero l2_big_def l2_64k_def)
  consider "length src < 16" | "16 \<le> length src" "length src \<le> 65536" | "65536 < length src" by linarith
  then show ?thesis
  proof cases
    case 1
    then show ?thesis by (simp add: l2_encode_block_def l2_encode_block_on_def format_consts)
  next
    case 2
    with assms l2_64k.encode_ok [of src dst, OF _ refl] show ?thesis
      unfolding l2_encode_block_def l2_encode_block_on_def l2_encode_64k_def l l2_usable_def
      by (simp add: format_consts)
  next
    case 3
    with assms l2_big.encode_ok [of src dst, OF _ refl] show ?thesis
      unfolding l2_encode_block_def l2_encode_block_on_def l2_encode_big_def l l2_usable_def
      by (simp add: format_consts)
  qed
qed

end
