(* ===== verification/Encode_L3_Correct.thy ===== *)
theory Encode_L3_Correct
  imports Encode_L3 Encode_Room
begin

text \<open>
  The smallest-output encoder: what it writes means its input, every index and load is in range
  and every loop ends, whatever the tables hold. Its limit on the output leaves room for less than
  a match can take, so the slice must be six bytes longer than the input; on a shorter one an
  emission may leave the slice, and that is the only way it can fault.
\<close>

section \<open>Matches\<close>

text \<open>A match with the literals before it: inside the input, behind \<open>ne\<close>, long enough to emit.\<close>

definition l3_valid :: "bytes \<Rightarrow> nat \<Rightarrow> nat \<Rightarrow> l3_match \<Rightarrow> bool" where
  "l3_valid src ne r m \<longleftrightarrow> m_len m = 0 \<or>
     (ne \<le> m_s m \<and> m_off m < m_s m \<and> is_match src (m_s m) (m_s m - m_off m) (m_len m) \<and>
      (if m_rep m then 3 \<le> m_len m \<and> m_s m - m_off m = r
       else 4 \<le> m_len m \<and> m_s m - m_off m \<le> MAX_COPY3_OFFSET))"

lemma l3_valid_no_match [simp]: "l3_valid src ne r (no_match offset s)"
  by (simp add: l3_valid_def no_match_def)

lemma l3_valid_best_of: "l3_valid src ne r a \<Longrightarrow> l3_valid src ne r b \<Longrightarrow> l3_valid src ne r (best_of a b)"
  by (simp add: best_of_def)

lemma best_of_len: "0 < m_len a \<Longrightarrow> 0 < m_len (best_of a b)"
  by (simp add: best_of_def)

lemma l3_extend_ok:
  assumes "same src offset s n" "offset < s" "s + n \<le> length src" "ne \<le> s"
  shows "\<exists>m. l3_extend src offset s n rep ne = Some m \<and> ne \<le> m_s m \<and> m_off m < m_s m \<and>
    m_s m - m_off m = s - offset \<and> n \<le> m_len m \<and> m_rep m = rep \<and>
    is_match src (m_s m) (s - offset) (m_len m)"
proof -
  obtain sx where sx: "extend_full src (s + n) (offset + n) = Some sx" "s + n \<le> sx" "sx \<le> length src"
    "same src (offset + n) (s + n) (sx - (s + n))"
    using full.extends [of "offset + n" "s + n" src] assms by (auto simp: stops_def)
  obtain k where k: "extend_back src ne offset s = Some (offset - k, s - k)" "k \<le> offset" "ne \<le> s - k"
    "same src (offset - k) (s - k) k"
    using extend_back_ok [of offset s src ne] assms by auto
  let ?L = "n + (sx - (s + n))"
  have "same src offset s ?L" by (rule same_extend [OF assms(1) sx(4)])
  then have "same src (offset - k + k) (s - k + k) ?L" using k(2) assms(2) by simp
  from same_extend [OF k(4) this] have "same src (s - k - (s - offset)) (s - k) (k + ?L)"
    using k(2) assms(2) by simp
  then have mt: "is_match src (s - k) (s - offset) (k + ?L)"
    using assms(2,3) k(2) sx(2,3) by (auto simp: is_match_def)
  have "usub (offset + n + (sx - (s + n)) + (s - (s - k))) offset = Some (k + ?L)"
    using k(2) assms(2) by (simp add: usub_Some)
  then have "l3_extend src offset s n rep ne = Some \<lparr>m_off = offset - k, m_s = s - k, m_len = k + ?L,
      m_score = 0, m_rep = rep, m_nextrep = False\<rparr>"
    unfolding l3_extend_def by (simp only: sx(1) k(1) Option.bind_lunit prod.case Let_def)
  then show ?thesis using mt k(2,3) assms(2) by auto
qed

lemma l3_score_ok:
  assumes "ne \<le> m_s m" "m_rep m \<or> 4 \<le> m_len m"
  shows "\<exists>sc. l3_score m ne = Some sc"
proof -
  have "\<exists>k. emit_copy_size o' (m_len m) = Some k" if "4 \<le> m_len m" for o'
    using that by (auto simp: emit_copy_size_def emit_copy2_size_def usub_Some Let_def)
  then obtain k where k: "4 \<le> m_len m \<Longrightarrow> emit_copy_size (nat (int (m_s m) - int (m_off m))) (m_len m) = Some k"
    by blast
  show ?thesis
  proof (cases "m_rep m")
    case True
    with assms(1) show ?thesis by (simp add: l3_score_def usub_Some Let_def)
  next
    case False
    with assms k show ?thesis by (simp add: l3_score_def usub_Some Let_def)
  qed
qed

lemma l3_nextrep_ok: "\<exists>b. l3_nextrep src s_limit m = Some (m\<lparr>m_nextrep := b\<rparr>)"
proof -
  let ?a = "m_s m + m_len m + 1" and ?b = "m_off m + m_len m + 1"
  show ?thesis
  proof (cases "m_s m + m_len m < s_limit \<and> ?a + 4 \<le> length src \<and> ?b + 4 \<le> length src")
    case True
    then have l: "load32 src ?a = Some (word_at 4 src ?a)" "load32 src ?b = Some (word_at 4 src ?b)"
      by (auto intro: load32_word)
    have "l3_nextrep src s_limit m =
        Some (m\<lparr>m_nextrep := (word_at 4 src ?a = (word_at 4 src ?b :: u32))\<rparr>)"
      using True unfolding l3_nextrep_def Let_def l by simp
    then show ?thesis by blast
  next
    case False
    then have "l3_nextrep src s_limit m = Some m" by (auto simp: l3_nextrep_def Let_def)
    then show ?thesis by (intro exI [of _ "m_nextrep m"]) simp
  qed
qed

lemma match_at_ok:
  assumes "s + 4 \<le> length src" "ne \<le> s" "first = word_at 4 src s"
  shows "\<exists>m. match_at src ne s_limit offset s first best = Some m \<and> l3_valid src ne r m"
proof (cases "(m_len best \<noteq> 0 \<and> wrapping_sub (m_s best) (m_off best) = wrapping_sub s offset) \<or>
    MAX_COPY3_OFFSET \<le> saturating_sub s offset \<or> s \<le> offset \<or> offset = 0 \<or> length src < offset + 4")
  case True
  then show ?thesis by (simp add: match_at_def)
next
  case False
  note f = False
  then have g: "offset < s" "s - offset \<le> MAX_COPY3_OFFSET" "offset + 4 \<le> length src"
    by (auto simp: saturating_sub_def)
  show ?thesis
  proof (cases "word_at 4 src offset = first")
    case False
    then show ?thesis using f load32_word [OF g(3)] unfolding match_at_def by simp
  next
    case True
    then have "same src offset s 4" using load32_match [OF g(3) assms(1)] assms(3) by simp
    from l3_extend_ok [OF this g(1) assms(1,2), of False] obtain m where
      m: "l3_extend src offset s 4 False ne = Some m" "ne \<le> m_s m" "m_off m < m_s m"
        "m_s m - m_off m = s - offset" "4 \<le> m_len m" "\<not> m_rep m" "is_match src (m_s m) (s - offset) (m_len m)"
      by auto
    obtain sc where sc: "l3_score m ne = Some sc" using l3_score_ok [of ne m] m by blast
    let ?m = "if sc \<le> - int (m_s m) then m\<lparr>m_score := sc, m_len := 0\<rparr> else m\<lparr>m_score := sc\<rparr>"
    obtain b where b: "l3_nextrep src s_limit ?m = Some (?m\<lparr>m_nextrep := b\<rparr>)"
      using l3_nextrep_ok by blast
    have "match_at src ne s_limit offset s first best = l3_nextrep src s_limit ?m"
      unfolding match_at_def if_not_P [OF f] load32_word [OF g(3)] using True m(1) sc by (simp add: Let_def)
    moreover have "l3_valid src ne r (?m\<lparr>m_nextrep := b\<rparr>)"
      using m g(2) by (simp add: l3_valid_def)
    ultimately show ?thesis using b by simp
  qed
qed

lemma word_at_take_eqD:
  assumes eq: "take_bit (8 * k) (word_at 4 b i :: u32) = take_bit (8 * k) (word_at 4 b j)"
    and len: "i + 4 \<le> length b" "j + 4 \<le> length b" and m: "m < k" "k \<le> 4"
  shows "b ! (i + m) = b ! (j + m)"
proof -
  have "bit (b ! (i + m)) n = bit (b ! (j + m)) n" if "n < 8" for n
  proof -
    have lt: "8 * m + n < LENGTH(32)" "8 * m + n < 8 * k" using that m by simp_all
    have d: "(8 * m + n) div 8 = m" "(8 * m + n) mod 8 = n" "m < 4" using that m by simp_all
    from eq have "bit (take_bit (8 * k) (word_at 4 b i :: u32)) (8 * m + n) =
        bit (take_bit (8 * k) (word_at 4 b j :: u32)) (8 * m + n)" by simp
    then show ?thesis
      unfolding bit_take_bit_iff bit_word_at [OF lt(1) len(1)] bit_word_at [OF lt(1) len(2)] d
      using lt(2) d(3) by simp
  qed
  then show ?thesis by (simp add: byte_eq_iff)
qed

lemma match_at_repeat_ok:
  assumes "s + 4 \<le> length src" "ne \<le> s" "first = word_at 4 src s" "s - offset = r"
  shows "\<exists>m. match_at_repeat src ne s_limit offset s first best = Some m \<and> l3_valid src ne r m"
proof (cases "m_rep best \<or> offset = 0 \<or> s \<le> offset \<or> length src < offset + 3 \<or> length src < offset + 4")
  case True
  then show ?thesis by (auto simp: match_at_repeat_def)
next
  case False
  note f = False
  then have g: "offset < s" "offset + 4 \<le> length src" by auto
  show ?thesis
  proof (cases "word_at 4 src offset AND mask (8 * 3) = first AND mask (8 * 3)")
    case False
    then show ?thesis using f load32_word [OF g(2)] unfolding match_at_repeat_def by (simp add: Let_def)
  next
    case True
    then have "take_bit (8 * 3) (word_at 4 src offset :: u32) = take_bit (8 * 3) (word_at 4 src s)"
      unfolding assms(3) take_bit_eq_mask .
    from word_at_take_eqD [OF this g(2) assms(1)] have "same src offset s 3"
      by (simp add: same_def)
    from l3_extend_ok [OF this g(1) _ assms(2), of True] assms(1) obtain m where
      m: "l3_extend src offset s 3 True ne = Some m" "ne \<le> m_s m" "m_off m < m_s m"
        "m_s m - m_off m = s - offset" "3 \<le> m_len m" "m_rep m" "is_match src (m_s m) (s - offset) (m_len m)"
      by auto
    obtain b where b: "l3_nextrep src s_limit m = Some (m\<lparr>m_nextrep := b\<rparr>)"
      using l3_nextrep_ok by blast
    obtain sc where sc: "l3_score (m\<lparr>m_nextrep := b\<rparr>) ne = Some sc"
      using l3_score_ok [of ne "m\<lparr>m_nextrep := b\<rparr>"] m by auto
    have "match_at_repeat src ne s_limit offset s first best = Some (m\<lparr>m_nextrep := b, m_score := sc\<rparr>)"
      using f True load32_word [OF g(2)] m(1) b sc unfolding match_at_repeat_def by (simp add: Let_def)
    then show ?thesis using m assms(4) by (simp add: l3_valid_def)
  qed
qed

section \<open>The search\<close>

lemma try_at_ok:
  assumes "s + 4 \<le> length src" "ne \<le> s" "first = word_at 4 src s" "l3_valid src ne r best"
  shows "\<exists>m. try_at src ne s_limit offset s first best = Some m \<and> l3_valid src ne r m \<and>
    (0 < m_len best \<longrightarrow> 0 < m_len m)"
proof -
  obtain m where "match_at src ne s_limit offset s first best = Some m" "l3_valid src ne r m"
    using match_at_ok [OF assms(1-3)] by blast
  then show ?thesis using assms(4) by (simp add: try_at_def l3_valid_best_of best_of_len)
qed

lemma try_repeat_ok:
  assumes "s + 4 \<le> length src" "ne \<le> s" "first = word_at 4 src s" "l3_valid src ne r best" "s - offset = r"
  shows "\<exists>m. try_repeat src ne s_limit offset s first best = Some m \<and> l3_valid src ne r m \<and>
    (0 < m_len best \<longrightarrow> 0 < m_len m)"
proof -
  obtain m where "match_at_repeat src ne s_limit offset s first best = Some m" "l3_valid src ne r m"
    using match_at_repeat_ok [OF assms(1-3,5)] by blast
  then show ?thesis using assms(4) by (simp add: try_repeat_def l3_valid_best_of best_of_len)
qed

lemma try_entry_ok:
  assumes "s + 4 \<le> length src" "ne \<le> s" "first = word_at 4 src s" "l3_valid src ne r best"
  shows "\<exists>m. try_entry src ne s_limit e s first best = Some m \<and> l3_valid src ne r m \<and>
    (0 < m_len best \<longrightarrow> 0 < m_len m)"
proof -
  obtain m1 where m1: "try_at src ne s_limit (get_cur e) s first best = Some m1" "l3_valid src ne r m1"
    "0 < m_len best \<longrightarrow> 0 < m_len m1"
    using try_at_ok [OF assms] by blast
  obtain m2 where "try_at src ne s_limit (get_prev e) s first m1 = Some m2" "l3_valid src ne r m2"
    "0 < m_len m1 \<longrightarrow> 0 < m_len m2"
    using try_at_ok [OF assms(1-3) m1(2)] by blast
  with m1 show ?thesis by (simp add: try_entry_def)
qed

lemma try_back_ok:
  assumes "s + 4 \<le> length src" "ne \<le> s" "first = word_at 4 src s" "l3_valid src ne r best"
  shows "\<exists>m. try_back src ne s_limit pos back_l s first best = Some m \<and> l3_valid src ne r m \<and>
    (0 < m_len best \<longrightarrow> 0 < m_len m)"
  using try_at_ok [OF assms] assms(4) by (auto simp: try_back_def split: option.split)

text \<open>The state between two positions.\<close>

definition l3_inv :: "bytes \<Rightarrow> nat \<Rightarrow> l3_state \<Rightarrow> bool" where
  "l3_inv src cap st \<longleftrightarrow> 0 < cur st \<and> cur st + 10 \<le> length src \<and> cv st = word_at 8 src (cur st) \<and>
     nemit st \<le> cur st \<and> enc_state_ok src cap st \<and>
     length (llong st) = 2 ^ L_TABLE_BITS \<and> length (lshort st) = 2 ^ S_TABLE_BITS"

lemma l3_slots: "l3_long v < 2 ^ L_TABLE_BITS" "l3_short v < 2 ^ S_TABLE_BITS"
  using hash_bounds(5) [of 20 v] hash_bounds(1) [of 18 v]
  by (simp_all add: l3_long_def l3_short_def L_TABLE_BITS_def S_TABLE_BITS_def)

lemma l3_idx:
  assumes "l3_inv src cap st"
  shows "idx (llong st) (l3_long v) = Some (llong st ! l3_long v)"
    "idx (lshort st) (l3_short v) = Some (lshort st ! l3_short v)"
  using assms l3_slots [of v] by (simp_all add: l3_inv_def idx_def)

lemma l3_store_ok: "h < length t \<Longrightarrow> l3_store h e t = Some (t[h := e])"
  by (simp add: l3_store_def)

lemma l3_repeats_ok:
  assumes I: "l3_inv src cap st" and v: "l3_valid src (nemit st) (rept st) best"
  shows "\<exists>m. l3_repeats src st best = Some m \<and> l3_valid src (nemit st) (rept st) m \<and>
    (0 < m_len best \<longrightarrow> 0 < m_len m)"
proof (cases "0 < rept st \<and> rept st \<le> cur st")
  case False
  with v show ?thesis by (auto simp: l3_repeats_def Let_def)
next
  case True
  let ?s = "cur st" and ?ne = "nemit st" and ?r = "rept st"
  have s: "?s + 10 \<le> length src" "cv st = word_at 8 src ?s" "?ne \<le> ?s"
    using I by (auto simp: l3_inv_def)
  have w: "ucast (cv st) = (word_at 4 src ?s :: u32)" "ucast (drop_bit 8 (cv st)) = (word_at 4 src (?s + 1) :: u32)"
    using ucast_word_at [of ?s src 0] ucast_word_at [of ?s src 1] s(1,2) by simp_all
  obtain m1 where m1: "try_repeat src ?ne (S_LIMIT3 src) (?s - ?r) ?s (ucast (cv st)) best = Some m1"
    "l3_valid src ?ne ?r m1" "0 < m_len best \<longrightarrow> 0 < m_len m1"
  proof -
    have "?s + 4 \<le> length src" "?s - (?s - ?r) = ?r" using s True by simp_all
    from try_repeat_ok [OF this(1) s(3) w(1) v this(2)] show ?thesis using that by blast
  qed
  have p: "?s + 1 + 4 \<le> length src" "?ne \<le> ?s + 1" "?s + 1 - (?s + 1 - ?r) = ?r"
    using s True by simp_all
  obtain m2 where m2: "try_repeat src ?ne (S_LIMIT3 src) (?s + 1 - ?r) (?s + 1) (ucast (drop_bit 8 (cv st))) m1 = Some m2"
    "l3_valid src ?ne ?r m2" "0 < m_len m1 \<longrightarrow> 0 < m_len m2"
    using try_repeat_ok [OF p(1,2) w(2) m1(2) p(3)] by blast
  show ?thesis
    using True m1 m2 unfolding l3_repeats_def Let_def by auto
qed

lemma l3_ahead2_ok:
  assumes I: "l3_inv src cap st" and v: "l3_valid src (nemit st) (rept st) best" and len: "0 < m_len best"
  shows "\<exists>m. l3_ahead2 src st best = Some m \<and> l3_valid src (nemit st) (rept st) m \<and> 0 < m_len m"
proof -
  let ?s = "cur st + 2" and ?ne = "nemit st" and ?r = "rept st"
  let ?v = "word_at 8 src ?s :: u64"
  have s: "?s + 8 \<le> length src" "?ne \<le> ?s" "?s + 4 \<le> length src"
    using I by (auto simp: l3_inv_def)
  have w: "ucast ?v = (word_at 4 src ?s :: u32)"
    using ucast_word_at [of ?s src 0] s(1) by simp
  obtain m1 where m1: "(if 0 < ?r \<and> ?r \<le> ?s then try_repeat src ?ne (S_LIMIT3 src) (?s - ?r) ?s (ucast ?v) best
      else Some best) = Some m1" "l3_valid src ?ne ?r m1" "0 < m_len m1"
    using try_repeat_ok [OF s(3,2) w v, of "?s - ?r" "S_LIMIT3 src"] v len by (cases "0 < ?r \<and> ?r \<le> ?s") auto
  obtain m2 where m2: "try_entry src ?ne (S_LIMIT3 src) (lshort st ! l3_short ?v) ?s (ucast ?v) m1 = Some m2"
    "l3_valid src ?ne ?r m2" "0 < m_len m2"
    using try_entry_ok [OF s(3,2) w m1(2)] m1(3) by blast
  obtain m3 where m3: "try_entry src ?ne (S_LIMIT3 src) (llong st ! l3_long ?v) ?s (ucast ?v) m2 = Some m3"
    "l3_valid src ?ne ?r m3" "0 < m_len m3"
    using try_entry_ok [OF s(3,2) w m2(2)] m2(3) by blast
  have "l3_ahead2 src st best = Some m3"
    using s(1) unfolding l3_ahead2_def Let_def load64_word [OF s(1)] Option.bind_lunit l3_idx [OF I] m1(1) m2(1) m3(1)
    by simp
  with m3 show ?thesis by blast
qed

lemma l3_ahead_ok:
  assumes I: "l3_inv src cap st" and v: "l3_valid src (nemit st) (rept st) best" and len: "0 < m_len best"
  shows "\<exists>m. l3_ahead src st best = Some m \<and> l3_valid src (nemit st) (rept st) m \<and> 0 < m_len m"
proof -
  let ?s = "cur st + 1" and ?ne = "nemit st" and ?r = "rept st"
  let ?v = "word_at 8 src ?s :: u64"
  have s: "?s + 8 \<le> length src" "?ne \<le> ?s" "?s + 4 \<le> length src"
    using I by (auto simp: l3_inv_def)
  have w: "ucast ?v = (word_at 4 src ?s :: u32)"
    using ucast_word_at [of ?s src 0] s(1) by simp
  obtain m1 where m1: "try_entry src ?ne (S_LIMIT3 src) (lshort st ! l3_short (drop_bit 8 (cv st))) ?s (ucast ?v) best = Some m1"
    "l3_valid src ?ne ?r m1" "0 < m_len m1"
    using try_entry_ok [OF s(3,2) w v] len by blast
  obtain m2 where m2: "try_entry src ?ne (S_LIMIT3 src) (llong st ! l3_long ?v) ?s (ucast ?v) m1 = Some m2"
    "l3_valid src ?ne ?r m2" "0 < m_len m2"
    using try_entry_ok [OF s(3,2) w m1(2)] m1(3) by blast
  have "l3_ahead src st best = l3_ahead2 src st m2"
    using s(1) unfolding l3_ahead_def Let_def load64_word [OF s(1)] Option.bind_lunit l3_idx [OF I] m1(1) m2(1)
    by simp
  with l3_ahead2_ok [OF I m2(2,3)] show ?thesis by simp
qed

lemma l3_behind_ok:
  assumes I: "l3_inv src cap st" and v: "l3_valid src (nemit st) (rept st) best" and len: "0 < m_len best"
  shows "\<exists>m. l3_behind src st best = Some m \<and> l3_valid src (nemit st) (rept st) m \<and> 0 < m_len m"
proof -
  let ?at = "m_s best + m_len best - 1" and ?b = "m_s best + 2 - 1" and ?l = "m_len best - 2"
  let ?ne = "nemit st" and ?r = "rept st"
  have u: "usub (m_s best + m_len best) 1 = Some ?at" "usub (m_s best + 2) 1 = Some ?b"
    "2 + 1 < m_len best \<Longrightarrow> usub (m_len best) 2 = Some ?l"
    using len by (simp_all add: usub_Some)
  show ?thesis
  proof (cases "(?at < S_LIMIT3 src \<and> 2 + 1 < m_len best) \<and> ?b + 8 \<le> length src \<and> ?at + 8 \<le> length src")
    case False
    then have "l3_behind src st best = Some best"
      unfolding l3_behind_def u Option.bind_lunit using u(3) by auto
    with v len show ?thesis by blast
  next
    case True
    then have c: "?at < S_LIMIT3 src \<and> 2 + 1 < m_len best" "?b + 8 \<le> length src \<and> ?at + 8 \<le> length src"
      and u3: "usub (m_len best) 2 = Some ?l" using u(3) by blast+
    let ?v = "word_at 8 src ?b :: u64" and ?w = "word_at 8 src ?at :: u64"
    have ld: "load64 src ?b = Some ?v" "load64 src ?at = Some ?w" using c(2) load64_word by blast+
    have s: "?b + 4 \<le> length src" "?ne \<le> ?b" using c(2) v len by (auto simp: l3_valid_def)
    have w: "ucast ?v = (word_at 4 src ?b :: u32)" using ucast_word_at [of ?b src 0] c(2) by simp
    note ok = try_back_ok [OF s w]
    obtain m1 where m1: "try_back src ?ne (S_LIMIT3 src) (get_cur (llong st ! l3_long ?w)) ?l ?b (ucast ?v) best = Some m1"
      "l3_valid src ?ne ?r m1" "0 < m_len m1" using ok [OF v] len by blast
    obtain m2 where m2: "try_back src ?ne (S_LIMIT3 src) (get_prev (llong st ! l3_long ?w)) ?l ?b (ucast ?v) m1 = Some m2"
      "l3_valid src ?ne ?r m2" "0 < m_len m2" using ok [OF m1(2)] m1(3) by blast
    obtain m3 where m3: "try_back src ?ne (S_LIMIT3 src) (get_cur (lshort st ! l3_short ?w)) ?l ?b (ucast ?v) m2 = Some m3"
      "l3_valid src ?ne ?r m3" "0 < m_len m3" using ok [OF m2(2)] m2(3) by blast
    obtain m4 where m4: "try_back src ?ne (S_LIMIT3 src) (get_prev (lshort st ! l3_short ?w)) ?l ?b (ucast ?v) m3 = Some m4"
      "l3_valid src ?ne ?r m4" "0 < m_len m4" using ok [OF m3(2)] m3(3) by blast
    have "l3_behind src st best = Some m4"
      unfolding l3_behind_def u(1,2) Option.bind_lunit if_P [OF c(1)] u3 if_P [OF c(2)] ld l3_idx [OF I] m1(1) m2(1) m3(1) m4(1) ..
    with m4 show ?thesis by blast
  qed
qed

lemma l3_best_ok:
  assumes I: "l3_inv src cap st" and v: "l3_valid src (nemit st) (rept st) best"
  shows "\<exists>m. l3_best src cl cs st best = Some m \<and> l3_valid src (nemit st) (rept st) m"
proof -
  let ?s = "cur st" and ?ne = "nemit st" and ?r = "rept st"
  have s: "?s + 4 \<le> length src" "?ne \<le> ?s" "0 < ?s" "?s + 8 \<le> length src" "cv st = word_at 8 src ?s"
    using I by (auto simp: l3_inv_def)
  have w: "ucast (cv st) = (word_at 4 src ?s :: u32)"
    using ucast_word_at [of ?s src 0] s(4,5) by simp
  obtain m1 where m1: "try_entry src ?ne (S_LIMIT3 src) cl ?s (ucast (cv st)) best = Some m1" "l3_valid src ?ne ?r m1"
    using try_entry_ok [OF s(1,2) w v] by blast
  obtain m2 where m2: "try_entry src ?ne (S_LIMIT3 src) cs ?s (ucast (cv st)) m1 = Some m2" "l3_valid src ?ne ?r m2"
    using try_entry_ok [OF s(1,2) w m1(2)] by blast
  obtain m3 where m3: "l3_repeats src st m2 = Some m3" "l3_valid src ?ne ?r m3"
    using l3_repeats_ok [OF I m2(2)] by blast
  have f: "l3_best src cl cs st best = (if 0 < m_len m3 then do {
       best \<leftarrow> l3_ahead src st m3;
       l3_behind src st best } else Some m3)"
    unfolding l3_best_def if_P [OF s(3)] m1(1) m2(1) m3(1) Option.bind_lunit ..
  show ?thesis
  proof (cases "0 < m_len m3")
    case False
    with f m3(2) show ?thesis by simp
  next
    case True
    obtain m4 where m4: "l3_ahead src st m3 = Some m4" "l3_valid src ?ne ?r m4" "0 < m_len m4"
      using l3_ahead_ok [OF I m3(2) True] by blast
    obtain m5 where "l3_behind src st m4 = Some m5" "l3_valid src ?ne ?r m5"
      using l3_behind_ok [OF I m4(2,3)] by blast
    with f True m4(1) show ?thesis by simp
  qed
qed

text \<open>The search from a state to the position where a match was found.\<close>

fun l3_exit_ok :: "bytes \<Rightarrow> nat \<Rightarrow> l3_state \<Rightarrow> (l3_state, l3_match \<times> l3_state) enc_exit \<Rightarrow> bool" where
  "l3_exit_ok src cap st0 (BreakOuter st) \<longleftrightarrow> enc_state_ok src cap st"
| "l3_exit_ok src cap st0 (Return0 out) \<longleftrightarrow> False"
| "l3_exit_ok src cap st0 (Onward (best, st)) \<longleftrightarrow> l3_inv src cap st \<and> cur st0 \<le> cur st \<and>
     nemit st = nemit st0 \<and> 0 < m_len best \<and> l3_valid src (nemit st) (rept st) best"

lemma l3_search_ok:
  assumes I: "l3_inv src cap st0"
  shows "\<exists>e. loop (l3_search_step src) (no_match 0 0, st0) = Some e \<and> l3_exit_ok src cap st0 e"
proof (rule loop_total [where m = "\<lambda>(best, st). length src - cur st" and
      I = "\<lambda>(best, st). l3_inv src cap st \<and> cur st0 \<le> cur st \<and> nemit st = nemit st0 \<and>
        l3_valid src (nemit st) (rept st) best"])
  show "case (no_match 0 0, st0) of (best, st) \<Rightarrow> l3_inv src cap st \<and> cur st0 \<le> cur st \<and> nemit st = nemit st0 \<and>
        l3_valid src (nemit st) (rept st) best"
    using I by simp
  fix p :: "l3_match \<times> l3_state"
  obtain best st where p: "p = (best, st)" by fastforce
  assume "case p of (best, st) \<Rightarrow> l3_inv src cap st \<and> cur st0 \<le> cur st \<and> nemit st = nemit st0 \<and>
        l3_valid src (nemit st) (rept st) best"
  then have J: "l3_inv src cap st" "cur st0 \<le> cur st" "nemit st = nemit st0" "l3_valid src (nemit st) (rept st) best"
    unfolding p prod.case by blast+
  have s: "nemit st \<le> cur st" "cur st + 10 \<le> length src" "enc_state_ok src cap st"
    "length (llong st) = 2 ^ L_TABLE_BITS" "length (lshort st) = 2 ^ S_TABLE_BITS"
    using J(1) by (auto simp: l3_inv_def)
  define gap where "gap = cur st - nemit st"
  define ns where "ns = (if MAX_SKIP < gap div 2 ^ 8 + 1 then cur st + MAX_SKIP else cur st + gap div 2 ^ 8 + 1)"
  let ?hl = "l3_long (cv st)" and ?hs = "l3_short (cv st)"
  have g: "usub (cur st) (nemit st) = Some gap" using s(1) by (simp add: usub_Some gap_def)
  obtain m where m: "l3_best src (llong st ! ?hl) (lshort st ! ?hs) st best = Some m" "l3_valid src (nemit st) (rept st) m"
    using l3_best_ok [OF J(1,4)] by blast
  let ?st = "st\<lparr>llong := (llong st)[?hl := pack_entry (cur st) (llong st ! ?hl)],
      lshort := (lshort st)[?hs := pack_entry (cur st) (lshort st ! ?hs)]\<rparr>"
  have sto: "l3_store ?hl e (llong st) = Some ((llong st)[?hl := e])"
    "l3_store ?hs e (lshort st) = Some ((lshort st)[?hs := e])" for e
    using s(4,5) l3_slots by (simp_all add: l3_store_ok)
  have step: "l3_search_step src p = (if S_LIMIT3 src < ns then Some (Inr (BreakOuter st))
      else if 0 < m_len m then Some (Inr (Onward (m, ?st)))
      else do { v \<leftarrow> load64 src ns; Some (Inl (m, ?st\<lparr>cv := v, cur := ns\<rparr>)) })"
    unfolding l3_search_step_def p prod.case Let_def g Option.bind_lunit ns_def [symmetric] l3_idx [OF J(1)] m(1) sto ..
  have inv: "l3_inv src cap ?st" using J(1) by (simp add: l3_inv_def enc_state_ok_def)
  show "(\<exists>s'. l3_search_step src p = Some (Inl s') \<and>
        (case s' of (best, st) \<Rightarrow> l3_inv src cap st \<and> cur st0 \<le> cur st \<and> nemit st = nemit st0 \<and>
          l3_valid src (nemit st) (rept st) best) \<and>
        (case s' of (best, st) \<Rightarrow> length src - cur st) < (case p of (best, st) \<Rightarrow> length src - cur st)) \<or>
      (\<exists>r. l3_search_step src p = Some (Inr r) \<and> l3_exit_ok src cap st0 r)"
  proof (cases "S_LIMIT3 src < ns")
    case True
    with step s(3) show ?thesis by simp
  next
    case lim: False
    then have n: "ns + 10 \<le> length src" "cur st < ns"
      using s(2) by (auto simp: S_LIMIT3_def INPUT_MARGIN_L3_def ns_def MAX_SKIP_def)
    show ?thesis
    proof (cases "0 < m_len m")
      case True
      with step lim inv J m(2) show ?thesis by simp
    next
      case False
      have ld: "load64 src ns = Some (word_at 8 src ns)" using n(1) by (simp add: load64_word)
      have "l3_inv src cap (?st\<lparr>cv := word_at 8 src ns, cur := ns\<rparr>)"
        using inv n s(1) by (auto simp: l3_inv_def enc_state_ok_def)
      moreover have "l3_search_step src p = Some (Inl (m, ?st\<lparr>cv := word_at 8 src ns, cur := ns\<rparr>))"
        using step lim False ld by simp
      moreover have "cur st0 \<le> ns" "length src - ns < length src - cur st" using J(2) n by linarith+
      ultimately show ?thesis using J(3) m(2) by (simp add: p)
    qed
  qed
qed

section \<open>Emitting\<close>

text \<open>An emitter whose code means literals and a copy, when the last offset is \<open>r\<close>.\<close>

definition l3_codes :: "emitter \<Rightarrow> bytes \<Rightarrow> nat \<Rightarrow> nat \<Rightarrow> nat \<Rightarrow> bool" where
  "l3_codes f lits r off n \<longleftrightarrow> (\<exists>code. emits f code \<and> length code \<le> length lits + 7 \<and>
     (\<forall>out rest. off \<le> length out + length lits \<longrightarrow>
        spec_run (code @ rest) (out, r) = spec_run rest (lz_copy (out @ lits) off n, off)))"

lemma l3_codes_copy:
  assumes "0 < off" "off \<le> MAX_COPY3_OFFSET" "4 \<le> n" "n < 16777216"
  shows "l3_codes (\<lambda>dst. emit_copy dst off n) [] r off n"
  using emits_copy [OF assms] run_copy_code [OF assms] copy_code_le(1) [OF assms(3), of off]
  unfolding l3_codes_def by (intro exI [of _ "copy_code off n"]) auto

lemma l3_codes_copy2:
  assumes "MIN_COPY2_OFFSET \<le> off" "off \<le> MAX_COPY2_OFFSET" "4 \<le> n" "n < 16777216"
  shows "l3_codes (\<lambda>dst. encode_copy2 dst off n) [] r off n"
proof -
  have "spec_run (copy2_code off n @ rest) (out, r) = spec_run rest (lz_copy out off n, off)"
    if "off \<le> length out" for out rest
  proof -
    have "parse_token (copy2_code off n @ rest) = Some (TCopy [] off n, rest)"
      using assms by (intro parse_copy2_code) (auto simp: format_consts)
    from spec_run_token [OF this] show ?thesis
      using that assms by (simp add: exec_copy_def format_consts)
  qed
  moreover have "length (copy2_code off n) \<le> 7" by (simp add: copy2_code_split)
  ultimately show ?thesis
    unfolding l3_codes_def using emits_copy2 [OF assms(1-3)] by (intro exI [of _ "copy2_code off n"]) auto
qed

lemma l3_codes_lits2:
  assumes "MIN_COPY2_OFFSET \<le> off" "off \<le> MAX_COPY2_OFFSET" "4 \<le> n" "n < 16777216"
    and "lits \<noteq> []" "length lits \<le> MAX_COPY2_LITS"
  shows "l3_codes (\<lambda>dst. emit_copy_lits2 dst lits off n) lits r off n"
  using emits_copy_lits2 [OF assms] run_lits2_code [OF assms(1-4)] assms(5,6) lits2_length_bounds(1) [of lits off n]
  unfolding l3_codes_def by (intro exI [of _ "lits2_code lits off n"]) (auto simp: format_consts)

lemma l3_codes_lits3:
  assumes "MIN_COPY3_OFFSET \<le> off" "off \<le> MAX_COPY3_OFFSET" "4 \<le> n" "n < 16777216"
    and "length lits \<le> MAX_COPY3_LITS"
  shows "l3_codes (\<lambda>dst. emit_copy_lits3 dst lits off n) lits r off n"
proof -
  have "length lits \<le> 3" using assms(5) by (simp add: format_consts)
  then show ?thesis
    using emits_copy_lits3 [OF assms(1-3,5)] run_lits3_code [OF assms(1-4)]
    unfolding l3_codes_def by (intro exI [of _ "lits3_code lits off n"]) (auto simp: length_lits3_code)
qed

lemma l3_codes_repeat:
  assumes "0 < off" "0 < n" "n < 16777216"
  shows "l3_codes (\<lambda>dst. emit_repeat dst n) [] off off n"
  using emits_repeat [of n] run_rep_code [of n off] assms rep_code_le(1) [of n]
  unfolding l3_codes_def by (intro exI [of _ "rep_code n"]) auto

text \<open>One emission, which either fits or faults on a slice that is too short.\<close>

lemma emit_at_none:
  assumes "emits f code" "length dst < d + length code" "d \<le> length dst"
  shows "emit_at d f dst = None"
  using emit_at_append [OF assms(1), of "take d dst" d "drop d dst"] assms(2,3) by simp

lemma emit_one:
  assumes "enc_ok src dst d ne r" "emits f code" "d + length code \<le> b"
    and "\<And>rest. spec_run (code @ rest) (take ne src, r) = spec_run rest (take ne' src, off)"
    and "ne' \<le> length src" "0 < off"
  shows "(emit_at d f dst = None \<and> length dst < b) \<or>
    (\<exists>dst'. emit_at d f dst = Some (dst', d + length code) \<and> length dst' = length dst \<and>
       enc_ok src dst' (d + length code) ne' off)"
proof (cases "d + length code \<le> length dst")
  case True
  from enc_emit [OF assms(1,2) True assms(4,5,6)] show ?thesis by metis
next
  case False
  then have "emit_at d f dst = None"
    using assms(1) by (intro emit_at_none [OF assms(2)]) (auto simp: enc_ok_def)
  with False assms(3) show ?thesis by simp
qed

text \<open>How an emission ends: with the output up to \<open>s\<close>, or with a fault on a short slice.\<close>

definition l3_emitted :: "bytes \<Rightarrow> nat \<Rightarrow> nat \<Rightarrow> nat \<Rightarrow> nat \<Rightarrow> (bytes \<times> nat \<times> nat) option \<Rightarrow> bool" where
  "l3_emitted src cap b off s res \<longleftrightarrow> (res = None \<and> cap < b) \<or>
     (\<exists>out d. res = Some (out, d, s) \<and> length out = cap \<and> enc_ok src out d s off)"

lemma l3_emitted_cases [consumes 1, case_names fault emitted]:
  assumes "l3_emitted src cap b off s res"
  obtains "res = None" "cap < b"
    | out d where "res = Some (out, d, s)" "length out = cap" "enc_ok src out d s off"
  using assms unfolding l3_emitted_def by (elim disjE exE conjE)

lemma l3_emit_fused:
  assumes "enc_ok src dst d ne r" "l3_codes f lits r off n" "is_match src base off n"
    and "lits = take (base - ne) (drop ne src)" "ne \<le> base" "d + (base - ne) + 11 \<le> b" "s = base + n"
  shows "l3_emitted src (length dst) b off s (do { (out, d) \<leftarrow> emit_at d f dst; Some (out, d, s) })"
proof -
  have b: "base + n \<le> length src" "0 < off" "off \<le> base" "length lits = base - ne" "take ne src @ lits = take base src"
    using assms(3,5) take_append_slice [OF assms(5), of src] by (auto simp: is_match_def assms(4))
  obtain code where code: "emits f code" "length code \<le> length lits + 7"
    "\<And>out rest. off \<le> length out + length lits \<Longrightarrow>
       spec_run (code @ rest) (out, r) = spec_run rest (lz_copy (out @ lits) off n, off)"
    using assms(2) unfolding l3_codes_def by blast
  have "off \<le> length (take ne src) + length lits" using b assms(5) by simp
  note run = code(3) [OF this, unfolded b(5) is_match_copy [OF assms(3)]]
  have "d + length code \<le> b" using code(2) assms(6) b(4) by simp
  from emit_one [OF assms(1) code(1) this run b(1,2)] show ?thesis
    unfolding l3_emitted_def assms(7) by auto
qed

lemma l3_emit_split:
  assumes "enc_ok src dst d ne r" "l3_codes f [] r off n" "is_match src base off n" "length src \<le> MAX_BLOCK_SIZE"
    and "lits = take (base - ne) (drop ne src)" "ne \<le> base" "d + (base - ne) + 11 \<le> b" "s = base + n"
  shows "l3_emitted src (length dst) b off s (do {
      (out, d) \<leftarrow> emit_at d (\<lambda>dst. emit_literal dst lits) dst;
      (out, d) \<leftarrow> emit_at d f out;
      Some (out, d, s) })"
proof -
  have m: "base + n \<le> length src" "base \<le> length src" using assms(3) by (auto simp: is_match_def)
  have l: "length lits = base - ne" "length lits \<le> 16777245" using assms(4-6) m by (auto simp: format_consts)
  obtain code where code: "emits f code" "length code \<le> 7"
    "\<And>out rest. off \<le> length out \<Longrightarrow> spec_run (code @ rest) (out, r) = spec_run rest (lz_copy out off n, off)"
    using assms(2) unfolding l3_codes_def by auto
  have off: "0 < off" "off \<le> length (take base src)" "0 < r"
    using assms(1,3) by (auto simp: is_match_def enc_ok_def)
  let ?d = "d + length (lit_code lits)"
  have len: "?d + length code \<le> b" "?d \<le> b" using lit_code_le(1) [of lits] l(1) code(2) assms(7) by linarith+
  have "spec_run (lit_code lits @ rest) (take ne src, r) = spec_run rest (take base src, r)" for rest
    using run_lit_code [OF l(2)] take_append_slice [OF assms(6), of src] assms(5) by simp
  from emit_one [OF assms(1) emits_literal [OF l(2)] len(2) this m(2) off(3)] show ?thesis
  proof
    assume "emit_at d (\<lambda>dst. emit_literal dst lits) dst = None \<and> length dst < b"
    then show ?thesis by (simp add: l3_emitted_def)
  next
    assume "\<exists>dst'. emit_at d (\<lambda>dst. emit_literal dst lits) dst = Some (dst', ?d) \<and> length dst' = length dst \<and>
        enc_ok src dst' ?d base r"
    then obtain dst' where o: "emit_at d (\<lambda>dst. emit_literal dst lits) dst = Some (dst', ?d)"
      "length dst' = length dst" "enc_ok src dst' ?d base r" by blast
    note run = code(3) [OF off(2), unfolded is_match_copy [OF assms(3)]]
    from emit_one [OF o(3) code(1) len(1) run m(1) off(1)] show ?thesis
      using o(1,2) unfolding l3_emitted_def assms(8) by auto
  qed
qed

lemma l3_emit_ok:
  assumes st: "enc_state_ok src cap st" and sz: "length src \<le> MAX_BLOCK_SIZE"
    and v: "l3_valid src (nemit st) (rept st) m" "0 < m_len m"
    and lim: "opos st + (m_s m - nemit st) + 11 \<le> b"
  shows "\<exists>s. nemit st < s \<and> s \<le> length src \<and>
    l3_emitted src cap b (m_s m - m_off m) s (l3_emit src m (m_s m - m_off m) st)"
proof -
  define ne d r base n off where "ne = nemit st" and "d = opos st" and "r = rept st" and "base = m_s m"
    and "n = m_len m" and "off = m_s m - m_off m"
  have e: "enc_ok src (outb st) d ne r" "length (outb st) = cap"
    using st by (auto simp: enc_state_ok_def d_def ne_def r_def)
  have i: "ne \<le> base" "is_match src base off n" "3 \<le> n" "\<not> m_rep m \<Longrightarrow> 4 \<le> n \<and> off \<le> MAX_COPY3_OFFSET"
    "m_rep m \<Longrightarrow> off = r"
    using v by (auto simp: l3_valid_def ne_def base_def n_def off_def r_def split: if_splits)
  have lim: "d + (base - ne) + 11 \<le> b" using lim by (simp add: d_def base_def ne_def)
  have b: "base + n \<le> length src" "base \<le> length src" "0 < off" "off \<le> base" "n < 16777216"
    using i(2) sz by (auto simp: is_match_def format_consts)
  define lits where "lits = take (base - ne) (drop ne src)"
  have l: "length lits = base - ne" using b by (simp add: lits_def)
  have sl: "slice src ne base = Some lits" using i(1) b by (simp add: slice_Some lits_def)
  have s: "ne < base + n" using i by simp
  note split = l3_emit_split [OF e(1) _ i(2) sz lits_def i(1) lim refl, unfolded e(2)]
  note fused = l3_emit_fused [OF e(1) _ i(2) lits_def i(1) lim refl, unfolded e(2)]
  have def: "l3_emit src m off st = (
     if m_rep m then do {
       (out, d) \<leftarrow> emit_at d (\<lambda>dst. emit_literal dst lits) (outb st);
       (out, d) \<leftarrow> emit_at d (\<lambda>dst. emit_repeat dst n) out;
       Some (out, d, base + n) }
     else if lits \<noteq> [] then
       if off \<le> MAX_COPY2_OFFSET then
         if MAX_COPY2_LITS < length lits \<or> off < 64 \<or> (off \<le> MAX_COPY1_OFFSET \<and> COPY2_LIT_MAX_LEN < n)
         then do {
           (out, d) \<leftarrow> emit_at d (\<lambda>dst. emit_literal dst lits) (outb st);
           (out, d) \<leftarrow> emit_at d (\<lambda>dst. if 18 < n \<and> n \<le> 64 \<and> 64 \<le> off then encode_copy2 dst off n
                                     else emit_copy dst off n) out;
           Some (out, d, base + n) }
         else if 11 < n then do {
           (out, d) \<leftarrow> emit_at d (\<lambda>dst. emit_copy_lits2 dst lits off 11) (outb st);
           Some (out, d, base + 11) }
         else do {
           (out, d) \<leftarrow> emit_at d (\<lambda>dst. emit_copy_lits2 dst lits off n) (outb st);
           Some (out, d, base + n) }
       else if MAX_COPY3_LITS < length lits then do {
         (out, d) \<leftarrow> emit_at d (\<lambda>dst. emit_literal dst lits) (outb st);
         (out, d) \<leftarrow> emit_at d (\<lambda>dst. emit_copy dst off n) out;
         Some (out, d, base + n) }
       else do {
         (out, d) \<leftarrow> emit_at d (\<lambda>dst. emit_copy_lits3 dst lits off n) (outb st);
         Some (out, d, base + n) }
     else do {
       (out, d) \<leftarrow> emit_at d (\<lambda>dst. if 18 < n \<and> n \<le> 64 \<and> 64 \<le> off \<and> off \<le> MAX_COPY2_OFFSET
           then encode_copy2 dst off n else emit_copy dst off n) (outb st);
       Some (out, d, base + n) })"
    unfolding l3_emit_def Let_def ne_def [symmetric] base_def [symmetric] n_def [symmetric] d_def [symmetric] sl
      Option.bind_lunit ..
  consider "m_rep m" | "\<not> m_rep m" "lits = []"
    | "\<not> m_rep m" "lits \<noteq> []" "off \<le> MAX_COPY2_OFFSET"
        "MAX_COPY2_LITS < length lits \<or> off < 64 \<or> (off \<le> MAX_COPY1_OFFSET \<and> COPY2_LIT_MAX_LEN < n)"
    | "\<not> m_rep m" "lits \<noteq> []" "off \<le> MAX_COPY2_OFFSET"
        "\<not> (MAX_COPY2_LITS < length lits \<or> off < 64 \<or> (off \<le> MAX_COPY1_OFFSET \<and> COPY2_LIT_MAX_LEN < n))" "11 < n"
    | "\<not> m_rep m" "lits \<noteq> []" "off \<le> MAX_COPY2_OFFSET"
        "\<not> (MAX_COPY2_LITS < length lits \<or> off < 64 \<or> (off \<le> MAX_COPY1_OFFSET \<and> COPY2_LIT_MAX_LEN < n))" "n \<le> 11"
    | "\<not> m_rep m" "lits \<noteq> []" "MAX_COPY2_OFFSET < off" "MAX_COPY3_LITS < length lits"
    | "\<not> m_rep m" "lits \<noteq> []" "MAX_COPY2_OFFSET < off" "length lits \<le> MAX_COPY3_LITS"
    by linarith
  then have "\<exists>s. ne < s \<and> s \<le> length src \<and> l3_emitted src cap b off s (l3_emit src m off st)"
  proof cases
    case 1
    have c: "l3_emitted src cap b off (base + n) (do {
       (out, d) \<leftarrow> emit_at d (\<lambda>dst. emit_literal dst lits) (outb st);
       (out, d) \<leftarrow> emit_at d (\<lambda>dst. emit_repeat dst n) out;
       Some (out, d, base + n) })"
      using split [of "\<lambda>dst. emit_repeat dst n"] l3_codes_repeat [of off n] i(3) i(5) [OF 1] b by simp
    show ?thesis unfolding def if_P [OF 1] using c s b(1) by blast
  next
    case 2
    have "l3_codes (\<lambda>dst. if 18 < n \<and> n \<le> 64 \<and> 64 \<le> off \<and> off \<le> MAX_COPY2_OFFSET
           then encode_copy2 dst off n else emit_copy dst off n) lits r off n"
      using l3_codes_copy [of off n] l3_codes_copy2 [of off n] i(4) 2 b
      by (cases "18 < n \<and> n \<le> 64 \<and> 64 \<le> off \<and> off \<le> MAX_COPY2_OFFSET") (auto simp: MIN_COPY2_OFFSET_def)
    from fused [OF this] show ?thesis using 2 s b(1) unfolding def by auto
  next
    case 3
    have "l3_codes (\<lambda>dst. if 18 < n \<and> n \<le> 64 \<and> 64 \<le> off then encode_copy2 dst off n else emit_copy dst off n) [] r off n"
      using l3_codes_copy [of off n] l3_codes_copy2 [of off n] i(4) 3 b
      by (cases "18 < n \<and> n \<le> 64 \<and> 64 \<le> off") (auto simp: MIN_COPY2_OFFSET_def)
    from split [OF this] show ?thesis using 3 s b(1) unfolding def by auto
  next
    case 4
    have m11: "is_match src base off 11" using i(2) 4(5) same_take by (auto simp: is_match_def)
    have "l3_codes (\<lambda>dst. emit_copy_lits2 dst lits off 11) lits r off 11"
      by (rule l3_codes_lits2) (use 4 in \<open>auto simp: MIN_COPY2_OFFSET_def\<close>)
    from l3_emit_fused [OF e(1) this m11 lits_def i(1) lim refl, unfolded e(2)]
    show ?thesis using 4 i(1) b(1) unfolding def by (intro exI [of _ "base + 11"]) auto
  next
    case 5
    have "l3_codes (\<lambda>dst. emit_copy_lits2 dst lits off n) lits r off n"
      by (rule l3_codes_lits2) (use 5 i b in \<open>auto simp: MIN_COPY2_OFFSET_def\<close>)
    from fused [OF this] show ?thesis using 5 s b(1) unfolding def by auto
  next
    case 6
    have "l3_codes (\<lambda>dst. emit_copy dst off n) [] r off n" by (rule l3_codes_copy) (use 6 i b in auto)
    from split [OF this] show ?thesis using 6 s b(1) unfolding def by auto
  next
    case 7
    have "l3_codes (\<lambda>dst. emit_copy_lits3 dst lits off n) lits r off n"
      by (rule l3_codes_lits3) (use 7 i b in \<open>auto simp: format_consts\<close>)
    from fused [OF this] show ?thesis using 7 s b(1) unfolding def by auto
  qed
  then show ?thesis by (simp add: ne_def off_def)
qed

section \<open>The encoder\<close>

lemma l3_fill_ok:
  assumes "length l = 2 ^ L_TABLE_BITS" "length t = 2 ^ S_TABLE_BITS" "s + 8 \<le> length src"
  shows "\<exists>r. loop (l3_fill_step src s) (i, l, t) = Some r \<and>
    (case r of (l, t) \<Rightarrow> length l = 2 ^ L_TABLE_BITS \<and> length t = 2 ^ S_TABLE_BITS)"
proof (rule loop_total [where I = "\<lambda>(i :: nat, l, t). length l = 2 ^ L_TABLE_BITS \<and> length t = 2 ^ S_TABLE_BITS"
      and m = "\<lambda>(i, l, t). s - i"])
  show "case (i, l, t) of (i, l, t) \<Rightarrow> length l = 2 ^ L_TABLE_BITS \<and> length t = 2 ^ S_TABLE_BITS"
    using assms by simp
  fix p :: "nat \<times> u64 list \<times> u64 list"
  obtain i l t where p: "p = (i, l, t)" by (cases p)
  assume "case p of (i, l, t) \<Rightarrow> length l = 2 ^ L_TABLE_BITS \<and> length t = 2 ^ S_TABLE_BITS"
  then have len: "length l = 2 ^ L_TABLE_BITS" "length t = 2 ^ S_TABLE_BITS" by (simp_all add: p)
  have slot: "l3_long v < length l" "l3_short v < length t" for v using l3_slots [of v] len by simp_all
  show "(\<exists>p'. l3_fill_step src s p = Some (Inl p') \<and>
        (case p' of (i, l, t) \<Rightarrow> length l = 2 ^ L_TABLE_BITS \<and> length t = 2 ^ S_TABLE_BITS) \<and>
        (case p' of (i, l, t) \<Rightarrow> s - i) < (case p of (i, l, t) \<Rightarrow> s - i)) \<or>
      (\<exists>r. l3_fill_step src s p = Some (Inr r) \<and>
        (case r of (l, t) \<Rightarrow> length l = 2 ^ L_TABLE_BITS \<and> length t = 2 ^ S_TABLE_BITS))"
  proof (cases "i < s")
    case True
    then have "load64 src i = Some (word_at 8 src i)" using assms(3) by (simp add: load64_word)
    with True len slot show ?thesis by (simp add: p l3_fill_step_def Let_def idx_def l3_store_def)
  next
    case False
    with len show ?thesis by (simp add: p l3_fill_step_def)
  qed
qed

definition l3_measure :: "bytes \<Rightarrow> l3_state \<Rightarrow> nat" where
  "l3_measure src st = (length src - nemit st) * (length src + 1) + (length src - cur st)"

lemma l3_measure_emit:
  assumes "nemit st < nemit st'" "nemit st' \<le> length src"
  shows "l3_measure src st' < l3_measure src st"
proof -
  have "Suc (length src - nemit st') * (length src + 1) \<le> (length src - nemit st) * (length src + 1)"
    using assms by (intro mult_le_mono) auto
  then show ?thesis unfolding l3_measure_def mult_Suc by linarith
qed

lemma l3_outer_step_ok:
  assumes I: "l3_inv src cap st0" and sz: "length src \<le> MAX_BLOCK_SIZE"
  shows "(l3_outer_step src st0 = None \<and> cap < length src + 6) \<or>
    (\<exists>st'. l3_outer_step src st0 = Some (Inl st') \<and> l3_inv src cap st' \<and> l3_measure src st' < l3_measure src st0) \<or>
    (\<exists>e. l3_outer_step src st0 = Some (Inr e) \<and>
      (case e of Inl out \<Rightarrow> length out = cap | Inr st \<Rightarrow> enc_state_ok src cap st))"
proof -
  obtain e where e: "loop (l3_search_step src) (no_match 0 0, st0) = Some e" "l3_exit_ok src cap st0 e"
    using l3_search_ok [OF I] by blast
  show ?thesis
  proof (cases e)
    case (BreakOuter st1)
    with e show ?thesis by (simp add: l3_outer_step_def)
  next
    case (Return0 out)
    with e show ?thesis by simp
  next
    case (Onward p)
    obtain m st where p: "p = (m, st)" by fastforce
    have J: "l3_inv src cap st" "cur st0 \<le> cur st" "nemit st = nemit st0" "0 < m_len m"
      and v: "l3_valid src (nemit st) (rept st) m"
      using e(2) unfolding Onward p l3_exit_ok.simps by blast+
    have s: "cur st + 10 \<le> length src" "nemit st \<le> cur st" "enc_state_ok src cap st"
      "length (llong st) = 2 ^ L_TABLE_BITS" "length (lshort st) = 2 ^ S_TABLE_BITS"
      using J(1) by (auto simp: l3_inv_def)
    have out: "length (outb st) = cap" using s(3) by (simp add: enc_state_ok_def)
    have u: "usub (m_s m) (nemit st) = Some (m_s m - nemit st)" "usub (m_s m) (m_off m) = Some (m_s m - m_off m)"
      using v J(4) by (auto simp: l3_valid_def usub_Some)
    let ?off = "m_s m - m_off m" and ?k = "m_s m - nemit st" and ?n = "cur st + 1 + 1"
    have step: "l3_outer_step src st0 =
       (if DST_LIMIT3 src < opos st + ?k then Some (Inr (Inl (outb st)))
        else if l3_gives_up m ?off ?k then
          if S_LIMIT3 src \<le> ?n then Some (Inr (Inr (st\<lparr>cur := ?n\<rparr>)))
          else do { v \<leftarrow> load64 src ?n; Some (Inl (st\<lparr>cur := ?n, cv := v\<rparr>)) }
        else do {
          (out, d, s) \<leftarrow> l3_emit src m ?off st;
          let st' = st\<lparr>rept := ?off, nemit := s, cur := s, outb := out, opos := d\<rparr>;
          if S_LIMIT3 src \<le> s then Some (Inr (Inr st'))
          else if DST_LIMIT3 src < d then Some (Inr (Inl out))
          else do {
            (l, t) \<leftarrow> loop (l3_fill_step src s) (cur st + 1, llong st', lshort st');
            v \<leftarrow> load64 src s;
            Some (Inl (st'\<lparr>cv := v, llong := l, lshort := t\<rparr>)) } })"
      unfolding l3_outer_step_def e(1) Option.bind_lunit Onward p enc_exit.case prod.case u Let_def by simp
    show ?thesis
    proof (cases "DST_LIMIT3 src < opos st + ?k")
      case True
      with step out show ?thesis by simp
    next
      case lim: False
      show ?thesis
      proof (cases "l3_gives_up m ?off ?k")
        case give: True
        show ?thesis
        proof (cases "S_LIMIT3 src \<le> ?n")
          case True
          with step lim give s(3) show ?thesis by (simp add: enc_state_ok_def)
        next
          case False
          then have n: "?n + 10 \<le> length src" by (simp add: S_LIMIT3_def INPUT_MARGIN_L3_def)
          then have ld: "load64 src ?n = Some (word_at 8 src ?n)" by (intro load64_word) simp
          have "l3_inv src cap (st\<lparr>cur := ?n, cv := word_at 8 src ?n\<rparr>)"
            using J(1) n by (auto simp: l3_inv_def enc_state_ok_def)
          moreover have "l3_measure src (st\<lparr>cur := ?n, cv := word_at 8 src ?n\<rparr>) < l3_measure src st0"
            using n J(2,3) by (simp add: l3_measure_def)
          moreover have "l3_outer_step src st0 = Some (Inl (st\<lparr>cur := ?n, cv := word_at 8 src ?n\<rparr>))"
            using step lim give False ld by simp
          ultimately show ?thesis by blast
        qed
      next
        case keep: False
        have "opos st + ?k + 11 \<le> length src + 6" using lim s(1) by (simp add: DST_LIMIT3_def)
        from l3_emit_ok [OF s(3) sz v J(4) this] obtain s' where
          s': "nemit st < s'" "s' \<le> length src" "l3_emitted src cap (length src + 6) ?off s' (l3_emit src m ?off st)"
          by blast
        show ?thesis
          using s'(3)
        proof (cases rule: l3_emitted_cases)
          case fault
          with step lim keep show ?thesis by simp
        next
          case (emitted out d)
          let ?st = "st\<lparr>rept := ?off, nemit := s', cur := s', outb := out, opos := d\<rparr>"
          have ok: "enc_state_ok src cap ?st" using emitted by (simp add: enc_state_ok_def)
          have step: "l3_outer_step src st0 = (if S_LIMIT3 src \<le> s' then Some (Inr (Inr ?st))
              else if DST_LIMIT3 src < d then Some (Inr (Inl out))
              else do {
                (l, t) \<leftarrow> loop (l3_fill_step src s') (cur st + 1, llong st, lshort st);
                v \<leftarrow> load64 src s';
                Some (Inl (?st\<lparr>cv := v, llong := l, lshort := t\<rparr>)) })"
            using step lim keep emitted(1) by (simp add: Let_def)
          show ?thesis
          proof (cases "S_LIMIT3 src \<le> s' \<or> DST_LIMIT3 src < d")
            case True
            with step ok emitted(2) show ?thesis by auto
          next
            case False
            then have n: "s' + 10 \<le> length src" "s' + 8 \<le> length src"
              by (auto simp: S_LIMIT3_def INPUT_MARGIN_L3_def)
            obtain l t where fl: "loop (l3_fill_step src s') (cur st + 1, llong st, lshort st) = Some (l, t)"
              "length l = 2 ^ L_TABLE_BITS" "length t = 2 ^ S_TABLE_BITS"
              using l3_fill_ok [OF s(4,5) n(2), of "cur st + 1"] by auto
            let ?st' = "?st\<lparr>cv := word_at 8 src s', llong := l, lshort := t\<rparr>"
            have "l3_inv src cap ?st'"
              using ok n fl s'(1) by (simp add: l3_inv_def enc_state_ok_def)
            moreover have "l3_measure src ?st' < l3_measure src st0"
              using s'(1,2) J(3) by (intro l3_measure_emit) simp_all
            moreover have "l3_outer_step src st0 = Some (Inl ?st')"
              using step False fl(1) load64_word [OF n(2)] by simp
            ultimately show ?thesis by blast
          qed
        qed
      qed
    qed
  qed
qed

lemma l3_remainder_ok:
  assumes st: "enc_state_ok src cap st" and sz: "16 \<le> length src" "length src \<le> MAX_BLOCK_SIZE"
  shows "(l3_remainder src st = None \<and> cap < length src + 6) \<or>
    (\<exists>out d. l3_remainder src st = Some (out, d) \<and> length out = cap \<and>
      (d = 0 \<or> d \<le> cap \<and> spec_decode (take d out) = Some src))"
proof -
  have e: "enc_ok src (outb st) (opos st) (nemit st) (rept st)" "length (outb st) = cap"
    using st by (auto simp: enc_state_ok_def)
  have fin: "d \<le> cap \<and> spec_decode (take d out) = Some src"
    if "enc_ok src out d (length src) r" "length out = cap" for out d r
    using that by (simp add: enc_ok_def spec_decode_def)
  have le: "nemit st \<le> length src" and r: "0 < rept st" using e by (simp_all add: enc_ok_def)
  show ?thesis
  proof (cases "nemit st < length src")
    case False
    with le e fin [of "outb st" "opos st" "rept st"] show ?thesis by (simp add: l3_remainder_def)
  next
    case True
    define lit where "lit = drop (nemit st) src"
    have l: "length lit = length src - nemit st" "length lit \<le> 16777245" "lit = take (length src - nemit st) (drop (nemit st) src)"
      using sz by (simp_all add: lit_def format_consts)
    have f: "l3_remainder src st = (if DST_LIMIT3 src < opos st + length lit + emit_literal_size_n (length lit)
        then Some (outb st, 0) else emit_at (opos st) (\<lambda>dst. emit_literal dst lit) (outb st))"
      using True by (simp add: l3_remainder_def usub_Some slice_from_Some lit_def)
    show ?thesis
    proof (cases "DST_LIMIT3 src < opos st + length lit + emit_literal_size_n (length lit)")
      case True
      with f e show ?thesis by simp
    next
      case False
      have "length (lit_code lit) \<le> emit_literal_size_n (length lit) + length lit"
        using emit_literal_size_correct [of lit] by (cases "length lit = 65565") auto
      then have b: "opos st + length (lit_code lit) \<le> length src + 6"
        using False sz(1) by (simp add: DST_LIMIT3_def)
      have run: "spec_run (lit_code lit @ rest) (take (nemit st) src, rept st) =
          spec_run rest (take (length src) src, rept st)" for rest
        using run_lit_code [OF l(2)] le by (simp add: lit_def)
      from emit_one [OF e(1) emits_literal [OF l(2)] b run order_refl r]
      show ?thesis using f False e(2) fin by auto
    qed
  qed
qed

lemma l3_encode_block_ok:
  assumes sz: "length src \<le> MAX_BLOCK_SIZE"
  shows "(l3_encode_block dst src = None \<and> length dst < length src + 6) \<or>
    (\<exists>out d. l3_encode_block dst src = Some (out, d) \<and> length out = length dst \<and>
      (d = 0 \<or> d \<le> length dst \<and> spec_decode (take d out) = Some src))"
proof (cases "length src < 16")
  case True
  then show ?thesis by (simp add: l3_encode_block_def l3_encode_block_on_def format_consts)
next
  case False
  then have n: "16 \<le> length src" by simp
  let ?lt = "lend_table (2 ^ L_TABLE_BITS) []" and ?st = "lend_table (2 ^ S_TABLE_BITS) []"
  have t: "length ?lt = 2 ^ L_TABLE_BITS" "length ?st = 2 ^ S_TABLE_BITS" by (simp_all add: lend_table_def)
  let ?st0 = "\<lparr>nemit = 0, cur = 1, cv = word_at 8 src 1, rept = 1, outb = dst, opos = 0,
        llong = ?lt, lshort = ?st\<rparr>"
  have I: "l3_inv src (length dst) ?st0"
    using n enc_ok_init [of src dst] t by (simp add: l3_inv_def enc_state_ok_def)
  have u: "usub (length src) INPUT_MARGIN_L3 = Some (length src - INPUT_MARGIN_L3)"
    "usub (length src) 5 = Some (length src - 5)" "load64 src 1 = Some (word_at 8 src 1)"
    using n by (simp_all add: usub_Some INPUT_MARGIN_L3_def load64_word)
  have f: "l3_encode_block dst src = (loop (l3_outer_step src) ?st0 \<bind>
      (\<lambda>e. case e of Inl out \<Rightarrow> Some (out, 0) | Inr st \<Rightarrow> l3_remainder src st))"
    using n unfolding l3_encode_block_def l3_encode_block_on_def l3_inner_def u Option.bind_lunit
    by (simp add: format_consts)
  from loop_fallible [of "l3_inv src (length dst)" ?st0 "l3_outer_step src" "length dst < length src + 6"
      "l3_measure src", OF I l3_outer_step_ok [OF _ sz]]
  have "(loop (l3_outer_step src) ?st0 = None \<and> length dst < length src + 6) \<or>
    (\<exists>e. loop (l3_outer_step src) ?st0 = Some e \<and>
      (case e of Inl out \<Rightarrow> length out = length dst | Inr st \<Rightarrow> enc_state_ok src (length dst) st))" .
  then show ?thesis
  proof (elim disjE exE conjE)
    fix e assume e: "loop (l3_outer_step src) ?st0 = Some e"
      "case e of Inl out \<Rightarrow> length out = length dst | Inr st \<Rightarrow> enc_state_ok src (length dst) st"
    show ?thesis
    proof (cases e)
      case (Inl out)
      with f e show ?thesis by simp
    next
      case (Inr st)
      with f e l3_remainder_ok [OF _ n sz, of "length dst" st] show ?thesis by simp
    qed
  qed (use f in simp)
qed

end
