(* ===== verification/Block_Correct.thy ===== *)
theory Block_Correct
  imports Block Decode_Refine Encode_L1_Correct Encode_L2_Correct Encode_L3_Correct
begin

text \<open>
  The meaning of a block and of a chunk body, the contract that the three encoders share, and the
  correctness of the public codec: what its decoder accepts, and that what its encoder returns
  means the source.
\<close>

section \<open>Meanings\<close>

text \<open>What a compressed body of declared length \<open>n\<close> means.\<close>

definition spec_body :: "nat \<Rightarrow> bytes \<Rightarrow> bytes option" where
  "spec_body n body =
     (if n < length body then None
      else case spec_decode body of None \<Rightarrow> None | Some out \<Rightarrow> if length out = n then Some out else None)"

definition spec_block :: "bytes \<Rightarrow> bytes option" where
  "spec_block src = (case src of
     [] \<Rightarrow> None
   | b # rest \<Rightarrow>
       if b \<noteq> 0 then None
       else if rest = [] then Some []
       else case get_uvarint rest of
         None \<Rightarrow> None
       | Some (v, k) \<Rightarrow>
           if MAX_BLOCK_SIZE < unat v \<or> drop k rest = [] then None
           else if v = 0 then Some (drop k rest)
           else spec_body (unat v) (drop k rest))"

definition spec_chunk :: "bytes \<Rightarrow> bytes option" where
  "spec_chunk src = (case get_uvarint src of
     None \<Rightarrow> None
   | Some (v, k) \<Rightarrow> if MAX_BLOCK_SIZE < unat v \<or> v = 0 then None else spec_body (unat v) (drop k src))"

section \<open>Decoding\<close>

lemma holds_set_len:
  assumes "holds m out"
  shows "set_len (length out) m = Some out"
  using assms by (auto simp: set_len_def holds_def o_def)

lemma decode_into_ok:
  obtains e where "decode_into be dst n body = Some (Inl e)" "be \<or> n < length body \<or> spec_body n body = None"
  | out where "decode_into be dst n body = Some (Inr (dst @ out))" "length out = n"
      "be \<or> n < length body \<or> spec_body n body = Some out"
proof (rule minlz_decode_ok [of "replicate (n + OVERSHOOT_PAD) None" n be body])
  fix e assume "minlz_decode be (replicate (n + OVERSHOOT_PAD) None) n body = Some (Inl e)"
    "be \<or> rejected body n"
  then show thesis
    using that(1) by (auto simp: decode_into_def spec_body_def rejected_def split: option.split)
next
  fix m' out
  assume "minlz_decode be (replicate (n + OVERSHOOT_PAD) None) n body = Some (Inr m')"
    "holds m' out" "length out = n" "be \<or> spec_decode body = Some out"
  then show thesis
    using that(2) [of out] holds_set_len [of m' out] by (auto simp: decode_into_def spec_body_def)
qed simp

lemma uvarint_slice:
  assumes "get_uvarint src = Some (v, k)"
  shows "slice_from src k = Some (drop k src)"
  using block_uvarint.dec_bound [OF assms] by (simp add: slice_from_def)

lemma max_block_word [simp]: "of_nat MAX_BLOCK_SIZE < (v :: u64) \<longleftrightarrow> MAX_BLOCK_SIZE < unat v"
  by (simp add: word_less_nat_alt format_consts)

lemma big_word: "(0xffffffff :: u64) < v \<Longrightarrow> MAX_BLOCK_SIZE < unat v"
  by (simp add: word_less_nat_alt format_consts)

lemma parse_header_ok:
  obtains e where "parse_header src = Some (Inl e)" "spec_block src = None"
  | body n where "parse_header src = Some (Inr (True, body, n))" "n = length body" "spec_block src = Some body"
      "length body \<le> length src"
  | body n where "parse_header src = Some (Inr (False, body, n))" "0 < n" "n \<le> MAX_BLOCK_SIZE"
      "length body \<le> n" "spec_block src = spec_body n body"
proof (cases src)
  case Nil
  with that(1) show ?thesis by (simp add: parse_header_def spec_block_def)
next
  case (Cons b rest)
  show ?thesis
  proof (cases "b = 0 \<and> rest \<noteq> []")
    case False
    show ?thesis
    proof (cases "b = 0")
      case True
      with False have "src = [0]" by (simp add: Cons)
      with that(2) [of "[]" 0] show ?thesis by (simp add: parse_header_def spec_block_def)
    next
      case b: False
      then have "\<exists>e. parse_header src = Some (Inl e)" "spec_block src = None"
        by (simp_all add: Cons parse_header_def spec_block_def)
      with that(1) show ?thesis by auto
    qed
  next
    case True
    have tl: "drop 1 (b # rest) = rest" by simp
    from True have h: "parse_header src = (case get_uvarint rest of
          None \<Rightarrow> Some (Inl (Corrupt ''bad decoded-length varint''))
        | Some (v, n) \<Rightarrow>
            if 0xffffffff < v then Some (Inl (Corrupt ''decoded length exceeds u32''))
            else if of_nat MAX_BLOCK_SIZE < v then Some (Inl TooLarge)
            else do {
              body \<leftarrow> slice_from rest n;
              if body = [] then Some (Inl (Corrupt ''empty block body''))
              else if unat v = 0 then Some (Inr (True, body, length body))
              else if unat v < length body then Some (Inl (Corrupt ''compressed larger than decoded size''))
              else Some (Inr (False, body, unat v)) })"
      and s: "spec_block src = (case get_uvarint rest of
          None \<Rightarrow> None
        | Some (v, k) \<Rightarrow>
            if MAX_BLOCK_SIZE < unat v \<or> drop k rest = [] then None
            else if v = 0 then Some (drop k rest)
            else spec_body (unat v) (drop k rest))"
      unfolding Cons parse_header_def spec_block_def Let_def tl by simp_all
    show ?thesis
    proof (cases "get_uvarint rest")
      case None
      with that(1) h s show ?thesis by simp
    next
      case (Some a)
      obtain v k where a: "a = (v, k)" by (cases a)
      note g = Some [unfolded a]
      note hs = h [unfolded g option.case prod.case uvarint_slice [OF g] Option.bind_lunit]
        s [unfolded g option.case prod.case]
      consider "(0xffffffff :: u64) < v" | "\<not> (0xffffffff :: u64) < v" "MAX_BLOCK_SIZE < unat v \<or> drop k rest = []"
        | "\<not> (0xffffffff :: u64) < v" "unat v \<le> MAX_BLOCK_SIZE" "drop k rest \<noteq> []" "unat v = 0"
        | "\<not> (0xffffffff :: u64) < v" "unat v \<le> MAX_BLOCK_SIZE" "drop k rest \<noteq> []" "0 < unat v" "unat v < length (drop k rest)"
        | "\<not> (0xffffffff :: u64) < v" "unat v \<le> MAX_BLOCK_SIZE" "drop k rest \<noteq> []" "0 < unat v" "length (drop k rest) \<le> unat v"
        by linarith
      then show ?thesis
      proof cases
        case 1
        with that(1) hs big_word [of v] show ?thesis by simp
      next
        case 2
        with that(1) hs show ?thesis by (cases "MAX_BLOCK_SIZE < unat v") simp_all
      next
        case 3
        then have "v = 0" by (simp add: unat_eq_0)
        with 3 that(2) [of "drop k rest"] hs show ?thesis by (simp add: Cons)
      next
        case 4
        then have "v \<noteq> 0" "spec_body (unat v) (drop k rest) = None" by (auto simp: spec_body_def)
        with 4 that(1) hs show ?thesis by simp
      next
        case 5
        then have "v \<noteq> 0" by auto
        with 5 that(3) [of "drop k rest" "unat v"] hs show ?thesis by simp
      qed
    qed
  qed
qed

lemma append_decoded_ok:
  obtains e where "append_decoded be dst src = Some (Inl e)" "be \<or> spec_block src = None"
  | out where "append_decoded be dst src = Some (Inr (dst @ out))" "be \<or> spec_block src = Some out"
      "decoded_len src = Some (Inr (length out))"
proof (cases rule: parse_header_ok [of src])
  case (1 e)
  with that(1) show ?thesis by (simp add: append_decoded_def)
next
  case (2 body n)
  with that(2) [of body] show ?thesis by (simp add: append_decoded_def decoded_len_def)
next
  case (3 body n)
  then have eq: "append_decoded be dst src = decode_into be dst n body" "decoded_len src = Some (Inr n)"
    by (simp_all add: append_decoded_def decoded_len_def)
  show ?thesis
  proof (cases rule: decode_into_ok [of be dst n body])
    case (1 e)
    with that(1) eq 3 show ?thesis by auto
  next
    case (2 out)
    show ?thesis by (rule that(2) [of out]) (use 2 eq 3 in auto)
  qed
qed

lemma split_chunk_body_ok:
  obtains e where "split_chunk_body src = Some (Inl e)" "spec_chunk src = None"
  | body n where "split_chunk_body src = Some (Inr (n, body))" "0 < n" "n \<le> MAX_BLOCK_SIZE"
      "length body \<le> n" "spec_chunk src = spec_body n body"
proof (cases "get_uvarint src")
  case None
  with that(1) show ?thesis by (simp add: split_chunk_body_def spec_chunk_def)
next
  case (Some a)
  obtain v k where a: "a = (v, k)" by (cases a)
  note g = Some [unfolded a]
  note hs = split_chunk_body_def [of src, unfolded g option.case prod.case uvarint_slice [OF g] Option.bind_lunit Let_def]
    spec_chunk_def [of src, unfolded g option.case prod.case]
  consider "(0xffffffff :: u64) < v" | "\<not> (0xffffffff :: u64) < v" "MAX_BLOCK_SIZE < unat v \<or> unat v = 0"
    | "\<not> (0xffffffff :: u64) < v" "unat v \<le> MAX_BLOCK_SIZE" "0 < unat v" "unat v < length (drop k src)"
    | "\<not> (0xffffffff :: u64) < v" "unat v \<le> MAX_BLOCK_SIZE" "0 < unat v" "length (drop k src) \<le> unat v"
    by linarith
  then show ?thesis
  proof cases
    case 1
    with that(1) hs big_word [of v] show ?thesis by simp
  next
    case 2
    with that(1) hs show ?thesis by (cases "MAX_BLOCK_SIZE < unat v") (simp_all add: unat_eq_0)
  next
    case 3
    then have "v \<noteq> 0" "spec_body (unat v) (drop k src) = None" by (auto simp: spec_body_def)
    with 3 that(1) hs show ?thesis by simp
  next
    case 4
    then have "v \<noteq> 0" by auto
    with 4 that(2) [of "unat v" "drop k src"] hs show ?thesis by simp
  qed
qed

lemma append_decoded_chunk_ok:
  obtains e where "append_decoded_chunk_body be dst src = Some (Inl e)" "be \<or> spec_chunk src = None"
  | out where "append_decoded_chunk_body be dst src = Some (Inr (dst @ out))" "be \<or> spec_chunk src = Some out"
      "decoded_len_chunk_body src = Some (Inr (length out))" "out \<noteq> []" "length out \<le> MAX_BLOCK_SIZE"
proof (cases rule: split_chunk_body_ok [of src])
  case (1 e)
  with that(1) show ?thesis by (simp add: append_decoded_chunk_body_def)
next
  case (2 body n)
  then have eq: "append_decoded_chunk_body be dst src = decode_into be dst n body"
    "decoded_len_chunk_body src = Some (Inr n)"
    by (simp_all add: append_decoded_chunk_body_def decoded_len_chunk_body_def)
  show ?thesis
  proof (cases rule: decode_into_ok [of be dst n body])
    case (1 e)
    with that(1) eq 2 show ?thesis by auto
  next
    case c: (2 out)
    show ?thesis by (rule that(2) [of out]) (use c eq 2 in auto)
  qed
qed

section \<open>The contract of the encoders\<close>

text \<open>
  An encoder leaves the length of its slice, and when it returns a size, the bytes it has written
  fit and mean the source. One that is \<open>total\<close> never faults; the level-3 encoder is not.
\<close>

locale sound_encoder =
  fixes enc :: "bytes \<Rightarrow> bytes \<Rightarrow> (bytes \<times> nat) option"
  assumes sound: "length src \<le> MAX_BLOCK_SIZE \<Longrightarrow> room (length src) (length dst) \<Longrightarrow>
    enc dst src = Some (out, d) \<Longrightarrow>
    length out = length dst \<and> (d = 0 \<or> d \<le> length dst \<and> spec_decode (take d out) = Some src)"
begin

text \<open>A body no longer than its source, which is what the decoder asks for, means the source.\<close>

lemma body:
  assumes "length src \<le> MAX_BLOCK_SIZE" "room (length src) (length slc)"
    and "enc slc src = Some (out, d)" "0 < d" "d \<le> length src"
  shows "spec_body (length src) (take d out) = Some src"
  using sound [OF assms(1-3)] assms(4,5) by (simp add: spec_body_def)

end

locale total_encoder = sound_encoder +
  assumes returns: "length src \<le> MAX_BLOCK_SIZE \<Longrightarrow> room (length src) (length dst) \<Longrightarrow> enc dst src \<noteq> None"

interpretation fastest: total_encoder l1_encode_block
proof unfold_locales
  fix src dst out :: bytes and d
  assume s: "length src \<le> MAX_BLOCK_SIZE" "room (length src) (length dst)"
  show "length out = length dst \<and> (d = 0 \<or> d \<le> length dst \<and> spec_decode (take d out) = Some src)"
    if "l1_encode_block dst src = Some (out, d)"
    using l1_encode_block_ok [OF s] that by auto
  show "l1_encode_block dst src \<noteq> None" using l1_encode_block_ok [OF s] by auto
qed

interpretation balanced: total_encoder l2_encode_block
proof unfold_locales
  fix src dst out :: bytes and d
  assume s: "length src \<le> MAX_BLOCK_SIZE" "room (length src) (length dst)"
  show "length out = length dst \<and> (d = 0 \<or> d \<le> length dst \<and> spec_decode (take d out) = Some src)"
    if "l2_encode_block dst src = Some (out, d)"
    using l2_encode_block_ok [OF s] that by auto
  show "l2_encode_block dst src \<noteq> None" using l2_encode_block_ok [OF s] by auto
qed

interpretation smallest: sound_encoder l3_encode_block
proof unfold_locales
  fix src dst out :: bytes and d
  assume s: "length src \<le> MAX_BLOCK_SIZE" "room (length src) (length dst)"
  show "length out = length dst \<and> (d = 0 \<or> d \<le> length dst \<and> spec_decode (take d out) = Some src)"
    if "l3_encode_block dst src = Some (out, d)"
    using l3_encode_block_ok [OF s(1), of dst] that by auto
qed

interpretation any_level: sound_encoder "encode_block level" for level
proof unfold_locales
  fix src dst out :: bytes and d
  assume s: "length src \<le> MAX_BLOCK_SIZE" "room (length src) (length dst)"
    and e: "encode_block level dst src = Some (out, d)"
  show "length out = length dst \<and> (d = 0 \<or> d \<le> length dst \<and> spec_decode (take d out) = Some src)"
  proof (cases level)
    case Fastest
    with fastest.sound [OF s] e show ?thesis by (simp add: encode_block_def)
  next
    case Balanced
    with balanced.sound [OF s] e show ?thesis by (simp add: encode_block_def)
  next
    case Smallest
    with smallest.sound [OF s] e show ?thesis by (simp add: encode_block_def)
  qed
qed

lemma encode_block_returns:
  assumes "length src \<le> MAX_BLOCK_SIZE" "room (length src) (length dst)" "encode_block level dst src = None"
  shows "level = Smallest"
  using assms fastest.returns balanced.returns by (cases level) (auto simp: encode_block_def)

section \<open>Encoding\<close>

lemma max_encoded_len_eq:
  assumes "16 \<le> n"
  shows "max_encoded_len n = (if MAX_BLOCK_SIZE < n then None else Some (n + 2))"
  using assms by (simp add: max_encoded_len_def)

lemma vec_resize_grow: "length xs \<le> n \<Longrightarrow> vec_resize n xs = xs @ replicate (n - length xs) 0"
  by (simp add: vec_resize_def)

lemma length_header_word:
  assumes "n \<le> MAX_BLOCK_SIZE"
  shows "unat (of_nat n :: u64) = n"
  using assms by (simp add: format_consts unsigned_of_nat take_bit_nat_eq_self)

lemma header_room:
  assumes "n \<le> MAX_BLOCK_SIZE"
  shows "room n (n + 1 - length (uvarint (of_nat n)))" "room n (n + 2 - length (uvarint (of_nat n)))"
  using length_uvarint_block [OF assms] by (auto simp: room_def)

lemma spec_block_compressed:
  assumes "0 < n" "n \<le> MAX_BLOCK_SIZE" "body \<noteq> []"
  shows "spec_block (0 # uvarint (of_nat n) @ body) = spec_body n body"
  using assms length_header_word [OF assms(2)] block_uvarint.dec_enc [of "of_nat n" body]
  by (auto simp: spec_block_def put_uvarint_eq unat_eq_0)

lemma spec_chunk_compressed:
  assumes "0 < n" "n \<le> MAX_BLOCK_SIZE"
  shows "spec_chunk (uvarint (of_nat n) @ body) = spec_body n body"
  using assms length_header_word [OF assms(2)] block_uvarint.dec_enc [of "of_nat n" body]
  by (auto simp: spec_chunk_def put_uvarint_eq unat_eq_0)

lemma encode_uncompressed_ok:
  "\<exists>blk. encode_uncompressed dst src = dst @ blk \<and> spec_block blk = Some src \<and> length blk \<le> length src + 2"
proof (cases "src = []")
  case True
  then show ?thesis by (intro exI [of _ "[0]"]) (simp add: encode_uncompressed_def spec_block_def)
next
  case False
  have "get_uvarint (0 # src) = Some (0, 1)" by (simp add: get_uvarint_def)
  with False show ?thesis
    by (intro exI [of _ "0 # 0 # src"]) (simp add: encode_uncompressed_def spec_block_def)
qed

text \<open>The slice behind a header \<open>h\<close> that holds the length: what the encoder leaves there.\<close>

lemma encode_behind:
  assumes n: "16 \<le> length src" "length src \<le> MAX_BLOCK_SIZE"
    and h: "h = pre @ uvarint (of_nat (length src))" "length pre \<le> 1"
    and slc: "slc = replicate (length src + 2 - length h) 0"
  obtains "encode_block level slc src = None" "level = Smallest"
  | out where "encode_block level slc src = Some (out, 0)" "length out = length slc"
  | out d where "encode_block level slc src = Some (out, d)" "0 < d" "d \<le> length slc" "length out = length slc"
      "length (take d out) \<le> length src \<Longrightarrow> spec_body (length src) (take d out) = Some src"
proof -
  have "room (length src) (length slc)"
    using header_room [OF n(2)] h length_uvarint_block(1) [OF n(2)] n(1)
    by (cases pre) (auto simp: slc room_def split: if_splits)
  note r = this
  show ?thesis
  proof (cases "encode_block level slc src")
    case None
    with that(1) encode_block_returns [OF n(2) r] show ?thesis by blast
  next
    case (Some od)
    obtain out d where od: "od = (out, d)" by (cases od)
    note e = Some [unfolded od]
    show ?thesis
    proof (cases "d = 0")
      case True
      with that(2) any_level.sound [OF n(2) r e] e show ?thesis by simp
    next
      case False
      show ?thesis
        by (rule that(3) [OF e]) (use False any_level.sound [OF n(2) r e] in \<open>auto simp: spec_body_def\<close>)
    qed
  qed
qed

lemma append_encoded_ok:
  assumes "length src \<le> MAX_BLOCK_SIZE"
  obtains "append_encoded dst src level = None" "level = Smallest"
  | blk where "append_encoded dst src level = Some (Inr (dst @ blk))" "spec_block blk = Some src"
      "length blk \<le> length src + 2"
proof (cases "length src < 16")
  case True
  have "\<exists>w. max_encoded_len (length src) = Some w" using assms by (simp add: max_encoded_len_def)
  with True have "append_encoded dst src level = Some (Inr (encode_uncompressed dst src))"
    by (auto simp: append_encoded_def MIN_NON_LITERAL_BLOCK_SIZE_def)
  with that(2) encode_uncompressed_ok [of dst src] show ?thesis by auto
next
  case False
  let ?u = "uvarint (of_nat (length src))"
  let ?slc = "replicate (length src + 2 - length ([0] @ ?u)) 0 :: bytes"
  have n: "16 \<le> length src" and one: "length [0 :: byte] \<le> 1" using False by simp_all
  have u: "length ?u \<le> 4" "0 < length ?u" using length_uvarint_block(1) [OF assms] by auto
  obtain w where w: "w = length src + 2" "max_encoded_len (length src) = Some w"
    using False assms by (simp add: max_encoded_len_eq)
  have r: "vec_resize (length dst + w) (dst @ 0 # ?u) = (dst @ 0 # ?u) @ ?slc"
    using u False w by (subst vec_resize_grow) auto
  have eq: "append_encoded dst src level = do {
      (body, d) \<leftarrow> encode_block level ?slc src;
      if 0 < d then Some (Inr (take (length dst + 1 + length ?u + d) ((dst @ 0 # ?u) @ body)))
      else Some (Inr (encode_uncompressed dst src)) }"
    using False assms
    by (simp add: append_encoded_def w(2) MIN_NON_LITERAL_BLOCK_SIZE_def put_uvarint_eq
        Let_def r slice_from_def case_prod_beta cong: Option.bind_cong if_cong)
  show ?thesis
  proof (cases rule: encode_behind [OF n assms refl one refl, of level, case_names fault gives_up compressed])
    case fault
    with eq that(1) show ?thesis by simp
  next
    case (gives_up out)
    with eq that(2) encode_uncompressed_ok [of dst src] show ?thesis by auto
  next
    case (compressed out d)
    let ?blk = "0 # ?u @ take d out"
    have d: "d \<le> length src + 2 - (1 + length ?u)" using compressed(3) by simp
    then have "d \<le> length src" "1 + (length ?u + d) \<le> length src + 2" using u n by linarith+
    then have len: "length (take d out) \<le> length src" "length ?blk \<le> length src + 2"
      using compressed(4) by auto
    have "append_encoded dst src level = Some (Inr (dst @ ?blk))" using eq compressed by simp
    moreover have "spec_block ?blk = Some src"
      using compressed(5) [OF len(1)] False assms compressed(2-4) u by (subst spec_block_compressed) auto
    ultimately show ?thesis using that(2) len(2) by blast
  qed
qed

lemma append_encoded_too_large:
  "MAX_BLOCK_SIZE < length src \<Longrightarrow> append_encoded dst src level = Some (Inl TooLarge)"
  by (simp add: append_encoded_def max_encoded_len_def)

text \<open>The two functions that keep a body only when it is smaller than the source.\<close>

lemma keep_smaller:
  assumes n: "16 \<le> length src" "length src \<le> MAX_BLOCK_SIZE"
    and h: "h = pre @ uvarint (of_nat (length src))" "length pre \<le> 1"
    and eq: "res = do {
      (body, d) \<leftarrow> encode_block level (replicate (length src + 2 - length h) 0) src;
      if 0 < d \<and> length h + d < length src then Some (Inr (take (length dst + length h + d) ((dst @ h) @ body), True))
      else Some (Inr (dst, False)) }"
  obtains "res = None" "level = Smallest"
  | "res = Some (Inr (dst, False))"
  | body where "res = Some (Inr (dst @ h @ body, True))" "length (h @ body) < length src" "body \<noteq> []"
      "spec_body (length src) body = Some src"
proof (cases rule: encode_behind [OF n h refl, of level, case_names fault gives_up compressed])
  case fault
  with eq that(1) show ?thesis by simp
next
  case (gives_up out)
  with eq that(2) show ?thesis by simp
next
  case (compressed out d)
  show ?thesis
  proof (cases "length h + d < length src")
    case True
    have "d \<le> length out" using compressed(3,4) by simp
    then have b: "length (take d out) = d" by simp
    have "res = Some (Inr (dst @ h @ take d out, True))" using eq compressed(1,2) True by simp
    then show ?thesis
      by (rule that(3)) (use b True compressed(2,5) in auto)
  next
    case False
    with eq compressed(1) that(2) show ?thesis by simp
  qed
qed

lemma chunk_encode_ok:
  assumes "length src \<le> MAX_BLOCK_SIZE"
  obtains "append_encoded_chunk_body dst src level = None" "level = Smallest"
  | "append_encoded_chunk_body dst src level = Some (Inr (dst, False))"
  | blk where "append_encoded_chunk_body dst src level = Some (Inr (dst @ blk, True))"
      "spec_chunk blk = Some src" "length blk < length src"
proof (cases "length src < 16")
  case True
  with that(2) show ?thesis by (simp add: append_encoded_chunk_body_def MIN_NON_LITERAL_BLOCK_SIZE_def)
next
  case False
  let ?u = "uvarint (of_nat (length src))"
  have n: "16 \<le> length src" and none: "length ([] :: bytes) \<le> 1" using False by simp_all
  have u: "length ?u \<le> 4" using length_uvarint_block(1) [OF assms] by auto
  obtain w where w: "w = length src + 2" "max_encoded_len (length src) = Some w"
    using False assms by (simp add: max_encoded_len_eq)
  have r: "vec_resize (length dst + w) (dst @ ?u) = (dst @ ?u) @ replicate (length src + 2 - length ([] @ ?u)) 0"
    using u False w by (subst vec_resize_grow) auto
  have eq: "append_encoded_chunk_body dst src level = do {
      (body, d) \<leftarrow> encode_block level (replicate (length src + 2 - length ([] @ ?u)) 0) src;
      if 0 < d \<and> length ([] @ ?u) + d < length src
      then Some (Inr (take (length dst + length ([] @ ?u) + d) ((dst @ [] @ ?u) @ body), True))
      else Some (Inr (dst, False)) }"
    using False assms
    by (simp add: append_encoded_chunk_body_def w(2) MIN_NON_LITERAL_BLOCK_SIZE_def put_uvarint_eq usub_def
        Let_def r slice_from_def case_prod_beta cong: Option.bind_cong if_cong)
  show ?thesis
  proof (cases rule: keep_smaller [OF n assms refl none eq, case_names fault raw kept])
    case (kept body)
    have "spec_chunk (?u @ body) = Some src"
      using kept(4) n assms by (subst spec_chunk_compressed) auto
    with that(3) [of "?u @ body"] kept show ?thesis by simp
  qed (use that in simp_all)
qed

lemma try_encode_ok:
  assumes "length src \<le> MAX_BLOCK_SIZE"
  obtains "try_encode dst src level = None" "level = Smallest"
  | "try_encode dst src level = Some (Inr (dst, False))"
  | blk where "try_encode dst src level = Some (Inr (dst @ blk, True))"
      "spec_block blk = Some src" "length blk < length src"
proof (cases "length src < 16")
  case True
  have "\<exists>w. max_encoded_len (length src) = Some w" using assms by (simp add: max_encoded_len_def)
  with True that(2) show ?thesis by (auto simp: try_encode_def MIN_NON_LITERAL_BLOCK_SIZE_def)
next
  case False
  let ?u = "uvarint (of_nat (length src))"
  have n: "16 \<le> length src" and one: "length [0 :: byte] \<le> 1" using False by simp_all
  have u: "length ?u \<le> 4" using length_uvarint_block(1) [OF assms] by auto
  obtain w where w: "w = length src + 2" "max_encoded_len (length src) = Some w"
    using False assms by (simp add: max_encoded_len_eq)
  have r: "vec_resize (length dst + w) (dst @ 0 # ?u) =
      (dst @ 0 # ?u) @ replicate (length src + 2 - length ([0] @ ?u)) 0"
    using u False w by (subst vec_resize_grow) auto
  have eq: "try_encode dst src level = do {
      (body, d) \<leftarrow> encode_block level (replicate (length src + 2 - length ([0] @ ?u)) 0) src;
      if 0 < d \<and> length ([0] @ ?u) + d < length src
      then Some (Inr (take (length dst + length ([0] @ ?u) + d) ((dst @ [0] @ ?u) @ body), True))
      else Some (Inr (dst, False)) }"
    using False assms
    by (simp add: try_encode_def w(2) MIN_NON_LITERAL_BLOCK_SIZE_def put_uvarint_eq usub_def
        Let_def r slice_from_def case_prod_beta Suc_diff_le cong: Option.bind_cong if_cong)
  show ?thesis
  proof (cases rule: keep_smaller [OF n assms refl one eq, case_names fault raw kept])
    case (kept body)
    have "spec_block (0 # ?u @ body) = Some src"
      using kept(3,4) n assms by (subst spec_block_compressed) auto
    with that(3) [of "0 # ?u @ body"] kept show ?thesis by simp
  qed (use that in simp_all)
qed

end
