(* ===== verification/Crc.thy ===== *)
theory Crc
  imports Load_Store
begin

text \<open>
  \<^verbatim>\<open>stream/crc.rs\<close>: CRC-32C by tables, eight bytes at a time, and by the processors' instructions,
  three interleaved streams at a time. Both are proved equal to the register that shifts one bit at
  a time. The instructions are parameters; what they compute is a hypothesis of the theorem on the
  code that uses them.
\<close>

section \<open>The tables\<close>

definition POLY :: u32 where "POLY = 0x82F63B78"

definition crc_bit :: "u32 \<Rightarrow> u32" where
  "crc_bit c = (if c AND 1 \<noteq> 0 then drop_bit 1 c XOR POLY else drop_bit 1 c)"

definition TABLE :: "u32 list" where
  "TABLE = map (\<lambda>i. (crc_bit ^^ 8) (of_nat i)) [0..<256]"

definition tbl :: "u32 list \<Rightarrow> u32 \<Rightarrow> u32" where
  "tbl t x = t ! unat (x AND 0xff)"

fun slice_row :: "nat \<Rightarrow> u32 list" where
  "slice_row 0 = TABLE"
| "slice_row (Suc k) = map (\<lambda>prev. drop_bit 8 prev XOR tbl TABLE prev) (slice_row k)"

definition SLICE_TABLE :: "u32 list list" where
  "SLICE_TABLE = map slice_row [0..<8]"

section \<open>The portable implementation\<close>

definition crc_slice8 :: "u32 \<Rightarrow> bytes \<Rightarrow> u32" where
  "crc_slice8 c chunk =
     (let v0 = of_le (take 4 chunk) XOR c; v1 = of_le (take 4 (drop 4 chunk)) in
      tbl (SLICE_TABLE ! 7) v0 XOR tbl (SLICE_TABLE ! 6) (drop_bit 8 v0)
      XOR tbl (SLICE_TABLE ! 5) (drop_bit 16 v0) XOR tbl (SLICE_TABLE ! 4) (drop_bit 24 v0)
      XOR tbl (SLICE_TABLE ! 3) v1 XOR tbl (SLICE_TABLE ! 2) (drop_bit 8 v1)
      XOR tbl (SLICE_TABLE ! 1) (drop_bit 16 v1) XOR tbl (SLICE_TABLE ! 0) (drop_bit 24 v1))"

definition crc_table_byte :: "u32 \<Rightarrow> byte \<Rightarrow> u32" where
  "crc_table_byte c b = tbl TABLE (c XOR ucast b) XOR drop_bit 8 c"

text \<open>\<open>chunks_exact(8)\<close>: \<open>f\<close> over the whole chunks, then \<open>g\<close> over the bytes of the remainder.\<close>

function chunks_fold :: "('s \<Rightarrow> bytes \<Rightarrow> 's) \<Rightarrow> 's \<Rightarrow> bytes \<Rightarrow> 's \<times> bytes" where
  "chunks_fold f s data =
     (if 8 \<le> length data then chunks_fold f (f s (take 8 data)) (drop 8 data) else (s, data))"
  by pat_completeness auto
termination by (relation "measure (\<lambda>(f, s, data). length data)") auto

declare chunks_fold.simps [simp del]

definition crc32c_update_table :: "u32 \<Rightarrow> bytes \<Rightarrow> u32" where
  "crc32c_update_table crc data =
     (let (c, rest) = chunks_fold crc_slice8 (NOT crc) data in NOT (foldl crc_table_byte c rest))"

section \<open>The implementations with CRC instructions\<close>

definition STRIDE_BYTES :: nat where "STRIDE_BYTES = 1024"

definition build_shift_table :: "nat \<Rightarrow> u32 list list" where
  "build_shift_table zb =
     map (\<lambda>k. map (\<lambda>b. ((\<lambda>c. tbl TABLE c XOR drop_bit 8 c) ^^ zb) (push_bit (k * 8) (of_nat b)))
       [0..<256]) [0..<4]"

definition shift_crc :: "u32 \<Rightarrow> u32" where
  "shift_crc crc = (let t = build_shift_table STRIDE_BYTES in
     tbl (t ! 0) crc XOR tbl (t ! 1) (drop_bit 8 crc) XOR tbl (t ! 2) (drop_bit 16 crc)
     XOR tbl (t ! 3) (drop_bit 24 crc))"

text \<open>
  The two implementations differ in the instructions and in the type of their accumulators, \<open>u64\<close>
  on x86-64 and \<open>u32\<close> on aarch64. The three streams start at 0, \<open>STRIDE_BYTES\<close> and twice that.
\<close>

definition triple_step ::
  "('a::len word \<Rightarrow> u64 \<Rightarrow> 'a word) \<Rightarrow> bytes \<Rightarrow> nat \<times> 'a word \<times> 'a word \<times> 'a word \<Rightarrow>
     (nat \<times> 'a word \<times> 'a word \<times> 'a word + 'a word \<times> 'a word \<times> 'a word) option" where
  "triple_step ins data = (\<lambda>(i, c0, c1, c2).
     if i < STRIDE_BYTES then do {
       v0 \<leftarrow> load64 data i;
       v1 \<leftarrow> load64 data (STRIDE_BYTES + i);
       v2 \<leftarrow> load64 data (2 * STRIDE_BYTES + i);
       Some (Inl (i + 8, ins c0 v0, ins c1 v1, ins c2 v2)) }
     else Some (Inr (c0, c1, c2)))"

definition hw_step ::
  "('a::len word \<Rightarrow> u64 \<Rightarrow> 'a word) \<Rightarrow> u32 \<times> bytes \<Rightarrow> (u32 \<times> bytes + u32 \<times> bytes) option" where
  "hw_step ins = (\<lambda>(c, data).
     if 3 * STRIDE_BYTES \<le> length data then do {
       (c0, c1, c2) \<leftarrow> loop (triple_step ins data) (0, ucast c, 0, 0);
       let c_ab = shift_crc (ucast c0) XOR ucast c1;
       rest \<leftarrow> slice_from data (3 * STRIDE_BYTES);
       Some (Inl (shift_crc c_ab XOR ucast c2, rest)) }
     else Some (Inr (c, data)))"

definition crc32c_hw ::
  "('a::len word \<Rightarrow> u64 \<Rightarrow> 'a word) \<Rightarrow> (u32 \<Rightarrow> byte \<Rightarrow> u32) \<Rightarrow> u32 \<Rightarrow> bytes \<Rightarrow> u32 option" where
  "crc32c_hw ins ins8 crc data = do {
     (c, data) \<leftarrow> loop (hw_step ins) (NOT crc, data);
     let (cw, rest) = chunks_fold (\<lambda>c chunk. ins c (of_le chunk)) (ucast c) data;
     Some (NOT (foldl ins8 (ucast cw) rest))
   }"

definition crc32c_hw_x86_64 ::
  "(u64 \<Rightarrow> u64 \<Rightarrow> u64) \<Rightarrow> (u32 \<Rightarrow> byte \<Rightarrow> u32) \<Rightarrow> u32 \<Rightarrow> bytes \<Rightarrow> u32 option" where
  "crc32c_hw_x86_64 = crc32c_hw"

definition crc32c_hw_aarch64 ::
  "(u32 \<Rightarrow> u64 \<Rightarrow> u32) \<Rightarrow> (u32 \<Rightarrow> byte \<Rightarrow> u32) \<Rightarrow> u32 \<Rightarrow> bytes \<Rightarrow> u32 option" where
  "crc32c_hw_aarch64 = crc32c_hw"

section \<open>Checksums\<close>

text \<open>
  \<^verbatim>\<open>select_impl\<close> takes the implementation by the instruction where the processor is detected to have
  it. The checksums below take the portable one, which \<open>crc_hardware_agrees\<close> shows to equal
  whatever is selected.
\<close>

definition select_impl :: "(u32 \<Rightarrow> bytes \<Rightarrow> u32 option) option \<Rightarrow> u32 \<Rightarrow> bytes \<Rightarrow> u32 option" where
  "select_impl detected = (case detected of
     Some hw \<Rightarrow> hw
   | None \<Rightarrow> \<lambda>crc data. Some (crc32c_update_table crc data))"

definition crc32c_update :: "u32 \<Rightarrow> bytes \<Rightarrow> u32" where
  "crc32c_update crc data = crc32c_update_table crc data"

definition crc32c :: "bytes \<Rightarrow> u32" where
  "crc32c data = crc32c_update 0 data"

definition mask_crc32c :: "u32 \<Rightarrow> u32" where
  "mask_crc32c c = word_rotr 15 c + 0xa282ead8"

definition masked_crc32c :: "bytes \<Rightarrow> u32" where
  "masked_crc32c data = mask_crc32c (crc32c data)"

section \<open>The register\<close>

text \<open>The CRC of the standard: every byte enters the low bits, and then eight shifts.\<close>

definition crc_byte :: "u32 \<Rightarrow> byte \<Rightarrow> u32" where
  "crc_byte c b = (crc_bit ^^ 8) (c XOR ucast b)"

definition crc_spec :: "u32 \<Rightarrow> bytes \<Rightarrow> u32" where
  "crc_spec crc data = NOT (foldl crc_byte (NOT crc) data)"

abbreviation crc_shift :: "nat \<Rightarrow> u32 \<Rightarrow> u32" where
  "crc_shift n \<equiv> crc_bit ^^ (8 * n)"

lemma crc_bit_eq: "crc_bit c = drop_bit 1 c XOR (if bit c 0 then POLY else 0)"
proof -
  have "c AND 1 \<noteq> 0 \<longleftrightarrow> bit c 0" by (simp add: bit_0 and_one_eq odd_iff_mod_2_eq_one)
  then show ?thesis by (simp add: crc_bit_def)
qed

lemma crc_bit_xor: "crc_bit (x XOR y) = crc_bit x XOR crc_bit y"
  by (rule bit_eqI) (auto simp: crc_bit_eq bit_simps)

lemma crc_bits_xor: "(crc_bit ^^ n) (x XOR y) = (crc_bit ^^ n) x XOR (crc_bit ^^ n) y"
  by (induction n) (simp_all add: crc_bit_xor)

lemma crc_bits_0 [simp]: "(crc_bit ^^ n) 0 = 0"
  by (induction n) (simp_all add: crc_bit_def)

lemma crc_bits_low:
  "(\<And>i. i < n \<Longrightarrow> \<not> bit c i) \<Longrightarrow> (crc_bit ^^ n) c = drop_bit n c"
proof (induction n)
  case (Suc n)
  have "(crc_bit ^^ Suc n) c = crc_bit (drop_bit n c)" using Suc by simp
  also have "\<dots> = drop_bit 1 (drop_bit n c)"
    using Suc.prems [of n] by (simp add: crc_bit_eq bit_simps)
  finally show ?case by (simp add: drop_bit_drop_bit)
qed simp

text \<open>The inverse of a shift, for the top bit of the polynomial tells which one it was.\<close>

lemma xor_cancel:
  fixes x y z :: u32
  assumes "x XOR z = y XOR z"
  shows "x = y"
proof -
  have "(x XOR z) XOR z = (y XOR z) XOR z" using assms by simp
  then show ?thesis by (simp add: xor.assoc)
qed

lemma crc_bit_inj: "crc_bit x = crc_bit y \<Longrightarrow> x = y"
proof -
  assume eq: "crc_bit x = crc_bit y"
  have "bit POLY 31" by (simp add: POLY_def)
  then have b: "bit (crc_bit z) 31 \<longleftrightarrow> bit z 0" for z
    using bit_imp_le_length [of z 32] by (auto simp: crc_bit_eq bit_simps)
  have 0: "bit x 0 \<longleftrightarrow> bit y 0" using b [of x] b [of y] eq by simp
  then have "drop_bit 1 x = drop_bit 1 y"
    using eq xor_cancel [of "drop_bit 1 x" POLY] by (auto simp: crc_bit_eq split: if_splits)
  then have "bit x (Suc i) \<longleftrightarrow> bit y (Suc i)" for i
    by (metis bit_drop_bit_eq comp_apply plus_1_eq_Suc)
  with 0 show "x = y"
    by (intro bit_eqI) (metis not0_implies_Suc)
qed

lemma crc_bits_inj: "(crc_bit ^^ n) x = (crc_bit ^^ n) y \<Longrightarrow> x = y"
  by (induction n) (auto dest: crc_bit_inj)

section \<open>Tables and register\<close>

lemma byte_mask: "x AND 0xff = take_bit 8 (x :: u32)"
  by (simp add: take_bit_eq_mask mask_eq_exp_minus_1)

lemma unat_low_byte: "unat (x AND 0xff :: u32) < 256"
  using unat_and_low(7) [of x] by simp

lemma length_TABLE: "length TABLE = 256"
  by (simp add: TABLE_def)

lemma tbl_TABLE: "tbl TABLE x = crc_shift 1 (take_bit 8 x)"
  using unat_low_byte [of x] by (simp add: tbl_def TABLE_def byte_mask)

lemma crc_shift_table: "crc_shift 1 c = tbl TABLE c XOR drop_bit 8 c"
proof -
  define h where "h = push_bit 8 (drop_bit 8 c)"
  have c: "c = take_bit 8 c XOR h"
    by (rule bit_eqI) (auto simp: h_def bit_simps)
  have h: "(crc_bit ^^ 8) h = drop_bit 8 c"
  proof -
    have "(crc_bit ^^ 8) h = drop_bit 8 h" by (rule crc_bits_low) (simp add: h_def bit_simps)
    also have "\<dots> = drop_bit 8 c"
      by (rule bit_eqI) (auto simp: h_def bit_simps dest: bit_imp_le_length)
    finally show ?thesis .
  qed
  have "(crc_bit ^^ 8) c = (crc_bit ^^ 8) (take_bit 8 c XOR h)" using c by simp
  then show ?thesis by (simp add: crc_bits_xor tbl_TABLE h)
qed

lemma crc_table_byte: "crc_table_byte c b = crc_byte c b"
proof -
  have "drop_bit 8 (c XOR ucast b) = drop_bit 8 c"
    by (rule bit_eqI) (auto simp: bit_simps dest: bit_imp_le_length)
  then show ?thesis
    using crc_shift_table [of "c XOR ucast b"] by (simp add: crc_table_byte_def crc_byte_def)
qed

lemma crc_shift_add: "crc_shift (m + n) c = crc_shift m (crc_shift n c)"
  by (simp add: funpow_add add_mult_distrib2)

lemma crc_shift_Suc: "crc_shift (Suc n) c = crc_shift n (crc_shift 1 c)"
  using crc_shift_add [of n 1 c] by simp

lemma length_slice_row: "length (slice_row k) = 256"
  by (induction k) (simp_all add: length_TABLE)

lemma slice_row_eq: "tbl (slice_row k) x = crc_shift (Suc k) (take_bit 8 x)"
proof (induction k)
  case 0
  show ?case using tbl_TABLE [of x] by simp
next
  case (Suc k)
  let ?p = "tbl (slice_row k) x"
  have "tbl (slice_row (Suc k)) x = drop_bit 8 ?p XOR tbl TABLE ?p"
    using unat_low_byte [of x] by (simp add: tbl_def length_slice_row)
  also have "\<dots> = crc_shift 1 ?p" by (simp only: crc_shift_table xor.commute)
  also have "\<dots> = crc_shift (Suc (Suc k)) (take_bit 8 x)"
    unfolding Suc by (simp only: crc_shift_add [symmetric] plus_1_eq_Suc)
  finally show ?case .
qed

lemma SLICE_TABLE_nth: "k < 8 \<Longrightarrow> SLICE_TABLE ! k = slice_row k"
  by (simp add: SLICE_TABLE_def)

text \<open>A byte \<open>j\<close> places up comes down in \<open>j\<close> shifts, so a whole word is shifted byte by byte.\<close>

lemma crc_shift_byte:
  assumes "j \<le> 3"
  shows "crc_shift j (push_bit (8 * j) (take_bit 8 x)) = take_bit 8 x"
proof -
  have "crc_shift j (push_bit (8 * j) (take_bit 8 x)) = drop_bit (8 * j) (push_bit (8 * j) (take_bit 8 x))"
    by (rule crc_bits_low) (simp add: bit_simps)
  also have "\<dots> = take_bit 8 x"
    using assms by (intro bit_eqI) (auto simp: bit_simps)
  finally show ?thesis .
qed

lemma word_of_bytes:
  fixes v :: u32
  shows "v = take_bit 8 v XOR push_bit 8 (take_bit 8 (drop_bit 8 v))
    XOR push_bit 16 (take_bit 8 (drop_bit 16 v)) XOR push_bit 24 (take_bit 8 (drop_bit 24 v))"
proof (rule bit_eqI)
  fix n
  assume "possible_bit TYPE(u32) n"
  then have "n < 32" by simp
  then show "bit v n = bit (take_bit 8 v XOR push_bit 8 (take_bit 8 (drop_bit 8 v))
    XOR push_bit 16 (take_bit 8 (drop_bit 16 v)) XOR push_bit 24 (take_bit 8 (drop_bit 24 v))) n"
    by (cases "n < 8"; cases "n < 16"; cases "n < 24") (auto simp: bit_simps)
qed

lemma diff_simps: "k + 4 - 1 = k + 3" "k + 4 - 2 = k + 2" "k + 4 - 3 = (k + 1 :: nat)"
  by simp_all

lemma crc_shift_word:
  "crc_shift (k + 4) v =
     crc_shift (k + 4) (take_bit 8 v) XOR crc_shift (k + 3) (take_bit 8 (drop_bit 8 v))
     XOR crc_shift (k + 2) (take_bit 8 (drop_bit 16 v)) XOR crc_shift (k + 1) (take_bit 8 (drop_bit 24 v))"
proof -
  have s: "crc_shift (k + 4) (push_bit (8 * j) (take_bit 8 x)) = crc_shift (k + 4 - j) (take_bit 8 x)"
    if "j \<le> 3" for j x
  proof -
    have "crc_shift (k + 4) y = crc_shift (k + 4 - j) (crc_shift j y)" for y
      using that crc_shift_add [of "k + 4 - j" j y] by simp
    with crc_shift_byte [OF that] show ?thesis by simp
  qed
  have "crc_shift (k + 4) v = crc_shift (k + 4) (take_bit 8 v XOR push_bit (8 * 1) (take_bit 8 (drop_bit 8 v))
    XOR push_bit (8 * 2) (take_bit 8 (drop_bit 16 v)) XOR push_bit (8 * 3) (take_bit 8 (drop_bit 24 v)))"
    using word_of_bytes [of v] by simp
  also have "\<dots> = crc_shift (k + 4) (take_bit 8 v) XOR crc_shift (k + 4 - 1) (take_bit 8 (drop_bit 8 v))
     XOR crc_shift (k + 4 - 2) (take_bit 8 (drop_bit 16 v)) XOR crc_shift (k + 4 - 3) (take_bit 8 (drop_bit 24 v))"
    unfolding crc_bits_xor using s [of 1] s [of 2] s [of 3] by simp
  finally show ?thesis
    unfolding diff_simps .
qed

text \<open>Up to four bytes enter the register at once.\<close>

lemma crc_shift_up:
  assumes "length bs \<le> 3"
  shows "crc_shift 1 (push_bit 8 (of_le bs)) = of_le bs"
proof -
  have "crc_shift 1 (push_bit 8 (of_le bs)) = drop_bit (8 * 1) (push_bit 8 (of_le bs))"
    by (rule crc_bits_low) (simp add: bit_simps)
  also have "\<dots> = of_le bs"
    using assms by (intro bit_eqI) (auto simp: bit_simps bit_of_le)
  finally show ?thesis .
qed

lemma crc_bytes_word:
  "length bs \<le> 4 \<Longrightarrow> foldl crc_byte c bs = crc_shift (length bs) (c XOR of_le bs)"
proof (induction bs arbitrary: c)
  case (Cons b bs)
  have or: "ucast b OR push_bit 8 (of_le bs) = ucast b XOR push_bit 8 (of_le bs :: u32)"
    by (rule bit_eqI) (auto simp: bit_simps dest: bit_imp_le_length)
  have "foldl crc_byte c (b # bs) = crc_shift (length bs) (crc_shift 1 (c XOR ucast b) XOR of_le bs)"
    using Cons by (simp add: crc_byte_def [of c b])
  also have "\<dots> = crc_shift (length bs) (crc_shift 1 (c XOR of_le (b # bs)))"
    using crc_shift_up [of bs] Cons.prems by (simp add: or crc_bits_xor flip: xor.assoc)
  also have "\<dots> = crc_shift (length (b # bs)) (c XOR of_le (b # bs))"
    by (simp only: crc_shift_Suc [symmetric] list.size(4) add_0_right plus_1_eq_Suc add_Suc_right)
  finally show ?case .
qed simp

text \<open>The register is linear in what it holds and in the message.\<close>

lemma crc_bytes_xor:
  "foldl crc_byte (c XOR d) bs = foldl crc_byte c bs XOR crc_shift (length bs) d"
proof (induction bs arbitrary: c d)
  case (Cons b bs)
  have "crc_byte (c XOR d) b = crc_byte c b XOR crc_shift 1 d"
    by (simp add: crc_byte_def crc_bits_xor xor.assoc xor.commute xor.left_commute)
  then have "foldl crc_byte (c XOR d) (b # bs) = foldl crc_byte (crc_byte c b) bs XOR crc_shift (length bs) (crc_shift 1 d)"
    by (simp add: Cons)
  then show ?case by (simp only: crc_shift_Suc foldl.simps list.size(4) add_0_right plus_1_eq_Suc add_Suc_right)
qed simp

lemma crc_bytes_shift: "foldl crc_byte c bs = crc_shift (length bs) c XOR foldl crc_byte 0 bs"
  using crc_bytes_xor [of 0 c bs] by (simp add: xor.commute)

section \<open>The portable implementation is the register\<close>

lemma crc_slice8:
  assumes "length chunk = 8"
  shows "crc_slice8 c chunk = foldl crc_byte c chunk"
proof -
  define lo hi where "lo = take 4 chunk" and "hi = take 4 (drop 4 chunk)"
  have split: "chunk = lo @ hi" "length lo = 4" "length hi = 4"
    using assms append_take_drop_id [of 4 chunk] by (auto simp: lo_def hi_def)
  have "foldl crc_byte c chunk = crc_shift 4 (crc_shift 4 (c XOR of_le lo) XOR of_le hi)"
    by (simp add: split crc_bytes_word)
  also have "\<dots> = crc_shift (4 + 4) (of_le lo XOR c) XOR crc_shift (0 + 4) (of_le hi)"
    by (simp only: crc_bits_xor crc_shift_add [symmetric] xor.commute add_0)
  also have "\<dots> = crc_slice8 c chunk"
    unfolding crc_shift_word [of 4 "of_le lo XOR c"] crc_shift_word [of 0 "of_le hi"]
    by (simp only: crc_slice8_def Let_def lo_def [symmetric] hi_def [symmetric] SLICE_TABLE_nth slice_row_eq)
      (simp add: SLICE_TABLE_nth slice_row_eq xor.assoc)
  finally show ?thesis by simp
qed

lemma chunks_fold_eq:
  assumes "\<And>s chunk. length chunk = 8 \<Longrightarrow> f (k s) chunk = k (foldl g s chunk)"
  obtains s' rest where "chunks_fold f (k s) data = (k s', rest)" "foldl g s data = foldl g s' rest"
    "length rest < 8"
proof -
  have "\<exists>s' rest. chunks_fold f (k s) data = (k s', rest) \<and> foldl g s data = foldl g s' rest \<and> length rest < 8"
  proof (induction "length data" arbitrary: s data rule: less_induct)
    case less
    show ?case
    proof (cases "8 \<le> length data")
      case True
      have "f (k s) (take 8 data) = k (foldl g s (take 8 data))" using True by (intro assms) simp
      moreover have "foldl g s data = foldl g (foldl g s (take 8 data)) (drop 8 data)"
        by (simp flip: foldl_append)
      ultimately show ?thesis
        using less [of "drop 8 data" "foldl g s (take 8 data)"] True
        by (simp add: chunks_fold.simps [of f "k s" data])
    next
      case False
      then show ?thesis by (auto simp: chunks_fold.simps [of f "k s" data])
    qed
  qed
  with that show thesis by blast
qed

lemma crc32c_update_table_eq: "crc32c_update_table crc data = crc_spec crc data"
proof -
  have byte: "crc_table_byte = crc_byte" by (intro ext crc_table_byte)
  obtain c rest where "chunks_fold crc_slice8 (NOT crc) data = (c, rest)"
    "foldl crc_byte (NOT crc) data = foldl crc_byte c rest"
    using chunks_fold_eq [where f = crc_slice8 and k = "\<lambda>c. c" and g = crc_byte and s = "NOT crc" and data = data,
        OF crc_slice8] .
  then show ?thesis by (simp add: crc32c_update_table_def crc_spec_def byte)
qed

section \<open>The instructions compute the register\<close>

text \<open>
  What the instruction on eight bytes does to the register in its accumulator: the bytes of the
  operand enter it, the least significant first.
\<close>

definition crc_instruction :: "('a::len word \<Rightarrow> u64 \<Rightarrow> 'a word) \<Rightarrow> bool" where
  "crc_instruction ins \<longleftrightarrow>
     (\<forall>c bs. length bs = 8 \<longrightarrow> ins (ucast (c :: u32)) (of_le bs) = ucast (foldl crc_byte c bs))"

lemma shift_crc_eq: "shift_crc c = crc_shift STRIDE_BYTES c"
proof -
  have step: "(\<lambda>c. tbl TABLE c XOR drop_bit 8 c) = crc_shift 1"
    by (intro ext) (simp only: crc_shift_table)
  have pow: "(crc_shift 1 ^^ n) x = crc_shift n x" for n x
    by (simp add: funpow_mult)
  have row: "tbl (build_shift_table STRIDE_BYTES ! k) x = crc_shift STRIDE_BYTES (push_bit (8 * k) (take_bit 8 x))"
    if "k < 4" for k x
    using that unat_low_byte [of x]
    unfolding build_shift_table_def step pow unfolding tbl_def
    by (simp add: byte_mask mult.commute)
  have "crc_shift STRIDE_BYTES c = crc_shift STRIDE_BYTES (take_bit 8 c XOR push_bit 8 (take_bit 8 (drop_bit 8 c))
    XOR push_bit 16 (take_bit 8 (drop_bit 16 c)) XOR push_bit 24 (take_bit 8 (drop_bit 24 c)))"
    using word_of_bytes [of c] by simp
  then show ?thesis
    using row [of 0 c] row [of 1 "drop_bit 8 c"] row [of 2 "drop_bit 16 c"] row [of 3 "drop_bit 24 c"]
    by (simp add: shift_crc_def Let_def crc_bits_xor)
qed

text \<open>Three streams of one stride each, folded into the register of their concatenation.\<close>

lemma crc_three_strides:
  assumes "length s1 = STRIDE_BYTES" "length s2 = STRIDE_BYTES"
  shows "foldl crc_byte c (s0 @ s1 @ s2) =
    shift_crc (shift_crc (foldl crc_byte c s0) XOR foldl crc_byte 0 s1) XOR foldl crc_byte 0 s2"
proof -
  have "foldl crc_byte c (s0 @ s1 @ s2) = foldl crc_byte (foldl crc_byte (foldl crc_byte c s0) s1) s2"
    by simp
  also have "\<dots> = crc_shift STRIDE_BYTES (foldl crc_byte (foldl crc_byte c s0) s1) XOR foldl crc_byte 0 s2"
    using crc_bytes_shift [of "foldl crc_byte (foldl crc_byte c s0) s1" s2] assms by simp
  also have "foldl crc_byte (foldl crc_byte c s0) s1 =
      crc_shift STRIDE_BYTES (foldl crc_byte c s0) XOR foldl crc_byte 0 s1"
    using crc_bytes_shift [of "foldl crc_byte c s0" s1] assms by simp
  finally show ?thesis by (simp only: shift_crc_eq)
qed

lemma take_add_slice: "take (i + k) xs = take i xs @ take k (drop i xs)"
  by (simp add: take_add)

lemma triple_ok:
  fixes ins :: "'a::len word \<Rightarrow> u64 \<Rightarrow> 'a word"
  assumes ins: "crc_instruction ins" and n: "3 * STRIDE_BYTES \<le> length data"
  shows "loop (triple_step ins data) (0, ucast c, 0, 0) =
    Some (ucast (foldl crc_byte c (take STRIDE_BYTES data)),
      ucast (foldl crc_byte 0 (take STRIDE_BYTES (drop STRIDE_BYTES data))),
      ucast (foldl crc_byte 0 (take STRIDE_BYTES (drop (2 * STRIDE_BYTES) data))))"
proof -
  define I where "I = (\<lambda>(i, c0 :: 'a word, c1 :: 'a word, c2 :: 'a word). i \<le> STRIDE_BYTES \<and> 8 dvd i \<and>
      c0 = ucast (foldl crc_byte c (take i data)) \<and>
      c1 = ucast (foldl crc_byte 0 (take i (drop STRIDE_BYTES data))) \<and>
      c2 = ucast (foldl crc_byte 0 (take i (drop (2 * STRIDE_BYTES) data))))"
  have S: "STRIDE_BYTES = 1024" by (simp add: STRIDE_BYTES_def)
  have ld: "ins (ucast (foldl crc_byte r (take i (drop a data)))) (of_le (take 8 (drop (a + i) data))) =
      ucast (foldl crc_byte r (take (i + 8) (drop a data)))" if "a + i + 8 \<le> length data" for a i r
  proof -
    have "take (i + 8) (drop a data) = take i (drop a data) @ take 8 (drop (a + i) data)"
      by (simp only: take_add_slice drop_drop add.commute)
    moreover have "length (take 8 (drop (a + i) data)) = 8" using that by simp
    ultimately show ?thesis using ins unfolding crc_instruction_def by simp
  qed
  have "\<exists>r. loop (triple_step ins data) (0, ucast c, 0, 0) = Some r \<and>
    r = (ucast (foldl crc_byte c (take STRIDE_BYTES data)),
      ucast (foldl crc_byte 0 (take STRIDE_BYTES (drop STRIDE_BYTES data))),
      ucast (foldl crc_byte 0 (take STRIDE_BYTES (drop (2 * STRIDE_BYTES) data))))"
  proof (rule loop_total [where I = I and m = "\<lambda>s. STRIDE_BYTES - fst s"])
    show "I (0, ucast c, 0, 0)" by (simp add: I_def)
    fix s assume s: "I s"
    obtain i c0 c1 c2 where st: "s = (i, c0, c1, c2)" by (cases s)
    show "(\<exists>s'. triple_step ins data s = Some (Inl s') \<and> I s' \<and> STRIDE_BYTES - fst s' < STRIDE_BYTES - fst s) \<or>
      (\<exists>r. triple_step ins data s = Some (Inr r) \<and>
        r = (ucast (foldl crc_byte c (take STRIDE_BYTES data)),
          ucast (foldl crc_byte 0 (take STRIDE_BYTES (drop STRIDE_BYTES data))),
          ucast (foldl crc_byte 0 (take STRIDE_BYTES (drop (2 * STRIDE_BYTES) data)))))"
    proof (cases "i < STRIDE_BYTES")
      case True
      have "8 dvd STRIDE_BYTES - i" using s True by (auto simp: I_def st S intro: dvd_diff_nat)
      then have "8 \<le> STRIDE_BYTES - i" using True by (intro dvd_imp_le) auto
      then have i: "i + 8 \<le> STRIDE_BYTES" by simp
      let ?s = "(i + 8, ins c0 (of_le (take 8 (drop i data))), ins c1 (of_le (take 8 (drop (STRIDE_BYTES + i) data))),
        ins c2 (of_le (take 8 (drop (2 * STRIDE_BYTES + i) data))))"
      have "triple_step ins data s = Some (Inl ?s)"
        using True i n by (simp add: triple_step_def st load64_Some)
      moreover have "I ?s"
        using s i n ld [of 0 i c] ld [of STRIDE_BYTES i 0] ld [of "2 * STRIDE_BYTES" i 0]
        by (auto simp: I_def st)
      ultimately show ?thesis using True st by (intro disjI1 exI [of _ ?s]) auto
    next
      case False
      then have "i = STRIDE_BYTES" using s by (simp add: I_def st)
      then show ?thesis using s by (simp add: triple_step_def st I_def)
    qed
  qed
  then show ?thesis by simp
qed

lemma crc32c_hw_eq:
  fixes ins :: "'a::len word \<Rightarrow> u64 \<Rightarrow> 'a word"
  assumes ins: "crc_instruction ins" and ins8: "ins8 = crc_byte" and len: "32 \<le> LENGTH('a)"
  shows "crc32c_hw ins ins8 crc data = Some (crc_spec crc data)"
proof -
  have u: "ucast (ucast (x :: u32) :: 'a word) = x" for x
    using len by (intro bit_eqI) (auto simp: bit_simps dest: bit_imp_le_length)
  have "\<exists>r. loop (hw_step ins) (NOT crc, data) = Some r \<and>
      (case r of (c, rest) \<Rightarrow> foldl crc_byte c rest = foldl crc_byte (NOT crc) data)"
  proof (rule loop_total [where I = "\<lambda>(c, rest). foldl crc_byte c rest = foldl crc_byte (NOT crc) data"
        and m = "\<lambda>(c, rest). length rest"])
    fix s :: "u32 \<times> bytes"
    assume s: "case s of (c, rest) \<Rightarrow> foldl crc_byte c rest = foldl crc_byte (NOT crc) data"
    obtain c rest where st: "s = (c, rest)" by (cases s)
    show "(\<exists>s'. hw_step ins s = Some (Inl s') \<and>
        (case s' of (c, rest) \<Rightarrow> foldl crc_byte c rest = foldl crc_byte (NOT crc) data) \<and>
        (case s' of (c, rest) \<Rightarrow> length rest) < (case s of (c, rest) \<Rightarrow> length rest)) \<or>
      (\<exists>r. hw_step ins s = Some (Inr r) \<and>
        (case r of (c, rest) \<Rightarrow> foldl crc_byte c rest = foldl crc_byte (NOT crc) data))"
    proof (cases "3 * STRIDE_BYTES \<le> length rest")
      case True
      let ?s0 = "take STRIDE_BYTES rest" and ?s1 = "take STRIDE_BYTES (drop STRIDE_BYTES rest)"
        and ?s2 = "take STRIDE_BYTES (drop (2 * STRIDE_BYTES) rest)" and ?rest = "drop (3 * STRIDE_BYTES) rest"
      let ?c = "shift_crc (shift_crc (foldl crc_byte c ?s0) XOR foldl crc_byte 0 ?s1) XOR foldl crc_byte 0 ?s2"
      have step: "hw_step ins s = Some (Inl (?c, ?rest))"
        using True triple_ok [OF ins True, of c] by (simp add: hw_step_def st slice_from_def Let_def u)
      have three: "3 * STRIDE_BYTES = STRIDE_BYTES + (STRIDE_BYTES + STRIDE_BYTES)" by simp
      have "take (3 * STRIDE_BYTES) rest = ?s0 @ ?s1 @ ?s2"
        unfolding three take_add mult_2 drop_drop ..
      then have "rest = (?s0 @ ?s1 @ ?s2) @ ?rest" by (metis append_take_drop_id)
      then have "foldl crc_byte c rest = foldl crc_byte (foldl crc_byte c (?s0 @ ?s1 @ ?s2)) ?rest"
        by (metis foldl_append)
      also have "foldl crc_byte c (?s0 @ ?s1 @ ?s2) = ?c"
        using True by (intro crc_three_strides) auto
      finally have "foldl crc_byte ?c ?rest = foldl crc_byte (NOT crc) data" using s st by simp
      moreover have "length ?rest < length rest" using True by (simp add: STRIDE_BYTES_def)
      ultimately show ?thesis using step st by (intro disjI1 exI [of _ "(?c, ?rest)"]) simp
    next
      case False
      with s st show ?thesis by (simp add: hw_step_def)
    qed
  qed simp
  then obtain c rest where l: "loop (hw_step ins) (NOT crc, data) = Some (c, rest)"
    "foldl crc_byte c rest = foldl crc_byte (NOT crc) data" by auto
  have step: "ins (ucast s) (of_le chunk) = ucast (foldl crc_byte s chunk)"
    if "length chunk = 8" for s chunk
    using ins that by (simp add: crc_instruction_def)
  obtain c' rest' where "chunks_fold (\<lambda>c chunk. ins c (of_le chunk)) (ucast c) rest = (ucast c', rest')"
    "foldl crc_byte c rest = foldl crc_byte c' rest'"
    using chunks_fold_eq [where f = "\<lambda>c chunk. ins c (of_le chunk)" and k = ucast and g = crc_byte
        and s = c and data = rest, OF step] .
  with l show ?thesis by (simp add: crc32c_hw_def crc_spec_def ins8 u)
qed

text \<open>A function that behaves as the instructions are documented to, on a register of any width.\<close>

definition soft_crc32 :: "'a::len word \<Rightarrow> u64 \<Rightarrow> 'a word" where
  "soft_crc32 c v = ucast (foldl crc_byte (ucast c) (map (\<lambda>i. ucast (drop_bit (8 * i) v)) [0..<8]))"

lemma soft_crc32:
  assumes "32 \<le> LENGTH('a::len)"
  shows "crc_instruction (soft_crc32 :: 'a word \<Rightarrow> u64 \<Rightarrow> 'a word)"
  unfolding crc_instruction_def
proof (intro allI impI)
  fix c :: u32 and bs :: bytes
  assume l: "length bs = 8"
  have "map (\<lambda>i. ucast (drop_bit (8 * i) (of_le bs :: u64))) [0..<8] = bs"
  proof (rule nth_equalityI)
    fix i
    assume "i < length (map (\<lambda>i. ucast (drop_bit (8 * i) (of_le bs :: u64)) :: byte) [0..<8])"
    then have i: "i < 8" by simp
    have "ucast (drop_bit (8 * i) (of_le bs :: u64)) = bs ! i"
    proof (rule bit_eqI)
      fix j
      assume "possible_bit TYPE(byte) j"
      then have "j < 8" by simp
      then show "bit (ucast (drop_bit (8 * i) (of_le bs :: u64)) :: byte) j = bit (bs ! i) j"
        using i l by (simp add: bit_simps bit_of_le)
    qed
    then show "map (\<lambda>i. ucast (drop_bit (8 * i) (of_le bs :: u64))) [0..<8] ! i = bs ! i"
      using i by simp
  qed (simp add: l)
  moreover have "ucast (ucast c :: 'a word) = c"
    using assms by (intro bit_eqI) (auto simp: bit_simps dest: bit_imp_le_length)
  ultimately show "soft_crc32 (ucast c) (of_le bs) = (ucast (foldl crc_byte c bs) :: 'a word)"
    by (simp add: soft_crc32_def)
qed

section \<open>What the checksum detects\<close>

lemma crc_burst:
  assumes "foldl crc_byte c (pre @ x @ post) = foldl crc_byte c (pre @ y @ post)"
    and "length x = length y" "length x \<le> 4"
  shows "x = y"
proof -
  let ?c = "foldl crc_byte c pre"
  have "crc_shift (length post) (foldl crc_byte ?c x) XOR foldl crc_byte 0 post =
      crc_shift (length post) (foldl crc_byte ?c y) XOR foldl crc_byte 0 post"
    using assms(1) crc_bytes_shift [of "foldl crc_byte ?c x" post] crc_bytes_shift [of "foldl crc_byte ?c y" post]
    by simp
  then have "foldl crc_byte ?c x = foldl crc_byte ?c y" by (metis xor_cancel crc_bits_inj)
  then have "crc_shift (length x) (?c XOR of_le x) = crc_shift (length x) (?c XOR of_le y)"
    using assms(2,3) by (simp add: crc_bytes_word)
  then have "?c XOR of_le x = ?c XOR (of_le y :: u32)" by (rule crc_bits_inj)
  then have eq: "of_le x = (of_le y :: u32)" by (metis xor_cancel xor.commute)
  have "bit (x ! i) j \<longleftrightarrow> bit (y ! i) j" if "i < length x" "j < 8" for i j
  proof -
    have "8 * i + j < 32" using that assms(3) by linarith
    then have "bit (of_le z :: u32) (8 * i + j) \<longleftrightarrow> i < length z \<and> bit (z ! i) j" for z
      using that(2) bit_of_le [of "8 * i + j" z, where 'a = 32] by simp
    then show ?thesis using eq that assms(2) by metis
  qed
  then show "x = y"
    using assms(2) by (intro nth_equalityI) (auto intro: bit_eqI)
qed

lemma mask_crc32c_inj: "mask_crc32c a = mask_crc32c b \<Longrightarrow> a = b"
  by (simp add: mask_crc32c_def) (metis word_rot_rl)

lemma masked_crc32c_burst:
  assumes "masked_crc32c (pre @ x @ post) = masked_crc32c (pre @ y @ post)"
    and "length x = length y" "length x \<le> 4"
  shows "x = y"
proof -
  have "crc_spec 0 (pre @ x @ post) = crc_spec 0 (pre @ y @ post)"
    using mask_crc32c_inj assms(1)
    by (simp add: masked_crc32c_def crc32c_def crc32c_update_def crc32c_update_table_eq)
  then have "foldl crc_byte (NOT 0) (pre @ x @ post) = foldl crc_byte (NOT 0) (pre @ y @ post)"
    by (simp only: crc_spec_def bit.compl_eq_compl_iff)
  then show ?thesis using assms(2,3) by (rule crc_burst)
qed

end
