(* ===== verification/Io.thy ===== *)
theory Io
  imports Prelude
begin

text \<open>
  What the stream code uses of \<^verbatim>\<open>std::io\<close>: errors, readers and writers. An error is its kind and its
  text, which is what \<^verbatim>\<open>clone_io_err\<close> keeps of it. The reader and the writer that a stream wraps
  belong to its user: they are parameters, and the contracts of the traits \<^verbatim>\<open>Read\<close> and \<^verbatim>\<open>Write\<close> are
  locales, interpreted on the standard library's readers and writers of byte slices and vectors.
\<close>

datatype io_kind = InvalidInput | InvalidData | UnexpectedEof | Unsupported | Interrupted | WriteZero
  | OtherKind nat

datatype io_error = Io_Error (kind: io_kind) (message: string)

section \<open>Readers\<close>

text \<open>
  A reader maps the length of the buffer it may fill to the bytes it puts there, or to an error, and
  to its next state. \<^verbatim>\<open>read_exact\<close> calls it until the buffer is full, again after an interruption.
\<close>

type_synonym 'r reader_fn = "nat \<Rightarrow> 'r \<Rightarrow> (io_error + bytes) \<times> 'r"

definition read_exact_step ::
  "'r reader_fn \<Rightarrow> nat \<Rightarrow> bytes \<times> 'r \<Rightarrow> (bytes \<times> 'r + (io_error + bytes) \<times> 'r) option" where
  "read_exact_step rd n = (\<lambda>(got, r).
     if length got < n then
       case rd (n - length got) r of
         (Inr p, r) \<Rightarrow>
           if p = [] then Some (Inr (Inl (Io_Error UnexpectedEof ''failed to fill whole buffer''), r))
           else Some (Inl (got @ p, r))
       | (Inl e, r) \<Rightarrow>
           if kind e = Interrupted then Some (Inl (got, r)) else Some (Inr (Inl e, r))
     else Some (Inr (Inr got, r)))"

definition read_exact :: "'r reader_fn \<Rightarrow> nat \<Rightarrow> 'r \<Rightarrow> ((io_error + bytes) \<times> 'r) option" where
  "read_exact rd n r = loop (read_exact_step rd n) ([], r)"

text \<open>
  The contract of a reader that works: what it returns are the next of its remaining bytes, nothing
  only when the buffer is empty or no byte remains, and its only errors are interruptions, of
  which there are finitely many.
\<close>

locale source =
  fixes rd :: "'r reader_fn"
    and remaining :: "'r \<Rightarrow> bytes"
    and patience :: "'r \<Rightarrow> nat"
  assumes rd_ok: "rd n r = (Inr p, r') \<Longrightarrow>
      remaining r = p @ remaining r' \<and> length p \<le> n \<and> (p = [] \<longrightarrow> n = 0 \<or> remaining r = []) \<and>
      patience r' \<le> patience r"
    and rd_err: "rd n r = (Inl e, r') \<Longrightarrow>
      kind e = Interrupted \<and> remaining r' = remaining r \<and> patience r' < patience r"
begin

text \<open>Reading exactly \<open>n\<close> bytes gives the next \<open>n\<close>, or reports the end of the input.\<close>

lemma read_exact_ok:
  "\<exists>res r'. read_exact rd n r = Some (res, r') \<and>
    (if n \<le> length (remaining r) then res = Inr (take n (remaining r)) \<and> remaining r' = drop n (remaining r)
     else res = Inl (Io_Error UnexpectedEof ''failed to fill whole buffer'') \<and> remaining r' = [])"
proof -
  define I where "I = (\<lambda>(got, s). length got \<le> n \<and> remaining r = got @ remaining s)"
  have "\<exists>x. loop (read_exact_step rd n) ([], r) = Some x \<and>
    (case x of (res, r') \<Rightarrow>
      (if n \<le> length (remaining r) then res = Inr (take n (remaining r)) \<and> remaining r' = drop n (remaining r)
       else res = Inl (Io_Error UnexpectedEof ''failed to fill whole buffer'') \<and> remaining r' = []))"
  proof (rule loop_total [where I = I and m = "\<lambda>(got, s). (n - length got) + patience s"])
    show "I ([], r)" by (simp add: I_def)
    fix st :: "bytes \<times> 'r"
    assume "I st"
    then obtain got s where st: "st = (got, s)" "length got \<le> n" "remaining r = got @ remaining s"
      by (auto simp: I_def)
    show "(\<exists>s'. read_exact_step rd n st = Some (Inl s') \<and> I s' \<and>
        (case s' of (got, s) \<Rightarrow> (n - length got) + patience s) < (case st of (got, s) \<Rightarrow> (n - length got) + patience s)) \<or>
      (\<exists>x. read_exact_step rd n st = Some (Inr x) \<and>
        (case x of (res, r') \<Rightarrow>
          (if n \<le> length (remaining r) then res = Inr (take n (remaining r)) \<and> remaining r' = drop n (remaining r)
           else res = Inl (Io_Error UnexpectedEof ''failed to fill whole buffer'') \<and> remaining r' = [])))"
    proof (cases "length got < n")
      case True
      obtain o' s' where o: "rd (n - length got) s = (o', s')" by (cases "rd (n - length got) s")
      show ?thesis
      proof (cases o')
        case (Inl e)
        from rd_err [OF o [unfolded Inl]] st True show ?thesis
          by (simp add: read_exact_step_def o Inl I_def) arith
      next
        case (Inr p)
        note p = rd_ok [OF o [unfolded Inr]]
        show ?thesis
        proof (cases "p = []")
          case True
          with p st \<open>length got < n\<close> show ?thesis by (auto simp: read_exact_step_def o Inr I_def)
        next
          case False
          then have "0 < length p" by simp
          then have "(n - length (got @ p)) + patience s' < (n - length got) + patience s"
            "length got + length p \<le> n"
            using p True by (simp, linarith)+
          with False p st True show ?thesis by (simp add: read_exact_step_def o Inr I_def)
        qed
      qed
    next
      case False
      with st show ?thesis by (simp add: read_exact_step_def)
    qed
  qed
  then show ?thesis by (auto simp: read_exact_def)
qed

end

text \<open>\<^verbatim>\<open>impl Read for &[u8]\<close>: as much as the buffer takes.\<close>

definition slice_read :: "bytes reader_fn" where
  "slice_read n r = (Inr (take n r), drop n r)"

interpretation slice_source: source slice_read "\<lambda>r. r" "\<lambda>_. 0"
  by unfold_locales (auto simp: slice_read_def)

section \<open>Writers\<close>

text \<open>\<^verbatim>\<open>write_all\<close> and \<^verbatim>\<open>flush\<close> of the sink, each with its next state.\<close>

record 'w sink_fns =
  write_all :: "bytes \<Rightarrow> 'w \<Rightarrow> (io_error + unit) \<times> 'w"
  flush_sink :: "'w \<Rightarrow> (io_error + unit) \<times> 'w"

text \<open>The contract: what succeeds has appended its bytes to what the sink holds.\<close>

locale sink =
  fixes fns :: "'w sink_fns"
    and contents :: "'w \<Rightarrow> bytes"
  assumes write_ok: "write_all fns p w = (Inr u, w') \<Longrightarrow> contents w' = contents w @ p"
    and flush_ok: "flush_sink fns w = (Inr u, w') \<Longrightarrow> contents w' = contents w"

text \<open>A sink that never fails.\<close>

locale reliable_sink = sink +
  assumes write_succeeds: "\<exists>w'. write_all fns p w = (Inr (), w')"
    and flush_succeeds: "\<exists>w'. flush_sink fns w = (Inr (), w')"

text \<open>\<^verbatim>\<open>impl Write for Vec<u8>\<close>, and \<^verbatim>\<open>impl Write for &mut [u8]\<close>, which holds only so many bytes.\<close>

definition vec_sink :: "bytes sink_fns" where
  "vec_sink = \<lparr>write_all = (\<lambda>p w. (Inr (), w @ p)), flush_sink = (\<lambda>w. (Inr (), w))\<rparr>"

interpretation vec_sink: reliable_sink vec_sink "\<lambda>w. w"
  by unfold_locales (auto simp: vec_sink_def)

definition slice_sink :: "(bytes \<times> nat) sink_fns" where
  "slice_sink =
     \<lparr>write_all = (\<lambda>p (w, free).
        if length p \<le> free then (Inr (), w @ p, free - length p)
        else (Inl (Io_Error WriteZero ''failed to write whole buffer''), w @ take free p, 0)),
      flush_sink = (\<lambda>w. (Inr (), w))\<rparr>"

interpretation slice_sink: sink slice_sink fst
  by unfold_locales (auto simp: slice_sink_def split: if_splits)

end
