(* ===== verification/Stream_Format.thy ===== *)
theory Stream_Format
  imports Io Emit Varint Block_Format
begin

text \<open>
  \<^verbatim>\<open>stream/format.rs\<close> and \<^verbatim>\<open>stream/error.rs\<close>: the constants of the stream format, its header, its
  varint codec, and the errors of the stream codec with their texts and their conversions.
\<close>

section \<open>Constants\<close>

named_theorems stream_consts \<open>the constants of the stream format\<close>

definition MIN_BLOCK_SIZE :: nat where [stream_consts]: "MIN_BLOCK_SIZE = 4 * 2 ^ 10"
definition DEFAULT_BLOCK_SIZE :: nat where [stream_consts]: "DEFAULT_BLOCK_SIZE = 2 * 2 ^ 20"
definition MAX_BLOCK_LOG :: byte where [stream_consts]: "MAX_BLOCK_LOG = 23"
definition MAX_USER_CHUNK_SIZE :: nat where [stream_consts]: "MAX_USER_CHUNK_SIZE = 2 ^ 24 - 1"
definition MIN_USER_SKIPPABLE_CHUNK :: byte where [stream_consts]: "MIN_USER_SKIPPABLE_CHUNK = 0x80"
definition MAX_USER_SKIPPABLE_CHUNK :: byte where [stream_consts]: "MAX_USER_SKIPPABLE_CHUNK = 0xbf"
definition MIN_USER_NON_SKIPPABLE_CHUNK :: byte where [stream_consts]: "MIN_USER_NON_SKIPPABLE_CHUNK = 0xc0"
definition MAX_USER_NON_SKIPPABLE_CHUNK :: byte where [stream_consts]: "MAX_USER_NON_SKIPPABLE_CHUNK = 0xfd"
definition CHUNK_TYPE_PADDING :: byte where [stream_consts]: "CHUNK_TYPE_PADDING = 0xfe"
definition CHUNK_TYPE_STREAM_IDENTIFIER :: byte where [stream_consts]: "CHUNK_TYPE_STREAM_IDENTIFIER = 0xff"
definition CHUNK_TYPE_UNCOMPRESSED_DATA :: byte where [stream_consts]: "CHUNK_TYPE_UNCOMPRESSED_DATA = 0x01"
definition CHUNK_TYPE_MINLZ_COMPRESSED_DATA :: byte where
  [stream_consts]: "CHUNK_TYPE_MINLZ_COMPRESSED_DATA = 0x02"
definition CHUNK_TYPE_MINLZ_COMPRESSED_DATA_COMP_CRC :: byte where
  [stream_consts]: "CHUNK_TYPE_MINLZ_COMPRESSED_DATA_COMP_CRC = 0x03"
definition CHUNK_TYPE_EOF :: byte where [stream_consts]: "CHUNK_TYPE_EOF = 0x20"
definition MAX_NON_SKIPPABLE_CHUNK :: byte where [stream_consts]: "MAX_NON_SKIPPABLE_CHUNK = 0x3f"
definition CHECKSUM_SIZE :: nat where [stream_consts]: "CHECKSUM_SIZE = 4"
definition CHUNK_HEADER_SIZE :: nat where [stream_consts]: "CHUNK_HEADER_SIZE = 4"

text \<open>The five letters \<^verbatim>\<open>MinLz\<close>.\<close>

definition MAGIC_BODY :: bytes where [stream_consts]: "MAGIC_BODY = [0x4d, 0x69, 0x6e, 0x4c, 0x7a]"
definition MAGIC_BODY_LEN :: nat where [stream_consts]: "MAGIC_BODY_LEN = length MAGIC_BODY + 1"
definition STREAM_HEADER_LEN :: nat where
  [stream_consts]: "STREAM_HEADER_LEN = CHUNK_HEADER_SIZE + MAGIC_BODY_LEN"
definition MAX_VARINT_LEN_64 :: nat where [stream_consts]: "MAX_VARINT_LEN_64 = 10"

section \<open>The stream header\<close>

text \<open>The subtractions are on \<open>u8\<close>; a block size in range keeps them from underflowing.\<close>

definition block_size_indicator :: "nat \<Rightarrow> byte option" where
  "block_size_indicator block_size = do {
     n \<leftarrow> usub block_size 1;
     bl \<leftarrow> usub 64 (leading_zeros (of_nat n :: u64));
     ind \<leftarrow> usub bl 10;
     Some (of_nat ind)
   }"

definition block_size_from_indicator :: "byte \<Rightarrow> nat option" where
  "block_size_from_indicator indicator =
     (let n = (indicator AND 15) + 10 in if MAX_BLOCK_LOG < n then None else Some (2 ^ unat n))"

definition make_stream_header :: "nat \<Rightarrow> bytes option" where
  "make_stream_header block_size = do {
     ind \<leftarrow> block_size_indicator block_size;
     Some [CHUNK_TYPE_STREAM_IDENTIFIER, of_nat MAGIC_BODY_LEN, 0, 0,
       MAGIC_BODY ! 0, MAGIC_BODY ! 1, MAGIC_BODY ! 2, MAGIC_BODY ! 3, MAGIC_BODY ! 4, ind]
   }"

section \<open>Numbers in chunk headers\<close>

definition read_chunk_len :: "bytes \<Rightarrow> nat option" where
  "read_chunk_len b = do {
     b0 \<leftarrow> idx b 0; b1 \<leftarrow> idx b 1; b2 \<leftarrow> idx b 2;
     Some (unat (ucast b0 OR push_bit 8 (ucast b1) OR push_bit 16 (ucast b2) :: u64))
   }"

definition stream_read_u32_le :: "bytes \<Rightarrow> u32 option" where
  "stream_read_u32_le b = do {
     b0 \<leftarrow> idx b 0; b1 \<leftarrow> idx b 1; b2 \<leftarrow> idx b 2; b3 \<leftarrow> idx b 3;
     Some (of_le [b0, b1, b2, b3])
   }"

text \<open>\<open>to_le_bytes\<close>, and the three length bytes that every writer of a chunk header casts out.\<close>

definition to_le_bytes :: "u32 \<Rightarrow> bytes" where
  "to_le_bytes v = map (\<lambda>i. ucast (drop_bit (8 * i) v)) [0..<4]"

definition len_bytes :: "nat \<Rightarrow> bytes" where
  "len_bytes n = [of_nat n, of_nat (n div 2 ^ 8), of_nat (n div 2 ^ 16)]"

function stream_put_uvarint_at :: "bytes \<Rightarrow> u64 \<Rightarrow> nat \<Rightarrow> (bytes \<times> nat) option" where
  "stream_put_uvarint_at dst v i =
     (if \<not> i < length dst then None
      else if 0x80 \<le> v then stream_put_uvarint_at (dst[i := ucast v OR 0x80]) (drop_bit 7 v) (i + 1)
      else Some (dst[i := ucast v], i + 1))"
  by pat_completeness auto
termination
  by (relation "measure (\<lambda>(dst, v, i). length dst - i)") auto

declare stream_put_uvarint_at.simps [simp del]

definition stream_put_uvarint :: "bytes \<Rightarrow> u64 \<Rightarrow> (bytes \<times> nat) option" where
  "stream_put_uvarint dst v = stream_put_uvarint_at dst v 0"

fun stream_get_uvarint_from :: "bytes \<Rightarrow> nat \<Rightarrow> u64 \<Rightarrow> nat \<Rightarrow> (u64 \<times> nat) option" where
  "stream_get_uvarint_from [] i x s = None"
| "stream_get_uvarint_from (b # bs) i x s =
     (if i = MAX_VARINT_LEN_64 then None
      else if b < 0x80 then
        (if i = MAX_VARINT_LEN_64 - 1 \<and> 1 < b then None else Some (x OR push_bit s (ucast b), i + 1))
      else stream_get_uvarint_from bs (i + 1) (x OR push_bit s (ucast (b AND 0x7f))) (s + 7))"

definition stream_get_uvarint :: "bytes \<Rightarrow> (u64 \<times> nat) option" where
  "stream_get_uvarint src = stream_get_uvarint_from src 0 0 0"

section \<open>Errors\<close>

datatype stream_error = SCorrupt | SCrc | STooLarge | SUnsupported | SBlock error | SIo io_error | SConfig string

fun show_error :: "error \<Rightarrow> string" where
  "show_error (Corrupt reason) = ''minlz: corrupt input: '' @ reason"
| "show_error TooLarge = ''minlz: decoded block is too large''"
| "show_error InvalidLevel = ''minlz: invalid compression level''"

definition error_to_io :: "error \<Rightarrow> io_error" where
  "error_to_io e = Io_Error InvalidData (show_error e)"

fun show_stream_error :: "stream_error \<Rightarrow> string" where
  "show_stream_error SCorrupt = ''minlz: corrupt stream''"
| "show_stream_error SCrc = ''minlz: CRC mismatch''"
| "show_stream_error STooLarge = ''minlz: block too large''"
| "show_stream_error SUnsupported = ''minlz: unsupported chunk or stream''"
| "show_stream_error (SBlock e) = ''minlz: block decode failed: '' @ show_error e"
| "show_stream_error (SIo e) = ''minlz: I/O error: '' @ message e"
| "show_stream_error (SConfig m) = ''minlz: invalid configuration: '' @ m"

fun stream_error_to_io :: "stream_error \<Rightarrow> io_error" where
  "stream_error_to_io (SIo inner) = inner"
| "stream_error_to_io (SConfig m) = Io_Error InvalidInput (show_stream_error (SConfig m))"
| "stream_error_to_io other = Io_Error InvalidData (show_stream_error other)"

section \<open>The varint codec\<close>

lemma stream_get_uvarint_eq: "stream_get_uvarint bs = uvarint_loop bs 0 0 0"
proof -
  have "stream_get_uvarint_from bs i x s = uvarint_loop bs i x s" for i x s
    by (induction bs i x s rule: uvarint_loop.induct) (simp_all add: stream_consts)
  then show ?thesis by (simp add: stream_get_uvarint_def)
qed

interpretation stream_uvarint: prefix_code uvarint stream_get_uvarint
  unfolding stream_get_uvarint_eq by (rule uvarint.prefix_code_axioms)

lemma stream_put_uvarint_at:
  "i + length (uvarint v) \<le> length dst \<Longrightarrow>
   stream_put_uvarint_at dst v i =
     Some (take i dst @ uvarint v @ drop (i + length (uvarint v)) dst, i + length (uvarint v))"
proof (induction dst v i rule: stream_put_uvarint_at.induct)
  case (1 dst v i)
  have "0 < length (uvarint v)" by simp
  with 1(2) have i: "i < length dst" by linarith
  show ?case
  proof (cases "0x80 \<le> v")
    case True
    with 1 i show ?thesis
      by (simp add: stream_put_uvarint_at.simps [of dst v i] uvarint.simps [of v] take_Suc_conv_app_nth)
  next
    case False
    with i show ?thesis
      by (simp add: stream_put_uvarint_at.simps [of dst v i] uvarint.simps [of v] upd_conv_take_nth_drop)
  qed
qed

lemma stream_put_uvarint_eq:
  "length (uvarint v) \<le> length dst \<Longrightarrow>
   stream_put_uvarint dst v = Some (uvarint v @ drop (length (uvarint v)) dst, length (uvarint v))"
  by (simp add: stream_put_uvarint_def stream_put_uvarint_at)

section \<open>Lengths and checksums\<close>

text \<open>Three bytes keep the lowest 24 bits of a length.\<close>

lemma read_len_bytes_mod: "read_chunk_len (len_bytes n @ rest) = Some (n mod 2 ^ 24)"
proof -
  have b: "unat (of_nat (n div 2 ^ 16) :: byte) = n div 2 ^ 16 mod 256"
    "unat (of_nat (n div 2 ^ 8) :: byte) = n div 2 ^ 8 mod 256" "unat (of_nat n :: byte) = n mod 256"
    by (simp_all add: unsigned_of_nat take_bit_eq_mod)
  have u: "unat (ucast (x :: byte) :: u64) = unat x" for x
    by (simp add: unsigned_ucast_eq take_bit_nat_eq_self order_less_le_trans [OF unat_byte_bound])
  have "of_le (len_bytes n) = (ucast (of_nat n :: byte) OR push_bit 8 (ucast (of_nat (n div 2 ^ 8) :: byte))
      OR push_bit 16 (ucast (of_nat (n div 2 ^ 16) :: byte)) :: u64)"
    by (simp add: len_bytes_def push_bit_or or.assoc)
  moreover have "unat (of_le (len_bytes n) :: u64) = le_nat (len_bytes n)"
    by (rule unat_of_le) (simp add: len_bytes_def)
  moreover have "le_nat (len_bytes n) = n mod 2 ^ 24"
  proof -
    have "n mod (256 * 65536) = 256 * (n div 256 mod 65536) + n mod 256" by (rule mod_mult2_eq)
    moreover have "n div 256 mod (256 * 256) = 256 * (n div 256 div 256 mod 256) + n div 256 mod 256"
      by (rule mod_mult2_eq)
    ultimately show ?thesis using b by (simp add: len_bytes_def flip: div_mult2_eq)
  qed
  ultimately show ?thesis by (simp add: read_chunk_len_def idx_def len_bytes_def)
qed

lemma read_len_bytes: "n < 2 ^ 24 \<Longrightarrow> read_chunk_len (len_bytes n @ rest) = Some n"
  by (simp add: read_len_bytes_mod)

lemma length_len_bytes [simp]: "length (len_bytes n) = 3"
  by (simp add: len_bytes_def)

lemma length_to_le_bytes [simp]: "length (to_le_bytes v) = 4"
  by (simp add: to_le_bytes_def)

lemma read_u32_to_le: "stream_read_u32_le (to_le_bytes v @ rest) = Some v"
proof -
  have "of_le (to_le_bytes v) = v"
  proof (rule bit_word_eqI)
    fix n assume "n < LENGTH(32)"
    then have n: "n < 32" by simp
    then have "n div 8 < 4" by (simp add: div_less_iff_less_mult)
    then show "bit (of_le (to_le_bytes v) :: u32) n = bit v n"
      using n by (simp add: bit_of_le to_le_bytes_def bit_simps)
  qed
  then show ?thesis by (simp add: stream_read_u32_le_def idx_def to_le_bytes_def upt_rec)
qed

section \<open>Block sizes in the header\<close>

text \<open>
  The indicator of a block size stands for the next power of two, which is the size itself when that
  is one, and keeps the two top bits clear that a reader rejects.
\<close>

lemma block_size_indicator_ok:
  assumes "MIN_BLOCK_SIZE \<le> n" "n \<le> MAX_BLOCK_SIZE"
  obtains ind k where "block_size_indicator n = Some ind" "block_size_from_indicator ind = Some (2 ^ k)"
    "n \<le> 2 ^ k" "2 ^ k < 2 * n" "12 \<le> k" "k \<le> 23" "ind AND 0xc0 = 0"
proof -
  have n: "4096 \<le> n" "n \<le> 8388608" using assms by (simp_all add: stream_consts format_consts)
  define w :: u64 where "w = of_nat (n - 1)"
  have "unat (of_nat m :: u64) = m" if "m < 2 ^ 64" for m
    using that by (simp add: unsigned_of_nat take_bit_nat_eq_self)
  from this [of "n - 1"] have w: "unat w = n - 1" using n unfolding w_def by simp
  then have "0 < unat w" using n by simp
  note lz = leading_zeros_bounds [OF this]
  define k where "k = 64 - leading_zeros w"
  have k: "2 ^ (k - 1) \<le> n - 1" "n - 1 < 2 ^ k" "0 < k"
    using lz w by (simp_all add: k_def diff_right_commute)
  have "k - 1 < 23"
  proof (rule ccontr)
    assume "\<not> k - 1 < 23"
    then have "(2::nat) ^ 23 \<le> 2 ^ (k - 1)" by (intro power_increasing) auto
    with k n show False by simp
  qed
  moreover have "12 \<le> k"
  proof (rule ccontr)
    assume "\<not> 12 \<le> k"
    then have "(2::nat) ^ k \<le> 2 ^ 11" by (intro power_increasing) auto
    with k n show False by simp
  qed
  ultimately have kb: "12 \<le> k" "k \<le> 23" by simp_all
  then have j: "k = (k - 10) + 10" by simp
  define j where "j = k - 10"
  with kb j_def have "j = 2 \<or> j = 3 \<or> j = 4 \<or> j = 5 \<or> j = 6 \<or> j = 7 \<or> j = 8 \<or> j = 9 \<or> j = 10 \<or> j = 11 \<or> j = 12 \<or> j = 13"
    by presburger
  then have "block_size_from_indicator (of_nat j) = Some (2 ^ (j + 10)) \<and> (of_nat j :: byte) AND 0xc0 = 0"
    by (elim disjE) (simp_all add: block_size_from_indicator_def stream_consts)
  then have i: "block_size_from_indicator (of_nat (k - 10)) = Some (2 ^ k)" "(of_nat (k - 10) :: byte) AND 0xc0 = 0"
    using j by (simp_all add: j_def)
  show ?thesis
  proof (rule that)
    show "block_size_indicator n = Some (of_nat (k - 10))"
      using n lz(1) kb unfolding k_def w_def by (simp add: block_size_indicator_def usub_def del: of_nat_diff)
    show "n \<le> 2 ^ k" using k(2) by simp
    have "2 ^ k = 2 * (2::nat) ^ (k - 1)" using k(3) by (cases k) simp_all
    then show "2 ^ k < 2 * n" using k(1) n by simp
  qed (use i kb in auto)
qed

end
