(* ===== verification/Index.thy ===== *)
theory Index
  imports Io Block Stream_Format
begin

text \<open>
  \<^verbatim>\<open>index.rs\<close>: the index of a stream, its thinning while it is built, its encoding as a chunk and
  the decoding of that chunk, the search for an offset, and the pass that builds an index from the
  chunk headers of a stream. \<open>u64\<close> values are natural numbers and \<open>i64\<close> values integers; where the
  code computes with them, an overflow is a fault.
\<close>

datatype index_error = ITruncated | IBadFormat string | IInvalid string | IIo io_error

fun show_index_error :: "index_error \<Rightarrow> string" where
  "show_index_error ITruncated = ''minlz index: truncated''"
| "show_index_error (IBadFormat m) = ''minlz index: '' @ m"
| "show_index_error (IInvalid m) = ''minlz index: '' @ m"
| "show_index_error (IIo e) = ''minlz index: I/O error: '' @ message e"

fun index_error_to_io :: "index_error \<Rightarrow> io_error" where
  "index_error_to_io (IIo inner) = inner"
| "index_error_to_io ITruncated = Io_Error UnexpectedEof ''minlz index: truncated''"
| "index_error_to_io (IBadFormat m) = Io_Error Unsupported (''minlz index: '' @ m)"
| "index_error_to_io (IInvalid m) = Io_Error InvalidData (''minlz index: '' @ m)"

named_theorems index_consts \<open>the constants of the index format\<close>

definition CHUNK_TYPE_INDEX :: byte where [index_consts]: "CHUNK_TYPE_INDEX = 0x40"
definition LEGACY_INDEX_CHUNK :: byte where [index_consts]: "LEGACY_INDEX_CHUNK = 0x99"

text \<open>The six bytes \<^verbatim>\<open>s2idx\0\<close> and their reverse.\<close>

definition INDEX_HEADER :: bytes where [index_consts]: "INDEX_HEADER = [0x73, 0x32, 0x69, 0x64, 0x78, 0x00]"
definition INDEX_TRAILER :: bytes where [index_consts]: "INDEX_TRAILER = [0x00, 0x78, 0x64, 0x69, 0x32, 0x73]"
definition MAX_INDEX_ENTRIES :: nat where [index_consts]: "MAX_INDEX_ENTRIES = 2 ^ 16"
definition MIN_INDEX_DIST :: nat where [index_consts]: "MIN_INDEX_DIST = 2 ^ 20"
definition SKIPPABLE_FRAME_HEADER :: nat where [index_consts]: "SKIPPABLE_FRAME_HEADER = 4"
definition MAX_I64 :: nat where [index_consts]: "MAX_I64 = 2 ^ 63 - 1"

record offset_pair =
  compressed :: nat
  uncompressed :: nat

definition zero_pair :: offset_pair where
  "zero_pair = \<lparr>compressed = 0, uncompressed = 0\<rparr>"

record index =
  total_uncompressed :: "nat option"
  total_compressed :: "nat option"
  offsets :: "offset_pair list"
  est_block_uncomp :: nat

definition index_default :: index where
  "index_default = \<lparr>total_uncompressed = None, total_compressed = None, offsets = [], est_block_uncomp = 0\<rparr>"

section \<open>Building\<close>

definition double_step :: "nat \<Rightarrow> (nat + nat) option" where
  "double_step mb =
     (if mb < MIN_INDEX_DIST then do { mb \<leftarrow> chk_u64 (mb * 2); Some (Inl mb) } else Some (Inr mb))"

definition index_reset :: "nat \<Rightarrow> index \<Rightarrow> index option" where
  "index_reset max_block ix = do {
     mb \<leftarrow> loop double_step (max max_block 1);
     Some (ix\<lparr>est_block_uncomp := mb, total_uncompressed := None, total_compressed := None, offsets := []\<rparr>)
   }"

text \<open>The entries that follow \<open>base\<close> too closely are passed over, then the next one is kept.\<close>

fun skip_within :: "nat \<Rightarrow> nat \<Rightarrow> offset_pair list \<Rightarrow> offset_pair list option" where
  "skip_within est base [] = Some []"
| "skip_within est base (p # ps) = do {
     gap \<leftarrow> usub (uncompressed p) base;
     if gap < est then skip_within est base ps else Some (p # ps)
   }"

lemma skip_within_length: "skip_within est base ps = Some qs \<Longrightarrow> length qs \<le> length ps"
  by (induction est base ps rule: skip_within.induct)
    (auto simp: usub_def split: if_splits)

function thin :: "nat \<Rightarrow> offset_pair list \<Rightarrow> offset_pair list option" where
  "thin est [] = Some []"
| "thin est (base # ps) = do {
     ps \<leftarrow> skip_within est (uncompressed base) ps;
     rest \<leftarrow> thin est ps;
     Some (base # rest)
   }"
  by pat_completeness auto
termination
  by (relation "measure (\<lambda>(est, ps). length ps)") (auto dest: skip_within_length)

definition reduce_light :: "index \<Rightarrow> index option" where
  "reduce_light ix = do {
     est \<leftarrow> chk_u64 (est_block_uncomp ix * 2);
     offs \<leftarrow> thin est (offsets ix);
     Some (ix\<lparr>est_block_uncomp := est, offsets := offs\<rparr>)
   }"

fun every :: "nat \<Rightarrow> 'a list \<Rightarrow> 'a list" where
  "every n [] = []"
| "every n (x # xs) = x # every n (drop n xs)"

definition remove_step :: "nat \<Rightarrow> nat \<Rightarrow> nat \<Rightarrow> (nat + nat) option" where
  "remove_step est len remove_n = do {
     e \<leftarrow> chk_u64 (est * (remove_n + 1));
     if e < MIN_INDEX_DIST \<and> 1000 < len div (remove_n + 1) then Some (Inl (remove_n + 1))
     else Some (Inr remove_n)
   }"

definition reduce :: "index \<Rightarrow> index option" where
  "reduce ix =
     (if length (offsets ix) < MAX_INDEX_ENTRIES then Some ix
      else do {
        remove_n \<leftarrow> loop (remove_step (est_block_uncomp ix) (length (offsets ix)))
          ((length (offsets ix) + 1) div MAX_INDEX_ENTRIES);
        est \<leftarrow> chk_u64 (est_block_uncomp ix + est_block_uncomp ix * remove_n);
        Some (ix\<lparr>offsets := every remove_n (offsets ix), est_block_uncomp := est\<rparr>) })"

definition index_push :: "nat \<Rightarrow> nat \<Rightarrow> index \<Rightarrow> index option" where
  "index_push c u ix = do {
     let ix = ix\<lparr>offsets := offsets ix @ [\<lparr>compressed = c, uncompressed = u\<rparr>]\<rparr>;
     if MAX_INDEX_ENTRIES < length (offsets ix) then reduce_light ix else Some ix
   }"

definition index_add :: "nat \<Rightarrow> nat \<Rightarrow> index \<Rightarrow> ((index_error + unit) \<times> index) option" where
  "index_add c u ix =
     (if MAX_I64 < c \<or> MAX_I64 < u then Some (Inl (IInvalid ''offset exceeds i64 wire range''), ix)
      else if offsets ix = [] then do { ix \<leftarrow> index_push c u ix; Some (Inr (), ix) }
      else if saturating_sub u (uncompressed (last (offsets ix))) < est_block_uncomp ix then Some (Inr (), ix)
      else if c < compressed (last (offsets ix)) then Some (Inl (IInvalid ''compressed offset decreased''), ix)
      else do { ix \<leftarrow> index_push c u ix; Some (Inr (), ix) })"

section \<open>Searching\<close>

text \<open>
  \<open>partition_point\<close> of the standard library counts the entries in front of the first that is past
  the offset, provided that the entries are partitioned that way, as sorted entries are.
\<close>

definition partition_point :: "(offset_pair \<Rightarrow> bool) \<Rightarrow> offset_pair list \<Rightarrow> nat" where
  "partition_point P ps = length (takeWhile P ps)"

fun find_linear :: "nat \<Rightarrow> offset_pair list \<Rightarrow> offset_pair \<Rightarrow> offset_pair" where
  "find_linear off [] best = best"
| "find_linear off (p # ps) best = (if off < uncompressed p then best else find_linear off ps p)"

definition index_find :: "index \<Rightarrow> nat \<Rightarrow> offset_pair option" where
  "index_find ix off =
     (if offsets ix = [] then Some zero_pair
      else if 200 < length (offsets ix) then
        let n = partition_point (\<lambda>p. uncompressed p \<le> off) (offsets ix) in
        if n = 0 then Some zero_pair else do { i \<leftarrow> usub n 1; idx (offsets ix) i }
      else Some (find_linear off (offsets ix) zero_pair))"

section \<open>Numbers on the wire\<close>

function index_put_uvarint :: "bytes \<Rightarrow> u64 \<Rightarrow> bytes" where
  "index_put_uvarint buf v =
     (if 0x80 \<le> v then index_put_uvarint (buf @ [ucast v OR 0x80]) (drop_bit 7 v) else buf @ [ucast v])"
  by pat_completeness auto
termination
proof (relation "measure (\<lambda>(buf, v). unat v)")
  fix buf :: bytes and v :: u64
  assume "0x80 \<le> v"
  then have "unat v div 128 < unat v" by (intro div_less_dividend) (auto simp: word_le_nat_alt)
  then show "((buf @ [ucast v OR 0x80], drop_bit 7 v), buf, v) \<in> measure (\<lambda>(buf, v). unat v)"
    using unat_drop_bit_div [of 7 v] by simp
qed simp

declare index_put_uvarint.simps [simp del]

definition put_varint :: "bytes \<Rightarrow> int \<Rightarrow> bytes" where
  "put_varint buf v = (let w = word_of_int v :: u64 in
     index_put_uvarint buf (push_bit 1 w XOR signed_drop_bit 63 w))"

fun read_uvarint_from :: "bytes \<Rightarrow> nat \<Rightarrow> u64 \<Rightarrow> nat \<Rightarrow> index_error + u64 \<times> nat" where
  "read_uvarint_from [] i x s = Inl ITruncated"
| "read_uvarint_from (b # bs) i x s =
     (if i = MAX_VARINT_LEN_64 then Inl (IInvalid ''varint overflow'')
      else if b < 0x80 then
        (if i = MAX_VARINT_LEN_64 - 1 \<and> 1 < b then Inl (IInvalid ''varint overflow'')
         else Inr (x OR push_bit s (ucast b), i + 1))
      else read_uvarint_from bs (i + 1) (x OR push_bit s (ucast (b AND 0x7f))) (s + 7))"

definition read_uvarint :: "bytes \<Rightarrow> index_error + u64 \<times> nat" where
  "read_uvarint b = read_uvarint_from b 0 0 0"

definition read_varint :: "bytes \<Rightarrow> index_error + int \<times> nat" where
  "read_varint b = (case read_uvarint b of
     Inl e \<Rightarrow> Inl e
   | Inr (u, n) \<Rightarrow> Inr (sint (drop_bit 1 u XOR - (u AND 1)), n))"

text \<open>\<open>as i64\<close> on a \<open>u64\<close>, the wire form of an optional total and its inverse, and \<open>/ 2\<close> on \<open>i64\<close>.\<close>

definition to_i64 :: "nat \<Rightarrow> int" where
  "to_i64 n = sint (of_nat n :: u64)"

definition opt_to_wire :: "nat option \<Rightarrow> int" where
  "opt_to_wire v = (case v of None \<Rightarrow> - 1 | Some x \<Rightarrow> to_i64 x)"

definition wire_to_opt :: "int \<Rightarrow> nat option" where
  "wire_to_opt v = (if v < 0 then None else Some (nat v))"

definition half_i64 :: "int \<Rightarrow> int" where
  "half_i64 c = (if c < 0 then - (- c div 2) else c div 2)"

section \<open>Encoding\<close>

fun irregular_from :: "nat \<Rightarrow> nat \<Rightarrow> offset_pair list \<Rightarrow> bool option" where
  "irregular_from est prev [] = Some False"
| "irregular_from est prev (p # ps) = do {
     e \<leftarrow> chk_u64 (prev + est);
     if uncompressed p \<noteq> e then Some True else irregular_from est (uncompressed p) ps
   }"

fun has_uncomp :: "nat \<Rightarrow> offset_pair list \<Rightarrow> bool option" where
  "has_uncomp est [] = Some False"
| "has_uncomp est (p # ps) = (if uncompressed p \<noteq> 0 then Some True else irregular_from est (uncompressed p) ps)"

fun put_uncomp_from :: "int \<Rightarrow> int \<Rightarrow> offset_pair list \<Rightarrow> bytes \<Rightarrow> bytes option" where
  "put_uncomp_from est prev [] buf = Some buf"
| "put_uncomp_from est prev (p # ps) buf = do {
     s \<leftarrow> chk_i64 (prev + est);
     u \<leftarrow> chk_i64 (to_i64 (uncompressed p) - s);
     put_uncomp_from est (to_i64 (uncompressed p)) ps (put_varint buf u)
   }"

fun put_uncomp :: "int \<Rightarrow> offset_pair list \<Rightarrow> bytes \<Rightarrow> bytes option" where
  "put_uncomp est [] buf = Some buf"
| "put_uncomp est (p # ps) buf =
     put_uncomp_from est (to_i64 (uncompressed p)) ps (put_varint buf (to_i64 (uncompressed p)))"

fun put_comp_from :: "int \<Rightarrow> int \<Rightarrow> offset_pair list \<Rightarrow> bytes \<Rightarrow> bytes option" where
  "put_comp_from c_predict prev [] buf = Some buf"
| "put_comp_from c_predict prev (p # ps) buf = do {
     s \<leftarrow> chk_i64 (prev + c_predict);
     c \<leftarrow> chk_i64 (to_i64 (compressed p) - s);
     c_predict \<leftarrow> chk_i64 (c_predict + half_i64 c);
     put_comp_from c_predict (to_i64 (compressed p)) ps (put_varint buf c)
   }"

fun put_comp :: "int \<Rightarrow> offset_pair list \<Rightarrow> bytes \<Rightarrow> bytes option" where
  "put_comp c_predict [] buf = Some buf"
| "put_comp c_predict (p # ps) buf =
     put_comp_from c_predict (to_i64 (compressed p)) ps (put_varint buf (to_i64 (compressed p)))"

definition over_i64 :: "nat option \<Rightarrow> bool" where
  "over_i64 v = (case v of None \<Rightarrow> False | Some t \<Rightarrow> MAX_I64 < t)"

definition index_append_to ::
  "bytes \<Rightarrow> nat option \<Rightarrow> nat option \<Rightarrow> index \<Rightarrow> ((index_error + bytes) \<times> index) option" where
  "index_append_to buf total_uncomp total_comp ix =
     (if over_i64 total_uncomp \<or> over_i64 total_comp then
        Some (Inl (IInvalid ''index total exceeds i64 wire range''), ix)
      else do {
        ix \<leftarrow> reduce ix;
        let ix = ix\<lparr>total_uncompressed := total_uncomp, total_compressed := total_comp\<rparr>;
        let init = length buf;
        let buf = buf @ [CHUNK_TYPE_INDEX, 0, 0, 0] @ INDEX_HEADER;
        let buf = put_varint buf (opt_to_wire total_uncomp);
        let buf = put_varint buf (opt_to_wire total_comp);
        let buf = put_varint buf (to_i64 (est_block_uncomp ix));
        let buf = put_varint buf (to_i64 (length (offsets ix)));
        let est = est_block_uncomp ix;
        has \<leftarrow> has_uncomp est (offsets ix);
        let buf = buf @ [if has then 1 else 0];
        buf \<leftarrow> (if has then put_uncomp (to_i64 est) (offsets ix) buf else Some buf);
        buf \<leftarrow> put_comp (to_i64 (est div 2)) (offsets ix) buf;
        let buf = buf @ to_le_bytes (of_nat (length buf - init + 4 + length INDEX_TRAILER));
        let buf = buf @ INDEX_TRAILER;
        let chunk_len = length buf - init - SKIPPABLE_FRAME_HEADER;
        Some (Inr (buf[init + 1 := of_nat chunk_len, init + 2 := of_nat (chunk_len div 2 ^ 8),
          init + 3 := of_nat (chunk_len div 2 ^ 16)]), ix) })"

section \<open>Decoding\<close>

text \<open>\<open>let (v, n) = read_varint(b)?; b = &b[n..];\<close> occurs throughout \<open>load\<close>.\<close>

definition next_varint :: "bytes \<Rightarrow> (index_error + int \<times> bytes) option" where
  "next_varint b = (case read_varint b of
     Inl e \<Rightarrow> Some (Inl e)
   | Inr (v, n) \<Rightarrow> do { b \<leftarrow> slice_from b n; Some (Inr (v, b)) })"

definition set_uncompressed :: "nat \<Rightarrow> nat \<Rightarrow> index \<Rightarrow> index option" where
  "set_uncompressed i u ix = do {
     p \<leftarrow> idx (offsets ix) i;
     Some (ix\<lparr>offsets := (offsets ix)[i := p\<lparr>uncompressed := u\<rparr>]\<rparr>)
   }"

definition set_compressed :: "nat \<Rightarrow> nat \<Rightarrow> index \<Rightarrow> index option" where
  "set_compressed i c ix = do {
     p \<leftarrow> idx (offsets ix) i;
     Some (ix\<lparr>offsets := (offsets ix)[i := p\<lparr>compressed := c\<rparr>]\<rparr>)
   }"

text \<open>The offset of an entry from its delta: \<open>prev + step + delta\<close>, which must exceed \<open>prev\<close>.\<close>

definition next_offset :: "string \<Rightarrow> string \<Rightarrow> int \<Rightarrow> int \<Rightarrow> int \<Rightarrow> index_error + int" where
  "next_offset overflow non_monotonic prev step delta =
     (case do { s \<leftarrow> chk_i64 (prev + step); chk_i64 (delta + s) } of
        None \<Rightarrow> Inl (IInvalid overflow)
      | Some off \<Rightarrow> if off \<le> prev then Inl (IInvalid non_monotonic) else Inr off)"

text \<open>
  The two loops over the entries; the first argument counts the entries still to come, and \<open>i\<close> is
  the index of the next one.
\<close>

fun load_uncomp ::
  "nat \<Rightarrow> nat \<Rightarrow> bool \<Rightarrow> int \<Rightarrow> bytes \<Rightarrow> index \<Rightarrow> ((index_error + bytes) \<times> index) option" where
  "load_uncomp 0 i has est b ix = Some (Inr b, ix)"
| "load_uncomp (Suc k) i has est b ix =
     and_then_at (if has then next_varint b else Some (Inr (0, b))) ix (\<lambda>(u_off, b).
     and_then_at (if 0 < i then do {
           p \<leftarrow> idx (offsets ix) (i - 1);
           Some (next_offset ''uncompressed offset overflow'' ''non-monotonic uncompressed offset''
             (to_i64 (uncompressed p)) est u_off) }
         else Some (Inr u_off)) ix (\<lambda>u_off.
     if u_off < 0 then Some (Inl (IInvalid ''negative uncompressed offset''), ix)
     else do {
       ix \<leftarrow> set_uncompressed i (nat u_off) ix;
       load_uncomp k (i + 1) has est b ix }))"

fun load_comp ::
  "nat \<Rightarrow> nat \<Rightarrow> int \<Rightarrow> bytes \<Rightarrow> index \<Rightarrow> ((index_error + bytes) \<times> index) option" where
  "load_comp 0 i c_predict b ix = Some (Inr b, ix)"
| "load_comp (Suc k) i c_predict b ix =
     and_then_at (next_varint b) ix (\<lambda>(c_off, b).
     and_then_at (if 0 < i then
           case chk_i64 (c_predict + half_i64 c_off) of
             None \<Rightarrow> Some (Inl (IInvalid ''compressed predictor overflow''))
           | Some predict_next \<Rightarrow> do {
               p \<leftarrow> idx (offsets ix) (i - 1);
               Some (case next_offset ''compressed offset overflow'' ''non-monotonic compressed offset''
                   (to_i64 (compressed p)) c_predict c_off of
                 Inl e \<Rightarrow> Inl e | Inr c \<Rightarrow> Inr (c, predict_next)) }
         else Some (Inr (c_off, c_predict))) ix (\<lambda>(c_off, c_predict).
     if c_off < 0 then Some (Inl (IInvalid ''negative compressed offset''), ix)
     else do {
       ix \<leftarrow> set_compressed i (nat c_off) ix;
       load_comp k (i + 1) c_predict b ix }))"

definition index_load :: "bytes \<Rightarrow> index \<Rightarrow> ((index_error + bytes) \<times> index) option" where
  "index_load bytes ix =
     (if length bytes \<le> 4 + length INDEX_HEADER + length INDEX_TRAILER then Some (Inl ITruncated, ix)
      else if bytes ! 0 \<noteq> CHUNK_TYPE_INDEX \<and> bytes ! 0 \<noteq> LEGACY_INDEX_CHUNK then
        Some (Inl (IBadFormat ''bad chunk type''), ix)
      else do {
        chunk_len \<leftarrow> read_chunk_len (drop 1 bytes);
        let b = drop 4 bytes;
        if length b < chunk_len then Some (Inl ITruncated, ix)
        else if take (length INDEX_HEADER) b \<noteq> INDEX_HEADER then Some (Inl (IBadFormat ''bad header''), ix)
        else
          and_then_at (next_varint (drop (length INDEX_HEADER) b)) ix (\<lambda>(v, b).
          if v < 0 then Some (Inl (IInvalid ''negative total uncompressed''), ix)
          else let ix = ix\<lparr>total_uncompressed := Some (nat v)\<rparr> in
          and_then_at (next_varint b) ix (\<lambda>(v, b).
          let ix = ix\<lparr>total_compressed := wire_to_opt v\<rparr> in
          and_then_at (next_varint b) ix (\<lambda>(v, b).
          if v < 0 then Some (Inl (IInvalid ''negative est_block''), ix)
          else let ix = ix\<lparr>est_block_uncomp := nat v\<rparr> in
          and_then_at (next_varint b) ix (\<lambda>(v, b).
          if v < 0 \<or> int MAX_INDEX_ENTRIES < v then Some (Inl (IInvalid ''entry count out of range''), ix)
          else
            let entries = nat v; ix = ix\<lparr>offsets := replicate entries zero_pair\<rparr> in
            if b = [] then Some (Inl ITruncated, ix)
            else if 1 < b ! 0 then Some (Inl (IBadFormat ''invalid has_uncompressed byte''), ix)
            else
              let est = to_i64 (est_block_uncomp ix) in
              with_st (load_uncomp entries 0 (b ! 0 \<noteq> 0) est (drop 1 b) ix) (\<lambda>b ix.
              with_st (load_comp entries 0 (half_i64 est) b ix) (\<lambda>b ix.
              if length b < 4 + length INDEX_TRAILER then Some (Inl ITruncated, ix)
              else if take (length INDEX_TRAILER) (drop 4 b) \<noteq> INDEX_TRAILER then
                Some (Inl (IBadFormat ''bad trailer''), ix)
              else Some (Inr (drop (length INDEX_TRAILER) (drop 4 b)), ix))))))) })"

section \<open>Indexing an existing stream\<close>

definition LEGACY_COMPRESSED_DATA :: byte where "LEGACY_COMPRESSED_DATA = 0x00"

text \<open>The letters \<^verbatim>\<open>S2sTwO\<close> and \<^verbatim>\<open>sNaPpY\<close>.\<close>

definition MAGIC_BODY_S2 :: bytes where "MAGIC_BODY_S2 = [0x53, 0x32, 0x73, 0x54, 0x77, 0x4f]"
definition MAGIC_BODY_SNAPPY :: bytes where "MAGIC_BODY_SNAPPY = [0x73, 0x4e, 0x61, 0x50, 0x70, 0x59]"

text \<open>\<open>Inr None\<close> is the end of the input in front of the first byte.\<close>

definition read_eof_step ::
  "'r reader_fn \<Rightarrow> nat \<Rightarrow> bytes \<times> 'r \<Rightarrow> (bytes \<times> 'r + (io_error + bytes option) \<times> 'r) option" where
  "read_eof_step rd n = (\<lambda>(got, r).
     if length got < n then
       case rd (n - length got) r of
         (Inr p, r) \<Rightarrow>
           if p = [] then
             (if got = [] then Some (Inr (Inr None, r))
              else Some (Inr (Inl (Io_Error UnexpectedEof ''unexpected end of file''), r)))
           else Some (Inl (got @ p, r))
       | (Inl e, r) \<Rightarrow> if kind e = Interrupted then Some (Inl (got, r)) else Some (Inr (Inl e, r))
     else Some (Inr (Inr (Some got), r)))"

definition read_exact_or_eof ::
  "'r reader_fn \<Rightarrow> nat \<Rightarrow> 'r \<Rightarrow> ((io_error + bytes option) \<times> 'r) option" where
  "read_exact_or_eof rd n r = loop (read_eof_step rd n) ([], r)"

text \<open>A data chunk of \<open>d_len\<close> uncompressed bytes that starts at \<open>start\<close>.\<close>

definition index_block :: "nat \<Rightarrow> nat \<Rightarrow> nat \<Rightarrow> index \<Rightarrow> ((index_error + nat) \<times> index) option" where
  "index_block d_len start uncomp_pos ix =
     (let ix = (if est_block_uncomp ix = 0 then ix\<lparr>est_block_uncomp := d_len\<rparr> else ix) in
      with_st (index_add start uncomp_pos ix) (\<lambda>_ ix. do {
        u \<leftarrow> chk_u64 (uncomp_pos + d_len);
        Some (Inr u, ix) }))"

definition index_chunk ::
  "byte \<Rightarrow> bytes \<Rightarrow> nat \<Rightarrow> nat \<Rightarrow> index \<Rightarrow> ((index_error + nat) \<times> index) option" where
  "index_chunk chunk_type body start uncomp_pos ix =
     (if chunk_type = LEGACY_COMPRESSED_DATA \<or> chunk_type = CHUNK_TYPE_MINLZ_COMPRESSED_DATA \<or>
         chunk_type = CHUNK_TYPE_MINLZ_COMPRESSED_DATA_COMP_CRC then
        if length body < CHECKSUM_SIZE then Some (Inl (IInvalid ''data chunk shorter than CRC''), ix)
        else do {
          let block = drop CHECKSUM_SIZE body;
          d_len \<leftarrow> (if chunk_type = LEGACY_COMPRESSED_DATA then
              Some (case read_uvarint block of Inl e \<Rightarrow> None | Inr (v, _) \<Rightarrow> Some (unat v))
            else do {
              res \<leftarrow> decoded_len_chunk_body block;
              Some (case res of Inl e \<Rightarrow> None | Inr n \<Rightarrow> Some n) });
          case d_len of
            None \<Rightarrow> Some (Inl (IInvalid ''bad block size header''), ix)
          | Some d_len \<Rightarrow>
              if MAX_BLOCK_SIZE < d_len then Some (Inl (IInvalid ''block exceeds max size''), ix)
              else if d_len = 0 then Some (Inr uncomp_pos, ix)
              else index_block d_len start uncomp_pos ix }
      else if chunk_type = CHUNK_TYPE_UNCOMPRESSED_DATA then
        if length body < CHECKSUM_SIZE then Some (Inl (IInvalid ''uncompressed chunk shorter than CRC''), ix)
        else
          let n2 = length body - CHECKSUM_SIZE in
          if MAX_BLOCK_SIZE < n2 then Some (Inl (IInvalid ''uncompressed block exceeds max size''), ix)
          else if n2 = 0 then Some (Inr uncomp_pos, ix)
          else index_block n2 start uncomp_pos ix
      else if chunk_type = CHUNK_TYPE_STREAM_IDENTIFIER then
        if length body \<noteq> MAGIC_BODY_LEN then Some (Inl (IBadFormat ''bad stream identifier length''), ix)
        else if take (length MAGIC_BODY) body \<noteq> MAGIC_BODY \<and> body \<noteq> MAGIC_BODY_S2 \<and> body \<noteq> MAGIC_BODY_SNAPPY then
          Some (Inl (IBadFormat ''unknown stream magic''), ix)
        else Some (Inr uncomp_pos, ix)
      else if chunk_type = CHUNK_TYPE_EOF then Some (Inr uncomp_pos, ix)
      else if chunk_type \<le> MAX_NON_SKIPPABLE_CHUNK then
        Some (Inl (IBadFormat ''reserved unskippable chunk''), ix)
      else Some (Inr uncomp_pos, ix))"

record 'r index_pass =
  src_r :: 'r
  the_index :: index
  comp_pos :: nat
  uncomp_pos :: nat
  read_header :: bool

definition index_stream_step ::
  "'r reader_fn \<Rightarrow> 'r index_pass \<Rightarrow> ('r index_pass + (index_error + bytes)) option" where
  "index_stream_step rd st = do {
     (h, r) \<leftarrow> read_exact_or_eof rd 4 (src_r st);
     case h of
       Inl e \<Rightarrow> Some (Inr (Inl (IIo e)))
     | Inr None \<Rightarrow> do {
         (res, _) \<leftarrow> index_append_to [] (Some (uncomp_pos st)) (Some (comp_pos st)) (the_index st);
         Some (Inr res) }
     | Inr (Some hdr) \<Rightarrow> do {
         let start_chunk = comp_pos st;
         chunk_type \<leftarrow> idx hdr 0;
         if \<not> read_header st \<and> chunk_type \<noteq> CHUNK_TYPE_STREAM_IDENTIFIER \<and> chunk_type \<noteq> CHUNK_TYPE_EOF then
           Some (Inr (Inl (IBadFormat ''missing stream identifier'')))
         else do {
           chunk_len \<leftarrow> read_chunk_len (drop 1 hdr);
           pos \<leftarrow> chk_u64 (start_chunk + 4 + chunk_len);
           (body, r) \<leftarrow> read_exact rd chunk_len r;
           case body of
             Inl e \<Rightarrow> Some (Inr (Inl ITruncated))
           | Inr body \<Rightarrow> do {
               (res, ix) \<leftarrow> index_chunk chunk_type body start_chunk (uncomp_pos st) (the_index st);
               case res of
                 Inl e \<Rightarrow> Some (Inr (Inl e))
               | Inr u \<Rightarrow> Some (Inl \<lparr>src_r = r, the_index = ix, comp_pos = pos, uncomp_pos = u,
                     read_header = True\<rparr>) } } }
   }"

definition index_stream :: "'r reader_fn \<Rightarrow> 'r \<Rightarrow> (index_error + bytes) option" where
  "index_stream rd r = loop (index_stream_step rd)
     \<lparr>src_r = r, the_index = index_default, comp_pos = 0, uncomp_pos = 0, read_header = False\<rparr>"

section \<open>The payload without its envelope\<close>

definition remove_index_headers :: "bytes \<Rightarrow> bytes option option" where
  "remove_index_headers b =
     (if length b \<le> 4 + length INDEX_HEADER + length INDEX_TRAILER + 4 then Some None
      else if b ! 0 \<noteq> CHUNK_TYPE_INDEX then Some None
      else do {
        chunk_len \<leftarrow> read_chunk_len (drop 1 b);
        let b = drop 4 b;
        if length b < chunk_len then Some None
        else do {
          let b = take chunk_len b;
          h \<leftarrow> slice b 0 (length INDEX_HEADER);
          if h \<noteq> INDEX_HEADER then Some None
          else do {
            let b = drop (length INDEX_HEADER) b;
            if length b < length INDEX_TRAILER \<or> drop (length b - length INDEX_TRAILER) b \<noteq> INDEX_TRAILER then Some None
            else do {
              let b = take (length b - length INDEX_TRAILER) b;
              if length b < 4 then Some None else Some (Some (take (length b - 4) b)) } } } })"

definition restore_index_headers :: "bytes \<Rightarrow> bytes" where
  "restore_index_headers input =
     (if input = [] then []
      else
        let b = [CHUNK_TYPE_INDEX, 0, 0, 0] @ INDEX_HEADER @ input;
            b = b @ to_le_bytes (of_nat (length b + 4 + length INDEX_TRAILER)) @ INDEX_TRAILER;
            chunk_len = length b - SKIPPABLE_FRAME_HEADER
        in b[1 := of_nat chunk_len, 2 := of_nat (chunk_len div 2 ^ 8), 3 := of_nat (chunk_len div 2 ^ 16)])"

end
