(* ===== verification/Index_Correct.thy ===== *)
theory Index_Correct
  imports Index
begin

text \<open>
  The invariant of an index and that every operation keeps it, the search against its specification,
  and the round trip of an index through its chunk.
\<close>

section \<open>The invariant\<close>

text \<open>
  Entries are at least the estimated block size apart and do not decrease in the compressed stream;
  all offsets fit the signed numbers of the wire format.
\<close>

definition spaced :: "nat \<Rightarrow> offset_pair list \<Rightarrow> bool" where
  "spaced est = sorted_wrt (\<lambda>p q. uncompressed p + est \<le> uncompressed q \<and> compressed p \<le> compressed q)"

definition index_ok :: "index \<Rightarrow> bool" where
  "index_ok ix \<longleftrightarrow> 0 < est_block_uncomp ix \<and> spaced (est_block_uncomp ix) (offsets ix) \<and>
     (\<forall>p \<in> set (offsets ix). compressed p \<le> MAX_I64 \<and> uncompressed p \<le> MAX_I64)"

lemma spaced_mono: "spaced est ps \<Longrightarrow> est' \<le> est \<Longrightarrow> spaced est' ps"
  unfolding spaced_def by (erule sorted_wrt_mono_rel [rotated]) auto

lemma spaced_span:
  "spaced est (p # ps) \<Longrightarrow> uncompressed p + est * length ps \<le> uncompressed (last (p # ps))"
proof (induction ps arbitrary: p)
  case (Cons q ps)
  then have "uncompressed p + est \<le> uncompressed q" "spaced est (q # ps)" by (simp_all add: spaced_def)
  with Cons.IH [of q] show ?case by simp
qed simp

lemma index_ok_est:
  assumes "index_ok ix" "length (offsets ix) = Suc n"
  shows "est_block_uncomp ix * n \<le> MAX_I64"
proof -
  obtain p ps where ps: "offsets ix = p # ps" "length ps = n" using assms(2) by (cases "offsets ix") auto
  then have "est_block_uncomp ix * n \<le> uncompressed (last (offsets ix))"
    using assms(1) spaced_span [of "est_block_uncomp ix" p ps] by (simp add: index_ok_def)
  moreover have "uncompressed (last (offsets ix)) \<le> MAX_I64"
    using assms(1) ps last_in_set [of "offsets ix"] by (auto simp: index_ok_def)
  ultimately show ?thesis by simp
qed

text \<open>An index with so many entries cannot have an estimate near the top of its type.\<close>

lemma index_ok_many:
  assumes "index_ok ix" "MAX_INDEX_ENTRIES \<le> length (offsets ix)"
  shows "est_block_uncomp ix \<le> 2 ^ 48"
proof -
  obtain n where n: "length (offsets ix) = Suc n" using assms(2) by (cases "length (offsets ix)") (auto simp: index_consts)
  then have "65535 \<le> n" using assms(2) by (simp add: index_consts)
  then have "est_block_uncomp ix * 65535 \<le> est_block_uncomp ix * n" by (rule mult_le_mono2)
  also have "\<dots> \<le> MAX_I64" by (rule index_ok_est [OF assms(1) n])
  finally show ?thesis by (simp add: index_consts)
qed

section \<open>Thinning\<close>

lemma skip_within_ok:
  "(\<And>p. p \<in> set ps \<Longrightarrow> base \<le> uncompressed p) \<Longrightarrow>
   skip_within est base ps = Some (dropWhile (\<lambda>p. uncompressed p - base < est) ps)"
  by (induction ps) (auto simp: usub_def)

lemma spaced_dropWhile: "spaced est ps \<Longrightarrow> spaced est (dropWhile P ps)"
  unfolding spaced_def by (induction ps) auto

lemma thin_ok:
  "spaced 0 ps \<Longrightarrow> \<exists>out. thin est ps = Some out \<and> spaced est out \<and> set out \<subseteq> set ps"
proof (induction "length ps" arbitrary: ps rule: less_induct)
  case less
  show ?case
  proof (cases ps)
    case Nil
    then show ?thesis by (simp add: spaced_def)
  next
    case (Cons b rest)
    define ds where "ds = dropWhile (\<lambda>p. uncompressed p - uncompressed b < est) rest"
    have r: "spaced 0 rest" "\<And>p. p \<in> set rest \<Longrightarrow> uncompressed b \<le> uncompressed p \<and> compressed b \<le> compressed p"
      using less.prems Cons by (auto simp: spaced_def)
    then have s: "skip_within est (uncompressed b) rest = Some ds"
      unfolding ds_def by (intro skip_within_ok) auto
    have sub: "set ds \<subseteq> set rest" by (auto simp: ds_def dest: set_dropWhileD)
    have ge: "uncompressed b + est \<le> uncompressed q" if "q \<in> set ds" for q
    proof -
      from that obtain d qs where ds: "ds = d # qs" by (cases ds) auto
      then have "\<not> uncompressed d - uncompressed b < est"
        using hd_dropWhile [of "\<lambda>p. uncompressed p - uncompressed b < est" rest] by (simp add: ds_def)
      moreover have "uncompressed b \<le> uncompressed d" using r(2) sub ds by auto
      moreover have "uncompressed d \<le> uncompressed q"
        using spaced_dropWhile [OF r(1), of "\<lambda>p. uncompressed p - uncompressed b < est", folded ds_def] that ds
        by (auto simp: spaced_def)
      ultimately show ?thesis by linarith
    qed
    have "length ds < length ps" using Cons length_dropWhile_le [of _ rest] by (simp add: ds_def le_imp_less_Suc)
    then obtain out where out: "thin est ds = Some out" "spaced est out" "set out \<subseteq> set ds"
      using less.hyps [of ds] spaced_dropWhile [OF r(1)] by (auto simp: ds_def)
    then show ?thesis using Cons s ge sub r(2) by (auto simp: spaced_def)
  qed
qed

lemma index_ok_le: "index_ok ix \<Longrightarrow> spaced 0 (offsets ix)"
  by (auto simp: index_ok_def intro: spaced_mono)

lemma reduce_light_ok:
  assumes "index_ok ix" "MAX_INDEX_ENTRIES \<le> length (offsets ix)"
  obtains ix' where "reduce_light ix = Some ix'" "index_ok ix'" "set (offsets ix') \<subseteq> set (offsets ix)"
    "est_block_uncomp ix' < 2 ^ 62"
proof -
  obtain out where o: "thin (est_block_uncomp ix * 2) (offsets ix) = Some out"
    "spaced (est_block_uncomp ix * 2) out" "set out \<subseteq> set (offsets ix)"
    using thin_ok [OF index_ok_le [OF assms(1)]] by blast
  have "est_block_uncomp ix * 2 < 2 ^ 64" "est_block_uncomp ix * 2 < 2 ^ 62" using index_ok_many [OF assms] by simp_all
  with o assms(1) show ?thesis
    by (intro that [of "ix\<lparr>est_block_uncomp := est_block_uncomp ix * 2, offsets := out\<rparr>"])
      (auto simp: reduce_light_def chk_u64_def index_ok_def)
qed

section \<open>Adding an entry\<close>

lemma index_add_ok:
  assumes ok: "index_ok ix"
  obtains m where "index_add c u ix = Some (Inl (IInvalid m), ix)"
    "MAX_I64 < c \<or> MAX_I64 < u \<or> (offsets ix \<noteq> [] \<and> c < compressed (last (offsets ix)))"
  | ix' where "index_add c u ix = Some (Inr (), ix')" "index_ok ix'"
    "set (offsets ix') \<subseteq> insert \<lparr>compressed = c, uncompressed = u\<rparr> (set (offsets ix))"
    "est_block_uncomp ix < 2 ^ 62 \<Longrightarrow> est_block_uncomp ix' < 2 ^ 62"
proof -
  let ?p = "\<lparr>compressed = c, uncompressed = u\<rparr>"
  have push: "\<exists>ix'. index_push c u ix = Some ix' \<and> index_ok ix' \<and> set (offsets ix') \<subseteq> insert ?p (set (offsets ix)) \<and>
      (est_block_uncomp ix < 2 ^ 62 \<longrightarrow> est_block_uncomp ix' < 2 ^ 62)"
    if cu: "c \<le> MAX_I64" "u \<le> MAX_I64" and
      gap: "offsets ix \<noteq> [] \<Longrightarrow> uncompressed (last (offsets ix)) + est_block_uncomp ix \<le> u \<and> compressed (last (offsets ix)) \<le> c"
  proof -
    let ?ix = "ix\<lparr>offsets := offsets ix @ [?p]\<rparr>"
    have "uncompressed q + est_block_uncomp ix \<le> u \<and> compressed q \<le> c" if q: "q \<in> set (offsets ix)" for q
    proof (cases "offsets ix" rule: rev_cases)
      case (snoc qs l)
      have "spaced (est_block_uncomp ix) (qs @ [l])" using ok snoc by (simp add: index_ok_def)
      then have "q = l \<or> uncompressed q + est_block_uncomp ix \<le> uncompressed l \<and> compressed q \<le> compressed l"
        using q snoc by (auto simp: spaced_def sorted_wrt_append)
      then show ?thesis using gap snoc by fastforce
    qed (use q in simp)
    then have ok': "index_ok ?ix" using ok cu by (auto simp: index_ok_def spaced_def sorted_wrt_append)
    show ?thesis
    proof (cases "MAX_INDEX_ENTRIES < length (offsets ?ix)")
      case True
      then have "MAX_INDEX_ENTRIES \<le> length (offsets ?ix)" by simp
      from reduce_light_ok [OF ok' this] True show ?thesis by (auto simp: index_push_def)
    next
      case False
      with ok' show ?thesis by (auto simp: index_push_def)
    qed
  qed
  consider "MAX_I64 < c \<or> MAX_I64 < u" | "c \<le> MAX_I64" "u \<le> MAX_I64" "offsets ix = []"
    | "c \<le> MAX_I64" "u \<le> MAX_I64" "offsets ix \<noteq> []" "u - uncompressed (last (offsets ix)) < est_block_uncomp ix"
    | "c \<le> MAX_I64" "u \<le> MAX_I64" "offsets ix \<noteq> []" "\<not> u - uncompressed (last (offsets ix)) < est_block_uncomp ix"
      "c < compressed (last (offsets ix))"
    | "c \<le> MAX_I64" "u \<le> MAX_I64" "offsets ix \<noteq> []" "\<not> u - uncompressed (last (offsets ix)) < est_block_uncomp ix"
      "\<not> c < compressed (last (offsets ix))"
    by linarith
  then show ?thesis
  proof cases
    case 1
    then show ?thesis by (intro that(1) [of "''offset exceeds i64 wire range''"]) (auto simp: index_add_def)
  next
    case 2
    with push that(2) show ?thesis by (auto simp: index_add_def)
  next
    case 3
    with ok that(2) show ?thesis by (auto simp: index_add_def saturating_sub_def)
  next
    case 4
    then show ?thesis
      by (intro that(1) [of "''compressed offset decreased''"]) (auto simp: index_add_def saturating_sub_def)
  next
    case 5
    have "0 < est_block_uncomp ix" using ok by (simp add: index_ok_def)
    with 5 have "uncompressed (last (offsets ix)) + est_block_uncomp ix \<le> u" "compressed (last (offsets ix)) \<le> c"
      by linarith+
    with push 5 obtain ix' where "index_push c u ix = Some ix'" "index_ok ix'"
      "set (offsets ix') \<subseteq> insert ?p (set (offsets ix))" "est_block_uncomp ix < 2 ^ 62 \<longrightarrow> est_block_uncomp ix' < 2 ^ 62" by blast
    with 5 that(2) show ?thesis by (simp add: index_add_def saturating_sub_def)
  qed
qed

section \<open>Starting and finishing\<close>

lemma index_reset_ok:
  assumes "m < 2 ^ 62"
  obtains ix' where "index_reset m ix = Some ix'" "index_ok ix'" "offsets ix' = []" "MIN_INDEX_DIST \<le> est_block_uncomp ix'"
    "total_uncompressed ix' = None" "total_compressed ix' = None" "m \<le> est_block_uncomp ix'" "est_block_uncomp ix' < 2 ^ 62"
proof -
  have "\<exists>r. loop double_step (max m 1) = Some r \<and> (MIN_INDEX_DIST \<le> r \<and> m \<le> r \<and> r < 2 ^ 62)"
  proof (rule loop_total [where I = "\<lambda>mb. 0 < mb \<and> m \<le> mb \<and> mb < 2 ^ 62" and m = "\<lambda>mb. MIN_INDEX_DIST - mb"])
    fix mb :: nat
    assume I: "0 < mb \<and> m \<le> mb \<and> mb < 2 ^ 62"
    show "(\<exists>s'. double_step mb = Some (Inl s') \<and> (0 < s' \<and> m \<le> s' \<and> s' < 2 ^ 62) \<and>
        MIN_INDEX_DIST - s' < MIN_INDEX_DIST - mb) \<or>
      (\<exists>r. double_step mb = Some (Inr r) \<and> (MIN_INDEX_DIST \<le> r \<and> m \<le> r \<and> r < 2 ^ 62))"
    proof (cases "mb < MIN_INDEX_DIST")
      case True
      then have "double_step mb = Some (Inl (mb * 2))"
        by (simp add: double_step_def chk_u64_def index_consts)
      with True I show ?thesis by (auto simp: index_consts)
    next
      case False
      with I show ?thesis by (simp add: double_step_def)
    qed
  qed (use assms in auto)
  then obtain r where "loop double_step (max m 1) = Some r" "MIN_INDEX_DIST \<le> r" "m \<le> r" "r < 2 ^ 62" by blast
  with that show ?thesis by (simp add: index_reset_def index_ok_def spaced_def index_consts)
qed

lemma set_every: "set (every n xs) \<subseteq> set xs"
  by (induction n xs rule: every.induct) (auto dest: in_set_dropD)

lemma every_spaced:
  "spaced est ps \<Longrightarrow> spaced (est * (n + 1)) (every n ps)"
proof (induction n ps rule: every.induct)
  case (2 n p ps)
  have s: "spaced est ps" using 2(2) by (simp add: spaced_def)
  then have "spaced est (drop n ps)" by (simp add: spaced_def sorted_wrt_drop)
  moreover have "uncompressed p + est * (n + 1) \<le> uncompressed q \<and> compressed p \<le> compressed q"
    if "q \<in> set (drop n ps)" for q
    using 2(2) that
  proof (induction n arbitrary: p ps)
    case (Suc n)
    then obtain p' ps' where ps: "ps = p' # ps'" by (cases ps) auto
    with Suc.prems Suc.IH [of p' ps'] show ?case by (auto simp: spaced_def)
  qed (auto simp: spaced_def)
  ultimately show ?case
    using 2(1) set_every [of n "drop n ps"] by (fastforce simp: spaced_def)
qed (simp add: spaced_def)

lemma length_every: "length (every n xs) * (n + 1) \<le> length xs + n"
proof (induction n xs rule: every.induct)
  case (2 n x xs)
  show ?case
  proof (cases "n \<le> length xs")
    case True
    with 2 show ?thesis by simp
  next
    case False
    then show ?thesis by simp
  qed
qed simp

lemma reduce_ok:
  assumes ok: "index_ok ix"
  obtains ix' where "reduce ix = Some ix'" "index_ok ix'" "length (offsets ix') \<le> MAX_INDEX_ENTRIES"
    "set (offsets ix') \<subseteq> set (offsets ix)" "length (offsets ix) < MAX_INDEX_ENTRIES \<Longrightarrow> ix' = ix"
    "MAX_INDEX_ENTRIES \<le> length (offsets ix) \<Longrightarrow> est_block_uncomp ix' < 2 ^ 63"
    "\<exists>n. offsets ix' = every n (offsets ix)"
proof (cases "length (offsets ix) < MAX_INDEX_ENTRIES")
  case True
  have e: "every 0 xs = xs" for xs :: "offset_pair list" by (induction xs) simp_all
  show ?thesis
  proof (rule that [of ix])
    show "\<exists>n. offsets ix = every n (offsets ix)" using e [of "offsets ix"] by metis
  qed (use True ok in \<open>auto simp: reduce_def\<close>)
next
  case False
  let ?len = "length (offsets ix)" and ?est = "est_block_uncomp ix"
  have len: "65536 \<le> ?len" using False by (simp add: index_consts)
  have mult: "?est * r \<le> MAX_I64" if "r < ?len" for r
  proof -
    obtain n where n: "?len = Suc n" using len by (cases "?len") auto
    have "?est * r \<le> ?est * n" using that n by simp
    also have "\<dots> \<le> MAX_I64" by (rule index_ok_est [OF ok n])
    finally show ?thesis .
  qed
  let ?I = "\<lambda>r. (?len + 1) div MAX_INDEX_ENTRIES \<le> r \<and> r + 1 < ?len"
  have "\<exists>r. loop (remove_step ?est ?len) ((?len + 1) div MAX_INDEX_ENTRIES) = Some r \<and> ?I r"
  proof (rule loop_total [where I = ?I and m = "\<lambda>r. ?len - r"])
    have "(?len + 1) div 65536 * 65536 \<le> ?len + 1" by (rule div_times_less_eq_dividend)
    with len show "?I ((?len + 1) div MAX_INDEX_ENTRIES)" by (simp add: index_consts)
    fix r assume I: "?I r"
    have "?est * (r + 1) < 2 ^ 64" using mult [of "r + 1"] I by (simp add: index_consts)
    then have c: "chk_u64 (?est * (r + 1)) = Some (?est * (r + 1))" by (rule chk_u64_Some)
    show "(\<exists>s'. remove_step ?est ?len r = Some (Inl s') \<and> ?I s' \<and> ?len - s' < ?len - r) \<or>
      (\<exists>s. remove_step ?est ?len r = Some (Inr s) \<and> ?I s)"
    proof (cases "?est * (r + 1) < MIN_INDEX_DIST \<and> 1000 < ?len div (r + 1)")
      case True
      have "1000 * (r + 1) \<le> ?len"
      proof -
        have "1000 * (r + 1) \<le> ?len div (r + 1) * (r + 1)" using True by (intro mult_le_mono1) simp
        also have "\<dots> \<le> ?len" by (rule div_times_less_eq_dividend)
        finally show ?thesis .
      qed
      with True c I show ?thesis unfolding remove_step_def by auto
    next
      case False
      with c I show ?thesis unfolding remove_step_def by auto
    qed
  qed
  then obtain r where r: "loop (remove_step ?est ?len) ((?len + 1) div MAX_INDEX_ENTRIES) = Some r" "?I r" by blast
  have e: "?est + ?est * r = ?est * (r + 1)" by simp
  have b: "?est * (r + 1) \<le> MAX_I64" using mult [of "r + 1"] r(2) by simp
  let ?ix = "ix\<lparr>offsets := every r (offsets ix), est_block_uncomp := ?est * (r + 1)\<rparr>"
  show ?thesis
  proof (rule that [of ?ix])
    have c: "chk_u64 (?est * (r + 1)) = Some (?est * (r + 1))"
      using b by (intro chk_u64_Some) (simp add: index_consts)
    show "reduce ix = Some ?ix"
      unfolding reduce_def if_not_P [OF False] r(1) Option.bind_lunit e c ..
    show "index_ok ?ix"
      using ok every_spaced [of ?est "offsets ix" r] set_every [of r "offsets ix"] by (auto simp: index_ok_def)
    have "length (every r (offsets ix)) * (r + 1) \<le> ?len + r" by (rule length_every)
    also have "?len + 1 < MAX_INDEX_ENTRIES * (r + 1)"
    proof -
      have "?len + 1 < MAX_INDEX_ENTRIES + (?len + 1) div MAX_INDEX_ENTRIES * MAX_INDEX_ENTRIES"
        by (rule dividend_less_div_times) (simp add: index_consts)
      also have "\<dots> \<le> MAX_INDEX_ENTRIES + r * MAX_INDEX_ENTRIES" using r(2) by simp
      finally show ?thesis by (simp add: algebra_simps)
    qed
    then have "?len + r < MAX_INDEX_ENTRIES * (r + 1) + r" by simp
    finally have "length (every r (offsets ix)) * (r + 1) < (MAX_INDEX_ENTRIES + 1) * (r + 1)" by simp
    then show "length (offsets ?ix) \<le> MAX_INDEX_ENTRIES" by (simp only: mult_less_cancel2) simp
  qed (use False b in \<open>auto simp: index_consts dest: subsetD [OF set_every]\<close>)
qed

section \<open>Searching\<close>

text \<open>The last entry at or before an offset, or the zero entry that is implied before the first.\<close>

definition find_spec :: "offset_pair list \<Rightarrow> nat \<Rightarrow> offset_pair" where
  "find_spec ps off = (case filter (\<lambda>p. uncompressed p \<le> off) ps of [] \<Rightarrow> zero_pair | q # qs \<Rightarrow> last (q # qs))"

lemma takeWhile_filter:
  assumes "spaced 0 ps"
  shows "takeWhile (\<lambda>p. uncompressed p \<le> off) ps = filter (\<lambda>p. uncompressed p \<le> off) ps"
  using assms
proof (induction ps)
  case (Cons p ps)
  show ?case
  proof (cases "uncompressed p \<le> off")
    case False
    then have "filter (\<lambda>p. uncompressed p \<le> off) ps = []"
      using Cons.prems by (auto simp: spaced_def filter_empty_conv)
    with False show ?thesis by simp
  next
    case True
    with Cons show ?thesis by (simp add: spaced_def)
  qed
qed simp

lemma find_linear_eq:
  "find_linear off ps best = (case takeWhile (\<lambda>p. uncompressed p \<le> off) ps of [] \<Rightarrow> best | q # qs \<Rightarrow> last (q # qs))"
  by (induction off ps best rule: find_linear.induct) (auto split: list.splits)

lemma index_find_ok:
  assumes "spaced 0 (offsets ix)"
  shows "index_find ix off = Some (find_spec (offsets ix) off)"
proof -
  let ?tw = "takeWhile (\<lambda>p. uncompressed p \<le> off) (offsets ix)"
  have s: "find_spec (offsets ix) off = (case ?tw of [] \<Rightarrow> zero_pair | q # qs \<Rightarrow> last (q # qs))"
    by (simp add: find_spec_def takeWhile_filter [OF assms])
  show ?thesis
  proof (cases "?tw = [] \<or> length (offsets ix) \<le> 200")
    case True
    then show ?thesis
      by (cases ?tw) (auto simp: s index_find_def partition_point_def find_linear_eq not_less)
  next
    case False
    have le: "length ?tw \<le> length (offsets ix)" by (rule length_takeWhile_le)
    have "last ?tw = ?tw ! (length ?tw - 1)" using False by (intro last_conv_nth) simp
    also have "\<dots> = offsets ix ! (length ?tw - 1)" using False by (intro takeWhile_nth) simp
    finally have l: "last ?tw = offsets ix ! (length ?tw - 1)" .
    have "index_find ix off = Some (last ?tw)"
      using False le l by (cases "offsets ix") (auto simp: index_find_def partition_point_def usub_def idx_def Suc_le_eq)
    moreover have "find_spec (offsets ix) off = last ?tw" using False by (simp add: s split: list.split)
    ultimately show ?thesis by simp
  qed
qed

lemma find_spec_greatest:
  assumes "spaced 0 ps"
  shows "uncompressed (find_spec ps off) \<le> off \<and>
    (\<forall>p \<in> set ps. uncompressed p \<le> off \<longrightarrow> uncompressed p \<le> uncompressed (find_spec ps off))"
proof (cases "filter (\<lambda>p. uncompressed p \<le> off) ps" rule: rev_cases)
  case Nil
  then show ?thesis by (auto simp: find_spec_def zero_pair_def filter_empty_conv)
next
  case (snoc qs q)
  then have f: "find_spec ps off = q" by (cases qs) (auto simp: find_spec_def)
  have "sorted_wrt (\<lambda>p q. uncompressed p + 0 \<le> uncompressed q \<and> compressed p \<le> compressed q) (filter (\<lambda>p. uncompressed p \<le> off) ps)"
    using assms unfolding spaced_def by (rule sorted_wrt_filter)
  then have "\<forall>p \<in> set qs. uncompressed p \<le> uncompressed q" by (simp add: snoc sorted_wrt_append)
  moreover have "set (filter (\<lambda>p. uncompressed p \<le> off) ps) = insert q (set qs)" by (simp add: snoc)
  then have s: "{p \<in> set ps. uncompressed p \<le> off} = insert q (set qs)" by simp
  moreover have "q \<in> {p \<in> set ps. uncompressed p \<le> off}" unfolding s by simp
  moreover have "p \<in> insert q (set qs)" if "p \<in> set ps" "uncompressed p \<le> off" for p
    using that by (simp flip: s)
  ultimately show ?thesis unfolding f by auto
qed

section \<open>Numbers on the wire\<close>

lemma index_put_uvarint_eq: "index_put_uvarint buf v = buf @ uvarint v"
  by (induction buf v rule: index_put_uvarint.induct)
    (subst index_put_uvarint.simps, subst uvarint.simps, simp)

lemma read_uvarint_loop:
  "read_uvarint_from bs i x s = Inr r \<longleftrightarrow> uvarint_loop bs i x s = Some r"
  by (induction bs i x s rule: uvarint_loop.induct) (auto simp: stream_consts)

definition uvarint_dec :: "bytes \<Rightarrow> (u64 \<times> nat) option" where
  "uvarint_dec b = (case read_uvarint b of Inl e \<Rightarrow> None | Inr r \<Rightarrow> Some r)"

lemma uvarint_dec_eq: "uvarint_dec b = uvarint_loop b 0 0 0"
proof (cases "read_uvarint_from b 0 0 0")
  case (Inl e)
  then have "uvarint_loop b 0 0 0 \<noteq> Some r" for r using read_uvarint_loop [of b 0 0 0 r] by simp
  then have "uvarint_loop b 0 0 0 = None" by (cases "uvarint_loop b 0 0 0") blast+
  with Inl show ?thesis by (simp add: uvarint_dec_def read_uvarint_def)
next
  case (Inr r)
  with read_uvarint_loop [of b 0 0 0 r] show ?thesis by (simp add: uvarint_dec_def read_uvarint_def)
qed

interpretation index_uvarint: prefix_code "index_put_uvarint []" uvarint_dec
  unfolding index_put_uvarint_eq uvarint_dec_eq append_Nil by (rule uvarint.prefix_code_axioms)

lemma read_uvarint_enc: "read_uvarint (uvarint v @ rest) = Inr (v, length (uvarint v))"
  unfolding read_uvarint_def read_uvarint_loop using uvarint.dec_enc .

lemma read_uvarint_bound: "read_uvarint b = Inr (v, n) \<Longrightarrow> 0 < n \<and> n \<le> length b"
  unfolding read_uvarint_def read_uvarint_loop by (rule uvarint.dec_bound)

text \<open>The zigzag code: the sign moves to the lowest bit and complements the others.\<close>

lemma zigzag:
  fixes w :: u64
  defines "u \<equiv> push_bit 1 w XOR signed_drop_bit 63 w"
  shows "drop_bit 1 u XOR - (u AND 1) = w"
proof -
  have sgn: "bit (signed_drop_bit 63 w) n \<longleftrightarrow> n < 64 \<and> bit w 63" for n
    by (cases n) (auto simp: bit_signed_drop_bit_iff dest: bit_imp_le_length)
  have u0: "bit u 0 \<longleftrightarrow> bit w 63" unfolding u_def bit_xor_iff sgn bit_push_bit_iff by simp
  have one: "u AND 1 = (if bit w 63 then 1 else 0)"
    using u0 by (auto simp: and_one_eq bit_0 odd_iff_mod_2_eq_one)
  show ?thesis
  proof (rule bit_word_eqI)
    fix n assume "n < LENGTH(64)"
    then have n: "n < 64" by simp
    have "bit (- (u AND 1)) n \<longleftrightarrow> bit w 63" using n by (simp add: one)
    moreover have "bit (drop_bit 1 u) n \<longleftrightarrow> n < 63 \<and> bit w n \<noteq> bit w 63"
      unfolding u_def bit_drop_bit_eq comp_apply bit_xor_iff sgn bit_push_bit_iff using n by auto
    ultimately show "bit (drop_bit 1 u XOR - (u AND 1)) n \<longleftrightarrow> bit w n"
      using n by (cases "n = 63") (auto simp: bit_xor_iff)
  qed
qed

definition vcode :: "int \<Rightarrow> bytes" where
  "vcode v = put_varint [] v"

lemma put_varint_eq: "put_varint buf v = buf @ vcode v"
  by (simp add: put_varint_def vcode_def index_put_uvarint_eq Let_def)

lemma vcode_nonempty [simp]: "vcode v \<noteq> []"
  by (simp add: vcode_def put_varint_def index_put_uvarint_eq Let_def)

lemma next_varint_vcode:
  assumes "- (2 ^ 63) \<le> v" "v < 2 ^ 63"
  shows "next_varint (vcode v @ rest) = Some (Inr (v, rest))"
proof -
  let ?w = "word_of_int v :: u64"
  have "sint ?w = v" using assms by (simp add: signed_take_bit_int_eq_self signed_of_int)
  then have "read_varint (vcode v @ rest) = Inr (v, length (vcode v))"
    unfolding vcode_def put_varint_def index_put_uvarint_eq Let_def read_varint_def append_Nil read_uvarint_enc
      sum.case prod.case zigzag by simp
  then show ?thesis by (simp add: next_varint_def slice_from_def)
qed

lemma next_varint_returns:
  "\<exists>r. next_varint b = Some r \<and> (case r of Inl e \<Rightarrow> True | Inr (v, b') \<Rightarrow> - (2 ^ 63) \<le> v \<and> v < 2 ^ 63 \<and> length b' < length b)"
proof (cases "read_uvarint b")
  case (Inl e)
  then show ?thesis by (simp add: next_varint_def read_varint_def)
next
  case (Inr r)
  then obtain u n where r: "read_uvarint b = Inr (u, n)" by (cases r) auto
  let ?v = "sint (drop_bit 1 u XOR - (u AND 1))"
  have "- (2 ^ 63) \<le> ?v" "?v < 2 ^ 63" using sint_ge [of "drop_bit 1 u XOR - (u AND 1)"]
    sint_lt [of "drop_bit 1 u XOR - (u AND 1)"] by simp_all
  moreover have "next_varint b = Some (Inr (?v, drop n b))" "length (drop n b) < length b"
    using read_uvarint_bound [OF r] r by (simp_all add: next_varint_def read_varint_def slice_from_def) arith
  ultimately show ?thesis by simp
qed

lemma to_i64_small: "n \<le> MAX_I64 \<Longrightarrow> to_i64 n = int n"
proof -
  assume "n \<le> MAX_I64"
  then have "int n < 2 ^ 63" by (simp add: index_consts)
  then have "sint (word_of_int (int n) :: u64) = int n"
    by (simp add: signed_take_bit_int_eq_self signed_of_nat)
  then show ?thesis unfolding to_i64_def of_int_of_nat_eq .
qed

section \<open>The entries on the wire\<close>

fun ucode :: "int \<Rightarrow> int \<Rightarrow> offset_pair list \<Rightarrow> bytes" where
  "ucode est prev [] = []"
| "ucode est prev (p # ps) = vcode (int (uncompressed p) - (prev + est)) @ ucode est (int (uncompressed p)) ps"

fun ccode :: "int \<Rightarrow> int \<Rightarrow> offset_pair list \<Rightarrow> bytes" where
  "ccode cp prev [] = []"
| "ccode cp prev (p # ps) = vcode (int (compressed p) - (prev + cp)) @
     ccode (cp + half_i64 (int (compressed p) - (prev + cp))) (int (compressed p)) ps"

text \<open>What the loader has after the first of its two passes.\<close>

definition bare :: "offset_pair list \<Rightarrow> offset_pair list" where
  "bare = map (\<lambda>p. \<lparr>compressed = 0, uncompressed = uncompressed p\<rparr>)"

definition wire_range :: "offset_pair list \<Rightarrow> bool" where
  "wire_range ps \<longleftrightarrow> (\<forall>p \<in> set ps. compressed p < 2 ^ 62 \<and> uncompressed p \<le> MAX_I64) \<and>
     sorted_wrt (\<lambda>p q. compressed p < compressed q) ps"

lemma max_i64_int: "n \<le> MAX_I64 \<longleftrightarrow> int n < 2 ^ 63"
  by (auto simp: index_consts)

lemma next_offset_ok:
  assumes "off = prev + step + delta" "prev < off" "- (2 ^ 63) \<le> prev + step" "prev + step < 2 ^ 63" "off < 2 ^ 63" "0 \<le> prev"
  shows "next_offset m1 m2 prev step delta = Inr off"
  using assms by (simp add: next_offset_def chk_i64_def algebra_simps)

lemma put_uncomp_from_eq:
  assumes "spaced est (q # ps)" "\<forall>p \<in> set (q # ps). uncompressed p \<le> MAX_I64"
  shows "put_uncomp_from (int est) (int (uncompressed q)) ps buf =
    Some (buf @ ucode (int est) (int (uncompressed q)) ps)"
  using assms
proof (induction ps arbitrary: q buf)
  case (Cons p ps)
  have "uncompressed q + est \<le> uncompressed p" "int (uncompressed p) < 2 ^ 63" "uncompressed p \<le> MAX_I64"
    using Cons.prems by (auto simp: spaced_def max_i64_int)
  then have "chk_i64 (int (uncompressed q) + int est) = Some (int (uncompressed q) + int est)"
    "chk_i64 (int (uncompressed p) - (int (uncompressed q) + int est)) = Some (int (uncompressed p) - (int (uncompressed q) + int est))"
    "to_i64 (uncompressed p) = int (uncompressed p)"
    by (auto simp: chk_i64_def to_i64_small)
  moreover have "put_uncomp_from (int est) (int (uncompressed p)) ps b = Some (b @ ucode (int est) (int (uncompressed p)) ps)" for b
    using Cons.prems by (intro Cons.IH) (auto simp: spaced_def)
  ultimately show ?case by (simp add: put_varint_eq)
qed simp

lemma load_uncomp_from:
  assumes "spaced est (q # ps)" "0 < est" "\<forall>p \<in> set (q # ps). uncompressed p \<le> MAX_I64"
    and "has \<or> irregular_from est (uncompressed q) ps = Some False"
    and "offsets ix = bare (pre @ [q]) @ replicate (length ps) zero_pair"
  shows "load_uncomp (length ps) (Suc (length pre)) has (int est)
      ((if has then ucode (int est) (int (uncompressed q)) ps else []) @ rest) ix =
    Some (Inr rest, ix\<lparr>offsets := bare (pre @ q # ps)\<rparr>)"
  using assms
proof (induction ps arbitrary: q pre ix)
  case (Cons p ps)
  let ?i = "Suc (length pre)"
  let ?d = "if has then int (uncompressed p) - (int (uncompressed q) + int est) else 0"
  let ?tail = "(if has then ucode (int est) (int (uncompressed p)) ps else []) @ rest"
  have u: "uncompressed q + est \<le> uncompressed p" "int (uncompressed p) < 2 ^ 63" "uncompressed q \<le> MAX_I64"
    using Cons.prems(1,3) by (auto simp: spaced_def max_i64_int)
  have reg: "has \<or> uncompressed p = uncompressed q + est \<and> irregular_from est (uncompressed p) ps = Some False"
    using Cons.prems(4) by (auto simp: chk_u64_def split: if_splits)
  have code: "(if has then next_varint ((if has then ucode (int est) (int (uncompressed q)) (p # ps) else []) @ rest)
      else Some (Inr (0, (if has then ucode (int est) (int (uncompressed q)) (p # ps) else []) @ rest))) = Some (Inr (?d, ?tail))"
    using u by (simp add: next_varint_vcode)
  have at: "idx (offsets ix) (?i - 1) = Some \<lparr>compressed = 0, uncompressed = uncompressed q\<rparr>"
    "idx (offsets ix) ?i = Some zero_pair"
    using Cons.prems(5) by (simp_all add: idx_def bare_def nth_append)
  have off: "next_offset m1 m2 (to_i64 (uncompressed q)) (int est) ?d = Inr (int (uncompressed p))" for m1 m2
    using u reg Cons.prems(2) by (intro next_offset_ok) (auto simp: to_i64_small)
  let ?ix = "ix\<lparr>offsets := bare ((pre @ [q]) @ [p]) @ replicate (length ps) zero_pair\<rparr>"
  have set: "set_uncompressed ?i (nat (int (uncompressed p))) ix = Some ?ix"
    unfolding set_uncompressed_def at(2) Option.bind_lunit
    using Cons.prems(5) by (simp add: bare_def zero_pair_def list_update_append)
  have "load_uncomp (length ps) (Suc (length (pre @ [q]))) has (int est) ?tail ?ix =
      Some (Inr rest, ?ix\<lparr>offsets := bare ((pre @ [q]) @ p # ps)\<rparr>)"
    using Cons.prems reg by (intro Cons.IH) (auto simp: spaced_def)
  then show ?case
    unfolding length_Cons load_uncomp.simps code and_then_at_simps prod.case at Option.bind_lunit
    using off set by simp
qed simp

lemma half_between:
  assumes "0 \<le> cp" "0 \<le> d"
  shows "0 \<le> cp + half_i64 (d - cp)" "cp + half_i64 (d - cp) \<le> max cp d"
  using assms by (auto simp: half_i64_def)

lemma put_comp_from_eq:
  assumes "wire_range (q # ps)" "0 \<le> cp" "cp < 2 ^ 62"
  shows "put_comp_from cp (int (compressed q)) ps buf = Some (buf @ ccode cp (int (compressed q)) ps)"
  using assms
proof (induction ps arbitrary: q buf cp)
  case (Cons p ps)
  have c: "compressed q < compressed p" "compressed p < 2 ^ 62" "wire_range (p # ps)"
    using Cons.prems(1) by (auto simp: wire_range_def)
  let ?c = "int (compressed p) - (int (compressed q) + cp)"
  have cp: "0 \<le> cp + half_i64 ?c" "cp + half_i64 ?c < 2 ^ 62"
    using half_between [of cp "int (compressed p) - int (compressed q)"] c Cons.prems(2,3)
    by (simp_all add: algebra_simps)
  have "to_i64 (compressed p) = int (compressed p)" using c(2) by (intro to_i64_small) (simp add: index_consts)
  then have "put_comp_from cp (int (compressed q)) (p # ps) buf =
      put_comp_from (cp + half_i64 ?c) (int (compressed p)) ps (buf @ vcode ?c)"
    using c Cons.prems(2,3) cp by (simp add: chk_i64_def put_varint_eq)
  with Cons.IH [OF c(3) cp] show ?case by simp
qed simp

lemma load_comp_from:
  assumes "wire_range (q # ps)" "0 \<le> cp" "cp < 2 ^ 62"
    and "offsets ix = (pre @ [q]) @ bare ps"
  shows "load_comp (length ps) (Suc (length pre)) cp (ccode cp (int (compressed q)) ps @ rest) ix =
    Some (Inr rest, ix\<lparr>offsets := pre @ q # ps\<rparr>)"
  using assms
proof (induction ps arbitrary: q pre cp ix)
  case (Cons p ps)
  let ?i = "Suc (length pre)"
  let ?c = "int (compressed p) - (int (compressed q) + cp)"
  have c: "compressed q < compressed p" "compressed p < 2 ^ 62" "wire_range (p # ps)"
    using Cons.prems(1) by (auto simp: wire_range_def)
  have cp: "0 \<le> cp + half_i64 ?c" "cp + half_i64 ?c < 2 ^ 62"
    using half_between [of cp "int (compressed p) - int (compressed q)"] c Cons.prems(2,3)
    by (simp_all add: algebra_simps)
  have code: "next_varint (ccode cp (int (compressed q)) (p # ps) @ rest) =
      Some (Inr (?c, ccode (cp + half_i64 ?c) (int (compressed p)) ps @ rest))"
    using c Cons.prems(2,3) by (simp add: next_varint_vcode)
  have at: "idx (offsets ix) (?i - 1) = Some q"
    "idx (offsets ix) ?i = Some \<lparr>compressed = 0, uncompressed = uncompressed p\<rparr>"
    using Cons.prems(4) by (simp_all add: idx_def bare_def nth_append)
  have "to_i64 (compressed q) = int (compressed q)" using c by (intro to_i64_small) (simp add: index_consts)
  then have off: "next_offset m1 m2 (to_i64 (compressed q)) cp ?c = Inr (int (compressed p))" for m1 m2
    using c Cons.prems(2,3) by (intro next_offset_ok) auto
  have chk: "chk_i64 (cp + half_i64 ?c) = Some (cp + half_i64 ?c)" using cp by (simp add: chk_i64_def)
  let ?ix = "ix\<lparr>offsets := ((pre @ [q]) @ [p]) @ bare ps\<rparr>"
  have set: "set_compressed ?i (nat (int (compressed p))) ix = Some ?ix"
    unfolding set_compressed_def at(2) Option.bind_lunit
    using Cons.prems(4) by (simp add: bare_def list_update_append)
  have "load_comp (length ps) (Suc (length (pre @ [q]))) (cp + half_i64 ?c)
      (ccode (cp + half_i64 ?c) (int (compressed p)) ps @ rest) ?ix =
    Some (Inr rest, ?ix\<lparr>offsets := (pre @ [q]) @ p # ps\<rparr>)"
    using c cp by (intro Cons.IH) auto
  then show ?case
    unfolding length_Cons load_comp.simps code and_then_at_simps prod.case at Option.bind_lunit chk option.case
    using off set by simp
qed (simp add: bare_def)

end
