(* ===== verification/Index_Roundtrip.thy ===== *)
theory Index_Roundtrip
  imports Index_Correct
begin

text \<open>
  The round trips of an index: through the chunk that \<^verbatim>\<open>append_to\<close> writes and \<^verbatim>\<open>load\<close> reads, and through
  the bare payload of that chunk; and the input on which taking the envelope off panics.
\<close>

section \<open>All entries on the wire\<close>

fun ublock :: "int \<Rightarrow> offset_pair list \<Rightarrow> bytes" where
  "ublock est [] = []"
| "ublock est (p # ps) = vcode (int (uncompressed p)) @ ucode est (int (uncompressed p)) ps"

fun cblock :: "int \<Rightarrow> offset_pair list \<Rightarrow> bytes" where
  "cblock cp [] = []"
| "cblock cp (p # ps) = vcode (int (compressed p)) @ ccode cp (int (compressed p)) ps"

lemma put_uncomp_eq:
  assumes "spaced est ps" "\<forall>p \<in> set ps. uncompressed p \<le> MAX_I64"
  shows "put_uncomp (int est) ps buf = Some (buf @ ublock (int est) ps)"
proof (cases ps)
  case (Cons p qs)
  then have "to_i64 (uncompressed p) = int (uncompressed p)" using assms by (simp add: to_i64_small)
  with put_uncomp_from_eq [of est p qs] Cons assms show ?thesis by (simp add: put_varint_eq)
qed simp

lemma wire_small: "wire_range (p # ps) \<Longrightarrow> to_i64 (compressed p) = int (compressed p)"
  by (intro to_i64_small) (simp add: wire_range_def index_consts)

lemma put_comp_eq:
  assumes "wire_range ps" "0 \<le> cp" "cp < 2 ^ 62"
  shows "put_comp cp ps buf = Some (buf @ cblock cp ps)"
proof (cases ps)
  case (Cons p qs)
  with put_comp_from_eq [of p qs cp] wire_small [of p qs] assms show ?thesis by (simp add: put_varint_eq)
qed simp

lemma load_uncomp_eq:
  assumes "spaced est ps" "0 < est" "\<forall>p \<in> set ps. uncompressed p \<le> MAX_I64"
    and "has_uncomp est ps = Some has" "offsets ix = replicate (length ps) zero_pair"
  shows "load_uncomp (length ps) 0 has (int est) ((if has then ublock (int est) ps else []) @ rest) ix =
    Some (Inr rest, ix\<lparr>offsets := bare ps\<rparr>)"
proof (cases ps)
  case Nil
  with assms(4,5) show ?thesis by (auto simp: bare_def)
next
  case (Cons p qs)
  have p: "int (uncompressed p) < 2 ^ 63" using assms(3) Cons by (simp add: max_i64_int)
  have reg: "has \<or> uncompressed p = 0 \<and> irregular_from est (uncompressed p) qs = Some False"
    using assms(4) Cons by (auto split: if_splits)
  let ?ix = "ix\<lparr>offsets := bare [p] @ replicate (length qs) zero_pair\<rparr>"
  have "set_uncompressed 0 (uncompressed p) ix = Some ?ix"
    using assms(5) Cons by (simp add: set_uncompressed_def idx_def bare_def zero_pair_def)
  moreover have "load_uncomp (length qs) (Suc (length ([] :: offset_pair list))) has (int est)
      ((if has then ucode (int est) (int (uncompressed p)) qs else []) @ rest) ?ix =
    Some (Inr rest, ?ix\<lparr>offsets := bare ([] @ p # qs)\<rparr>)"
    using assms(1,2,3) reg Cons by (intro load_uncomp_from [where pre = "[]"]) auto
  ultimately show ?thesis
    using p reg by (cases has) (simp_all add: Cons next_varint_vcode)
qed

lemma load_comp_eq:
  assumes "wire_range ps" "0 \<le> cp" "cp < 2 ^ 62" "offsets ix = bare ps"
  shows "load_comp (length ps) 0 cp (cblock cp ps @ rest) ix = Some (Inr rest, ix\<lparr>offsets := ps\<rparr>)"
proof (cases ps)
  case Nil
  with assms(4) show ?thesis by (simp add: bare_def)
next
  case (Cons p qs)
  have p: "int (compressed p) < 2 ^ 63" using assms(1) Cons by (simp add: wire_range_def)
  let ?ix = "ix\<lparr>offsets := p # bare qs\<rparr>"
  have "set_compressed 0 (compressed p) ix = Some ?ix"
    using assms(4) Cons by (simp add: set_compressed_def idx_def bare_def)
  moreover have "load_comp (length qs) (Suc (length ([] :: offset_pair list))) cp (ccode cp (int (compressed p)) qs @ rest) ?ix =
      Some (Inr rest, ?ix\<lparr>offsets := [] @ p # qs\<rparr>)"
    using assms Cons by (intro load_comp_from [where pre = "[]"]) simp_all
  ultimately show ?thesis using p by (simp add: Cons next_varint_vcode)
qed

text \<open>Whether the uncompressed offsets are written is decided without an overflow.\<close>

lemma irregular_from_returns:
  assumes "est < 2 ^ 63" "prev \<le> MAX_I64" "\<forall>p \<in> set ps. uncompressed p \<le> MAX_I64"
  obtains has where "irregular_from est prev ps = Some has"
proof -
  have "\<exists>has. irregular_from est prev ps = Some has" using assms
    by (induction est prev ps rule: irregular_from.induct) (auto simp: chk_u64_def index_consts)
  with that show thesis by blast
qed

lemma has_uncomp_returns:
  assumes "est < 2 ^ 63" "\<forall>p \<in> set ps. uncompressed p \<le> MAX_I64"
  obtains has where "has_uncomp est ps = Some has"
proof (cases ps)
  case (Cons p qs)
  show ?thesis
  proof (cases "uncompressed p = 0")
    case True
    obtain has where "irregular_from est 0 qs = Some has"
      using assms Cons by (elim irregular_from_returns [of est 0 qs]) auto
    with True Cons that show ?thesis by simp
  qed (use Cons that in simp)
qed (use that [of False] in simp)

section \<open>The chunk\<close>

text \<open>The envelope of a payload, whose length is that of everything behind the length itself.\<close>

definition envelope :: "bytes \<Rightarrow> bytes" where
  "envelope p = CHUNK_TYPE_INDEX # len_bytes (length p + 16) @ INDEX_HEADER @ p @
     to_le_bytes (of_nat (length p + 20)) @ INDEX_TRAILER"

definition index_payload :: "bool \<Rightarrow> index \<Rightarrow> bytes" where
  "index_payload has ix = vcode (opt_to_wire (total_uncompressed ix)) @ vcode (opt_to_wire (total_compressed ix)) @
     vcode (int (est_block_uncomp ix)) @ vcode (int (length (offsets ix))) @ [if has then 1 else 0] @
     (if has then ublock (int (est_block_uncomp ix)) (offsets ix) else []) @
     cblock (int (est_block_uncomp ix div 2)) (offsets ix)"

lemma put_len_bytes:
  "(xs @ [t, 0, 0, 0] @ ys)[length xs + 1 := of_nat n, length xs + 2 := of_nat (n div 2 ^ 8),
     length xs + 3 := of_nat (n div 2 ^ 16)] = xs @ t # len_bytes n @ ys"
proof -
  have "(xs @ [t, 0, 0, 0] @ ys)[length xs + 1 := a, length xs + 2 := b, length xs + 3 := c] = xs @ [t, a, b, c] @ ys"
    for a b c by (simp add: list_update_append numeral_eq_Suc)
  then show ?thesis unfolding len_bytes_def by simp
qed

lemma length_index_marks: "length INDEX_HEADER = 6" "length INDEX_TRAILER = 6"
  by (simp_all add: index_consts)

lemma wire_range_every:
  assumes "wire_range ps" shows "wire_range (every n ps)"
proof -
  have "sorted_wrt P xs \<Longrightarrow> sorted_wrt P (every n xs)" for P and xs :: "offset_pair list"
  proof (induction n xs rule: every.induct)
    case (2 n x xs)
    then show ?case using set_every [of n "drop n xs"] by (auto simp: sorted_wrt_drop dest!: subsetD in_set_dropD)
  qed simp
  with assms set_every [of n ps] show ?thesis by (auto simp: wire_range_def)
qed

lemma index_append_payload:
  assumes "index_ok ix" "wire_range (offsets ix)" "est_block_uncomp ix < 2 ^ 63"
    and "\<not> over_i64 tu" "\<not> over_i64 tc"
  obtains has ix' where "index_append_to buf tu tc ix = Some (Inr (buf @ envelope (index_payload has ix')), ix')"
    "has_uncomp (est_block_uncomp ix') (offsets ix') = Some has"
    "index_ok ix'" "wire_range (offsets ix')" "est_block_uncomp ix' < 2 ^ 63" "length (offsets ix') \<le> MAX_INDEX_ENTRIES"
    "total_uncompressed ix' = tu" "total_compressed ix' = tc"
    "length (offsets ix) < MAX_INDEX_ENTRIES \<Longrightarrow> ix' = ix\<lparr>total_uncompressed := tu, total_compressed := tc\<rparr>"
    "set (offsets ix') \<subseteq> set (offsets ix)"
proof (rule reduce_ok [OF assms(1)])
  fix ix1
  assume r: "reduce ix = Some ix1" "index_ok ix1" "length (offsets ix1) \<le> MAX_INDEX_ENTRIES"
    "length (offsets ix) < MAX_INDEX_ENTRIES \<Longrightarrow> ix1 = ix"
    "MAX_INDEX_ENTRIES \<le> length (offsets ix) \<Longrightarrow> est_block_uncomp ix1 < 2 ^ 63"
    "\<exists>n. offsets ix1 = every n (offsets ix)"
  let ?ix = "ix1\<lparr>total_uncompressed := tu, total_compressed := tc\<rparr>"
  let ?est = "est_block_uncomp ix1"
  have est: "?est < 2 ^ 63" using r(4,5) assms(3) by (cases "length (offsets ix) < MAX_INDEX_ENTRIES") auto
  have w: "wire_range (offsets ix1)" using r(6) wire_range_every [OF assms(2)] by auto
  have sp: "spaced ?est (offsets ix1)" "\<forall>p \<in> set (offsets ix1). uncompressed p \<le> MAX_I64"
    using r(2) by (auto simp: index_ok_def)
  obtain has where has: "has_uncomp ?est (offsets ix1) = Some has" by (rule has_uncomp_returns [OF est sp(2)])
  have i: "to_i64 ?est = int ?est" "to_i64 (?est div 2) = int (?est div 2)"
    "to_i64 (length (offsets ix1)) = int (length (offsets ix1))"
    using est r(3) by (auto intro!: to_i64_small simp: index_consts)
  have cp: "int (?est div 2) < 2 ^ 62" using est by (simp add: div_less_iff_less_mult)
  have u: "(if has then put_uncomp (int ?est) (offsets ix1) b else Some b) =
      Some (b @ (if has then ublock (int ?est) (offsets ix1) else []))" for b
    using put_uncomp_eq [OF sp] by simp
  have no: "\<not> (over_i64 tu \<or> over_i64 tc)" using assms(4,5) by simp
  have sel: "est_block_uncomp ?ix = ?est" "offsets ?ix = offsets ix1" "total_uncompressed ?ix = tu" "total_compressed ?ix = tc"
    by simp_all
  define p where "p = index_payload has ?ix"
  let ?b = "buf @ [CHUNK_TYPE_INDEX, 0, 0, 0] @ INDEX_HEADER @ p"
  let ?b' = "?b @ to_le_bytes (of_nat (length ?b - length buf + 4 + length INDEX_TRAILER)) @ INDEX_TRAILER"
  let ?len = "length ?b' - length buf - SKIPPABLE_FRAME_HEADER"
  have "index_append_to buf tu tc ix = Some (Inr (?b'[length buf + 1 := of_nat ?len,
      length buf + 2 := of_nat (?len div 2 ^ 8), length buf + 3 := of_nat (?len div 2 ^ 16)]), ?ix)"
    unfolding index_append_to_def if_not_P [OF no] r(1) p_def index_payload_def
    by (simp only: Option.bind_lunit Let_def sel has i put_varint_eq u put_comp_eq [OF w _ cp] append_assoc
        of_nat_0_le_iff)
  also have "?b' = buf @ [CHUNK_TYPE_INDEX, 0, 0, 0] @ INDEX_HEADER @ p @ to_le_bytes (of_nat (length p + 20)) @ INDEX_TRAILER"
    by (simp add: length_index_marks add.commute [of 20])
  also have "length \<dots> - length buf - SKIPPABLE_FRAME_HEADER = length p + 16"
    by (simp add: length_index_marks SKIPPABLE_FRAME_HEADER_def)
  finally have "index_append_to buf tu tc ix = Some (Inr (buf @ envelope p), ?ix)"
    unfolding put_len_bytes envelope_def by simp
  then show thesis
    using r has w est by (intro that [of has ?ix]) (auto simp: index_ok_def p_def dest: subsetD [OF set_every])
qed

lemma wire_to_opt_inv: "\<not> over_i64 v \<Longrightarrow> wire_to_opt (opt_to_wire v) = v"
  by (auto simp: over_i64_def opt_to_wire_def wire_to_opt_def to_i64_small split: option.splits)

lemma opt_to_wire_range: "- (2 ^ 63) \<le> opt_to_wire v \<and> opt_to_wire v < 2 ^ 63"
proof -
  have "- (2 ^ 63) \<le> to_i64 n \<and> to_i64 n < 2 ^ 63" for n
    using sint_ge [of "of_nat n :: u64"] sint_lt [of "of_nat n :: u64"] by (simp add: to_i64_def)
  then show ?thesis by (simp add: opt_to_wire_def split: option.split)
qed

lemma index_load_envelope:
  assumes "index_ok ix" "wire_range (offsets ix)" "est_block_uncomp ix < 2 ^ 63" "length (offsets ix) \<le> MAX_INDEX_ENTRIES"
    and "has_uncomp (est_block_uncomp ix) (offsets ix) = Some has"
    and "total_uncompressed ix = Some tu" "tu \<le> MAX_I64" "\<not> over_i64 (total_compressed ix)"
  shows "index_load (envelope (index_payload has ix) @ rest) old = Some (Inr rest, ix)"
proof -
  define p where "p = index_payload has ix"
  define tail where "tail = to_le_bytes (of_nat (length p + 20)) @ INDEX_TRAILER @ rest"
  let ?b = "envelope p @ rest" and ?est = "est_block_uncomp ix"
  have b: "?b = CHUNK_TYPE_INDEX # len_bytes (length p + 16) @ INDEX_HEADER @ p @ tail"
    by (simp add: envelope_def tail_def)
  have lt: "length tail = 10 + length rest" "drop 4 tail = INDEX_TRAILER @ rest"
    by (simp_all add: tail_def length_index_marks)
  have guards: "\<not> length ?b \<le> 4 + length INDEX_HEADER + length INDEX_TRAILER" "\<not> (?b ! 0 \<noteq> CHUNK_TYPE_INDEX \<and> ?b ! 0 \<noteq> LEGACY_INDEX_CHUNK)"
    "read_chunk_len (drop 1 ?b) = Some ((length p + 16) mod 2 ^ 24)" "drop 4 ?b = INDEX_HEADER @ p @ tail"
    unfolding b length_index_marks by (simp_all add: length_index_marks lt read_len_bytes_mod)
  have "(length p + 16) mod 2 ^ 24 \<le> length p + 16" by simp
  then have long: "\<not> length (INDEX_HEADER @ p @ tail) < (length p + 16) mod 2 ^ 24"
    using lt by (simp add: length_index_marks)
  have tu: "opt_to_wire (Some tu) = int tu" "int tu < 2 ^ 63"
    using assms(7) by (simp_all add: opt_to_wire_def to_i64_small max_i64_int)
  have est: "to_i64 ?est = int ?est" "int ?est < 2 ^ 63" using assms(3) by (simp_all add: to_i64_small max_i64_int)
  have len: "int (length (offsets ix)) < 2 ^ 63" "\<not> int MAX_INDEX_ENTRIES < int (length (offsets ix))"
    using assms(4) by (simp_all add: index_consts)
  have half: "half_i64 (int ?est) = int (?est div 2)" by (simp add: half_i64_def)
  have cp: "int (?est div 2) < 2 ^ 62" using assms(3) by (simp add: div_less_iff_less_mult)
  have sp: "spaced ?est (offsets ix)" "0 < ?est" "\<forall>p \<in> set (offsets ix). uncompressed p \<le> MAX_I64"
    using assms(1) by (auto simp: index_ok_def)
  have hdr: "take (length INDEX_HEADER) (INDEX_HEADER @ xs) = INDEX_HEADER" "drop (length INDEX_HEADER) (INDEX_HEADER @ xs) = xs" for xs
    by simp_all
  let ?old = "old\<lparr>total_uncompressed := Some tu, total_compressed := total_compressed ix, est_block_uncomp := ?est\<rparr>"
  have tot: "wire_to_opt (opt_to_wire (total_compressed ix)) = total_compressed ix"
    "next_varint (vcode (opt_to_wire (total_compressed ix)) @ xs) = Some (Inr (opt_to_wire (total_compressed ix), xs))" for xs
    using assms(8) opt_to_wire_range [of "total_compressed ix"] by (simp_all add: wire_to_opt_inv next_varint_vcode)
  have u: "load_uncomp (length (offsets ix)) 0 has (int ?est)
      ((if has then ublock (int ?est) (offsets ix) else []) @ r) (?old\<lparr>offsets := replicate (length (offsets ix)) zero_pair\<rparr>) =
    Some (Inr r, ?old\<lparr>offsets := bare (offsets ix)\<rparr>)" for r
    using load_uncomp_eq [OF sp assms(5)] by simp
  have c: "load_comp (length (offsets ix)) 0 (int (?est div 2)) (cblock (int (?est div 2)) (offsets ix) @ r)
      (?old\<lparr>offsets := bare (offsets ix)\<rparr>) = Some (Inr r, ?old\<lparr>offsets := offsets ix\<rparr>)" for r
    using load_comp_eq [OF assms(2) _ cp] by simp
  have fin: "?old\<lparr>offsets := offsets ix\<rparr> = ix" using assms(6) by (cases ix, cases old) simp
  show ?thesis
    unfolding index_load_def p_def [symmetric] if_not_P [OF guards(1)] if_not_P [OF guards(2)] guards(3,4)
      Option.bind_lunit Let_def if_not_P [OF long] hdr
    unfolding p_def index_payload_def append_assoc assms(6) tu(1)
    using tu(2) est len u by (cases has) (simp_all add: next_varint_vcode tot half c fin lt length_index_marks)
qed

text \<open>
  What \<^verbatim>\<open>append_to\<close> writes, \<^verbatim>\<open>load\<close> reads back: the same index as the writer keeps, with what follows
  the chunk left over.
\<close>

lemma index_roundtrip_at:
  assumes "index_ok ix" "wire_range (offsets ix)" "est_block_uncomp ix < 2 ^ 63" "tu \<le> MAX_I64" "\<not> over_i64 tc"
  obtains chunk ix' where "index_append_to buf (Some tu) tc ix = Some (Inr (buf @ chunk), ix')"
    "\<And>rest old. index_load (chunk @ rest) old = Some (Inr rest, ix')"
    "length (offsets ix) < MAX_INDEX_ENTRIES \<Longrightarrow> ix' = ix\<lparr>total_uncompressed := Some tu, total_compressed := tc\<rparr>"
    "\<exists>p. chunk = envelope p \<and> p \<noteq> [] \<and> length p < 2 ^ 23"
    "index_ok ix'" "set (offsets ix') \<subseteq> set (offsets ix)" "total_uncompressed ix' = Some tu" "total_compressed ix' = tc"
proof -
  have "\<not> over_i64 (Some tu)" using assms(4) by (simp add: over_i64_def)
  from index_append_payload [OF assms(1,2,3) this assms(5), of buf]
  obtain has ix' where a: "index_append_to buf (Some tu) tc ix = Some (Inr (buf @ envelope (index_payload has ix')), ix')"
    "has_uncomp (est_block_uncomp ix') (offsets ix') = Some has"
    "index_ok ix'" "wire_range (offsets ix')" "est_block_uncomp ix' < 2 ^ 63" "length (offsets ix') \<le> MAX_INDEX_ENTRIES"
    "total_uncompressed ix' = Some tu" "total_compressed ix' = tc"
    "length (offsets ix) < MAX_INDEX_ENTRIES \<Longrightarrow> ix' = ix\<lparr>total_uncompressed := Some tu, total_compressed := tc\<rparr>"
    "set (offsets ix') \<subseteq> set (offsets ix)"
    by blast
  have v: "length (vcode v) \<le> 10" for v
    by (simp add: vcode_def put_varint_def index_put_uvarint_eq Let_def length_uvarint_max)
  have u: "length (ucode est prev ps) \<le> 10 * length ps" for est prev ps
  proof (induction ps arbitrary: prev)
    case (Cons p ps)
    from Cons [of "int (uncompressed p)"] v [of "int (uncompressed p) - (prev + est)"] show ?case by simp
  qed simp
  have c: "length (ccode cp prev ps) \<le> 10 * length ps" for cp prev ps
  proof (induction ps arbitrary: cp prev)
    case (Cons p ps)
    from Cons [of "cp + half_i64 (int (compressed p) - (prev + cp))" "int (compressed p)"]
      v [of "int (compressed p) - (prev + cp)"] show ?case by simp
  qed simp
  have "length (ublock est ps) \<le> 10 * length ps" "length (cblock est ps) \<le> 10 * length ps" for est ps
    using v u c by (cases ps; simp add: add_mono)+
  from this(1) [of "int (est_block_uncomp ix')" "offsets ix'"] this(2) [of "int (est_block_uncomp ix' div 2)" "offsets ix'"]
  have "length (index_payload has ix') \<le> 41 + 20 * MAX_INDEX_ENTRIES"
    using a(6) v [of "opt_to_wire (total_uncompressed ix')"] v [of "opt_to_wire (total_compressed ix')"]
      v [of "int (est_block_uncomp ix')"] v [of "int (length (offsets ix'))"]
    by (simp add: index_payload_def)
  then have "length (index_payload has ix') < 2 ^ 23" by (simp add: index_consts)
  moreover have "index_payload has ix' \<noteq> []" by (simp add: index_payload_def)
  moreover have "index_load (envelope (index_payload has ix') @ rest) old = Some (Inr rest, ix')" for rest old
    using a assms(4,5) by (intro index_load_envelope) auto
  ultimately show ?thesis using a(1,3,7,8,9,10) by (intro that [of "envelope (index_payload has ix')" ix']) auto
qed

section \<open>The bare payload\<close>

lemma restore_envelope: "p \<noteq> [] \<Longrightarrow> restore_index_headers p = envelope p"
  using put_len_bytes [of "[]" CHUNK_TYPE_INDEX "INDEX_HEADER @ p @ to_le_bytes (of_nat (length p + 20)) @ INDEX_TRAILER" "length p + 16"]
  by (simp add: restore_index_headers_def envelope_def Let_def length_index_marks SKIPPABLE_FRAME_HEADER_def add.commute [of 20]
      add.commute [of 16])

lemma remove_envelope:
  assumes "p \<noteq> []" "length p < 2 ^ 23"
  shows "remove_index_headers (envelope p @ rest) = Some (Some p)"
proof -
  define tail where "tail = to_le_bytes (of_nat (length p + 20) :: u32)"
  have b: "envelope p @ rest = CHUNK_TYPE_INDEX # len_bytes (length p + 16) @ INDEX_HEADER @ p @ tail @ INDEX_TRAILER @ rest"
    by (simp add: envelope_def tail_def)
  have "length tail = 4" by (simp add: tail_def)
  moreover have "0 < length p" using assms(1) by simp
  moreover have "read_chunk_len (len_bytes (length p + 16) @ xs) = Some (length p + 16)" for xs
    using assms(2) by (intro read_len_bytes) simp
  ultimately show ?thesis
    unfolding b remove_index_headers_def
    by (simp add: length_index_marks slice_def Suc_le_eq)
qed

text \<open>
  A chunk length under six makes the slice of the header marks panic, although malformed input is
  documented to give None.
\<close>

lemma remove_headers_panics:
  assumes "17 \<le> length b" shows "remove_index_headers (CHUNK_TYPE_INDEX # 0 # 0 # 0 # b) = None"
proof -
  have "read_chunk_len (0 # 0 # 0 # b) = Some 0"
    using read_len_bytes [of 0 b] by (simp add: len_bytes_def)
  then show ?thesis using assms by (simp add: remove_index_headers_def length_index_marks slice_def)
qed

end
