(* ===== verification/Writer.thy ===== *)
theory Writer
  imports Index Crc
begin

text \<open>
  \<^verbatim>\<open>stream/writer.rs\<close>: the single-threaded stream writer. Each method maps the writer to its result
  and the writer after the call, also when it returns an error; None is a panic. The sink is a
  parameter. An error that the code clones has the kind and the text of the original, so both copies
  are the same value here. Texts are in UTF-8.
\<close>

section \<open>Options\<close>

record writer_builder =
  b_block_size :: nat
  b_level :: level
  b_uncompressed :: bool
  b_padding :: nat
  b_flush_on_write :: bool
  b_generate_index :: bool
  b_append_index :: bool

definition writer_builder_default :: writer_builder where
  "writer_builder_default = \<lparr>b_block_size = DEFAULT_BLOCK_SIZE, b_level = Balanced, b_uncompressed = False,
     b_padding = 0, b_flush_on_write = False, b_generate_index = True, b_append_index = False\<rparr>"

definition set_block_size :: "nat \<Rightarrow> writer_builder \<Rightarrow> writer_builder" where
  "set_block_size n b = b\<lparr>b_block_size := n\<rparr>"

definition set_level :: "level \<Rightarrow> writer_builder \<Rightarrow> writer_builder" where
  "set_level l b = b\<lparr>b_level := l, b_uncompressed := False\<rparr>"

definition set_uncompressed_blocks :: "writer_builder \<Rightarrow> writer_builder" where
  "set_uncompressed_blocks b = b\<lparr>b_uncompressed := True\<rparr>"

definition set_padding :: "nat \<Rightarrow> writer_builder \<Rightarrow> writer_builder" where
  "set_padding n b = b\<lparr>b_padding := if n \<le> 1 then 0 else n\<rparr>"

definition set_flush_on_write :: "writer_builder \<Rightarrow> writer_builder" where
  "set_flush_on_write b = b\<lparr>b_flush_on_write := True\<rparr>"

definition set_generate_index :: "bool \<Rightarrow> writer_builder \<Rightarrow> writer_builder" where
  "set_generate_index g b = b\<lparr>b_generate_index := g\<rparr>"

definition set_append_index :: "writer_builder \<Rightarrow> writer_builder" where
  "set_append_index b = b\<lparr>b_generate_index := True, b_append_index := True\<rparr>"

section \<open>The writer\<close>

record 'w writer =
  w_sink :: 'w
  ibuf :: bytes
  obuf :: bytes
  w_block_size :: nat
  w_level :: level
  w_uncompressed :: bool
  w_padding :: nat
  w_flush_on_write :: bool
  w_append_index :: bool
  w_index :: "index option"
  wrote_header :: bool
  uncomp_written :: nat
  comp_written :: nat
  w_err :: "io_error option"

definition writer_with_builder :: "'w \<Rightarrow> writer_builder \<Rightarrow> 'w writer option" where
  "writer_with_builder w b = do {
     ix \<leftarrow> (if b_generate_index b \<or> b_append_index b then do {
         ix \<leftarrow> index_reset (b_block_size b) index_default; Some (Some ix) }
       else Some None);
     Some \<lparr>w_sink = w, ibuf = [], obuf = [], w_block_size = b_block_size b, w_level = b_level b,
       w_uncompressed = b_uncompressed b, w_padding = b_padding b, w_flush_on_write = b_flush_on_write b,
       w_append_index = b_append_index b, w_index = ix, wrote_header = False, uncomp_written = 0,
       comp_written = 0, w_err = None\<rparr>
   }"

definition writer_build :: "'w \<Rightarrow> writer_builder \<Rightarrow> (stream_error + 'w writer) option" where
  "writer_build w b =
     (if \<not> (MIN_BLOCK_SIZE \<le> b_block_size b \<and> b_block_size b \<le> MAX_BLOCK_SIZE) then
        Some (Inl (SConfig ''block_size must be in [MIN_BLOCK_SIZE, MAX_BLOCK_SIZE]''))
      else if MAX_BLOCK_SIZE < b_padding b then Some (Inl (SConfig (''padding must be '' @ [CHR 0xE2, CHR 0x89, CHR 0xA4] @ '' MAX_BLOCK_SIZE'')))
      else do { st \<leftarrow> writer_with_builder w b; Some (Inr st) })"

text \<open>\<open>Writer::new\<close>, whose \<open>expect\<close> panics on an error.\<close>

definition writer_new :: "'w \<Rightarrow> 'w writer option" where
  "writer_new w = do {
     r \<leftarrow> writer_build w writer_builder_default;
     case r of Inl e \<Rightarrow> None | Inr st \<Rightarrow> Some st
   }"

definition writer_reset :: "'w \<Rightarrow> 'w writer \<Rightarrow> 'w writer option" where
  "writer_reset w st = do {
     let st = st\<lparr>w_sink := w, ibuf := [], obuf := [], wrote_header := False, uncomp_written := 0,
       comp_written := 0, w_err := None\<rparr>;
     case w_index st of
       None \<Rightarrow> Some st
     | Some ix \<Rightarrow> do { ix \<leftarrow> index_reset (w_block_size st) ix; Some (st\<lparr>w_index := Some ix\<rparr>) }
   }"

record written_counts =
  written_uncompressed :: nat
  written_compressed :: nat

definition writer_written :: "'w writer \<Rightarrow> written_counts" where
  "writer_written st = \<lparr>written_uncompressed = uncomp_written st, written_compressed = comp_written st\<rparr>"

section \<open>Writing chunks\<close>

type_synonym ('w, 'a) writer_res = "((io_error + 'a) \<times> 'w writer) option"

definition write_all_tracked :: "'w sink_fns \<Rightarrow> bytes \<Rightarrow> 'w writer \<Rightarrow> ('w, unit) writer_res" where
  "write_all_tracked fns p st = (case write_all fns p (w_sink st) of
     (Inr u, w) \<Rightarrow> do {
       n \<leftarrow> chk_u64 (comp_written st + length p);
       Some (Inr (), st\<lparr>w_sink := w, comp_written := n\<rparr>) }
   | (Inl e, w) \<Rightarrow> Some (Inl e, st\<lparr>w_sink := w, w_err := Some e\<rparr>))"

definition ensure_header :: "'w sink_fns \<Rightarrow> 'w writer \<Rightarrow> ('w, unit) writer_res" where
  "ensure_header fns st =
     (if \<not> wrote_header st then do {
        h \<leftarrow> make_stream_header (w_block_size st);
        with_st (write_all_tracked fns h st) (\<lambda>_ st. Some (Inr (), st\<lparr>wrote_header := True\<rparr>)) }
      else Some (Inr (), st))"

definition index_block_start :: "'w writer \<Rightarrow> ('w, unit) writer_res" where
  "index_block_start st = (case w_index st of
     None \<Rightarrow> Some (Inr (), st)
   | Some ix \<Rightarrow> do {
       (r, ix) \<leftarrow> index_add (comp_written st) (uncomp_written st) ix;
       Some (case r of Inl e \<Rightarrow> Inl (index_error_to_io e) | Inr u \<Rightarrow> Inr u, st\<lparr>w_index := Some ix\<rparr>) })"

text \<open>The header of a data chunk, with the checksum behind the length.\<close>

definition data_header :: "byte \<Rightarrow> nat \<Rightarrow> u32 \<Rightarrow> bytes" where
  "data_header t chunk_len crc = t # len_bytes chunk_len @ to_le_bytes crc"

definition emit_block :: "'w sink_fns \<Rightarrow> bytes \<Rightarrow> 'w writer \<Rightarrow> ('w, unit) writer_res" where
  "emit_block fns block st =
     with_st (index_block_start st) (\<lambda>_ st.
     let crc = masked_crc32c block in
     with_st (if w_uncompressed st then Some (Inr False, st)
         else do {
           r \<leftarrow> append_encoded_chunk_body [] block (w_level st);
           Some (case r of
             Inl e \<Rightarrow> (Inl (stream_error_to_io (SBlock e)), st\<lparr>obuf := []\<rparr>)
           | Inr (out, ok) \<Rightarrow> (Inr ok, st\<lparr>obuf := out\<rparr>)) }) (\<lambda>compressed_ok st.
     if compressed_ok then
       let body = obuf st in
       with_st (write_all_tracked fns
           (data_header CHUNK_TYPE_MINLZ_COMPRESSED_DATA (CHECKSUM_SIZE + length body) crc) st) (\<lambda>_ st. do {
         (res, st) \<leftarrow> write_all_tracked fns body (st\<lparr>obuf := []\<rparr>);
         Some (res, st\<lparr>obuf := []\<rparr>) })
     else
       with_st (write_all_tracked fns
           (data_header CHUNK_TYPE_UNCOMPRESSED_DATA (CHECKSUM_SIZE + length block) crc) st) (\<lambda>_ st.
         write_all_tracked fns block st)))"

definition write_blocks_step ::
  "'w sink_fns \<Rightarrow> bytes \<times> 'w writer \<Rightarrow> (bytes \<times> 'w writer + (io_error + unit) \<times> 'w writer) option" where
  "write_blocks_step fns = (\<lambda>(data, st).
     if data \<noteq> [] then do {
       let n = min (length data) (w_block_size st);
       (r, st) \<leftarrow> emit_block fns (take n data) st;
       case r of
         Inl e \<Rightarrow> Some (Inr (Inl e, st))
       | Inr _ \<Rightarrow> do {
           u \<leftarrow> chk_u64 (uncomp_written st + n);
           Some (Inl (drop n data, st\<lparr>uncomp_written := u\<rparr>)) } }
     else Some (Inr (Inr (), st)))"

definition write_blocks :: "'w sink_fns \<Rightarrow> bytes \<Rightarrow> 'w writer \<Rightarrow> ('w, unit) writer_res" where
  "write_blocks fns data st =
     with_st (ensure_header fns st) (\<lambda>_ st. loop (write_blocks_step fns) (data, st))"

definition flush_ibuf :: "'w sink_fns \<Rightarrow> 'w writer \<Rightarrow> ('w, unit) writer_res" where
  "flush_ibuf fns st =
     (if ibuf st = [] then Some (Inr (), st)
      else do {
        (res, st) \<leftarrow> write_blocks fns (ibuf st) (st\<lparr>ibuf := []\<rparr>);
        Some (res, st\<lparr>ibuf := []\<rparr>) })"

definition emit_eof :: "'w sink_fns \<Rightarrow> 'w writer \<Rightarrow> ('w, unit) writer_res" where
  "emit_eof fns st = do {
     (v, n) \<leftarrow> stream_put_uvarint (replicate MAX_VARINT_LEN_64 0) (of_nat (uncomp_written st));
     p \<leftarrow> slice ([CHUNK_TYPE_EOF, of_nat n, 0, 0] @ v) 0 (CHUNK_HEADER_SIZE + n);
     write_all_tracked fns p st
   }"

definition pad_step :: "nat \<Rightarrow> nat \<Rightarrow> (nat + nat) option" where
  "pad_step multiple to_add =
     (if to_add < CHUNK_HEADER_SIZE then do { t \<leftarrow> chk_u64 (to_add + multiple); Some (Inl t) } else Some (Inr to_add))"

definition zeros_step ::
  "'w sink_fns \<Rightarrow> nat \<times> 'w writer \<Rightarrow> (nat \<times> 'w writer + (io_error + unit) \<times> 'w writer) option" where
  "zeros_step fns = (\<lambda>(remaining, st).
     if 0 < remaining then do {
       let n = min remaining 4096;
       (r, st) \<leftarrow> write_all_tracked fns (replicate n 0) st;
       case r of Inl e \<Rightarrow> Some (Inr (Inl e, st)) | Inr _ \<Rightarrow> Some (Inl (remaining - n, st)) }
     else Some (Inr (Inr (), st)))"

definition emit_padding :: "'w sink_fns \<Rightarrow> 'w writer \<Rightarrow> ('w, unit) writer_res" where
  "emit_padding fns st =
     (if w_padding st < 2 then Some (Inr (), st)
      else let multiple = w_padding st; leftover = comp_written st mod multiple in
        if leftover = 0 then Some (Inr (), st)
        else do {
          to_add \<leftarrow> loop (pad_step multiple) (multiple - leftover);
          if MAX_BLOCK_SIZE + CHUNK_HEADER_SIZE < to_add then Some (Inr (), st)
          else
            let body_len = to_add - CHUNK_HEADER_SIZE in
            with_st (write_all_tracked fns (CHUNK_TYPE_PADDING # len_bytes body_len) st) (\<lambda>_ st.
              loop (zeros_step fns) (body_len, st)) })"

section \<open>User chunks\<close>

definition hex_digit :: "byte \<Rightarrow> char" where
  "hex_digit d = ''0123456789abcdef'' ! unat d"

definition show_hex_byte :: "byte \<Rightarrow> string" where
  "show_hex_byte b = ''0x'' @ [hex_digit (drop_bit 4 b), hex_digit (b AND 15)]"

definition add_user_chunk :: "'w sink_fns \<Rightarrow> byte \<Rightarrow> bytes \<Rightarrow> 'w writer \<Rightarrow> ('w, unit) writer_res" where
  "add_user_chunk fns cid data st =
     (if \<not> (MIN_USER_SKIPPABLE_CHUNK \<le> cid \<and> cid \<le> MAX_USER_NON_SKIPPABLE_CHUNK) then
        Some (Inl (Io_Error InvalidInput (''user-chunk id '' @ show_hex_byte cid @ '' out of range'')), st)
      else if MAX_USER_CHUNK_SIZE < length data then
        Some (Inl (Io_Error InvalidInput ''user-chunk exceeds maximum size''), st)
      else case w_err st of
        Some e \<Rightarrow> Some (Inl e, st)
      | None \<Rightarrow>
          with_st (flush_ibuf fns st) (\<lambda>_ st.
          with_st (ensure_header fns st) (\<lambda>_ st.
          with_st (write_all_tracked fns (cid # len_bytes (length data)) st) (\<lambda>_ st.
          write_all_tracked fns data st))))"

section \<open>Closing\<close>

definition close_index_bytes :: "bool \<Rightarrow> 'w writer \<Rightarrow> ('w, bytes) writer_res" where
  "close_index_bytes build_index st =
     (if build_index then do {
        ix \<leftarrow> w_index st;
        let comp_total = (if w_padding st \<le> 1 then Some (comp_written st) else None);
        (r, ix) \<leftarrow> index_append_to [] (Some (uncomp_written st)) comp_total ix;
        let st = st\<lparr>w_index := Some ix\<rparr>;
        case r of
          Inl e \<Rightarrow> Some (Inl (index_error_to_io e), st)
        | Inr index_bytes \<Rightarrow>
            if w_append_index st then do {
              n \<leftarrow> chk_u64 (comp_written st + length index_bytes);
              Some (Inr index_bytes, st\<lparr>comp_written := n\<rparr>) }
            else Some (Inr index_bytes, st) }
      else Some (Inr [], st))"

definition write_index_chunk :: "'w sink_fns \<Rightarrow> bytes \<Rightarrow> 'w writer \<Rightarrow> ('w, unit) writer_res" where
  "write_index_chunk fns index_bytes st =
     (if w_append_index st \<and> index_bytes \<noteq> [] then
        Some (case write_all fns index_bytes (w_sink st) of
          (Inr u, w) \<Rightarrow> (Inr (), st\<lparr>w_sink := w\<rparr>)
        | (Inl e, w) \<Rightarrow> (Inl e, st\<lparr>w_sink := w, w_err := Some e\<rparr>))
      else Some (Inr (), st))"

definition close_tail :: "'w sink_fns \<Rightarrow> bool \<Rightarrow> 'w writer \<Rightarrow> ('w, bytes) writer_res" where
  "close_tail fns build_index st =
     with_st (emit_eof fns st) (\<lambda>_ st.
     with_st (close_index_bytes build_index st) (\<lambda>index_bytes st.
     with_st (emit_padding fns st) (\<lambda>_ st.
     with_st (write_index_chunk fns index_bytes st) (\<lambda>_ st.
     Some (Inr index_bytes, st)))))"

definition close_inner :: "'w sink_fns \<Rightarrow> bool \<Rightarrow> 'w writer \<Rightarrow> ('w, bytes) writer_res" where
  "close_inner fns build_index st =
     with_st (flush_ibuf fns st) (\<lambda>_ st.
     with_st (ensure_header fns st) (\<lambda>_ st.
     with_st (close_tail fns build_index st) (\<lambda>index_bytes st.
     Some (case flush_sink fns (w_sink st) of
       (Inr u, w) \<Rightarrow> (Inr index_bytes, st\<lparr>w_sink := w\<rparr>)
     | (Inl e, w) \<Rightarrow> (Inl e, st\<lparr>w_sink := w\<rparr>)))))"

text \<open>Both consume the writer; the sink it leaves is part of the result, also when it is dropped.\<close>

definition writer_finish :: "'w sink_fns \<Rightarrow> 'w writer \<Rightarrow> ((io_error + unit) \<times> 'w) option" where
  "writer_finish fns st = (case w_err st of
     Some e \<Rightarrow> Some (Inl e, w_sink st)
   | None \<Rightarrow> do {
       (r, st) \<leftarrow> close_inner fns (w_append_index st) st;
       Some (case r of Inl e \<Rightarrow> Inl e | Inr _ \<Rightarrow> Inr (), w_sink st) })"

definition writer_close_index :: "'w sink_fns \<Rightarrow> 'w writer \<Rightarrow> ((io_error + bytes) \<times> 'w) option" where
  "writer_close_index fns st = (case w_err st of
     Some e \<Rightarrow> Some (Inl e, w_sink st)
   | None \<Rightarrow>
       if w_index st = None then
         Some (Inl (Io_Error InvalidInput ''minlz: close_index called but generate_index is false''), w_sink st)
       else do { (r, st) \<leftarrow> close_inner fns True st; Some (r, w_sink st) })"

section \<open>Writing data\<close>

definition write_step ::
  "'w sink_fns \<Rightarrow> bytes \<times> nat \<times> 'w writer \<Rightarrow> (bytes \<times> nat \<times> 'w writer + (io_error + nat) \<times> 'w writer) option" where
  "write_step fns = (\<lambda>(p, written, st).
     if p \<noteq> [] then do {
       free \<leftarrow> usub (w_block_size st) (length (ibuf st));
       if ibuf st = [] \<and> w_block_size st \<le> length p then
         if w_block_size st = 0 then None
         else do {
           let n = min (length p - length p mod w_block_size st) (length p);
           (r, st) \<leftarrow> write_blocks fns (take n p) st;
           case r of Inl e \<Rightarrow> Some (Inr (Inl e, st)) | Inr _ \<Rightarrow> Some (Inl (drop n p, written + n, st)) }
       else do {
         let n = min (length p) free;
         let st = st\<lparr>ibuf := ibuf st @ take n p\<rparr>;
         (r, st) \<leftarrow> (if length (ibuf st) = w_block_size st then flush_ibuf fns st else Some (Inr (), st));
         case r of Inl e \<Rightarrow> Some (Inr (Inl e, st)) | Inr _ \<Rightarrow> Some (Inl (drop n p, written + n, st)) } }
     else Some (Inr (Inr written, st)))"

definition writer_write :: "'w sink_fns \<Rightarrow> bytes \<Rightarrow> 'w writer \<Rightarrow> ('w, nat) writer_res" where
  "writer_write fns p st = (case w_err st of
     Some e \<Rightarrow> Some (Inl e, st)
   | None \<Rightarrow>
       if p = [] then Some (Inr 0, st)
       else if w_flush_on_write st then with_st (write_blocks fns p st) (\<lambda>_ st. Some (Inr (length p), st))
       else loop (write_step fns) (p, 0, st))"

definition writer_flush :: "'w sink_fns \<Rightarrow> 'w writer \<Rightarrow> ('w, unit) writer_res" where
  "writer_flush fns st = (case w_err st of
     Some e \<Rightarrow> Some (Inl e, st)
   | None \<Rightarrow> with_st (flush_ibuf fns st) (\<lambda>_ st.
       Some (case flush_sink fns (w_sink st) of (r, w) \<Rightarrow> (r, st\<lparr>w_sink := w\<rparr>))))"

end
