(* ===== verification/Stream_Spec.thy ===== *)
theory Stream_Spec
  imports Stream_Format Block_Correct Crc
begin

text \<open>
  What a stream is: the identifier, chunks that carry data or something else, the end-of-stream chunk
  with the total, and chunks behind it that carry no data. The writer is proved to produce such a
  stream and the reader to read it.
\<close>

definition chunk :: "byte \<Rightarrow> bytes \<Rightarrow> bytes" where
  "chunk t body = t # len_bytes (length body) @ body"

lemma length_chunk [simp]: "length (chunk t body) = length body + 4"
  by (simp add: chunk_def)

lemma chunk_nonempty [simp]: "chunk t body \<noteq> []"
  by (simp add: chunk_def)

text \<open>What a chunk brings: data, or something the stream only passes on.\<close>

datatype item = Data bytes | Other byte bytes

text \<open>
  A data chunk holds at most \<open>m\<close> bytes and their checksum, either as they are or as a smaller
  compressed body; the third kind has the checksum of the compressed bytes.
\<close>

definition data_chunk :: "nat \<Rightarrow> bytes \<Rightarrow> bytes \<Rightarrow> bool" where
  "data_chunk m d c \<longleftrightarrow> length d \<le> m \<and>
     (c = chunk CHUNK_TYPE_UNCOMPRESSED_DATA (to_le_bytes (masked_crc32c d) @ d) \<or>
      (\<exists>body. spec_chunk body = Some d \<and> length body \<le> length d \<and>
        (c = chunk CHUNK_TYPE_MINLZ_COMPRESSED_DATA (to_le_bytes (masked_crc32c d) @ body) \<or>
         (\<exists>v k. get_uvarint body = Some (v, k) \<and>
           c = chunk CHUNK_TYPE_MINLZ_COMPRESSED_DATA_COMP_CRC (to_le_bytes (masked_crc32c (drop k body)) @ body)))))"

fun item_chunk :: "nat \<Rightarrow> item \<Rightarrow> bytes \<Rightarrow> bool" where
  "item_chunk m (Data d) c = data_chunk m d c"
| "item_chunk m (Other t body) c =
     (c = chunk t body \<and> MAX_NON_SKIPPABLE_CHUNK < t \<and> t \<noteq> CHUNK_TYPE_STREAM_IDENTIFIER \<and> length body \<le> MAX_USER_CHUNK_SIZE)"

fun item_data :: "item \<Rightarrow> bytes" where
  "item_data (Data d) = d"
| "item_data (Other t body) = []"

definition data_of :: "item list \<Rightarrow> bytes" where
  "data_of its = concat (map item_data its)"

lemma data_of_simps [simp]:
  "data_of [] = []" "data_of (it # its) = item_data it @ data_of its" "data_of (xs @ ys) = data_of xs @ data_of ys"
  by (simp_all add: data_of_def)

text \<open>Data and passed-on chunks in their order, without the division of the data into blocks.\<close>

fun item_symbols :: "item \<Rightarrow> (byte + byte \<times> bytes) list" where
  "item_symbols (Data d) = map Inl d"
| "item_symbols (Other t body) = [Inr (t, body)]"

definition symbols :: "item list \<Rightarrow> (byte + byte \<times> bytes) list" where
  "symbols its = concat (map item_symbols its)"

lemma symbols_simps [simp]:
  "symbols [] = []" "symbols (it # its) = item_symbols it @ symbols its" "symbols (xs @ ys) = symbols xs @ symbols ys"
  by (simp_all add: symbols_def)

definition symbol_data :: "(byte + byte \<times> bytes) list \<Rightarrow> bytes" where
  "symbol_data ss = concat (map (case_sum (\<lambda>b. [b]) (\<lambda>_. [])) ss)"

lemma symbol_data_simps [simp]:
  "symbol_data [] = []" "symbol_data (Inl b # ss) = b # symbol_data ss" "symbol_data (Inr x # ss) = symbol_data ss"
  "symbol_data (xs @ ys) = symbol_data xs @ symbol_data ys" "symbol_data (map Inl d) = d"
proof -
  show "symbol_data (map Inl d) = d" by (induction d) (simp_all add: symbol_data_def)
qed (simp_all add: symbol_data_def)

lemma data_of_symbols: "data_of its = symbol_data (symbols its)"
proof (induction its)
  case (Cons it its)
  then show ?case by (cases it) simp_all
qed simp

text \<open>Chunks that every reader may skip.\<close>

definition skippable :: "item list \<Rightarrow> bool" where
  "skippable its \<longleftrightarrow> (\<forall>it \<in> set its. case it of
     Data d \<Rightarrow> False
   | Other t body \<Rightarrow> t = CHUNK_TYPE_PADDING \<or> t < MIN_USER_NON_SKIPPABLE_CHUNK)"

lemma skippable_simps [simp]:
  "skippable []" "skippable (xs @ ys) \<longleftrightarrow> skippable xs \<and> skippable ys"
  "skippable (it # its) \<longleftrightarrow> (\<exists>t body. it = Other t body \<and> (t = CHUNK_TYPE_PADDING \<or> t < MIN_USER_NON_SKIPPABLE_CHUNK)) \<and> skippable its"
  by (auto simp: skippable_def split: item.splits)

lemma skippable_data: "skippable its \<Longrightarrow> data_of its = []"
  by (induction its) auto

definition eof_chunk :: "nat \<Rightarrow> bytes" where
  "eof_chunk n = chunk CHUNK_TYPE_EOF (uvarint (of_nat n))"

text \<open>The parts of a stream, \<open>cs\<close> being the chunks of its items.\<close>

definition stream_parts :: "nat \<Rightarrow> item list \<Rightarrow> item list \<Rightarrow> bytes list \<Rightarrow> bytes \<Rightarrow> bool" where
  "stream_parts m its trailer cs bs \<longleftrightarrow> (\<exists>h ts. make_stream_header m = Some h \<and>
     list_all2 (item_chunk m) its cs \<and> list_all2 (item_chunk 0) trailer ts \<and> skippable trailer \<and>
     bs = h @ concat cs @ eof_chunk (length (data_of its)) @ concat ts)"

definition stream_of :: "nat \<Rightarrow> item list \<Rightarrow> item list \<Rightarrow> bytes \<Rightarrow> bool" where
  "stream_of m its trailer bs \<longleftrightarrow> (\<exists>cs. stream_parts m its trailer cs bs)"

lemma make_stream_header_chunk:
  "make_stream_header n = Some h \<Longrightarrow> \<exists>ind. block_size_indicator n = Some ind \<and>
     h = chunk CHUNK_TYPE_STREAM_IDENTIFIER (MAGIC_BODY @ [ind])"
  by (auto simp: make_stream_header_def stream_consts chunk_def len_bytes_def bind_eq_Some_conv)

lemma item_chunk_length: "item_chunk m it c \<Longrightarrow> 4 \<le> length c"
  by (cases it) (auto simp: data_chunk_def)

lemma item_chunks_nonempty: "list_all2 (item_chunk m) its cs \<Longrightarrow> \<forall>c \<in> set cs. c \<noteq> []"
proof (induction rule: list_all2_induct)
  case (Cons it its c cs)
  then show ?case using item_chunk_length [of m it c] by auto
qed simp

lemma length_header: "make_stream_header n = Some h \<Longrightarrow> length h = 10"
  by (auto simp: make_stream_header_def bind_eq_Some_conv)

end
