(* ===== verification/Writer_Correct.thy ===== *)
theory Writer_Correct
  imports Writer Stream_Spec Index_Roundtrip
begin

text \<open>
  The stream writer produces streams: whatever calls are made on it, what it has handed to its sink
  and what it still buffers are a stream of the data and the user chunks of these calls, and closing
  it completes the stream. An error of the sink is the only error, and it stays.
\<close>

section \<open>Outcomes\<close>

text \<open>
  \<open>wr_out rel lv P m\<close>: the call \<open>m\<close> returns with \<open>P\<close>, or with an error that the writer keeps, which a
  reliable sink excludes, or it faults, which only the encoder of level 3 may do.
\<close>

definition wr_out :: "bool \<Rightarrow> level \<Rightarrow> ('a \<Rightarrow> 'w writer \<Rightarrow> bool) \<Rightarrow> ('w, 'a) writer_res \<Rightarrow> bool" where
  "wr_out rel lv P m = (case m of
     None \<Rightarrow> lv = Smallest
   | Some (Inl e, st) \<Rightarrow> \<not> rel \<and> w_err st = Some e
   | Some (Inr a, st) \<Rightarrow> P a st)"

lemma wr_out_simps [simp]:
  "wr_out rel lv P (Some (Inr a, st)) = P a st" "wr_out rel lv P (Some (Inl e, st)) = (\<not> rel \<and> w_err st = Some e)"
  "wr_out rel lv P None = (lv = Smallest)"
  by (simp_all add: wr_out_def)

lemma wr_out_cases:
  assumes "wr_out rel lv P m"
  obtains "m = None" "lv = Smallest" | e st where "m = Some (Inl e, st)" "\<not> rel" "w_err st = Some e"
  | a st where "m = Some (Inr a, st)" "P a st"
proof (cases m)
  case None
  with assms that(1) show ?thesis by simp
next
  case (Some rs)
  obtain r st where "rs = (r, st)" by (cases rs)
  with Some assms that(2,3) show ?thesis by (cases r) simp_all
qed

lemma res_cases:
  assumes "case m of None \<Rightarrow> A | Some (Inl e, st) \<Rightarrow> B e st | Some (Inr a, st) \<Rightarrow> P a st"
  obtains "m = None" A | e st where "m = Some (Inl e, st)" "B e st" | a st where "m = Some (Inr a, st)" "P a st"
proof (cases m)
  case None
  with assms that(1) show ?thesis by simp
next
  case (Some rs)
  obtain r st where "rs = (r, st)" by (cases rs)
  with Some assms that(2,3) show ?thesis by (cases r) simp_all
qed

lemma wr_out_bind:
  "wr_out rel lv P m \<Longrightarrow> (\<And>a st. P a st \<Longrightarrow> wr_out rel lv Q (f a st)) \<Longrightarrow> wr_out rel lv Q (with_st m f)"
proof (elim wr_out_cases)
  fix a st
  assume "m = Some (Inr a, st)" "P a st" "\<And>a st. P a st \<Longrightarrow> wr_out rel lv Q (f a st)"
  then show ?thesis by simp
qed simp_all

lemma wr_out_mono: "wr_out rel lv P m \<Longrightarrow> (\<And>a st. P a st \<Longrightarrow> Q a st) \<Longrightarrow> wr_out rel lv Q m"
  by (elim wr_out_cases) simp_all

lemma wr_out_map:
  assumes "wr_out rel lv (\<lambda>a st. Q a (f st)) m" "\<And>st. w_err (f st) = w_err st"
  shows "wr_out rel lv Q (m \<bind> (\<lambda>(r, st). Some (r, f st)))"
  using assms(1) by (rule wr_out_cases) (simp_all add: assms(2))

lemma wr_out_loop:
  fixes m :: "'s \<Rightarrow> nat"
  assumes "I s"
    and step: "\<And>s. I s \<Longrightarrow> case f s of None \<Rightarrow> lv = Smallest
      | Some (Inl s') \<Rightarrow> I s' \<and> m s' < m s | Some (Inr res) \<Rightarrow> wr_out rel lv Q (Some res)"
  shows "wr_out rel lv Q (loop f s)"
proof -
  have "(loop f s = None \<and> lv = Smallest) \<or> (\<exists>res. loop f s = Some res \<and> wr_out rel lv Q (Some res))"
  proof (rule loop_fallible [where I = I and m = m, OF assms(1)])
    fix s assume "I s"
    show "f s = None \<and> lv = Smallest \<or> (\<exists>s'. f s = Some (Inl s') \<and> I s' \<and> m s' < m s) \<or>
        (\<exists>r. f s = Some (Inr r) \<and> wr_out rel lv Q (Some r))"
    proof (cases "f s")
      case (Some x)
      with step [OF \<open>I s\<close>] show ?thesis by (cases x) simp_all
    qed (use step [OF \<open>I s\<close>] in simp)
  qed
  then show ?thesis by auto
qed

definition fault_free :: "'w sink_fns \<Rightarrow> bool" where
  "fault_free fns \<longleftrightarrow> (\<forall>p w. \<exists>w'. write_all fns p w = (Inr (), w')) \<and> (\<forall>w. \<exists>w'. flush_sink fns w = (Inr (), w'))"

section \<open>The invariant\<close>

text \<open>An index entry marks the start of a block: its offsets count what precedes that block.\<close>

definition marks :: "item list \<Rightarrow> bytes list \<Rightarrow> offset_pair \<Rightarrow> bool" where
  "marks its cs p \<longleftrightarrow> (\<exists>k \<le> length cs. compressed p = STREAM_HEADER_LEN + length (concat (take k cs)) \<and>
     uncompressed p = length (data_of (take k its)))"

definition index_inv :: "item list \<Rightarrow> bytes list \<Rightarrow> index option \<Rightarrow> bool" where
  "index_inv its cs oix = (case oix of
     None \<Rightarrow> True
   | Some ix \<Rightarrow> index_ok ix \<and> est_block_uncomp ix < 2 ^ 62 \<and> (\<forall>p \<in> set (offsets ix). marks its cs p))"

definition w_config :: "'w writer \<Rightarrow> nat \<times> level \<times> bool \<times> nat \<times> bool \<times> bool \<times> bool" where
  "w_config st = (w_block_size st, w_level st, w_uncompressed st, w_padding st, w_flush_on_write st,
     w_append_index st, w_index st = None)"

text \<open>The bytes of an index that load as an index of the blocks, over anything and before anything.\<close>

definition index_for :: "item list \<Rightarrow> bytes list \<Rightarrow> bytes \<Rightarrow> bool" where
  "index_for its cs ib \<longleftrightarrow> (\<exists>ix. (\<forall>rest old. index_load (ib @ rest) old = Some (Inr rest, ix)) \<and> index_ok ix \<and>
     (\<forall>p \<in> set (offsets ix). marks its cs p) \<and> total_uncompressed ix = Some (length (data_of its))) \<and>
     (\<exists>p. ib = envelope p \<and> p \<noteq> [] \<and> length p < 2 ^ 23)"

text \<open>
  What the sink holds after \<open>base\<close>: nothing, or the stream identifier and the chunks \<open>cs\<close> of the items.
\<close>

definition sent :: "('w \<Rightarrow> bytes) \<Rightarrow> bytes \<Rightarrow> item list \<Rightarrow> bytes list \<Rightarrow> 'w writer \<Rightarrow> bool" where
  "sent contents base its cs st \<longleftrightarrow>
     w_err st = None \<and> MIN_BLOCK_SIZE \<le> w_block_size st \<and> w_block_size st \<le> MAX_BLOCK_SIZE \<and>
     w_padding st \<le> MAX_BLOCK_SIZE \<and>
     (w_append_index st \<longrightarrow> w_index st \<noteq> None) \<and>
     list_all2 (item_chunk (w_block_size st)) its cs \<and> uncomp_written st = length (data_of its) \<and>
     index_inv its cs (w_index st) \<and>
     (if wrote_header st then \<exists>h. make_stream_header (w_block_size st) = Some h \<and>
          contents (w_sink st) = base @ h @ concat cs \<and> comp_written st = STREAM_HEADER_LEN + length (concat cs)
      else contents (w_sink st) = base \<and> comp_written st = 0 \<and> its = [])"

lemma marks_append: "marks its cs p \<Longrightarrow> length its = length cs \<Longrightarrow> marks (its @ its') (cs @ cs') p"
proof -
  assume l: "length its = length cs" and "marks its cs p"
  then obtain k where "k \<le> length cs" "compressed p = STREAM_HEADER_LEN + length (concat (take k cs))"
    "uncompressed p = length (data_of (take k its))" by (auto simp: marks_def)
  with l show ?thesis unfolding marks_def by (intro exI [of _ k]) simp
qed

lemma index_inv_append:
  "index_inv its cs oix \<Longrightarrow> length its = length cs \<Longrightarrow> index_inv (its @ its') (cs @ cs') oix"
  by (auto simp: index_inv_def marks_append split: option.splits)

lemma marks_end: "length its = length cs \<Longrightarrow>
  marks its cs \<lparr>compressed = STREAM_HEADER_LEN + length (concat cs), uncompressed = length (data_of its)\<rparr>"
  by (auto simp: marks_def)

lemma marks_le: "marks its cs p \<Longrightarrow> compressed p \<le> STREAM_HEADER_LEN + length (concat cs)"
proof -
  have "length (concat (take k cs)) \<le> length (concat cs)" for k
    using arg_cong [OF append_take_drop_id [of k cs], of "\<lambda>xs. length (concat xs)"]
    by (simp del: append_take_drop_id)
  then show "marks its cs p \<Longrightarrow> ?thesis" by (auto simp: marks_def)
qed

text \<open>Marks of different blocks are at different places of both streams, in the same order.\<close>

lemma marks_strict:
  assumes "marks its cs p" "marks its cs q" "uncompressed p < uncompressed q" "\<forall>c \<in> set cs. c \<noteq> []"
  shows "compressed p < compressed q"
proof -
  obtain i j where ij: "i \<le> length cs" "compressed p = STREAM_HEADER_LEN + length (concat (take i cs))"
    "uncompressed p = length (data_of (take i its))" "j \<le> length cs"
    "compressed q = STREAM_HEADER_LEN + length (concat (take j cs))" "uncompressed q = length (data_of (take j its))"
    using assms(1,2) by (auto simp: marks_def)
  have "i < j"
  proof (rule ccontr)
    assume "\<not> i < j"
    then have "take i its = take j its @ take (i - j) (drop j its)" by (simp flip: take_add)
    then have "length (data_of (take j its)) \<le> length (data_of (take i its))" by simp
    with ij assms(3) show False by simp
  qed
  then have "take j cs = take i cs @ take (j - i) (drop i cs)" by (simp flip: take_add)
  moreover have "take (j - i) (drop i cs) = cs ! i # take (j - i - 1) (drop (Suc i) cs)"
    using \<open>i < j\<close> ij(4) by (cases "j - i") (simp_all flip: Cons_nth_drop_Suc)
  moreover have "cs ! i \<noteq> []" using assms(4) \<open>i < j\<close> ij(4) by simp
  ultimately show ?thesis using ij by simp
qed

lemma index_inv_wire:
  assumes "index_inv its cs (Some ix)" "\<forall>c \<in> set cs. c \<noteq> []" "length (concat cs) < 2 ^ 61"
  shows "wire_range (offsets ix)"
proof -
  have ok: "index_ok ix" and m: "\<And>p. p \<in> set (offsets ix) \<Longrightarrow> marks its cs p"
    using assms(1) by (auto simp: index_inv_def)
  have "compressed p < 2 ^ 62" if "p \<in> set (offsets ix)" for p
    using marks_le [OF m [OF that]] assms(3) by (simp add: stream_consts)
  moreover have "sorted_wrt (\<lambda>p q. compressed p < compressed q) (offsets ix)"
  proof -
    have "sorted_wrt (\<lambda>p q. uncompressed p < uncompressed q) (offsets ix)"
      using ok unfolding index_ok_def spaced_def by (elim conjE sorted_wrt_mono_rel [rotated]) auto
    moreover have "compressed p < compressed q"
      if "p \<in> set (offsets ix)" "q \<in> set (offsets ix)" "uncompressed p < uncompressed q" for p q
      using marks_strict [OF m [OF that(1)] m [OF that(2)] that(3) assms(2)] .
    ultimately show ?thesis by (rule sorted_wrt_mono_rel [rotated])
  qed
  ultimately show ?thesis using ok by (auto simp: wire_range_def index_ok_def)
qed

lemma w_config_ibuf [simp]: "w_config (st\<lparr>ibuf := x\<rparr>) = w_config st"
  by (simp add: w_config_def)

lemma sent_sink:
  "contents w = contents (w_sink st) \<Longrightarrow> sent contents base its cs (st\<lparr>w_sink := w\<rparr>) = sent contents base its cs st"
  by (simp add: sent_def)

lemma sent_ibuf [simp]: "sent contents base its cs (st\<lparr>ibuf := x\<rparr>) = sent contents base its cs st"
  by (simp add: sent_def)

text \<open>
  The invariant of a writer that has not failed: the symbols \<open>ss\<close> are what it was given so far, sent
  or buffered. \<open>cost\<close> bounds what has been sent and what the buffered bytes will add to it.
\<close>

definition writer_inv :: "('w \<Rightarrow> bytes) \<Rightarrow> bytes \<Rightarrow> (byte + byte \<times> bytes) list \<Rightarrow> 'w writer \<Rightarrow> bool" where
  "writer_inv contents base ss st \<longleftrightarrow> (\<exists>its cs. sent contents base its cs st \<and>
     length (ibuf st) < w_block_size st \<and> (w_flush_on_write st \<longrightarrow> ibuf st = []) \<and>
     symbols its @ map Inl (ibuf st) = ss)"

definition cost :: "'w writer \<Rightarrow> nat" where
  "cost st = max (comp_written st) 10 + 9 * length (ibuf st)"

text \<open>What closing leaves at the sink, from the items and what it was asked to build.\<close>

definition closed :: "('w \<Rightarrow> bytes) \<Rightarrow> bytes \<Rightarrow> nat \<Rightarrow> nat \<Rightarrow> bool \<Rightarrow> bool \<Rightarrow> item list \<Rightarrow> bytes \<Rightarrow> 'w \<Rightarrow> bool" where
  "closed contents base m pad app build its ib w \<longleftrightarrow> (\<exists>trailer cs bs. contents w = base @ bs \<and>
     stream_parts m its trailer cs bs \<and> (2 \<le> pad \<longrightarrow> pad dvd length bs) \<and> (build \<longrightarrow> index_for its cs ib) \<and>
     (app \<longrightarrow> (\<exists>pre. bs = pre @ ib)))"

text \<open>The calls a client makes between building a writer and closing it.\<close>

datatype writer_op = Op_Write bytes | Op_Flush | Op_Chunk byte bytes

fun run_op :: "'w sink_fns \<Rightarrow> writer_op \<Rightarrow> 'w writer \<Rightarrow> ('w, unit) writer_res" where
  "run_op fns (Op_Write p) st = with_st (writer_write fns p st) (\<lambda>_ st. Some (Inr (), st))"
| "run_op fns Op_Flush st = writer_flush fns st"
| "run_op fns (Op_Chunk t b) st = add_user_chunk fns t b st"

fun run_ops :: "'w sink_fns \<Rightarrow> writer_op list \<Rightarrow> 'w writer \<Rightarrow> ('w, unit) writer_res" where
  "run_ops fns [] st = Some (Inr (), st)"
| "run_ops fns (op # ops) st = with_st (run_op fns op st) (\<lambda>_ st. run_ops fns ops st)"

fun op_symbols :: "writer_op \<Rightarrow> (byte + byte \<times> bytes) list" where
  "op_symbols (Op_Write p) = map Inl p"
| "op_symbols Op_Flush = []"
| "op_symbols (Op_Chunk t b) = [Inr (t, b)]"

fun op_cost :: "writer_op \<Rightarrow> nat" where
  "op_cost (Op_Write p) = 9 * length p"
| "op_cost Op_Flush = 0"
| "op_cost (Op_Chunk t b) = length b + 4"

fun op_valid :: "writer_op \<Rightarrow> bool" where
  "op_valid (Op_Chunk t b) = (MIN_USER_SKIPPABLE_CHUNK \<le> t \<and> t \<le> MAX_USER_NON_SKIPPABLE_CHUNK \<and> length b \<le> MAX_USER_CHUNK_SIZE)"
| "op_valid op = True"

section \<open>Chunks\<close>

context sink
begin

abbreviation "rel \<equiv> fault_free fns"

lemma write_tracked_ok:
  assumes "comp_written st + length p < 2 ^ 64"
  shows "wr_out rel lv (\<lambda>_ st'. \<exists>w. st' = st\<lparr>w_sink := w, comp_written := comp_written st + length p\<rparr> \<and>
    contents w = contents (w_sink st) @ p) (write_all_tracked fns p st)"
proof (cases "write_all fns p (w_sink st)")
  case (Pair r w)
  show ?thesis
  proof (cases r)
    case (Inl e)
    have "\<not> rel"
    proof
      assume rel
      then obtain w' where "write_all fns p (w_sink st) = (Inr (), w')" unfolding fault_free_def by blast
      with Pair Inl show False by simp
    qed
    with Pair Inl show ?thesis by (simp add: write_all_tracked_def)
  next
    case (Inr u)
    have "contents w = contents (w_sink st) @ p" using write_ok Pair Inr by blast
    with Pair Inr assms show ?thesis by (auto simp: write_all_tracked_def chk_u64_def)
  qed
qed

lemma ensure_header_ok:
  assumes "sent contents base its cs st" "comp_written st < 2 ^ 63"
  shows "wr_out rel lv (\<lambda>_ st'. sent contents base its cs st' \<and> wrote_header st' \<and> w_config st' = w_config st \<and>
    ibuf st' = ibuf st \<and> comp_written st' \<le> max (comp_written st) STREAM_HEADER_LEN) (ensure_header fns st)"
proof (cases "wrote_header st")
  case True
  with assms show ?thesis by (simp add: ensure_header_def)
next
  case False
  have b: "MIN_BLOCK_SIZE \<le> w_block_size st" "w_block_size st \<le> MAX_BLOCK_SIZE" using assms by (auto simp: sent_def)
  obtain ind where "block_size_indicator (w_block_size st) = Some ind"
    using block_size_indicator_ok [OF b] by blast
  then obtain h where h: "make_stream_header (w_block_size st) = Some h" by (simp add: make_stream_header_def)
  have l: "length h = 10" by (rule length_header [OF h])
  have c: "comp_written st = 0" "its = []" "cs = []" "contents (w_sink st) = base"
    using assms False by (auto simp: sent_def)
  show ?thesis
    unfolding ensure_header_def
    using False h c l assms
    by (auto simp: sent_def w_config_def stream_consts intro!: wr_out_bind [OF write_tracked_ok [where lv = lv]])
qed

lemma index_block_start_ok:
  assumes s: "sent contents base its cs st" "wrote_header st" and n: "comp_written st < 2 ^ 62" "uncomp_written st < 2 ^ 62"
  obtains ix where "index_block_start st = Some (Inr (), st\<lparr>w_index := ix\<rparr>)" "index_inv its cs ix"
    "(ix = None) = (w_index st = None)"
proof (cases "w_index st")
  case None
  then show ?thesis by (intro that [of None]) (simp_all add: index_block_start_def index_inv_def)
next
  case (Some ix)
  have inv: "index_inv its cs (Some ix)" using s Some by (simp add: sent_def)
  then have ok: "index_ok ix" "est_block_uncomp ix < 2 ^ 62" and m: "\<forall>p \<in> set (offsets ix). marks its cs p"
    by (auto simp: index_inv_def)
  have cu: "comp_written st = STREAM_HEADER_LEN + length (concat cs)" "uncomp_written st = length (data_of its)"
    "length its = length cs" using s by (auto simp: sent_def dest: list_all2_lengthD)
  have "compressed (last (offsets ix)) \<le> comp_written st" if "offsets ix \<noteq> []"
    using m that marks_le [of its cs "last (offsets ix)"] cu(1) by simp
  with n show ?thesis
  proof (cases rule: index_add_ok [OF ok(1), of "comp_written st" "uncomp_written st"])
    case (2 ix')
    have "index_inv its cs (Some ix')"
      using 2(3) m marks_end [OF cu(3)] ok(2) 2(2,4) by (auto simp: index_inv_def cu)
    then show ?thesis using that [of "Some ix'"] Some 2(1) by (simp add: index_block_start_def)
  qed (auto simp: index_consts)
qed

lemma write_pair_ok:
  assumes "comp_written st + length p + length q < 2 ^ 64"
  shows "wr_out rel lv (\<lambda>_ st'. \<exists>w. st' = st\<lparr>w_sink := w, comp_written := comp_written st + length p + length q\<rparr> \<and>
    contents w = contents (w_sink st) @ p @ q)
    (with_st (write_all_tracked fns p st) (\<lambda>_ st. write_all_tracked fns q st))"
  using assms by (auto intro!: wr_out_bind [OF write_tracked_ok] wr_out_mono [OF write_tracked_ok])

lemma emit_block_ok:
  assumes s: "sent contents base its cs st" "wrote_header st" and d: "length d \<le> w_block_size st"
    and n: "comp_written st < 2 ^ 62" "uncomp_written st < 2 ^ 62"
  shows "wr_out rel (w_level st) (\<lambda>_ st'. wrote_header st' \<and> w_config st' = w_config st \<and> ibuf st' = ibuf st \<and>
      uncomp_written st' = uncomp_written st \<and> comp_written st' \<le> comp_written st + 8 + length d \<and>
      (\<exists>c. sent contents base (its @ [Data d]) (cs @ [c]) (st'\<lparr>uncomp_written := uncomp_written st + length d\<rparr>)))
    (emit_block fns d st)"
proof -
  obtain ix where ix: "index_block_start st = Some (Inr (), st\<lparr>w_index := ix\<rparr>)" "index_inv its cs ix"
    "(ix = None) = (w_index st = None)" using index_block_start_ok [OF s n] .
  have max: "length d \<le> MAX_BLOCK_SIZE" "length d \<le> 8388608" using d s by (auto simp: sent_def format_consts)
  let ?crc = "to_le_bytes (masked_crc32c d)"
  have fin: "wrote_header st' \<and> w_config st' = w_config st \<and> ibuf st' = ibuf st \<and>
      uncomp_written st' = uncomp_written st \<and> comp_written st' \<le> comp_written st + 8 + length d \<and>
      (\<exists>c. sent contents base (its @ [Data d]) (cs @ [c]) (st'\<lparr>uncomp_written := uncomp_written st + length d\<rparr>))"
    if st': "st' = st\<lparr>w_index := ix, obuf := ob, w_sink := w, comp_written := comp_written st + 8 + length body\<rparr>"
      and w: "contents w = contents (w_sink st) @ data_header t (CHECKSUM_SIZE + length body) (masked_crc32c d) @ body"
      and t: "t = CHUNK_TYPE_UNCOMPRESSED_DATA \<and> body = d \<or>
        t = CHUNK_TYPE_MINLZ_COMPRESSED_DATA \<and> spec_chunk body = Some d \<and> length body < length d"
    for st' ob w body t
  proof -
    define c where "c = chunk t (?crc @ body)"
    have c: "data_header t (CHECKSUM_SIZE + length body) (masked_crc32c d) @ body = c"
      by (simp add: c_def data_header_def chunk_def CHECKSUM_SIZE_def)
    have "item_chunk (w_block_size st) (Data d) c" using t d by (auto simp: c_def data_chunk_def)
    moreover have "length c = 8 + length body" by (simp add: c_def)
    moreover have "length its = length cs" using s by (auto simp: sent_def dest: list_all2_lengthD)
    ultimately have "sent contents base (its @ [Data d]) (cs @ [c]) (st'\<lparr>uncomp_written := uncomp_written st + length d\<rparr>)"
      using s ix(2,3) w unfolding c
      by (auto simp: sent_def st' index_inv_append intro: list_all2_appendI)
    moreover have "length body \<le> length d" using t by auto
    ultimately show ?thesis using s ix(3) by (auto simp: st' w_config_def)
  qed
  have hl: "length (data_header t k crc) = 8" for t k crc by (simp add: data_header_def)
  have pair: "wr_out rel lv (\<lambda>_ st'. \<exists>w. st' = st1\<lparr>w_sink := w, comp_written := comp_written st1 + 8 + length q\<rparr> \<and>
      contents w = contents (w_sink st1) @ data_header t k crc @ q)
    (with_st (write_all_tracked fns (data_header t k crc) st1) (\<lambda>_ st. write_all_tracked fns q st))"
    if "comp_written st1 = comp_written st" "length q \<le> 8388608" for lv st1 t k crc q
    using write_pair_ok [of st1 "data_header t k crc" q lv] that n(1) by (simp add: hl)
  have raw: "wr_out rel (w_level st) (\<lambda>_ st'. wrote_header st' \<and> w_config st' = w_config st \<and> ibuf st' = ibuf st \<and>
      uncomp_written st' = uncomp_written st \<and> comp_written st' \<le> comp_written st + 8 + length d \<and>
      (\<exists>c. sent contents base (its @ [Data d]) (cs @ [c]) (st'\<lparr>uncomp_written := uncomp_written st + length d\<rparr>)))
    (with_st (write_all_tracked fns (data_header CHUNK_TYPE_UNCOMPRESSED_DATA (CHECKSUM_SIZE + length d) (masked_crc32c d))
        (st\<lparr>w_index := ix, obuf := ob\<rparr>)) (\<lambda>_ st. write_all_tracked fns d st))" for ob
  proof (rule wr_out_mono [OF pair], goal_cases)
    case (3 a st')
    then show ?case by (elim exE conjE) (rule fin [where ob = ob and body = d and t = CHUNK_TYPE_UNCOMPRESSED_DATA]; simp)
  qed (use max in simp_all)
  show ?thesis
  proof (cases "w_uncompressed st")
    case True
    with raw [of "obuf st"] show ?thesis
      by (simp add: emit_block_def ix(1) Let_def)
  next
    case False
    show ?thesis
    proof (cases rule: chunk_encode_ok [OF max(1), of "[]" "w_level st", case_names fault declined encoded])
      case fault
      with False show ?thesis by (simp add: emit_block_def ix(1) Let_def)
    next
      case declined
      with False raw [of "[]"] show ?thesis by (simp add: emit_block_def ix(1) Let_def)
    next
      case (encoded blk)
      let ?st = "st\<lparr>w_index := ix, obuf := blk\<rparr>"
      let ?hdr = "data_header CHUNK_TYPE_MINLZ_COMPRESSED_DATA (CHECKSUM_SIZE + length blk) (masked_crc32c d)"
      have "emit_block fns d st = with_st (write_all_tracked fns ?hdr ?st) (\<lambda>_ st.
          write_all_tracked fns blk (st\<lparr>obuf := []\<rparr>) \<bind> (\<lambda>(res, st). Some (res, st\<lparr>obuf := []\<rparr>)))"
        using False encoded(1) by (simp add: emit_block_def ix(1) Let_def)
      moreover have "wr_out rel (w_level st) (\<lambda>_ st'. wrote_header st' \<and> w_config st' = w_config st \<and> ibuf st' = ibuf st \<and>
          uncomp_written st' = uncomp_written st \<and> comp_written st' \<le> comp_written st + 8 + length d \<and>
          (\<exists>c. sent contents base (its @ [Data d]) (cs @ [c]) (st'\<lparr>uncomp_written := uncomp_written st + length d\<rparr>))) \<dots>"
      proof (rule wr_out_bind [OF write_tracked_ok], goal_cases)
        case (2 a st1)
        then obtain w1 where st1: "st1 = ?st\<lparr>w_sink := w1, comp_written := comp_written st + 8\<rparr>"
          "contents w1 = contents (w_sink st) @ ?hdr" by (auto simp: hl)
        show ?case
        proof (rule wr_out_map, rule wr_out_mono [OF write_tracked_ok], goal_cases)
          case (2 a st2)
          then show ?case using st1 encoded(2,3)
            by (elim exE conjE) (rule fin [where ob = "[]" and body = blk and t = CHUNK_TYPE_MINLZ_COMPRESSED_DATA]; simp)
        qed (use n(1) max(2) encoded(3) st1 in simp_all)
      qed (use n(1) hl in simp)
      ultimately show ?thesis by simp
    qed
  qed
qed

text \<open>A byte costs at most nine, eight of them for the header of its block; the identifier is paid in advance.\<close>

lemma write_blocks_ok:
  assumes s: "sent contents base its cs st" and n: "max (comp_written st) 10 + 9 * length data < 2 ^ 62"
    "uncomp_written st + length data < 2 ^ 62"
  shows "wr_out rel (w_level st) (\<lambda>_ st'. wrote_header st' \<and> w_config st' = w_config st \<and> ibuf st' = ibuf st \<and>
      max (comp_written st') 10 \<le> max (comp_written st) 10 + 9 * length data \<and>
      (\<exists>its' cs'. sent contents base (its @ its') (cs @ cs') st' \<and> symbols its' = map Inl data))
    (write_blocks fns data st)"
proof -
  have bs: "0 < w_block_size st" using s by (auto simp: sent_def stream_consts)
  define I where "I = (\<lambda>(rest, st1). wrote_header st1 \<and> w_config st1 = w_config st \<and> ibuf st1 = ibuf st \<and>
    max (comp_written st1) 10 + 9 * length rest \<le> max (comp_written st) 10 + 9 * length data \<and>
    uncomp_written st1 + length rest = uncomp_written st + length data \<and>
    (\<exists>its' cs'. sent contents base (its @ its') (cs @ cs') st1 \<and> symbols its' @ map Inl rest = map Inl data))"
  have "wr_out rel (w_level st) (\<lambda>_ st'. I ([], st')) (loop (write_blocks_step fns) (data, st1))" if "I (data, st1)" for st1
  proof (rule wr_out_loop [where I = I and m = "\<lambda>(rest, st). length rest", OF that])
    fix s
    assume "I s"
    then obtain rest st1 its' cs' where st: "s = (rest, st1)" "wrote_header st1" "w_config st1 = w_config st" "ibuf st1 = ibuf st"
      "max (comp_written st1) 10 + 9 * length rest \<le> max (comp_written st) 10 + 9 * length data"
      "uncomp_written st1 + length rest = uncomp_written st + length data"
      "sent contents base (its @ its') (cs @ cs') st1" "symbols its' @ map Inl rest = map Inl data"
      by (auto simp: I_def)
    let ?step = "write_blocks_step fns s"
    show "case ?step of None \<Rightarrow> w_level st = Smallest | Some (Inl s') \<Rightarrow> I s' \<and>
        (case s' of (rest, st) \<Rightarrow> length rest) < (case s of (rest, st) \<Rightarrow> length rest)
      | Some (Inr res) \<Rightarrow> wr_out rel (w_level st) (\<lambda>_ st'. I ([], st')) (Some res)"
    proof (cases "rest = []")
      case True
      with \<open>I s\<close> st(1) show ?thesis by (simp add: write_blocks_step_def)
    next
      case False
      then have r: "0 < length rest" by simp
      let ?n = "min (length rest) (w_block_size st1)"
      have cfg: "w_block_size st1 = w_block_size st" "w_level st1 = w_level st" using st(3) by (simp_all add: w_config_def)
      have n': "0 < ?n" "?n \<le> length rest" using r bs cfg by auto
      have "wr_out rel (w_level st1) (\<lambda>_ st'. wrote_header st' \<and> w_config st' = w_config st1 \<and> ibuf st' = ibuf st1 \<and>
          uncomp_written st' = uncomp_written st1 \<and> comp_written st' \<le> comp_written st1 + 8 + length (take ?n rest) \<and>
          (\<exists>c. sent contents base ((its @ its') @ [Data (take ?n rest)]) ((cs @ cs') @ [c])
            (st'\<lparr>uncomp_written := uncomp_written st1 + length (take ?n rest)\<rparr>)))
        (emit_block fns (take ?n rest) st1)"
        using n st(5,6) by (intro emit_block_ok st) auto
      then show ?thesis
      proof (rule wr_out_cases)
        fix u st2
        assume e: "emit_block fns (take ?n rest) st1 = Some (Inr u, st2)"
          and st2: "wrote_header st2 \<and> w_config st2 = w_config st1 \<and> ibuf st2 = ibuf st1 \<and>
            uncomp_written st2 = uncomp_written st1 \<and> comp_written st2 \<le> comp_written st1 + 8 + length (take ?n rest) \<and>
            (\<exists>c. sent contents base ((its @ its') @ [Data (take ?n rest)]) ((cs @ cs') @ [c])
              (st2\<lparr>uncomp_written := uncomp_written st1 + length (take ?n rest)\<rparr>))"
        then obtain c where c: "sent contents base ((its @ its') @ [Data (take ?n rest)]) ((cs @ cs') @ [c])
              (st2\<lparr>uncomp_written := uncomp_written st1 + ?n\<rparr>)" using n'(2) by auto
        have "uncomp_written st1 + ?n < 2 ^ 64" using n(2) st(6) n'(2) by simp
        then have step: "?step = Some (Inl (drop ?n rest, st2\<lparr>uncomp_written := uncomp_written st1 + ?n\<rparr>))"
          using False e st2 by (simp add: write_blocks_step_def st(1) chk_u64_def Let_def)
        have "I (drop ?n rest, st2\<lparr>uncomp_written := uncomp_written st1 + ?n\<rparr>)"
          unfolding I_def prod.case
        proof (intro conjI exI)
          show "sent contents base (its @ its' @ [Data (take ?n rest)]) (cs @ cs' @ [c]) (st2\<lparr>uncomp_written := uncomp_written st1 + ?n\<rparr>)"
            using c by simp
          show "symbols (its' @ [Data (take ?n rest)]) @ map Inl (drop ?n rest) = map Inl data"
            using st(8) by (simp flip: map_append)
          have "length (take ?n rest) = ?n" using n' by simp
          then have "comp_written st2 \<le> comp_written st1 + 8 + ?n" using st2 by metis
          then have "comp_written st2 \<le> comp_written st1 + 9 * ?n" using n'(1) by linarith
          moreover have "9 * length (drop ?n rest) + 9 * ?n = 9 * length rest" using n'(2) by simp
          ultimately have "max (comp_written st2) 10 + 9 * length (drop ?n rest)
              \<le> max (comp_written st) 10 + 9 * length data"
            using st(5) by linarith
          then show "max (comp_written (st2\<lparr>uncomp_written := uncomp_written st1 + ?n\<rparr>)) 10 + 9 * length (drop ?n rest)
              \<le> max (comp_written st) 10 + 9 * length data" by simp
          show "uncomp_written (st2\<lparr>uncomp_written := uncomp_written st1 + ?n\<rparr>) + length (drop ?n rest) =
              uncomp_written st + length data" using st(6) n'(2) by simp
        qed (use st2 st in \<open>simp_all add: w_config_def\<close>)
        moreover have "length (drop ?n rest) < length rest" using n' by simp
        ultimately show ?thesis unfolding step by (simp add: st(1))
      qed (use False cfg in \<open>simp_all add: write_blocks_step_def st(1) Let_def\<close>)
    qed
  qed
  note loop = this
  have "comp_written st < 2 ^ 63" using n by simp
  from ensure_header_ok [OF s this, of "w_level st"]
  have "wr_out rel (w_level st) (\<lambda>_ st1. I (data, st1)) (ensure_header fns st)"
  proof (rule wr_out_mono, goal_cases)
    case (1 u st1)
    then have "sent contents base (its @ []) (cs @ []) st1" "uncomp_written st1 = uncomp_written st"
      using s by (simp_all add: sent_def)
    with 1 show ?case unfolding I_def by (auto simp: stream_consts intro!: exI [of _ "[]"])
  qed
  then have "wr_out rel (w_level st) (\<lambda>_ st'. I ([], st')) (write_blocks fns data st)"
    unfolding write_blocks_def using loop by (rule wr_out_bind)
  then show ?thesis by (rule wr_out_mono) (auto simp: I_def)
qed

lemma flush_ibuf_ok:
  assumes s: "sent contents base its cs st" and n: "cost st < 2 ^ 62" "uncomp_written st + length (ibuf st) < 2 ^ 62"
  shows "wr_out rel (w_level st) (\<lambda>_ st'. w_config st' = w_config st \<and> ibuf st' = [] \<and> cost st' \<le> cost st \<and>
      (\<exists>its' cs'. sent contents base (its @ its') (cs @ cs') st' \<and> symbols its' = map Inl (ibuf st)))
    (flush_ibuf fns st)"
proof (cases "ibuf st = []")
  case True
  with s show ?thesis by (auto simp: flush_ibuf_def intro!: exI [of _ "[]"])
next
  case False
  let ?st = "st\<lparr>ibuf := []\<rparr>"
  have "sent contents base its cs ?st" using s by simp
  from write_blocks_ok [OF this, of "ibuf st"] n
  have "wr_out rel (w_level st) (\<lambda>_ st'. wrote_header st' \<and> w_config st' = w_config st \<and> ibuf st' = [] \<and>
      max (comp_written st') 10 \<le> max (comp_written st) 10 + 9 * length (ibuf st) \<and>
      (\<exists>its' cs'. sent contents base (its @ its') (cs @ cs') st' \<and> symbols its' = map Inl (ibuf st)))
    (write_blocks fns (ibuf st) ?st)" by (simp add: cost_def)
  from wr_out_mono [OF this] show ?thesis
    unfolding flush_ibuf_def if_not_P [OF False]
    by (intro wr_out_map) (auto simp: cost_def)
qed

lemma writer_invE:
  assumes "writer_inv contents base ss st"
  obtains its cs where "sent contents base its cs st" "length (ibuf st) < w_block_size st"
    "symbols its @ map Inl (ibuf st) = ss" "uncomp_written st + length (ibuf st) = length (symbol_data ss)" "w_err st = None"
    "w_flush_on_write st \<Longrightarrow> ibuf st = []"
proof -
  from assms obtain its cs where i: "sent contents base its cs st" "length (ibuf st) < w_block_size st"
    "symbols its @ map Inl (ibuf st) = ss" "w_flush_on_write st \<Longrightarrow> ibuf st = []" by (auto simp: writer_inv_def)
  then have "uncomp_written st + length (ibuf st) = length (symbol_data ss)"
    by (auto simp: sent_def data_of_symbols)
  with i show ?thesis by (intro that) (auto simp: sent_def)
qed

lemma write_step_ok:
  assumes i: "writer_inv contents base ss st" and n: "cost st + 9 * length p < 2 ^ 62" "length (symbol_data ss) + length p < 2 ^ 62"
    and p: "p \<noteq> []" and nf: "\<not> w_flush_on_write st"
  shows "case write_step fns (p, k, st) of
      None \<Rightarrow> w_level st = Smallest
    | Some (Inl (p', k', st')) \<Rightarrow> \<exists>j. 0 < j \<and> j \<le> length p \<and> p' = drop j p \<and> k' = k + j \<and>
        writer_inv contents base (ss @ map Inl (take j p)) st' \<and> w_config st' = w_config st \<and> cost st' \<le> cost st + 9 * j
    | Some (Inr (Inl e, st')) \<Rightarrow> \<not> rel \<and> w_err st' = Some e
    | Some (Inr (Inr m, st')) \<Rightarrow> False"
proof -
  obtain its cs where s: "sent contents base its cs st" "length (ibuf st) < w_block_size st"
    "symbols its @ map Inl (ibuf st) = ss" "uncomp_written st + length (ibuf st) = length (symbol_data ss)"
    using writer_invE [OF i] by metis
  show ?thesis
  proof (cases "ibuf st = [] \<and> w_block_size st \<le> length p")
    case True
    let ?n = "min (length p - length p mod w_block_size st) (length p)"
    have bs: "0 < w_block_size st" using s(2) by simp
    have "length p mod w_block_size st < w_block_size st" using bs by simp
    then have j: "0 < ?n" "?n \<le> length p" using True by auto
    have "wr_out rel (w_level st) (\<lambda>_ st'. wrote_header st' \<and> w_config st' = w_config st \<and> ibuf st' = ibuf st \<and>
        max (comp_written st') 10 \<le> max (comp_written st) 10 + 9 * length (take ?n p) \<and>
        (\<exists>its' cs'. sent contents base (its @ its') (cs @ cs') st' \<and> symbols its' = map Inl (take ?n p)))
      (write_blocks fns (take ?n p) st)"
      using n s(4) True by (intro write_blocks_ok [OF s(1)]) (auto simp: cost_def)
    then show ?thesis
    proof (rule wr_out_cases)
      fix u st'
      assume w: "write_blocks fns (take ?n p) st = Some (Inr u, st')"
        and st': "wrote_header st' \<and> w_config st' = w_config st \<and> ibuf st' = ibuf st \<and>
          max (comp_written st') 10 \<le> max (comp_written st) 10 + 9 * length (take ?n p) \<and>
          (\<exists>its' cs'. sent contents base (its @ its') (cs @ cs') st' \<and> symbols its' = map Inl (take ?n p))"
      have "writer_inv contents base (ss @ map Inl (take ?n p)) st'"
        using st' s True bs nf by (auto simp: writer_inv_def w_config_def)
      moreover have "cost st' \<le> cost st + 9 * ?n" using st' j(2) by (simp add: cost_def)
      ultimately show ?thesis
        using p True bs w st' j by (auto simp: write_step_def Let_def usub_def intro!: exI [of _ ?n])
    qed (use p True bs in \<open>simp_all add: write_step_def Let_def usub_def\<close>)
  next
    case False
    define j where "j = min (length p) (w_block_size st - length (ibuf st))"
    let ?st = "st\<lparr>ibuf := ibuf st @ take j p\<rparr>"
    have j: "0 < j" "j \<le> length p" "j \<le> w_block_size st - length (ibuf st)" using p s(2) by (auto simp: j_def)
    have step: "write_step fns (p, k, st) = (do {
        (r, st) \<leftarrow> (if length (ibuf ?st) = w_block_size ?st then flush_ibuf fns ?st else Some (Inr (), ?st));
        case r of Inl e \<Rightarrow> Some (Inr (Inl e, st)) | Inr _ \<Rightarrow> Some (Inl (drop j p, k + j, st)) })"
      unfolding write_step_def prod.case if_P [OF p] usub_Some [OF less_imp_le [OF s(2)]] Option.bind_lunit
        if_not_P [OF False] Let_def j_def ..
    have c: "cost ?st = cost st + 9 * j" using j by (simp add: cost_def)
    have st': "sent contents base its cs ?st" using s(1) by simp
    show ?thesis
    proof (cases "length (ibuf ?st) = w_block_size ?st")
      case True
      have "wr_out rel (w_level ?st) (\<lambda>_ st'. w_config st' = w_config ?st \<and> ibuf st' = [] \<and> cost st' \<le> cost ?st \<and>
          (\<exists>its' cs'. sent contents base (its @ its') (cs @ cs') st' \<and> symbols its' = map Inl (ibuf ?st)))
        (flush_ibuf fns ?st)"
        using n s(4) j c by (intro flush_ibuf_ok st') auto
      then show ?thesis
      proof (rule wr_out_cases)
        fix u st1
        assume f: "flush_ibuf fns ?st = Some (Inr u, st1)" and st1: "w_config st1 = w_config ?st \<and> ibuf st1 = [] \<and> cost st1 \<le> cost ?st \<and>
          (\<exists>its' cs'. sent contents base (its @ its') (cs @ cs') st1 \<and> symbols its' = map Inl (ibuf ?st))"
        then have "writer_inv contents base (ss @ map Inl (take j p)) st1"
          using s(2,3) nf by (auto simp: writer_inv_def w_config_def)
        then show ?thesis unfolding step using True f st1 j c by (auto simp: w_config_def intro!: exI [of _ j])
      qed (use True in \<open>simp_all add: step\<close>)
    next
      case no: False
      have "writer_inv contents base (ss @ map Inl (take j p)) ?st"
        using st' s(2,3) j no nf by (auto simp: writer_inv_def)
      then show ?thesis unfolding step using no j c by (auto simp: w_config_def intro!: exI [of _ j])
    qed
  qed
qed

section \<open>The calls of a client\<close>

lemma writer_write_ok:
  assumes i: "writer_inv contents base ss st" and n: "cost st + 9 * length p < 2 ^ 62" "length (symbol_data ss) + length p < 2 ^ 62"
  shows "wr_out rel (w_level st) (\<lambda>k st'. k = length p \<and> writer_inv contents base (ss @ map Inl p) st' \<and>
      w_config st' = w_config st \<and> cost st' \<le> cost st + 9 * length p) (writer_write fns p st)"
proof -
  have e: "w_err st = None" using writer_invE [OF i] by metis
  consider "p = []" | "p \<noteq> []" "w_flush_on_write st" | "p \<noteq> []" "\<not> w_flush_on_write st" by blast
  then show ?thesis
  proof cases
    case 1
    with i e show ?thesis by (simp add: writer_write_def)
  next
    case 2
    obtain its cs where s: "sent contents base its cs st" "length (ibuf st) < w_block_size st"
      "symbols its @ map Inl (ibuf st) = ss" "uncomp_written st + length (ibuf st) = length (symbol_data ss)"
      using writer_invE [OF i] by metis
    have b: "ibuf st = []" by (rule writer_invE [OF i]) (use 2 in simp)
    have "wr_out rel (w_level st) (\<lambda>_ st'. wrote_header st' \<and> w_config st' = w_config st \<and> ibuf st' = ibuf st \<and>
        max (comp_written st') 10 \<le> max (comp_written st) 10 + 9 * length p \<and>
        (\<exists>its' cs'. sent contents base (its @ its') (cs @ cs') st' \<and> symbols its' = map Inl p))
      (write_blocks fns p st)"
      using n s(4) b by (intro write_blocks_ok [OF s(1)]) (auto simp: cost_def)
    then have "wr_out rel (w_level st) (\<lambda>k st'. k = length p \<and> writer_inv contents base (ss @ map Inl p) st' \<and>
        w_config st' = w_config st \<and> cost st' \<le> cost st + 9 * length p)
      (with_st (write_blocks fns p st) (\<lambda>_ st. Some (Inr (length p), st)))"
      by (rule wr_out_bind) (use s b in \<open>auto simp: writer_inv_def w_config_def cost_def\<close>)
    with 2 e show ?thesis by (simp add: writer_write_def)
  next
    case 3
    let ?I = "\<lambda>(q, k, st1). k \<le> length p \<and> q = drop k p \<and> writer_inv contents base (ss @ map Inl (take k p)) st1 \<and>
      w_config st1 = w_config st \<and> cost st1 \<le> cost st + 9 * k"
    have "wr_out rel (w_level st) (\<lambda>k st'. k = length p \<and> writer_inv contents base (ss @ map Inl p) st' \<and>
        w_config st' = w_config st \<and> cost st' \<le> cost st + 9 * length p) (loop (write_step fns) (p, 0, st))"
    proof (rule wr_out_loop [where I = ?I and m = "\<lambda>(q, k, st). length q"])
      fix s
      assume I: "?I s"
      obtain q k st1 where s: "s = (q, k, st1)" by (cases s)
      show "case write_step fns s of None \<Rightarrow> w_level st = Smallest
        | Some (Inl s') \<Rightarrow> ?I s' \<and> (case s' of (q, k, st) \<Rightarrow> length q) < (case s of (q, k, st) \<Rightarrow> length q)
        | Some (Inr res) \<Rightarrow> wr_out rel (w_level st) (\<lambda>k st'. k = length p \<and> writer_inv contents base (ss @ map Inl p) st' \<and>
            w_config st' = w_config st \<and> cost st' \<le> cost st + 9 * length p) (Some res)"
      proof (cases "q = []")
        case True
        with I s show ?thesis by (auto simp: write_step_def)
      next
        case False
        have c: "k \<le> length p" "q = drop k p" "w_config st1 = w_config st" "cost st1 \<le> cost st + 9 * k"
          "writer_inv contents base (ss @ map Inl (take k p)) st1" using I s by auto
        have "w_level st1 = w_level st" using c(3) by (simp add: w_config_def)
        moreover have "case write_step fns (q, k, st1) of
            None \<Rightarrow> w_level st1 = Smallest
          | Some (Inl (p', k', st')) \<Rightarrow> \<exists>j. 0 < j \<and> j \<le> length q \<and> p' = drop j q \<and> k' = k + j \<and>
              writer_inv contents base ((ss @ map Inl (take k p)) @ map Inl (take j q)) st' \<and> w_config st' = w_config st1 \<and>
              cost st' \<le> cost st1 + 9 * j
          | Some (Inr (Inl e, st')) \<Rightarrow> \<not> rel \<and> w_err st' = Some e
          | Some (Inr (Inr m, st')) \<Rightarrow> False"
          using n c 3(2) by (intro write_step_ok [OF c(5) _ _ False]) (auto simp: w_config_def)
        moreover have "(ss @ map Inl (take k p)) @ map Inl (take j q) = ss @ map Inl (take (k + j) p)" for j
          by (simp add: c(2) take_add)
        ultimately show ?thesis
          using c unfolding s
          by (cases "write_step fns (q, k, st1)") (auto simp: add.commute wr_out_def split: sum.splits)
      qed
    qed (use i in simp)
    with 3 e show ?thesis by (simp add: writer_write_def)
  qed
qed

lemma writer_flush_ok:
  assumes i: "writer_inv contents base ss st" and n: "cost st < 2 ^ 62" "length (symbol_data ss) < 2 ^ 62"
  shows "case writer_flush fns st of None \<Rightarrow> w_level st = Smallest
    | Some (Inl e, st') \<Rightarrow> \<not> rel
    | Some (Inr u, st') \<Rightarrow> writer_inv contents base ss st' \<and> w_config st' = w_config st \<and> cost st' \<le> cost st \<and> ibuf st' = []"
proof -
  obtain its cs where s: "sent contents base its cs st" "length (ibuf st) < w_block_size st"
    "symbols its @ map Inl (ibuf st) = ss" "uncomp_written st + length (ibuf st) = length (symbol_data ss)" "w_err st = None"
    using writer_invE [OF i] by metis
  have "wr_out rel (w_level st) (\<lambda>_ st'. w_config st' = w_config st \<and> ibuf st' = [] \<and> cost st' \<le> cost st \<and>
      (\<exists>its' cs'. sent contents base (its @ its') (cs @ cs') st' \<and> symbols its' = map Inl (ibuf st))) (flush_ibuf fns st)"
    using n s(4) by (intro flush_ibuf_ok s) auto
  then show ?thesis
  proof (rule wr_out_cases)
    fix u st1
    assume f: "flush_ibuf fns st = Some (Inr u, st1)" and st1: "w_config st1 = w_config st \<and> ibuf st1 = [] \<and> cost st1 \<le> cost st \<and>
      (\<exists>its' cs'. sent contents base (its @ its') (cs @ cs') st1 \<and> symbols its' = map Inl (ibuf st))"
    then obtain its' cs' where s1: "sent contents base (its @ its') (cs @ cs') st1" "symbols its' = map Inl (ibuf st)" by blast
    obtain r w where w: "flush_sink fns (w_sink st1) = (r, w)" by (cases "flush_sink fns (w_sink st1)")
    show ?thesis
    proof (cases r)
      case (Inl e)
      then have "\<not> rel" using w by (auto simp: fault_free_def) (metis Inl_Inr_False prod.inject)
      with f w Inl s(5) show ?thesis by (simp add: writer_flush_def)
    next
      case (Inr u)
      then have "contents w = contents (w_sink st1)" using flush_ok w by blast
      then have "sent contents base (its @ its') (cs @ cs') (st1\<lparr>w_sink := w\<rparr>)" using s1(1) by (simp add: sent_sink)
      with f w Inr s st1 s1(2) show ?thesis
        by (auto simp: writer_flush_def writer_inv_def w_config_def cost_def)
    qed
  qed (use s(5) in \<open>simp_all add: writer_flush_def\<close>)
qed

text \<open>A chunk that is passed on, in two writes.\<close>

lemma sent_other:
  assumes s: "sent contents base its cs st" "wrote_header st"
    and c: "item_chunk (w_block_size st) (Other t body) (chunk t body)" and w: "contents w = contents (w_sink st) @ chunk t body"
  shows "sent contents base (its @ [Other t body]) (cs @ [chunk t body])
    (st\<lparr>w_sink := w, comp_written := comp_written st + length (chunk t body)\<rparr>)"
proof -
  have l: "length its = length cs" using s by (auto simp: sent_def dest: list_all2_lengthD)
  show ?thesis using s c w index_inv_append [OF _ l] by (auto simp: sent_def intro: list_all2_appendI)
qed

lemma add_user_chunk_ok:
  assumes i: "writer_inv contents base ss st" and n: "cost st + length body + 4 < 2 ^ 62" "length (symbol_data ss) < 2 ^ 62"
    and t: "MIN_USER_SKIPPABLE_CHUNK \<le> t" "t \<le> MAX_USER_NON_SKIPPABLE_CHUNK" and b: "length body \<le> MAX_USER_CHUNK_SIZE"
  shows "wr_out rel (w_level st) (\<lambda>_ st'. writer_inv contents base (ss @ [Inr (t, body)]) st' \<and>
      w_config st' = w_config st \<and> cost st' \<le> cost st + length body + 4) (add_user_chunk fns t body st)"
proof -
  obtain its cs where s: "sent contents base its cs st" "length (ibuf st) < w_block_size st"
    "symbols its @ map Inl (ibuf st) = ss" "uncomp_written st + length (ibuf st) = length (symbol_data ss)" "w_err st = None"
    using writer_invE [OF i] by metis
  have range: "MAX_NON_SKIPPABLE_CHUNK < t" "t \<noteq> CHUNK_TYPE_STREAM_IDENTIFIER"
    using t by (auto simp: stream_consts elim: order_less_le_trans [rotated])
  have "wr_out rel (w_level st) (\<lambda>_ st'. writer_inv contents base (ss @ [Inr (t, body)]) st' \<and>
      w_config st' = w_config st \<and> cost st' \<le> cost st + length body + 4)
    (with_st (flush_ibuf fns st) (\<lambda>_ st. with_st (ensure_header fns st) (\<lambda>_ st.
      with_st (write_all_tracked fns (t # len_bytes (length body)) st) (\<lambda>_ st. write_all_tracked fns body st))))"
  proof (rule wr_out_bind [OF flush_ibuf_ok [OF s(1)]])
    fix u st1
    assume st1: "w_config st1 = w_config st \<and> ibuf st1 = [] \<and> cost st1 \<le> cost st \<and>
      (\<exists>its' cs'. sent contents base (its @ its') (cs @ cs') st1 \<and> symbols its' = map Inl (ibuf st))"
    then obtain its' cs' where s1: "sent contents base (its @ its') (cs @ cs') st1" "symbols its' = map Inl (ibuf st)" by blast
    have c1: "comp_written st1 \<le> cost st" "10 \<le> cost st" using st1 by (auto simp: cost_def)
    show "wr_out rel (w_level st) (\<lambda>_ st'. writer_inv contents base (ss @ [Inr (t, body)]) st' \<and>
        w_config st' = w_config st \<and> cost st' \<le> cost st + length body + 4)
      (with_st (ensure_header fns st1) (\<lambda>_ st.
        with_st (write_all_tracked fns (t # len_bytes (length body)) st) (\<lambda>_ st. write_all_tracked fns body st)))"
    proof (rule wr_out_bind [OF ensure_header_ok [OF s1(1)]])
      fix u st2
      assume st2: "sent contents base (its @ its') (cs @ cs') st2 \<and> wrote_header st2 \<and> w_config st2 = w_config st1 \<and>
        ibuf st2 = ibuf st1 \<and> comp_written st2 \<le> max (comp_written st1) STREAM_HEADER_LEN"
      then have c2: "comp_written st2 \<le> cost st" "ibuf st2 = []" using c1 st1 by (auto simp: stream_consts)
      have bs: "w_block_size st2 = w_block_size st" using st1 st2 by (simp add: w_config_def)
      show "wr_out rel (w_level st) (\<lambda>_ st'. writer_inv contents base (ss @ [Inr (t, body)]) st' \<and>
          w_config st' = w_config st \<and> cost st' \<le> cost st + length body + 4)
        (with_st (write_all_tracked fns (t # len_bytes (length body)) st2) (\<lambda>_ st. write_all_tracked fns body st))"
      proof (rule wr_out_mono [OF write_pair_ok], goal_cases)
        case (2 a st3)
        then obtain w where w: "st3 = st2\<lparr>w_sink := w, comp_written := comp_written st2 + length (chunk t body)\<rparr>"
          "contents w = contents (w_sink st2) @ chunk t body" by (auto simp: chunk_def add.assoc)
        have "sent contents base ((its @ its') @ [Other t body]) ((cs @ cs') @ [chunk t body]) st3"
          unfolding w(1) using st2 range b w(2) by (intro sent_other) auto
        then have "writer_inv contents base (ss @ [Inr (t, body)]) st3"
          using s(2,3) s1(2) bs c2(2) unfolding writer_inv_def by (intro exI conjI) (auto simp: w(1))
        with st1 st2 c2 c1 show ?case by (auto simp: w(1) w_config_def cost_def)
      qed (use n c2 in simp)
    qed (use c1 n in simp)
  qed (use n s(4) in auto)
  then show ?thesis using t b s(5) by (simp add: add_user_chunk_def)
qed

lemma pad_loop_ok:
  assumes "0 < t" "t \<le> m" "m \<le> MAX_BLOCK_SIZE"
  obtains r where "loop (pad_step m) t = Some r" "4 \<le> r" "r \<le> m + 4" "r mod m = t mod m"
proof -
  have m: "m \<le> 8388608" using assms(3) by (simp add: format_consts)
  have "\<exists>r. loop (pad_step m) t = Some r \<and> (4 \<le> r \<and> r \<le> m + 4 \<and> r mod m = t mod m)"
  proof (rule loop_total [where I = "\<lambda>r. 0 < r \<and> r \<le> m + 4 \<and> r mod m = t mod m" and m = "\<lambda>r. 4 - r"])
    fix r :: nat
    assume I: "0 < r \<and> r \<le> m + 4 \<and> r mod m = t mod m"
    have "chk_u64 (r + m) = Some (r + m)" if "r < 4" using that m by (intro chk_u64_Some) simp
    with I assms show "(\<exists>s'. pad_step m r = Some (Inl s') \<and> (0 < s' \<and> s' \<le> m + 4 \<and> s' mod m = t mod m) \<and> 4 - s' < 4 - r) \<or>
      (\<exists>s. pad_step m r = Some (Inr s) \<and> (4 \<le> s \<and> s \<le> m + 4 \<and> s mod m = t mod m))"
      by (cases "r < 4") (auto simp: pad_step_def stream_consts)
  qed (use assms in auto)
  with that show thesis by blast
qed

lemma zeros_ok:
  assumes "comp_written st + n < 2 ^ 64"
  shows "wr_out rel lv (\<lambda>_ st'. \<exists>w. st' = st\<lparr>w_sink := w, comp_written := comp_written st + n\<rparr> \<and>
    contents w = contents (w_sink st) @ replicate n 0) (loop (zeros_step fns) (n, st))"
proof (rule wr_out_loop [where m = fst and I = "\<lambda>(k, st'). k \<le> n \<and>
    (\<exists>w. st' = st\<lparr>w_sink := w, comp_written := comp_written st + (n - k)\<rparr> \<and> contents w = contents (w_sink st) @ replicate (n - k) 0)"])
  fix s
  assume I: "case s of (k, st') \<Rightarrow> k \<le> n \<and>
    (\<exists>w. st' = st\<lparr>w_sink := w, comp_written := comp_written st + (n - k)\<rparr> \<and> contents w = contents (w_sink st) @ replicate (n - k) 0)"
  then obtain k st1 w where s: "s = (k, st1)" "k \<le> n" "st1 = st\<lparr>w_sink := w, comp_written := comp_written st + (n - k)\<rparr>"
    "contents w = contents (w_sink st) @ replicate (n - k) 0" by auto
  define j where "j = min k 4096"
  have j: "j \<le> k" "0 < k \<Longrightarrow> 0 < j" by (auto simp: j_def)
  have "wr_out rel lv (\<lambda>_ st'. \<exists>w. st' = st1\<lparr>w_sink := w, comp_written := comp_written st1 + j\<rparr> \<and>
    contents w = contents (w_sink st1) @ replicate j 0) (write_all_tracked fns (replicate j 0) st1)"
    using assms s j write_tracked_ok [of st1 "replicate j 0" lv] by simp
  then show "case zeros_step fns s of None \<Rightarrow> lv = Smallest
    | Some (Inl s') \<Rightarrow> (case s' of (k, st') \<Rightarrow> k \<le> n \<and>
        (\<exists>w. st' = st\<lparr>w_sink := w, comp_written := comp_written st + (n - k)\<rparr> \<and> contents w = contents (w_sink st) @ replicate (n - k) 0)) \<and>
        fst s' < fst s
    | Some (Inr res) \<Rightarrow> wr_out rel lv (\<lambda>_ st'. \<exists>w. st' = st\<lparr>w_sink := w, comp_written := comp_written st + n\<rparr> \<and>
        contents w = contents (w_sink st) @ replicate n 0) (Some res)"
  proof (cases "k = 0")
    case True
    with s show ?thesis by (auto simp: zeros_step_def)
  next
    case False
    have n: "n - k + j = n - (k - j)" using j s(2) by simp
    show ?thesis using \<open>wr_out rel lv _ (write_all_tracked fns (replicate j 0) st1)\<close>
    proof (rule wr_out_cases)
      fix a st2
      assume w2: "write_all_tracked fns (replicate j 0) st1 = Some (Inr a, st2)"
        "\<exists>w. st2 = st1\<lparr>w_sink := w, comp_written := comp_written st1 + j\<rparr> \<and> contents w = contents (w_sink st1) @ replicate j 0"
      then obtain w' where w': "st2 = st1\<lparr>w_sink := w', comp_written := comp_written st1 + j\<rparr>"
        "contents w' = contents (w_sink st1) @ replicate j 0" by blast
      have "st2 = st\<lparr>w_sink := w', comp_written := comp_written st + (n - (k - j))\<rparr>"
        unfolding w'(1) s(3) n [symmetric] by (simp add: add.assoc)
      moreover have "contents w' = contents (w_sink st) @ replicate (n - (k - j)) 0"
        unfolding w'(2) n [symmetric] replicate_add using s(3,4) by simp
      moreover have "zeros_step fns s = Some (Inl (k - j, st2))" using False w2(1) by (simp add: zeros_step_def s(1) Let_def j_def)
      ultimately show ?thesis using j False s(1,2) by auto
    qed (use False in \<open>simp_all add: zeros_step_def s(1) Let_def j_def\<close>)
  qed
qed (auto intro: exI [of _ "w_sink st"])

section \<open>Closing the stream\<close>

text \<open>The bytes of the EOF chunk, as both writers put them together.\<close>

lemma eof_bytes:
  "stream_put_uvarint (replicate MAX_VARINT_LEN_64 0) (of_nat u) =
     Some (uvarint (of_nat u) @ drop (length (uvarint (of_nat u))) (replicate MAX_VARINT_LEN_64 0), length (uvarint (of_nat u)))" (is "_ = Some (?v @ ?pad, _)")
  "slice ([CHUNK_TYPE_EOF, of_nat (length (uvarint (of_nat u))), 0, 0] @ uvarint (of_nat u) @ xs)
     0 (CHUNK_HEADER_SIZE + length (uvarint (of_nat u))) = Some (eof_chunk u)"
  "length (eof_chunk u) \<le> 14"
proof -
  have l: "length ?v \<le> 10" by (rule length_uvarint_max)
  then show "stream_put_uvarint (replicate MAX_VARINT_LEN_64 0) (of_nat u) = Some (?v @ ?pad, length ?v)"
    by (intro stream_put_uvarint_eq) (simp add: stream_consts)
  have "length ?v < 256" using l by simp
  then have "len_bytes (length ?v) = [of_nat (length ?v), 0, 0]" by (simp add: len_bytes_def)
  then have "eof_chunk u = [CHUNK_TYPE_EOF, of_nat (length ?v), 0, 0] @ ?v"
    by (simp add: eof_chunk_def chunk_def)
  then have e: "[CHUNK_TYPE_EOF, of_nat (length ?v), 0, 0] @ ?v @ xs = eof_chunk u @ xs"
    "CHUNK_HEADER_SIZE + length ?v = length (eof_chunk u)"
    by (simp_all add: CHUNK_HEADER_SIZE_def)
  show "slice ([CHUNK_TYPE_EOF, of_nat (length ?v), 0, 0] @ ?v @ xs) 0 (CHUNK_HEADER_SIZE + length ?v) = Some (eof_chunk u)"
    unfolding e by (simp add: slice_def)
  show "length (eof_chunk u) \<le> 14" using l by (simp add: eof_chunk_def)
qed

lemma emit_eof_eq: "emit_eof fns st = write_all_tracked fns (eof_chunk (uncomp_written st)) st"
  using eof_bytes(1,2) by (simp add: emit_eof_def)

lemma emit_eof_ok:
  assumes n: "comp_written st < 2 ^ 62"
  shows "wr_out rel lv (\<lambda>_ st'. \<exists>w. st' = st\<lparr>w_sink := w, comp_written := comp_written st + length (eof_chunk (uncomp_written st))\<rparr> \<and>
    contents w = contents (w_sink st) @ eof_chunk (uncomp_written st)) (emit_eof fns st)"
  using eof_bytes(3) [of "uncomp_written st"] n unfolding emit_eof_eq by (intro write_tracked_ok) simp

lemma emit_padding_ok:
  assumes n: "comp_written st < 2 ^ 62" "w_padding st \<le> MAX_BLOCK_SIZE"
  shows "wr_out rel lv (\<lambda>_ st'. \<exists>w trailer ts. st' = st\<lparr>w_sink := w, comp_written := comp_written st + length (concat ts)\<rparr> \<and>
      contents w = contents (w_sink st) @ concat ts \<and> list_all2 (item_chunk 0) trailer ts \<and> skippable trailer \<and>
      length (concat ts) \<le> w_padding st + 4 \<and>
      (2 \<le> w_padding st \<longrightarrow> w_padding st dvd comp_written st + length (concat ts))) (emit_padding fns st)"
proof (cases "w_padding st < 2 \<or> comp_written st mod w_padding st = 0")
  case True
  moreover have "st = st\<lparr>w_sink := w_sink st, comp_written := comp_written st\<rparr>" by simp
  ultimately show ?thesis
    by (force simp: emit_padding_def Let_def mod_eq_0_iff_dvd intro!: exI [of _ "[]"] exI [of _ "w_sink st"])
next
  case False
  let ?m = "w_padding st" and ?l = "comp_written st mod w_padding st"
  have "?l < ?m" using False by simp
  then obtain r where r: "loop (pad_step ?m) (?m - ?l) = Some r" "4 \<le> r" "r \<le> ?m + 4" "r mod ?m = (?m - ?l) mod ?m"
    using False n(2) pad_loop_ok [of "?m - ?l" ?m] by (metis diff_le_self zero_less_diff)
  have m: "?m \<le> 8388608" using n(2) by (simp add: format_consts)
  have dvd: "?m dvd comp_written st + r"
  proof -
    have "(comp_written st + r) mod ?m = (?l + (?m - ?l) mod ?m) mod ?m" by (simp add: mod_add_eq flip: r(4))
    also have "\<dots> = (?l + (?m - ?l)) mod ?m" by (simp only: mod_add_right_eq)
    finally show ?thesis using \<open>?l < ?m\<close> by (simp add: mod_eq_0_iff_dvd)
  qed
  let ?c = "chunk CHUNK_TYPE_PADDING (replicate (r - 4) 0)"
  have len: "length ?c = r" using r(2) by simp
  have item: "list_all2 (item_chunk 0) [Other CHUNK_TYPE_PADDING (replicate (r - 4) 0)] [?c]"
    using r(3) m by (simp add: stream_consts)
  have step: "emit_padding fns st = with_st (write_all_tracked fns (CHUNK_TYPE_PADDING # len_bytes (r - 4)) st)
      (\<lambda>_ st. loop (zeros_step fns) (r - 4, st))"
    using False r(1,3) n(2) by (simp add: emit_padding_def Let_def CHUNK_HEADER_SIZE_def)
  show ?thesis unfolding step
  proof (rule wr_out_bind [OF write_tracked_ok], goal_cases)
    case (2 a st1)
    then obtain w1 where w1: "st1 = st\<lparr>w_sink := w1, comp_written := comp_written st + 4\<rparr>"
      "contents w1 = contents (w_sink st) @ CHUNK_TYPE_PADDING # len_bytes (r - 4)" by auto
    show ?case
    proof (rule wr_out_mono [OF zeros_ok], goal_cases)
      case (2 a st2)
      then obtain w2 where "st2 = st1\<lparr>w_sink := w2, comp_written := comp_written st1 + (r - 4)\<rparr>"
        "contents w2 = contents w1 @ replicate (r - 4) 0" using w1 by auto
      then have "st2 = st\<lparr>w_sink := w2, comp_written := comp_written st + length (concat [?c])\<rparr>"
        "contents w2 = contents (w_sink st) @ concat [?c]"
        using w1 r(2) by (simp_all add: chunk_def)
      with item dvd len r(3) show ?case
        by (intro exI [of _ w2] exI [of _ "[Other CHUNK_TYPE_PADDING (replicate (r - 4) 0)]"] exI [of _ "[?c]"] conjI) simp_all
    qed (use w1 n(1) r(3) m in simp)
  qed (use n(1) in simp)
qed

lemma close_index_bytes_ok:
  assumes inv: "index_inv its cs (w_index st)" "\<forall>c \<in> set cs. c \<noteq> []" "length (concat cs) \<le> comp_written st"
    and n: "comp_written st < 2 ^ 61" "uncomp_written st = length (data_of its)" "uncomp_written st < 2 ^ 61"
    and some: "w_index st \<noteq> None"
  obtains ib ix where "close_index_bytes True st = Some (Inr ib, st\<lparr>w_index := Some ix,
      comp_written := comp_written st + (if w_append_index st then length ib else 0)\<rparr>)"
    "index_for its cs ib" "length ib \<le> 2 ^ 24" "item_chunk 0 (Other CHUNK_TYPE_INDEX (drop 4 ib)) ib" "ib \<noteq> []"
proof -
  obtain ix where ix: "w_index st = Some ix" using some by blast
  have ok: "index_ok ix" "est_block_uncomp ix < 2 ^ 63" and m: "\<forall>p \<in> set (offsets ix). marks its cs p"
    using inv(1) ix by (auto simp: index_inv_def)
  have w: "wire_range (offsets ix)" using inv n(1) ix by (intro index_inv_wire [of its cs]) auto
  let ?tc = "if w_padding st \<le> 1 then Some (comp_written st) else None"
  have tu: "uncomp_written st \<le> MAX_I64" "\<not> over_i64 ?tc" using n by (auto simp: over_i64_def index_consts)
  obtain ib ix' where a: "index_append_to [] (Some (uncomp_written st)) ?tc ix = Some (Inr ([] @ ib), ix')"
    "\<And>rest old. index_load (ib @ rest) old = Some (Inr rest, ix')"
    "\<exists>p. ib = envelope p \<and> p \<noteq> [] \<and> length p < 2 ^ 23"
    "index_ok ix'" "set (offsets ix') \<subseteq> set (offsets ix)" "total_uncompressed ix' = Some (uncomp_written st)"
    using index_roundtrip_at [OF ok(1) w ok(2) tu] by metis
  obtain p where p: "ib = envelope p" "length p < 2 ^ 23" using a(3) by blast
  have len: "length ib = length p + 20" by (simp add: p(1) envelope_def length_index_marks)
  have c: "ib = chunk CHUNK_TYPE_INDEX (drop 4 ib)"
    using len by (simp add: p(1) envelope_def chunk_def length_index_marks add.commute)
  have "length (drop 4 ib) \<le> MAX_USER_CHUNK_SIZE" using len p(2) by (simp add: stream_consts)
  then have it: "item_chunk 0 (Other CHUNK_TYPE_INDEX (drop 4 ib)) ib"
    unfolding item_chunk.simps c [symmetric] by (simp add: stream_consts CHUNK_TYPE_INDEX_def)
  have "comp_written st + length ib < 2 ^ 64" using n(1) len p(2) by simp
  then have "close_index_bytes True st = Some (Inr ib, st\<lparr>w_index := Some ix',
      comp_written := comp_written st + (if w_append_index st then length ib else 0)\<rparr>)"
    using a(1) ix by (simp add: close_index_bytes_def chk_u64_def Let_def)
  moreover have "index_for its cs ib"
    unfolding index_for_def using a(2,3,4,5,6) m n(2) by (intro conjI exI [of _ ix']) auto
  moreover have "length ib \<le> 2 ^ 24" using len p(2) by simp
  moreover note it
  moreover have "ib \<noteq> []" using len by auto
  ultimately show ?thesis by (rule that)
qed

lemma write_index_chunk_ok:
  "wr_out rel lv (\<lambda>_ st'. \<exists>w. st' = st\<lparr>w_sink := w\<rparr> \<and>
     contents w = contents (w_sink st) @ (if w_append_index st then ib else [])) (write_index_chunk fns ib st)"
proof (cases "w_append_index st \<and> ib \<noteq> []")
  case True
  obtain r w where w: "write_all fns ib (w_sink st) = (r, w)" by (cases "write_all fns ib (w_sink st)")
  show ?thesis
  proof (cases r)
    case (Inl e)
    with w have "\<not> rel" by (auto simp: fault_free_def) (metis Inl_Inr_False prod.inject)
    with True w Inl show ?thesis by (simp add: write_index_chunk_def)
  next
    case (Inr u)
    with True w write_ok [of ib "w_sink st"] show ?thesis
      by (simp add: write_index_chunk_def) (intro exI [of _ w], simp)
  qed
next
  case False
  then show ?thesis by (auto simp: write_index_chunk_def intro: exI [of _ "w_sink st"])
qed

lemma close_tail_ok:
  assumes s: "sent contents base its cs st" "wrote_header st" and n: "comp_written st < 2 ^ 60" "length (data_of its) < 2 ^ 60"
    and b: "w_append_index st \<Longrightarrow> build" "build \<Longrightarrow> w_index st \<noteq> None"
  shows "wr_out rel lv (\<lambda>ib st'. closed contents base (w_block_size st) (w_padding st) (w_append_index st) build its ib (w_sink st'))
    (close_tail fns build st)"
proof -
  let ?eof = "eof_chunk (length (data_of its))"
  obtain h where h: "make_stream_header (w_block_size st) = Some h" "contents (w_sink st) = base @ h @ concat cs"
    "comp_written st = STREAM_HEADER_LEN + length (concat cs)" using s by (auto simp: sent_def)
  have items: "list_all2 (item_chunk (w_block_size st)) its cs" "uncomp_written st = length (data_of its)"
    "index_inv its cs (w_index st)" "w_padding st \<le> MAX_BLOCK_SIZE" using s(1) by (auto simp: sent_def)
  have ne: "\<forall>c \<in> set cs. c \<noteq> []" using items(1) by (rule item_chunks_nonempty)
  have le: "length ?eof \<le> 14" using length_uvarint_max [of "of_nat (length (data_of its))"] by (simp add: eof_chunk_def)
  have hl: "length h = STREAM_HEADER_LEN" using length_header [OF h(1)] by (simp add: stream_consts)
  have mb: "w_padding st \<le> 8388608" using items(4) by (simp add: format_consts)
  have fin: "wr_out rel lv (\<lambda>ib' st'. closed contents base (w_block_size st) (w_padding st) (w_append_index st) build its ib' (w_sink st'))
      (with_st (emit_padding fns st2) (\<lambda>_ st. with_st (write_index_chunk fns ib st) (\<lambda>_ st. Some (Inr ib, st))))"
    if st2: "contents (w_sink st2) = base @ h @ concat cs @ ?eof" "w_padding st2 = w_padding st" "w_append_index st2 = w_append_index st"
      "comp_written st2 = length (h @ concat cs @ ?eof @ (if w_append_index st then ib else []))" "length ib \<le> 2 ^ 24"
      and ib: "build \<Longrightarrow> index_for its cs ib" "w_append_index st \<Longrightarrow> item_chunk 0 (Other CHUNK_TYPE_INDEX (drop 4 ib)) ib"
    for st2 ib
  proof (rule wr_out_bind [OF emit_padding_ok])
    show "comp_written st2 < 2 ^ 62" using st2(4,5) n(1) le h(3) hl by simp
    show "w_padding st2 \<le> MAX_BLOCK_SIZE" using st2(2) items(4) by simp
    fix u st3
    assume "\<exists>w trailer ts. st3 = st2\<lparr>w_sink := w, comp_written := comp_written st2 + length (concat ts)\<rparr> \<and>
      contents w = contents (w_sink st2) @ concat ts \<and> list_all2 (item_chunk 0) trailer ts \<and> skippable trailer \<and>
      length (concat ts) \<le> w_padding st2 + 4 \<and>
      (2 \<le> w_padding st2 \<longrightarrow> w_padding st2 dvd comp_written st2 + length (concat ts))"
    then obtain w trailer ts where st3: "st3 = st2\<lparr>w_sink := w, comp_written := comp_written st2 + length (concat ts)\<rparr>"
      "contents w = contents (w_sink st2) @ concat ts" "list_all2 (item_chunk 0) trailer ts" "skippable trailer"
      "2 \<le> w_padding st \<Longrightarrow> w_padding st dvd comp_written st2 + length (concat ts)" using st2(2) by auto
    define tr where "tr = (if w_append_index st then [Other CHUNK_TYPE_INDEX (drop 4 ib)] else [])"
    define ti where "ti = (if w_append_index st then [ib] else [])"
    have ti: "concat ti = (if w_append_index st then ib else [])" "list_all2 (item_chunk 0) (trailer @ tr) (ts @ ti)"
      "skippable (trailer @ tr)"
      using st3(3,4) ib(2) by (auto simp: tr_def ti_def index_consts stream_consts intro: list_all2_appendI)
    let ?bs = "h @ concat cs @ ?eof @ concat (ts @ ti)"
    have "stream_parts (w_block_size st) its (trailer @ tr) cs ?bs"
      unfolding stream_parts_def using h(1) items(1) ti by blast
    moreover have "length ?bs = comp_written st2 + length (concat ts)" using st2(4) ti(1) by simp
    with st3(5) have "2 \<le> w_padding st \<longrightarrow> w_padding st dvd length ?bs" by (simp only:) simp
    moreover have app: "w_append_index st \<longrightarrow> (\<exists>pre. ?bs = pre @ ib)"
      by (intro impI exI [of _ "h @ concat cs @ ?eof @ concat ts"]) (simp add: ti(1))
    moreover have "contents w' = base @ ?bs" if "contents w' = contents w @ concat ti" for w'
      using that st3(2) st2(1) by simp
    ultimately have closed: "closed contents base (w_block_size st) (w_padding st) (w_append_index st) build its ib w'"
      if "contents w' = contents w @ concat ti" for w'
      using that ib(1) app unfolding closed_def by blast
    show "wr_out rel lv (\<lambda>ib' st'. closed contents base (w_block_size st) (w_padding st) (w_append_index st) build its ib' (w_sink st'))
        (with_st (write_index_chunk fns ib st3) (\<lambda>_ st. Some (Inr ib, st)))"
      by (rule wr_out_bind [OF write_index_chunk_ok]) (auto intro!: closed simp: ti(1) st3(1) st2(3))
  qed
  show ?thesis
    unfolding close_tail_def
  proof (rule wr_out_bind [OF emit_eof_ok])
    show "comp_written st < 2 ^ 62" using n by simp
    fix u st1
    assume "\<exists>w. st1 = st\<lparr>w_sink := w, comp_written := comp_written st + length (eof_chunk (uncomp_written st))\<rparr> \<and>
      contents w = contents (w_sink st) @ eof_chunk (uncomp_written st)"
    then obtain w where st1: "st1 = st\<lparr>w_sink := w, comp_written := comp_written st + length ?eof\<rparr>"
      "contents w = contents (w_sink st) @ ?eof" using items(2) by auto
    show "wr_out rel lv (\<lambda>ib st'. closed contents base (w_block_size st) (w_padding st) (w_append_index st) build its ib (w_sink st'))
      (with_st (close_index_bytes build st1) (\<lambda>index_bytes st. with_st (emit_padding fns st)
        (\<lambda>_ st. with_st (write_index_chunk fns index_bytes st) (\<lambda>_ st. Some (Inr index_bytes, st)))))"
    proof (cases build)
      case True
      obtain ib ix where ib: "close_index_bytes True st1 = Some (Inr ib, st1\<lparr>w_index := Some ix,
          comp_written := comp_written st1 + (if w_append_index st1 then length ib else 0)\<rparr>)"
        "index_for its cs ib" "length ib \<le> 2 ^ 24" "item_chunk 0 (Other CHUNK_TYPE_INDEX (drop 4 ib)) ib" "ib \<noteq> []"
      proof (rule close_index_bytes_ok [of its cs st1], goal_cases)
        case (8 ib ix)
        show ?case by (rule 8(1) [OF 8(2-6)])
      qed (use ne items n le h(3) b(2) True in \<open>simp_all add: st1(1)\<close>)
      have cb: "close_index_bytes build st1 = Some (Inr ib, st1\<lparr>w_index := Some ix,
          comp_written := comp_written st1 + (if w_append_index st1 then length ib else 0)\<rparr>)"
        using ib(1) True by simp
      show ?thesis unfolding cb with_st_simps
      proof (rule fin, goal_cases)
        case 7
        show ?case by (rule ib(4))
      qed (use st1 h hl ib(2,3) in simp_all)
    next
      case False
      then have "\<not> w_append_index st" using b(1) by blast
      with False show ?thesis unfolding close_index_bytes_def if_not_P [OF False] with_st_simps
        by (intro fin) (use st1 h hl in simp_all)
    qed
  qed
qed

lemma close_inner_ok:
  assumes i: "writer_inv contents base ss st" and n: "cost st < 2 ^ 60" "length (symbol_data ss) < 2 ^ 60"
    and b: "w_append_index st \<Longrightarrow> build" "build \<Longrightarrow> w_index st \<noteq> None"
  shows "case close_inner fns build st of None \<Rightarrow> w_level st = Smallest
    | Some (Inl e, st') \<Rightarrow> \<not> rel
    | Some (Inr ib, st') \<Rightarrow> \<exists>its. closed contents base (w_block_size st) (w_padding st) (w_append_index st) build its ib (w_sink st') \<and> symbols its = ss"
proof -
  obtain its0 cs0 where s: "sent contents base its0 cs0 st" "symbols its0 @ map Inl (ibuf st) = ss"
    "uncomp_written st + length (ibuf st) = length (symbol_data ss)"
    using writer_invE [OF i] by metis
  let ?C = "\<lambda>ib w. \<exists>its. closed contents base (w_block_size st) (w_padding st) (w_append_index st) build its ib w \<and> symbols its = ss"
  have "wr_out rel (w_level st) (\<lambda>ib st'. ?C ib (w_sink st'))
    (with_st (flush_ibuf fns st) (\<lambda>_ st. with_st (ensure_header fns st) (\<lambda>_ st. close_tail fns build st)))"
  proof (rule wr_out_bind [OF flush_ibuf_ok [OF s(1)]])
    fix u st1
    assume st1: "w_config st1 = w_config st \<and> ibuf st1 = [] \<and> cost st1 \<le> cost st \<and>
      (\<exists>its' cs'. sent contents base (its0 @ its') (cs0 @ cs') st1 \<and> symbols its' = map Inl (ibuf st))"
    then obtain its cs where s1: "sent contents base its cs st1" "symbols its = ss" using s(2) by force
    have c1: "comp_written st1 \<le> cost st" "10 \<le> cost st" using st1 by (auto simp: cost_def)
    have data: "length (data_of its) < 2 ^ 60" using s1(2) n(2) by (simp add: data_of_symbols)
    show "wr_out rel (w_level st) (\<lambda>ib st'. ?C ib (w_sink st')) (with_st (ensure_header fns st1) (\<lambda>_ st. close_tail fns build st))"
    proof (rule wr_out_bind [OF ensure_header_ok [OF s1(1)]])
      fix u st2
      assume st2: "sent contents base its cs st2 \<and> wrote_header st2 \<and> w_config st2 = w_config st1 \<and>
        ibuf st2 = ibuf st1 \<and> comp_written st2 \<le> max (comp_written st1) STREAM_HEADER_LEN"
      then have c2: "comp_written st2 < 2 ^ 60" using c1 n(1) by (auto simp: stream_consts)
      have cfg: "w_config st2 = w_config st" using st1 st2 by simp
      have "wr_out rel (w_level st) (\<lambda>ib st'. closed contents base (w_block_size st2) (w_padding st2) (w_append_index st2) build its ib (w_sink st'))
          (close_tail fns build st2)"
        using st2 c2 data cfg b by (intro close_tail_ok [of base its cs]) (auto simp: w_config_def)
      then show "wr_out rel (w_level st) (\<lambda>ib st'. ?C ib (w_sink st')) (close_tail fns build st2)"
        by (rule wr_out_mono) (use cfg s1(2) in \<open>auto simp: w_config_def\<close>)
    qed (use n c1 in simp)
  qed (use n s(3) in auto)
  moreover have "close_inner fns build st =
      with_st (with_st (flush_ibuf fns st) (\<lambda>_ st. with_st (ensure_header fns st) (\<lambda>_ st. close_tail fns build st)))
        (\<lambda>ib st. Some (case flush_sink fns (w_sink st) of
          (Inr u, w) \<Rightarrow> (Inr ib, st\<lparr>w_sink := w\<rparr>) | (Inl e, w) \<Rightarrow> (Inl e, st\<lparr>w_sink := w\<rparr>)))"
    by (simp add: close_inner_def with_st_assoc)
  ultimately show ?thesis
  proof (elim wr_out_cases, goal_cases)
    case (3 ib st1)
    then obtain its where its: "closed contents base (w_block_size st) (w_padding st) (w_append_index st) build its ib (w_sink st1)" "symbols its = ss" by blast
    obtain r w where w: "flush_sink fns (w_sink st1) = (r, w)" by (cases "flush_sink fns (w_sink st1)")
    show ?case
    proof (cases r)
      case (Inl e)
      with w have "\<not> rel" by (auto simp: fault_free_def) (metis Inl_Inr_False prod.inject)
      with 3 w Inl show ?thesis by simp
    next
      case (Inr u)
      then have "contents w = contents (w_sink st1)" using flush_ok w by blast
      then have "closed contents base (w_block_size st) (w_padding st) (w_append_index st) build its ib w" using its(1) by (simp add: closed_def)
      with 3 w Inr its(2) show ?thesis by auto
    qed
  qed simp_all
qed

lemma run_ops_ok:
  assumes "writer_inv contents base ss st" "\<forall>op \<in> set ops. op_valid op"
    and "cost st + sum_list (map op_cost ops) < 2 ^ 60" "length (symbol_data ss) + sum_list (map op_cost ops) < 2 ^ 60"
  shows "case run_ops fns ops st of None \<Rightarrow> w_level st = Smallest
    | Some (Inl e, st') \<Rightarrow> \<not> rel
    | Some (Inr u, st') \<Rightarrow> writer_inv contents base (ss @ concat (map op_symbols ops)) st' \<and> w_config st' = w_config st \<and>
        cost st' \<le> cost st + sum_list (map op_cost ops)"
  using assms
proof (induction ops arbitrary: ss st)
  case (Cons op ops)
  have "case run_op fns op st of None \<Rightarrow> w_level st = Smallest
    | Some (Inl e, st') \<Rightarrow> \<not> rel
    | Some (Inr u, st') \<Rightarrow> writer_inv contents base (ss @ op_symbols op) st' \<and> w_config st' = w_config st \<and>
        cost st' \<le> cost st + op_cost op"
  proof (cases op)
    case (Op_Write p)
    have "wr_out rel (w_level st) (\<lambda>k st'. k = length p \<and> writer_inv contents base (ss @ map Inl p) st' \<and>
        w_config st' = w_config st \<and> cost st' \<le> cost st + 9 * length p) (writer_write fns p st)"
      using Cons.prems Op_Write by (intro writer_write_ok) auto
    then show ?thesis by (rule wr_out_cases) (simp_all add: Op_Write)
  next
    case Op_Flush
    with Cons.prems writer_flush_ok [OF Cons.prems(1)] show ?thesis by (simp split: option.splits sum.splits) force
  next
    case (Op_Chunk t b)
    have "wr_out rel (w_level st) (\<lambda>_ st'. writer_inv contents base (ss @ [Inr (t, b)]) st' \<and>
        w_config st' = w_config st \<and> cost st' \<le> cost st + length b + 4) (add_user_chunk fns t b st)"
      using Cons.prems Op_Chunk by (intro add_user_chunk_ok) auto
    then show ?thesis by (rule wr_out_cases) (simp_all add: Op_Chunk)
  qed
  then show ?case
  proof (cases rule: res_cases)
    case (3 u st')
    then have 3: "run_op fns op st = Some (Inr u, st')" "writer_inv contents base (ss @ op_symbols op) st'"
      "w_config st' = w_config st" "cost st' \<le> cost st + op_cost op" by simp_all
    have d: "length (symbol_data (op_symbols op)) \<le> op_cost op" by (cases op) simp_all
    have "w_level st' = w_level st" using 3(3) by (simp add: w_config_def)
    have "case run_ops fns ops st' of None \<Rightarrow> w_level st' = Smallest
      | Some (Inl e, st'') \<Rightarrow> \<not> rel
      | Some (Inr u, st'') \<Rightarrow> writer_inv contents base ((ss @ op_symbols op) @ concat (map op_symbols ops)) st'' \<and>
          w_config st'' = w_config st' \<and> cost st'' \<le> cost st' + sum_list (map op_cost ops)"
      using Cons.prems 3 d by (intro Cons.IH) auto
    then show ?thesis by (cases rule: res_cases) (use 3 \<open>w_level st' = w_level st\<close> in auto)
  qed simp_all
qed simp

lemma writer_finish_ok:
  assumes i: "writer_inv contents base ss st" and n: "cost st < 2 ^ 60" "length (symbol_data ss) < 2 ^ 60"
  shows "case writer_finish fns st of None \<Rightarrow> w_level st = Smallest
    | Some (Inl e, w) \<Rightarrow> \<not> rel
    | Some (Inr u, w) \<Rightarrow> \<exists>its ib. closed contents base (w_block_size st) (w_padding st) (w_append_index st) (w_append_index st) its ib w \<and> symbols its = ss"
proof -
  have e: "w_err st = None" and a: "w_append_index st \<Longrightarrow> w_index st \<noteq> None"
    using i by (auto simp: writer_inv_def sent_def)
  have "\<not> (w_append_index st \<and> w_index st = None)" using a by blast
  then have "case close_inner fns (w_append_index st) st of None \<Rightarrow> w_level st = Smallest
    | Some (Inl e, st') \<Rightarrow> \<not> rel
    | Some (Inr ib, st') \<Rightarrow> \<exists>its. closed contents base (w_block_size st) (w_padding st) (w_append_index st) (w_append_index st) its ib (w_sink st') \<and> symbols its = ss"
    by (intro close_inner_ok [OF i n]) auto
  then show ?thesis by (cases rule: res_cases) (use e in \<open>auto simp: writer_finish_def\<close>)
qed

lemma writer_close_index_ok:
  assumes i: "writer_inv contents base ss st" and n: "cost st < 2 ^ 60" "length (symbol_data ss) < 2 ^ 60"
    and some: "w_index st \<noteq> None"
  shows "case writer_close_index fns st of None \<Rightarrow> w_level st = Smallest
    | Some (Inl e, w) \<Rightarrow> \<not> rel
    | Some (Inr ib, w) \<Rightarrow> \<exists>its. closed contents base (w_block_size st) (w_padding st) (w_append_index st) True its ib w \<and> symbols its = ss"
proof -
  have e: "w_err st = None" using i by (auto simp: writer_inv_def sent_def)
  show ?thesis using close_inner_ok [OF i n, of True] some
    by (cases rule: res_cases) (use e in \<open>auto simp: writer_close_index_def\<close>)
qed

end

section \<open>Building a writer\<close>

definition builder_ok :: "writer_builder \<Rightarrow> bool" where
  "builder_ok b \<longleftrightarrow> MIN_BLOCK_SIZE \<le> b_block_size b \<and> b_block_size b \<le> MAX_BLOCK_SIZE \<and> b_padding b \<le> MAX_BLOCK_SIZE"

lemma writer_build_ok:
  assumes "builder_ok b"
  obtains st where "writer_build w b = Some (Inr st)" "writer_inv contents (contents w) [] st" "cost st = 10"
    "w_block_size st = b_block_size b" "w_level st = b_level b" "w_padding st = b_padding b"
    "w_append_index st = b_append_index b" "(w_index st = None) = (\<not> b_generate_index b \<and> \<not> b_append_index b)"
    "w_flush_on_write st = b_flush_on_write b" "w_sink st = w" "\<not> wrote_header st" "w_err st = None"
proof -
  have bs: "MIN_BLOCK_SIZE \<le> b_block_size b" "b_block_size b \<le> MAX_BLOCK_SIZE" "b_padding b \<le> MAX_BLOCK_SIZE"
    using assms by (auto simp: builder_ok_def)
  have "b_block_size b < 2 ^ 62" using bs(2) by (simp add: format_consts)
  then obtain ix where ix: "index_reset (b_block_size b) index_default = Some ix" "index_ok ix" "offsets ix = []"
    "est_block_uncomp ix < 2 ^ 62" by (rule index_reset_ok [of _ index_default]) blast
  let ?oix = "if b_generate_index b \<or> b_append_index b then Some ix else None"
  let ?st = "\<lparr>w_sink = w, ibuf = [], obuf = [], w_block_size = b_block_size b, w_level = b_level b,
       w_uncompressed = b_uncompressed b, w_padding = b_padding b, w_flush_on_write = b_flush_on_write b,
       w_append_index = b_append_index b, w_index = ?oix, wrote_header = False, uncomp_written = 0,
       comp_written = 0, w_err = None\<rparr>"
  have "writer_build w b = Some (Inr ?st)"
    using bs ix(1) by (simp add: writer_build_def writer_with_builder_def)
  moreover have "sent contents (contents w) [] [] ?st"
    using bs ix by (auto simp: sent_def index_inv_def)
  then have "writer_inv contents (contents w) [] ?st"
    unfolding writer_inv_def using bs by (intro exI [of _ "[]"] conjI) (simp_all add: stream_consts)
  ultimately show ?thesis by (rule that) (simp_all add: cost_def)
qed

text \<open>A whole run: build, the calls, and \<^verbatim>\<open>finish\<close>.\<close>

definition write_stream :: "'w sink_fns \<Rightarrow> 'w \<Rightarrow> writer_builder \<Rightarrow> writer_op list \<Rightarrow> ((io_error + unit) \<times> 'w) option" where
  "write_stream fns w b ops = do {
     r \<leftarrow> writer_build w b;
     case r of
       Inl e \<Rightarrow> Some (Inl (stream_error_to_io e), w)
     | Inr st \<Rightarrow> do {
         (r, st) \<leftarrow> run_ops fns ops st;
         case r of Inl e \<Rightarrow> Some (Inl e, w_sink st) | Inr _ \<Rightarrow> writer_finish fns st } }"

lemma closed_stream:
  "closed contents base m pad app build its ib w \<Longrightarrow>
   \<exists>trailer bs. contents w = base @ bs \<and> stream_of m its trailer bs \<and> (2 \<le> pad \<longrightarrow> pad dvd length bs)"
  unfolding closed_def stream_of_def by blast

lemma write_stream_closed:
  assumes s: "sink fns contents" and b: "builder_ok b" "\<forall>op \<in> set ops. op_valid op"
    and n: "sum_list (map op_cost ops) < 2 ^ 59"
  shows "case write_stream fns w b ops of
      None \<Rightarrow> b_level b = Smallest
    | Some (Inl e, w') \<Rightarrow> \<not> fault_free fns
    | Some (Inr u, w') \<Rightarrow> \<exists>its ib. closed contents (contents w) (b_block_size b) (b_padding b) (b_append_index b) (b_append_index b) its ib w' \<and>
        symbols its = concat (map op_symbols ops)"
proof -
  obtain st where st: "writer_build w b = Some (Inr st)" "writer_inv contents (contents w) [] st" "cost st = 10"
    "w_block_size st = b_block_size b" "w_level st = b_level b" "w_padding st = b_padding b"
    "w_append_index st = b_append_index b"
    by (rule writer_build_ok [OF b(1), of w contents]) blast
  have "case run_ops fns ops st of None \<Rightarrow> w_level st = Smallest
    | Some (Inl e, st') \<Rightarrow> \<not> fault_free fns
    | Some (Inr u, st') \<Rightarrow> writer_inv contents (contents w) ([] @ concat (map op_symbols ops)) st' \<and> w_config st' = w_config st \<and>
        cost st' \<le> cost st + sum_list (map op_cost ops)"
    using n st(3) by (intro sink.run_ops_ok [OF s st(2) b(2)]) simp_all
  then show ?thesis
  proof (cases rule: res_cases)
    case (3 u st')
    then have st': "writer_inv contents (contents w) (concat (map op_symbols ops)) st'" "w_config st' = w_config st"
      "cost st' \<le> 10 + sum_list (map op_cost ops)" using st(3) by simp_all
    have "length (symbol_data (concat (map op_symbols xs))) \<le> sum_list (map op_cost xs)" for xs
    proof (induction xs)
      case (Cons op xs)
      then show ?case by (cases op) simp_all
    qed simp
    from this [of ops] n st'(3) have "cost st' < 2 ^ 60" "length (symbol_data (concat (map op_symbols ops))) < 2 ^ 60" by simp_all
    note fin = sink.writer_finish_ok [OF s st'(1) this]
    show ?thesis
      using fin
    proof (cases rule: res_cases)
      case (3 u' w')
      then obtain its ib where "closed contents (contents w) (w_block_size st') (w_padding st') (w_append_index st') (w_append_index st') its ib w'"
        "symbols its = concat (map op_symbols ops)" by blast
      with 3(1) st st'(2) \<open>run_ops fns ops st = Some (Inr u, st')\<close> show ?thesis
        by (auto simp: write_stream_def w_config_def)
    qed (use st st'(2) \<open>run_ops fns ops st = Some (Inr u, st')\<close> in \<open>simp_all add: write_stream_def w_config_def\<close>)
  qed (use st in \<open>simp_all add: write_stream_def\<close>)
qed

lemma write_stream_ok:
  assumes s: "sink fns contents" and b: "builder_ok b" "\<forall>op \<in> set ops. op_valid op"
    and n: "sum_list (map op_cost ops) < 2 ^ 59"
  shows "case write_stream fns w b ops of
      None \<Rightarrow> b_level b = Smallest
    | Some (Inl e, w') \<Rightarrow> \<not> fault_free fns
    | Some (Inr u, w') \<Rightarrow> \<exists>its trailer bs. contents w' = contents w @ bs \<and> stream_of (b_block_size b) its trailer bs \<and>
        symbols its = concat (map op_symbols ops) \<and> (2 \<le> b_padding b \<longrightarrow> b_padding b dvd length bs)"
  using write_stream_closed [OF assms, of w]
proof (cases rule: res_cases)
  case (3 u w')
  then show ?thesis using closed_stream by fastforce
qed simp_all

end
