(* ===== verification/Reader.thy ===== *)
theory Reader
  imports Io Block Stream_Format Crc
begin

text \<open>
  \<^verbatim>\<open>stream/reader.rs\<close>: the single-threaded stream reader. Each method maps the reader to its result and
  the reader after the call, also when it returns an error; None is a panic. The source is a parameter,
  and so are the callbacks of user chunks, which share the state \<open>cb_env\<close>. A read into a buffer that
  fails leaves the buffer as it was; the code discards what it may hold then. \<open>be\<close> is the byte order
  of the target, as in the block decoder.
\<close>

section \<open>Options\<close>

type_synonym 'c user_chunk_cb = "byte \<Rightarrow> bytes \<Rightarrow> 'c \<Rightarrow> (io_error + unit) \<times> 'c"

definition USER_CB_COUNT :: nat where
  "USER_CB_COUNT = unat (MAX_USER_NON_SKIPPABLE_CHUNK - MIN_USER_SKIPPABLE_CHUNK + 1)"

record 'c reader_builder =
  rb_max_block_size :: nat
  rb_ignore_stream_id :: bool
  rb_ignore_crc :: bool
  rb_callbacks :: "'c user_chunk_cb option list"

definition reader_builder_default :: "'c reader_builder" where
  "reader_builder_default = \<lparr>rb_max_block_size = MAX_BLOCK_SIZE, rb_ignore_stream_id = False,
     rb_ignore_crc = False, rb_callbacks = replicate USER_CB_COUNT None\<rparr>"

definition set_max_block_size :: "nat \<Rightarrow> 'c reader_builder \<Rightarrow> 'c reader_builder" where
  "set_max_block_size n b = b\<lparr>rb_max_block_size := n\<rparr>"

definition set_ignore_stream_id :: "'c reader_builder \<Rightarrow> 'c reader_builder" where
  "set_ignore_stream_id b = b\<lparr>rb_ignore_stream_id := True\<rparr>"

definition set_ignore_crc :: "'c reader_builder \<Rightarrow> 'c reader_builder" where
  "set_ignore_crc b = b\<lparr>rb_ignore_crc := True\<rparr>"

definition user_chunk_callback :: "byte \<Rightarrow> 'c user_chunk_cb \<Rightarrow> 'c reader_builder \<Rightarrow> 'c reader_builder option" where
  "user_chunk_callback cid cb b =
     (if \<not> (MIN_USER_SKIPPABLE_CHUNK \<le> cid \<and> cid \<le> MAX_USER_NON_SKIPPABLE_CHUNK) then None
      else let i = unat (cid - MIN_USER_SKIPPABLE_CHUNK) in
        if i < length (rb_callbacks b) then Some (b\<lparr>rb_callbacks := (rb_callbacks b)[i := Some cb]\<rparr>) else None)"

section \<open>The reader\<close>

record ('r, 'c) reader =
  rd_src :: 'r
  decoded :: bytes
  decoded_pos :: nat
  rbuf :: bytes
  cb_buf :: bytes
  block_start :: nat
  max_block_user :: nat
  max_block :: nat
  header_read :: bool
  expect_eof :: bool
  ignore_stream_id :: bool
  ignore_crc :: bool
  rd_err :: "io_error option"
  callbacks :: "'c user_chunk_cb option list"
  cb_env :: 'c

definition reader_with_builder :: "'r \<Rightarrow> 'c \<Rightarrow> 'c reader_builder \<Rightarrow> ('r, 'c) reader" where
  "reader_with_builder r env b = \<lparr>rd_src = r, decoded = [], decoded_pos = 0, rbuf = [], cb_buf = [], block_start = 0,
     max_block_user = rb_max_block_size b, max_block = rb_max_block_size b, header_read = rb_ignore_stream_id b,
     expect_eof = False, ignore_stream_id = rb_ignore_stream_id b, ignore_crc = rb_ignore_crc b, rd_err = None,
     callbacks = rb_callbacks b, cb_env = env\<rparr>"

definition reader_build :: "'r \<Rightarrow> 'c \<Rightarrow> 'c reader_builder \<Rightarrow> stream_error + ('r, 'c) reader" where
  "reader_build r env b =
     (if rb_max_block_size b = 0 \<or> MAX_BLOCK_SIZE < rb_max_block_size b then
        Inl (SConfig ''max_block_size must be in (0, MAX_BLOCK_SIZE]'')
      else Inr (reader_with_builder r env b))"

definition reader_new :: "'r \<Rightarrow> 'c \<Rightarrow> ('r, 'c) reader option" where
  "reader_new r env = (case reader_build r env reader_builder_default of Inl e \<Rightarrow> None | Inr st \<Rightarrow> Some st)"

definition reader_reset :: "'r \<Rightarrow> ('r, 'c) reader \<Rightarrow> ('r, 'c) reader" where
  "reader_reset r st = st\<lparr>rd_src := r, decoded := [], decoded_pos := 0, rbuf := [], cb_buf := [], block_start := 0,
     max_block := max_block_user st, header_read := ignore_stream_id st, expect_eof := False, rd_err := None\<rparr>"

definition current_offset :: "('r, 'c) reader \<Rightarrow> nat option" where
  "current_offset st = chk_u64 (block_start st + decoded_pos st)"

type_synonym ('r, 'c, 'a) stream_res = "((stream_error + 'a) \<times> ('r, 'c) reader) option"
type_synonym ('r, 'c, 'a) reader_res = "((io_error + 'a) \<times> ('r, 'c) reader) option"

section \<open>Reading the source\<close>

text \<open>\<open>Inr None\<close> is the end of the input in front of the first byte, where it is allowed.\<close>

definition read_full_step ::
  "'r reader_fn \<Rightarrow> nat \<Rightarrow> bool \<Rightarrow> bytes \<times> 'r \<Rightarrow> (bytes \<times> 'r + (io_error + bytes option) \<times> 'r) option" where
  "read_full_step rd n allow_eof = (\<lambda>(got, r).
     if length got < n then
       case rd (n - length got) r of
         (Inr p, r) \<Rightarrow>
           if p = [] then
             (if got = [] \<and> allow_eof then Some (Inr (Inr None, r))
              else Some (Inr (Inl (stream_error_to_io SCorrupt), r)))
           else Some (Inl (got @ p, r))
       | (Inl e, r) \<Rightarrow> if kind e = Interrupted then Some (Inl (got, r)) else Some (Inr (Inl e, r))
     else Some (Inr (Inr (Some got), r)))"

definition read_full_or_eof ::
  "'r reader_fn \<Rightarrow> nat \<Rightarrow> bool \<Rightarrow> 'r \<Rightarrow> ((io_error + bytes option) \<times> 'r) option" where
  "read_full_or_eof rd n allow_eof r = loop (read_full_step rd n allow_eof) ([], r)"

text \<open>The bytes that \<open>read_exact_or_corrupt\<close> puts into its buffer.\<close>

definition read_exact_or_corrupt :: "'r reader_fn \<Rightarrow> nat \<Rightarrow> ('r, 'c) reader \<Rightarrow> ('r, 'c, bytes) stream_res" where
  "read_exact_or_corrupt rd n st = do {
     (res, r) \<leftarrow> read_exact rd n (rd_src st);
     Some (case res of
       Inr p \<Rightarrow> Inr p
     | Inl e \<Rightarrow> if kind e = UnexpectedEof then Inl SCorrupt else Inl (SIo e), st\<lparr>rd_src := r\<rparr>)
   }"

definition skip_n_step ::
  "'r reader_fn \<Rightarrow> nat \<times> ('r, 'c) reader \<Rightarrow> (nat \<times> ('r, 'c) reader + (stream_error + unit) \<times> ('r, 'c) reader) option" where
  "skip_n_step rd = (\<lambda>(n, st).
     if 0 < n then do {
       let k = min n 4096;
       (res, st) \<leftarrow> read_exact_or_corrupt rd k st;
       case res of Inl e \<Rightarrow> Some (Inr (Inl e, st)) | Inr _ \<Rightarrow> Some (Inl (n - k, st)) }
     else Some (Inr (Inr (), st)))"

definition skip_n :: "'r reader_fn \<Rightarrow> nat \<Rightarrow> ('r, 'c) reader \<Rightarrow> ('r, 'c, unit) stream_res" where
  "skip_n rd n st = loop (skip_n_step rd) (n, st)"

definition max_buf_size :: "('r, 'c) reader \<Rightarrow> nat" where
  "max_buf_size st =
     (case max_encoded_len (max_block st) of None \<Rightarrow> MAX_BLOCK_SIZE | Some n \<Rightarrow> n) + CHECKSUM_SIZE"

definition ensure_buf :: "nat \<Rightarrow> ('r, 'c) reader \<Rightarrow> ('r, 'c, unit) stream_res" where
  "ensure_buf n st =
     (if max_buf_size st < n then Some (Inl SCorrupt, st)
      else if length (rbuf st) < n then Some (Inr (), st\<lparr>rbuf := vec_resize n (rbuf st)\<rparr>)
      else Some (Inr (), st))"

text \<open>\<open>read_exact_or_corrupt(&mut self.r, &mut self.buf[..n])\<close>.\<close>

definition read_buf :: "'r reader_fn \<Rightarrow> nat \<Rightarrow> ('r, 'c) reader \<Rightarrow> ('r, 'c, unit) stream_res" where
  "read_buf rd n st =
     (if length (rbuf st) < n then None
      else with_st (read_exact_or_corrupt rd n st) (\<lambda>p st. Some (Inr (), st\<lparr>rbuf := p @ drop n (rbuf st)\<rparr>)))"

section \<open>Chunk handlers\<close>

definition from_block :: "(error + 'a) option \<Rightarrow> (stream_error + 'a) option" where
  "from_block m = (case m of None \<Rightarrow> None | Some (Inl e) \<Rightarrow> Some (Inl (SBlock e)) | Some (Inr a) \<Rightarrow> Some (Inr a))"

definition strip_dlen_varint :: "bytes \<Rightarrow> (stream_error + bytes) option" where
  "strip_dlen_varint body = (case stream_get_uvarint body of
     None \<Rightarrow> Some (Inl SCorrupt)
   | Some (_, n) \<Rightarrow> do { r \<leftarrow> slice_from body n; Some (Inr r) })"

definition check_crc :: "byte \<Rightarrow> bytes \<Rightarrow> bytes \<Rightarrow> u32 \<Rightarrow> bool \<Rightarrow> (stream_error + unit) option" where
  "check_crc chunk_type body out checksum ignore =
     (if \<not> ignore then
        and_then (if chunk_type = CHUNK_TYPE_MINLZ_COMPRESSED_DATA_COMP_CRC then strip_dlen_varint body else Some (Inr out))
          (\<lambda>to_crc. if masked_crc32c to_crc \<noteq> checksum then Some (Inl SCrc) else Some (Inr ()))
      else Some (Inr ()))"

definition handle_compressed_chunk ::
  "bool \<Rightarrow> 'r reader_fn \<Rightarrow> byte \<Rightarrow> nat \<Rightarrow> ('r, 'c) reader \<Rightarrow> ('r, 'c, unit) stream_res" where
  "handle_compressed_chunk be rd chunk_type chunk_len st =
     (if chunk_len < CHECKSUM_SIZE then Some (Inl SCorrupt, st)
      else do {
        start \<leftarrow> chk_u64 (block_start st + length (decoded st));
        with_st (ensure_buf chunk_len (st\<lparr>block_start := start\<rparr>)) (\<lambda>_ st.
        with_st (read_buf rd chunk_len st) (\<lambda>_ st. do {
          checksum \<leftarrow> stream_read_u32_le (take CHECKSUM_SIZE (rbuf st));
          body \<leftarrow> slice (rbuf st) CHECKSUM_SIZE chunk_len;
          and_then_at (from_block (decoded_len_chunk_body body)) st (\<lambda>dlen.
          if max_block st < dlen then Some (Inl STooLarge, st)
          else
            let st = st\<lparr>decoded := []\<rparr> in
            and_then_at (from_block (append_decoded_chunk_body be (decoded st) body)) st (\<lambda>out.
            if length out \<noteq> dlen then None
            else
              let st = st\<lparr>decoded := out\<rparr> in
              and_then_at (check_crc chunk_type body out checksum (ignore_crc st)) st (\<lambda>_.
              Some (Inr (), st\<lparr>decoded_pos := 0\<rparr>)))) })) })"

definition handle_uncompressed_chunk ::
  "'r reader_fn \<Rightarrow> nat \<Rightarrow> ('r, 'c) reader \<Rightarrow> ('r, 'c, unit) stream_res" where
  "handle_uncompressed_chunk rd chunk_len st =
     (if chunk_len < CHECKSUM_SIZE then Some (Inl SCorrupt, st)
      else do {
        start \<leftarrow> chk_u64 (block_start st + length (decoded st));
        let st = st\<lparr>block_start := start\<rparr>;
        let n = chunk_len - CHECKSUM_SIZE;
        if max_block st < n then Some (Inl STooLarge, st)
        else
          with_st (ensure_buf CHECKSUM_SIZE st) (\<lambda>_ st.
          with_st (read_buf rd CHECKSUM_SIZE st) (\<lambda>_ st. do {
            checksum \<leftarrow> stream_read_u32_le (take CHECKSUM_SIZE (rbuf st));
            with_st (read_exact_or_corrupt rd n (st\<lparr>decoded := replicate n 0\<rparr>)) (\<lambda>p st.
            let st = st\<lparr>decoded := p\<rparr> in
            if \<not> ignore_crc st \<and> masked_crc32c (decoded st) \<noteq> checksum then Some (Inl SCrc, st)
            else Some (Inr (), st\<lparr>decoded_pos := 0\<rparr>)) })) })"

definition check_total :: "bytes \<Rightarrow> nat \<Rightarrow> ('r, 'c) reader \<Rightarrow> ('r, 'c, unit) stream_res" where
  "check_total tmp chunk_len st =
     (if ignore_stream_id st then Some (Inr (), st)
      else case stream_get_uvarint tmp of
        None \<Rightarrow> Some (Inl SCorrupt, st)
      | Some (want_size, n) \<Rightarrow>
          if n \<noteq> chunk_len then Some (Inl SCorrupt, st)
          else do {
            actual \<leftarrow> chk_u64 (block_start st + length (decoded st));
            if unat want_size \<noteq> actual then Some (Inl SCorrupt, st) else Some (Inr (), st) })"

definition handle_eof_chunk :: "'r reader_fn \<Rightarrow> nat \<Rightarrow> ('r, 'c) reader \<Rightarrow> ('r, 'c, unit) stream_res" where
  "handle_eof_chunk rd chunk_len st =
     (if MAX_VARINT_LEN_64 < chunk_len then Some (Inl SCorrupt, st)
      else
        with_st (if chunk_len \<noteq> 0 then
            with_st (read_exact_or_corrupt rd chunk_len st) (\<lambda>tmp st. check_total tmp chunk_len st)
          else Some (Inr (), st)) (\<lambda>_ st.
        Some (Inr (), st\<lparr>expect_eof := False, header_read := False\<rparr>)))"

definition handle_stream_identifier :: "'r reader_fn \<Rightarrow> nat \<Rightarrow> ('r, 'c) reader \<Rightarrow> ('r, 'c, unit) stream_res" where
  "handle_stream_identifier rd chunk_len st =
     (if chunk_len \<noteq> MAGIC_BODY_LEN then Some (Inl SCorrupt, st)
      else
        with_st (read_exact_or_corrupt rd MAGIC_BODY_LEN st) (\<lambda>tmp st. do {
          magic \<leftarrow> slice tmp 0 (length MAGIC_BODY);
          if magic \<noteq> MAGIC_BODY then Some (Inl SUnsupported, st)
          else do {
            indicator \<leftarrow> idx tmp (MAGIC_BODY_LEN - 1);
            if indicator AND 0xc0 \<noteq> 0 then Some (Inl SCorrupt, st)
            else case block_size_from_indicator indicator of
              None \<Rightarrow> Some (Inl SCorrupt, st)
            | Some new_max \<Rightarrow>
                if max_block_user st < new_max then Some (Inl STooLarge, st)
                else Some (Inr (), st\<lparr>max_block := new_max, block_start := 0, decoded := [], decoded_pos := 0,
                  expect_eof := True\<rparr>) } }))"

text \<open>A callback is taken out of its slot while it runs, and put back.\<close>

definition handle_skippable :: "'r reader_fn \<Rightarrow> byte \<Rightarrow> nat \<Rightarrow> ('r, 'c) reader \<Rightarrow> ('r, 'c, unit) stream_res" where
  "handle_skippable rd cid chunk_len st =
     (if MIN_USER_SKIPPABLE_CHUNK \<le> cid \<and> cid \<le> MAX_USER_NON_SKIPPABLE_CHUNK then do {
        slot \<leftarrow> idx (callbacks st) (unat (cid - MIN_USER_SKIPPABLE_CHUNK));
        case slot of
          Some cb \<Rightarrow> do {
            (res, st) \<leftarrow> read_exact_or_corrupt rd chunk_len (st\<lparr>cb_buf := replicate chunk_len 0\<rparr>);
            case res of
              Inl e \<Rightarrow> Some (Inl (SIo (stream_error_to_io e)), st)
            | Inr p \<Rightarrow>
                let (r, env) = cb cid p (cb_env st); st = st\<lparr>cb_buf := p, cb_env := env\<rparr> in
                Some (case r of Inl e \<Rightarrow> Inl (SIo e) | Inr _ \<Rightarrow> Inr (), st) }
        | None \<Rightarrow>
            if MIN_USER_NON_SKIPPABLE_CHUNK \<le> cid \<and> cid \<le> MAX_USER_NON_SKIPPABLE_CHUNK then Some (Inl SCorrupt, st)
            else skip_n rd chunk_len st }
      else skip_n rd chunk_len st)"

definition set_err :: "stream_error \<Rightarrow> ('r, 'c) reader \<Rightarrow> (io_error + 'a) \<times> ('r, 'c) reader" where
  "set_err e st = (Inl (stream_error_to_io e), st\<lparr>rd_err := Some (stream_error_to_io e)\<rparr>)"

section \<open>Reading data\<close>

text \<open>The header of the next chunk, and the check that a stream begins with its identifier.\<close>

definition next_header ::
  "'r reader_fn \<Rightarrow> ('r, 'c) reader \<Rightarrow> ((io_error + (byte \<times> nat) option) \<times> ('r, 'c) reader) option" where
  "next_header rd st = do {
     (h, r) \<leftarrow> read_full_or_eof rd CHUNK_HEADER_SIZE (\<not> expect_eof st) (rd_src st);
     let st = st\<lparr>rd_src := r\<rparr>;
     case h of
       Inl e \<Rightarrow> Some (Inl e, st)
     | Inr None \<Rightarrow> Some (Inr None, st)
     | Inr (Some hdr) \<Rightarrow> do {
         chunk_type \<leftarrow> idx hdr 0;
         chunk_len \<leftarrow> read_chunk_len (drop 1 hdr);
         if \<not> header_read st \<and> chunk_type \<noteq> CHUNK_TYPE_STREAM_IDENTIFIER \<and>
            chunk_type \<le> MAX_NON_SKIPPABLE_CHUNK \<and> chunk_type \<noteq> CHUNK_TYPE_EOF then Some (set_err SCorrupt st)
         else
           Some (Inr (Some (chunk_type, chunk_len)),
             if \<not> header_read st \<and> chunk_type = CHUNK_TYPE_STREAM_IDENTIFIER then st\<lparr>header_read := True\<rparr> else st) }
   }"

definition handle_chunk ::
  "bool \<Rightarrow> 'r reader_fn \<Rightarrow> byte \<Rightarrow> nat \<Rightarrow> ('r, 'c) reader \<Rightarrow> ('r, 'c, unit) stream_res" where
  "handle_chunk be rd chunk_type chunk_len st =
     (if chunk_type = CHUNK_TYPE_MINLZ_COMPRESSED_DATA \<or> chunk_type = CHUNK_TYPE_MINLZ_COMPRESSED_DATA_COMP_CRC then
        handle_compressed_chunk be rd chunk_type chunk_len st
      else if chunk_type = CHUNK_TYPE_UNCOMPRESSED_DATA then handle_uncompressed_chunk rd chunk_len st
      else if chunk_type = CHUNK_TYPE_EOF then handle_eof_chunk rd chunk_len st
      else if chunk_type = CHUNK_TYPE_STREAM_IDENTIFIER then handle_stream_identifier rd chunk_len st
      else if chunk_type \<le> MAX_NON_SKIPPABLE_CHUNK then Some (Inl SUnsupported, st)
      else handle_skippable rd chunk_type chunk_len st)"

definition fill_step ::
  "bool \<Rightarrow> 'r reader_fn \<Rightarrow> ('r, 'c) reader \<Rightarrow> (('r, 'c) reader + (io_error + bool) \<times> ('r, 'c) reader) option" where
  "fill_step be rd st =
     (if decoded_pos st < length (decoded st) then Some (Inr (Inr True, st))
      else do {
        (h, st) \<leftarrow> next_header rd st;
        case h of
          Inl e \<Rightarrow> Some (Inr (Inl e, st))
        | Inr None \<Rightarrow> Some (Inr (Inr False, st))
        | Inr (Some (chunk_type, chunk_len)) \<Rightarrow> do {
            (res, st) \<leftarrow> handle_chunk be rd chunk_type chunk_len st;
            case res of Inl e \<Rightarrow> Some (Inr (set_err e st)) | Inr _ \<Rightarrow> Some (Inl st) } })"

definition fill_decoded :: "bool \<Rightarrow> 'r reader_fn \<Rightarrow> ('r, 'c) reader \<Rightarrow> ('r, 'c, bool) reader_res" where
  "fill_decoded be rd st = loop (fill_step be rd) st"

text \<open>\<open>Read::read\<close> into a buffer of \<open>n\<close> bytes gives the bytes it puts there.\<close>

definition reader_read :: "bool \<Rightarrow> 'r reader_fn \<Rightarrow> nat \<Rightarrow> ('r, 'c) reader \<Rightarrow> ('r, 'c, bytes) reader_res" where
  "reader_read be rd n st = (case rd_err st of
     Some e \<Rightarrow> Some (Inl e, st)
   | None \<Rightarrow>
       if n = 0 then Some (Inr [], st)
       else with_st (fill_decoded be rd st) (\<lambda>more st.
         if \<not> more then Some (Inr [], st)
         else do {
           avail \<leftarrow> usub (length (decoded st)) (decoded_pos st);
           let k = min avail n;
           p \<leftarrow> slice (decoded st) (decoded_pos st) (decoded_pos st + k);
           Some (Inr p, st\<lparr>decoded_pos := decoded_pos st + k\<rparr>) }))"

definition reader_fill_buf :: "bool \<Rightarrow> 'r reader_fn \<Rightarrow> ('r, 'c) reader \<Rightarrow> ('r, 'c, bytes) reader_res" where
  "reader_fill_buf be rd st = (case rd_err st of
     Some e \<Rightarrow> Some (Inl e, st)
   | None \<Rightarrow> with_st (fill_decoded be rd st) (\<lambda>more st.
       if \<not> more then Some (Inr [], st)
       else do { p \<leftarrow> slice_from (decoded st) (decoded_pos st); Some (Inr p, st) }))"

definition reader_consume :: "nat \<Rightarrow> ('r, 'c) reader \<Rightarrow> ('r, 'c) reader option" where
  "reader_consume amt st = do {
     available \<leftarrow> usub (length (decoded st)) (decoded_pos st);
     Some (st\<lparr>decoded_pos := decoded_pos st + min amt available\<rparr>)
   }"

section \<open>Skipping\<close>

text \<open>The result is what remains to be skipped.\<close>

definition skip_compressed_or_decode ::
  "bool \<Rightarrow> 'r reader_fn \<Rightarrow> byte \<Rightarrow> nat \<Rightarrow> nat \<Rightarrow> ('r, 'c) reader \<Rightarrow> ('r, 'c, nat) stream_res" where
  "skip_compressed_or_decode be rd chunk_type chunk_len n st =
     (if chunk_len < CHECKSUM_SIZE then Some (Inl SCorrupt, st)
      else
        with_st (ensure_buf chunk_len st) (\<lambda>_ st.
        with_st (read_buf rd chunk_len st) (\<lambda>_ st. do {
          checksum \<leftarrow> stream_read_u32_le (take CHECKSUM_SIZE (rbuf st));
          body \<leftarrow> slice (rbuf st) CHECKSUM_SIZE chunk_len;
          and_then_at (from_block (decoded_len_chunk_body body)) st (\<lambda>dlen.
          if max_block st < dlen then Some (Inl STooLarge, st)
          else if n < dlen then do {
            start \<leftarrow> chk_u64 (block_start st + length (decoded st));
            let st = st\<lparr>block_start := start, decoded := []\<rparr>;
            and_then_at (from_block (append_decoded_chunk_body be (decoded st) body)) st (\<lambda>out.
            let st = st\<lparr>decoded := out\<rparr> in
            and_then_at (check_crc chunk_type body out checksum (ignore_crc st)) st (\<lambda>_.
            Some (Inr 0, st\<lparr>decoded_pos := n\<rparr>))) }
          else do {
            start \<leftarrow> chk_u64 (block_start st + (length (decoded st) + dlen));
            Some (Inr (n - dlen), st\<lparr>block_start := start, decoded := [], decoded_pos := 0\<rparr>) }) })))"

definition skip_uncompressed_or_decode ::
  "'r reader_fn \<Rightarrow> nat \<Rightarrow> nat \<Rightarrow> ('r, 'c) reader \<Rightarrow> ('r, 'c, nat) stream_res" where
  "skip_uncompressed_or_decode rd chunk_len n st =
     (if chunk_len < CHECKSUM_SIZE then Some (Inl SCorrupt, st)
      else let n2 = chunk_len - CHECKSUM_SIZE in
        if max_block st < n2 then Some (Inl STooLarge, st)
        else if n < n2 then do {
          start \<leftarrow> chk_u64 (block_start st + length (decoded st));
          with_st (ensure_buf CHECKSUM_SIZE (st\<lparr>block_start := start\<rparr>)) (\<lambda>_ st.
          with_st (read_buf rd CHECKSUM_SIZE st) (\<lambda>_ st. do {
            checksum \<leftarrow> stream_read_u32_le (take CHECKSUM_SIZE (rbuf st));
            with_st (read_exact_or_corrupt rd n2 (st\<lparr>decoded := replicate n2 0\<rparr>)) (\<lambda>p st.
            let st = st\<lparr>decoded := p\<rparr> in
            if \<not> ignore_crc st \<and> masked_crc32c (decoded st) \<noteq> checksum then Some (Inl SCrc, st)
            else Some (Inr 0, st\<lparr>decoded_pos := n\<rparr>)) })) }
        else do {
          start \<leftarrow> chk_u64 (block_start st + (length (decoded st) + n2));
          with_st (skip_n rd chunk_len (st\<lparr>block_start := start, decoded := [], decoded_pos := 0\<rparr>)) (\<lambda>_ st.
          Some (Inr (n - n2), st)) })"

definition skip_chunk ::
  "bool \<Rightarrow> 'r reader_fn \<Rightarrow> byte \<Rightarrow> nat \<Rightarrow> nat \<Rightarrow> ('r, 'c) reader \<Rightarrow> ('r, 'c, nat) stream_res" where
  "skip_chunk be rd chunk_type chunk_len n st =
     (if chunk_type = CHUNK_TYPE_MINLZ_COMPRESSED_DATA \<or> chunk_type = CHUNK_TYPE_MINLZ_COMPRESSED_DATA_COMP_CRC then
        skip_compressed_or_decode be rd chunk_type chunk_len n st
      else if chunk_type = CHUNK_TYPE_UNCOMPRESSED_DATA then skip_uncompressed_or_decode rd chunk_len n st
      else with_st (if chunk_type = CHUNK_TYPE_EOF then handle_eof_chunk rd chunk_len st
          else if chunk_type = CHUNK_TYPE_STREAM_IDENTIFIER then handle_stream_identifier rd chunk_len st
          else if chunk_type \<le> MAX_NON_SKIPPABLE_CHUNK then Some (Inl SUnsupported, st)
          else handle_skippable rd chunk_type chunk_len st) (\<lambda>_ st. Some (Inr n, st)))"

definition skip_step ::
  "bool \<Rightarrow> 'r reader_fn \<Rightarrow> nat \<times> ('r, 'c) reader \<Rightarrow>
     (nat \<times> ('r, 'c) reader + (io_error + unit) \<times> ('r, 'c) reader) option" where
  "skip_step be rd = (\<lambda>(n, st).
     if 0 < n then do {
       avail \<leftarrow> usub (length (decoded st)) (decoded_pos st);
       if n \<le> avail then Some (Inr (Inr (), st\<lparr>decoded_pos := decoded_pos st + n\<rparr>))
       else do {
         let n = n - avail;
         (h, st) \<leftarrow> next_header rd (st\<lparr>decoded_pos := length (decoded st)\<rparr>);
         case h of
           Inl e \<Rightarrow> Some (Inr (Inl e, st))
         | Inr None \<Rightarrow>
             let e = Io_Error UnexpectedEof ''unexpected end of file'' in
             Some (Inr (Inl e, st\<lparr>rd_err := Some e\<rparr>))
         | Inr (Some (chunk_type, chunk_len)) \<Rightarrow> do {
             (res, st) \<leftarrow> skip_chunk be rd chunk_type chunk_len n st;
             case res of Inl e \<Rightarrow> Some (Inr (set_err e st)) | Inr n \<Rightarrow> Some (Inl (n, st)) } } }
     else Some (Inr (Inr (), st)))"

definition reader_skip :: "bool \<Rightarrow> 'r reader_fn \<Rightarrow> nat \<Rightarrow> ('r, 'c) reader \<Rightarrow> ('r, 'c, unit) reader_res" where
  "reader_skip be rd n st = (case rd_err st of
     Some e \<Rightarrow> Some (Inl e, st)
   | None \<Rightarrow> loop (skip_step be rd) (n, st))"

end
