(* ===== verification/Reader_Source.thy ===== *)
theory Reader_Source
  imports Reader
begin

text \<open>
  The reader sees of its source only the bytes it delivers. \<open>view\<close> replaces the source of a reader by
  the bytes that remain in it; every method of the reader over a lawful source does what it does over
  these bytes, whatever the sizes in which the source delivers them and wherever it interrupts.
\<close>

definition view :: "('r \<Rightarrow> bytes) \<Rightarrow> ('r, 'c) reader \<Rightarrow> (bytes, 'c) reader" where
  "view rem st = \<lparr>rd_src = rem (rd_src st), decoded = decoded st, decoded_pos = decoded_pos st, rbuf = rbuf st,
     cb_buf = cb_buf st, block_start = block_start st, max_block_user = max_block_user st,
     max_block = max_block st, header_read = header_read st, expect_eof = expect_eof st,
     ignore_stream_id = ignore_stream_id st, ignore_crc = ignore_crc st, rd_err = rd_err st,
     callbacks = callbacks st, cb_env = cb_env st\<rparr>"

lemma view_simps [simp]:
  "rd_src (view rem st) = rem (rd_src st)" "decoded (view rem st) = decoded st"
  "decoded_pos (view rem st) = decoded_pos st" "rbuf (view rem st) = rbuf st"
  "cb_buf (view rem st) = cb_buf st" "block_start (view rem st) = block_start st"
  "max_block_user (view rem st) = max_block_user st" "max_block (view rem st) = max_block st"
  "header_read (view rem st) = header_read st" "expect_eof (view rem st) = expect_eof st"
  "ignore_stream_id (view rem st) = ignore_stream_id st" "ignore_crc (view rem st) = ignore_crc st"
  "rd_err (view rem st) = rd_err st" "callbacks (view rem st) = callbacks st" "cb_env (view rem st) = cb_env st"
  "max_buf_size (view rem st) = max_buf_size st"
  by (simp_all add: view_def max_buf_size_def)

lemma view_update [simp]:
  "(view rem st)\<lparr>rd_src := rem r\<rparr> = view rem (st\<lparr>rd_src := r\<rparr>)"
  "(view rem st)\<lparr>decoded := x\<rparr> = view rem (st\<lparr>decoded := x\<rparr>)"
  "(view rem st)\<lparr>decoded_pos := i\<rparr> = view rem (st\<lparr>decoded_pos := i\<rparr>)"
  "(view rem st)\<lparr>rbuf := x\<rparr> = view rem (st\<lparr>rbuf := x\<rparr>)"
  "(view rem st)\<lparr>cb_buf := x\<rparr> = view rem (st\<lparr>cb_buf := x\<rparr>)"
  "(view rem st)\<lparr>block_start := i\<rparr> = view rem (st\<lparr>block_start := i\<rparr>)"
  "(view rem st)\<lparr>max_block := i\<rparr> = view rem (st\<lparr>max_block := i\<rparr>)"
  "(view rem st)\<lparr>header_read := b\<rparr> = view rem (st\<lparr>header_read := b\<rparr>)"
  "(view rem st)\<lparr>expect_eof := b\<rparr> = view rem (st\<lparr>expect_eof := b\<rparr>)"
  "(view rem st)\<lparr>rd_err := e\<rparr> = view rem (st\<lparr>rd_err := e\<rparr>)"
  "(view rem st)\<lparr>cb_env := c\<rparr> = view rem (st\<lparr>cb_env := c\<rparr>)"
  by (simp_all add: view_def)

section \<open>Methods that agree up to the view\<close>

definition sim :: "('r \<Rightarrow> bytes) \<Rightarrow> ('a \<times> ('r, 'c) reader) option \<Rightarrow> ('a \<times> (bytes, 'c) reader) option \<Rightarrow> bool" where
  "sim rem m m' \<longleftrightarrow> m' = map_option (map_prod id (view rem)) m"

named_theorems sim_rules \<open>rules for methods that agree up to the view\<close>

lemma sim_Some [sim_rules]: "sim rem (Some (a, st)) (Some (a, view rem st))"
  by (simp add: sim_def)

lemma sim_None [sim_rules]: "sim rem None None"
  by (simp add: sim_def)

lemma sim_with_st [sim_rules]:
  "sim rem m m' \<Longrightarrow> (\<And>a st. sim rem (f a st) (f' a (view rem st))) \<Longrightarrow> sim rem (with_st m f) (with_st m' f')"
  by (auto simp: sim_def with_st_def split: option.split sum.split)

lemma sim_and_then_at [sim_rules]:
  "(\<And>a. sim rem (f a) (f' a)) \<Longrightarrow> sim rem (and_then_at m st f) (and_then_at m (view rem st) f')"
  by (auto simp: sim_def and_then_at_def split: option.split sum.split)

lemma sim_bind [sim_rules]:
  "(\<And>a. sim rem (f a) (f' a)) \<Longrightarrow> sim rem (Option.bind m f) (Option.bind m f')"
  by (cases m) (auto simp: sim_def)

lemma sim_bind_st:
  "sim rem m m' \<Longrightarrow> (\<And>a st. sim rem (f (a, st)) (f' (a, view rem st))) \<Longrightarrow>
   sim rem (Option.bind m f) (Option.bind m' f')"
  by (cases m) (auto simp: sim_def)

lemma sim_if [sim_rules]:
  "(b \<Longrightarrow> sim rem m m') \<Longrightarrow> (\<not> b \<Longrightarrow> sim rem n n') \<Longrightarrow> sim rem (if b then m else n) (if b then m' else n')"
  by simp

lemma sim_case_option [sim_rules]:
  "(m = None \<Longrightarrow> sim rem n n') \<Longrightarrow> (\<And>a. m = Some a \<Longrightarrow> sim rem (f a) (f' a)) \<Longrightarrow>
   sim rem (case m of None \<Rightarrow> n | Some a \<Rightarrow> f a) (case m of None \<Rightarrow> n' | Some a \<Rightarrow> f' a)"
  by (cases m) auto

lemma sim_case_sum [sim_rules]:
  "(\<And>e. sim rem (g e) (g' e)) \<Longrightarrow> (\<And>a. sim rem (f a) (f' a)) \<Longrightarrow>
   sim rem (case m of Inl e \<Rightarrow> g e | Inr a \<Rightarrow> f a) (case m of Inl e \<Rightarrow> g' e | Inr a \<Rightarrow> f' a)"
  by (cases m) auto

lemma sim_case_prod [sim_rules]:
  "(\<And>a b. sim rem (f a b) (f' a b)) \<Longrightarrow>
   sim rem (case p of (a, b) \<Rightarrow> f a b) (case p of (a, b) \<Rightarrow> f' a b)"
  by (cases p) auto

lemma sim_loop:
  fixes f :: "'s \<Rightarrow> ('s + 'a \<times> ('r, 'c) reader) option" and f' :: "'t \<Rightarrow> ('t + 'a \<times> (bytes, 'c) reader) option"
  assumes "\<And>s. f' (h s) = map_option (map_sum h (map_prod id (view rem))) (f s)"
  shows "sim rem (loop f s) (loop f' (h s))"
  by (simp add: sim_def loop_map [of f' h "map_prod id (view rem)" f, OF assms])

section \<open>The source\<close>

context source
begin

lemma read_exact_sim:
  "read_exact slice_read n (remaining r) = map_option (map_prod id remaining) (read_exact rd n r)"
proof -
  obtain res r' where r: "read_exact rd n r = Some (res, r')"
    "if n \<le> length (remaining r) then res = Inr (take n (remaining r)) \<and> remaining r' = drop n (remaining r)
     else res = Inl (Io_Error UnexpectedEof ''failed to fill whole buffer'') \<and> remaining r' = []"
    using read_exact_ok [of n r] by blast
  obtain res2 r2 where r2: "read_exact slice_read n (remaining r) = Some (res2, r2)"
    "if n \<le> length (remaining r) then res2 = Inr (take n (remaining r)) \<and> r2 = drop n (remaining r)
     else res2 = Inl (Io_Error UnexpectedEof ''failed to fill whole buffer'') \<and> r2 = []"
    using slice_source.read_exact_ok [of n "remaining r"] by blast
  from r r2 show ?thesis by (auto split: if_splits)
qed

text \<open>A header, or the end of the input in front of it when that is allowed.\<close>

lemma read_full_ok:
  "\<exists>res r'. read_full_or_eof rd n allow r = Some (res, r') \<and>
    (if n \<le> length (remaining r) then res = Inr (Some (take n (remaining r))) \<and> remaining r' = drop n (remaining r)
     else if remaining r = [] \<and> allow then res = Inr None \<and> remaining r' = []
     else res = Inl (stream_error_to_io SCorrupt) \<and> remaining r' = [])"
proof -
  define I where "I = (\<lambda>(got, s). length got \<le> n \<and> remaining r = got @ remaining s)"
  define Q where "Q = (\<lambda>(res, r').
      (if n \<le> length (remaining r) then res = Inr (Some (take n (remaining r))) \<and> remaining r' = drop n (remaining r)
       else if remaining r = [] \<and> allow then res = Inr None \<and> remaining r' = []
       else res = Inl (stream_error_to_io SCorrupt) \<and> remaining r' = []))"
  have "\<exists>x. loop (read_full_step rd n allow) ([], r) = Some x \<and> Q x"
  proof (rule loop_total [where I = I and m = "\<lambda>(got, s). (n - length got) + patience s"])
    show "I ([], r)" by (simp add: I_def)
    fix st :: "bytes \<times> 'r"
    assume "I st"
    then obtain got s where st: "st = (got, s)" "length got \<le> n" "remaining r = got @ remaining s"
      by (auto simp: I_def)
    show "(\<exists>s'. read_full_step rd n allow st = Some (Inl s') \<and> I s' \<and>
        (case s' of (got, s) \<Rightarrow> (n - length got) + patience s) < (case st of (got, s) \<Rightarrow> (n - length got) + patience s)) \<or>
      (\<exists>x. read_full_step rd n allow st = Some (Inr x) \<and> Q x)"
    proof (cases "length got < n")
      case True
      obtain o' s' where o: "rd (n - length got) s = (o', s')" by (cases "rd (n - length got) s")
      show ?thesis
      proof (cases o')
        case (Inl e)
        from rd_err [OF o [unfolded Inl]] st True show ?thesis
          by (simp add: read_full_step_def o Inl I_def) arith
      next
        case (Inr p)
        note p = rd_ok [OF o [unfolded Inr]]
        show ?thesis
        proof (cases "p = []")
          case True
          with p st \<open>length got < n\<close> show ?thesis by (auto simp: read_full_step_def o Inr Q_def)
        next
          case False
          then have "0 < length p" by simp
          then have "(n - length (got @ p)) + patience s' < (n - length got) + patience s"
            "length got + length p \<le> n"
            using p True by (simp, linarith)+
          with False p st True show ?thesis by (simp add: read_full_step_def o Inr I_def)
        qed
      qed
    next
      case False
      with st show ?thesis by (simp add: read_full_step_def Q_def)
    qed
  qed
  then show ?thesis by (auto simp: read_full_or_eof_def Q_def)
qed

end

context source
begin

lemma read_full_sim:
  "read_full_or_eof slice_read n allow (remaining r) =
   map_option (map_prod id remaining) (read_full_or_eof rd n allow r)"
proof -
  obtain res r' where r: "read_full_or_eof rd n allow r = Some (res, r')"
    "if n \<le> length (remaining r) then res = Inr (Some (take n (remaining r))) \<and> remaining r' = drop n (remaining r)
     else if remaining r = [] \<and> allow then res = Inr None \<and> remaining r' = []
     else res = Inl (stream_error_to_io SCorrupt) \<and> remaining r' = []"
    using read_full_ok [of n allow r] by blast
  obtain res2 r2 where r2: "read_full_or_eof slice_read n allow (remaining r) = Some (res2, r2)"
    "if n \<le> length (remaining r) then res2 = Inr (Some (take n (remaining r))) \<and> r2 = drop n (remaining r)
     else if remaining r = [] \<and> allow then res2 = Inr None \<and> r2 = []
     else res2 = Inl (stream_error_to_io SCorrupt) \<and> r2 = []"
    using source.read_full_ok [OF slice_source.source_axioms, of n allow "remaining r"] by blast
  from r r2 show ?thesis by (auto split: if_splits)
qed

lemma read_exact_or_corrupt_sim [sim_rules]:
  "sim remaining (read_exact_or_corrupt rd n st) (read_exact_or_corrupt slice_read n (view remaining st))"
  by (cases "read_exact rd n (rd_src st)")
    (auto simp: read_exact_or_corrupt_def sim_def read_exact_sim split: sum.split)

lemma skip_n_sim [sim_rules]:
  fixes st :: "('r, 'c) reader"
  shows "sim remaining (skip_n rd n st) (skip_n slice_read n (view remaining st))"
proof -
  have "skip_n_step slice_read (map_prod id (view remaining) s) =
      map_option (map_sum (map_prod id (view remaining)) (map_prod id (view remaining))) (skip_n_step rd s)"
    for s :: "nat \<times> ('r, 'c) reader"
  proof -
    obtain m t where s: "s = (m, t)" by (cases s)
    show ?thesis
      using read_exact_or_corrupt_sim [of "min m 4096" t]
      by (cases "read_exact_or_corrupt rd (min m 4096) t") (auto simp: s skip_n_step_def sim_def split: sum.split)
  qed
  from sim_loop [where h = "map_prod id (view remaining)" and f = "skip_n_step rd" and f' = "skip_n_step slice_read",
      OF this, of "(n, st)"]
  show ?thesis by (simp add: skip_n_def)
qed

lemma ensure_buf_sim [sim_rules]: "sim remaining (ensure_buf n st) (ensure_buf n (view remaining st))"
  by (simp add: ensure_buf_def sim_def)

lemma read_buf_sim [sim_rules]: "sim remaining (read_buf rd n st) (read_buf slice_read n (view remaining st))"
  unfolding read_buf_def by (simp, intro conjI impI sim_rules) (simp, rule sim_rules)

section \<open>The methods\<close>

lemma handle_compressed_chunk_sim [sim_rules]:
  "sim remaining (handle_compressed_chunk be rd t n st) (handle_compressed_chunk be slice_read t n (view remaining st))"
  unfolding handle_compressed_chunk_def Let_def by (simp | intro conjI impI sim_rules)+

lemma handle_uncompressed_chunk_sim [sim_rules]:
  "sim remaining (handle_uncompressed_chunk rd n st) (handle_uncompressed_chunk slice_read n (view remaining st))"
  unfolding handle_uncompressed_chunk_def Let_def by (simp | intro conjI impI sim_rules)+

lemma check_total_sim [sim_rules]: "sim remaining (check_total b n st) (check_total b n (view remaining st))"
  unfolding check_total_def Let_def by (simp | intro conjI impI sim_rules)+

lemma handle_eof_chunk_sim [sim_rules]:
  "sim remaining (handle_eof_chunk rd n st) (handle_eof_chunk slice_read n (view remaining st))"
  unfolding handle_eof_chunk_def Let_def by (simp | intro conjI impI sim_rules)+

lemma handle_stream_identifier_sim [sim_rules]:
  "sim remaining (handle_stream_identifier rd n st) (handle_stream_identifier slice_read n (view remaining st))"
  unfolding handle_stream_identifier_def Let_def by (simp | intro conjI impI sim_rules)+

lemma handle_skippable_sim [sim_rules]:
  "sim remaining (handle_skippable rd t n st) (handle_skippable slice_read t n (view remaining st))"
  unfolding handle_skippable_def Let_def
  by (simp | intro conjI impI sim_rules sim_bind_st [OF read_exact_or_corrupt_sim])+

lemma handle_chunk_sim [sim_rules]:
  "sim remaining (handle_chunk be rd t n st) (handle_chunk be slice_read t n (view remaining st))"
  unfolding handle_chunk_def Let_def by (simp | intro conjI impI sim_rules)+

lemma skip_compressed_or_decode_sim [sim_rules]:
  "sim remaining (skip_compressed_or_decode be rd t n k st) (skip_compressed_or_decode be slice_read t n k (view remaining st))"
  unfolding skip_compressed_or_decode_def Let_def by (simp | intro conjI impI sim_rules)+

lemma skip_uncompressed_or_decode_sim [sim_rules]:
  "sim remaining (skip_uncompressed_or_decode rd n k st) (skip_uncompressed_or_decode slice_read n k (view remaining st))"
  unfolding skip_uncompressed_or_decode_def Let_def by (simp | intro conjI impI sim_rules)+

lemma skip_chunk_sim [sim_rules]:
  "sim remaining (skip_chunk be rd t n k st) (skip_chunk be slice_read t n k (view remaining st))"
  unfolding skip_chunk_def Let_def by (simp | intro conjI impI sim_rules)+

lemma next_header_sim [sim_rules]: "sim remaining (next_header rd st) (next_header slice_read (view remaining st))"
proof -
  obtain h r where r: "read_full_or_eof rd CHUNK_HEADER_SIZE (\<not> expect_eof st) (rd_src st) = Some (h, r)"
    using read_full_ok [of CHUNK_HEADER_SIZE "\<not> expect_eof st" "rd_src st"] by blast
  then have "read_full_or_eof slice_read CHUNK_HEADER_SIZE (\<not> expect_eof st) (remaining (rd_src st)) = Some (h, remaining r)"
    by (simp add: read_full_sim)
  with r show ?thesis
    by (auto simp: next_header_def Let_def sim_def set_err_def split: sum.split option.split bind_splits)
qed

lemma fill_decoded_sim [sim_rules]:
  fixes st :: "('r, 'c) reader"
  shows "sim remaining (fill_decoded be rd st) (fill_decoded be slice_read (view remaining st))"
  unfolding fill_decoded_def
proof (rule sim_loop)
  fix st :: "('r, 'c) reader"
  obtain x where n: "next_header slice_read (view remaining st) = map_option (map_prod id (view remaining)) x"
    "next_header rd st = x"
    using next_header_sim [of st] by (auto simp: sim_def)
  show "fill_step be slice_read (view remaining st) =
    map_option (map_sum (view remaining) (map_prod id (view remaining))) (fill_step be rd st)"
  proof (cases x)
    case (Some y)
    obtain h st' where y: "y = (h, st')" by (cases y)
    have "handle_chunk be slice_read t k (view remaining st') =
        map_option (map_prod id (view remaining)) (handle_chunk be rd t k st')" for t k
      using handle_chunk_sim [of be t k st'] by (simp add: sim_def)
    then show ?thesis
      unfolding fill_step_def n Some y
      by (auto simp: set_err_def split: sum.split option.split bind_splits)
  qed (simp add: fill_step_def n)
qed

lemma reader_read_sim: "sim remaining (reader_read be rd n st) (reader_read be slice_read n (view remaining st))"
  unfolding reader_read_def Let_def by (simp | intro conjI impI sim_rules)+

lemma reader_fill_buf_sim: "sim remaining (reader_fill_buf be rd st) (reader_fill_buf be slice_read (view remaining st))"
  unfolding reader_fill_buf_def Let_def by (simp | intro conjI impI sim_rules)+

lemma reader_skip_sim:
  fixes st :: "('r, 'c) reader"
  shows "sim remaining (reader_skip be rd n st) (reader_skip be slice_read n (view remaining st))"
proof -
  have step: "skip_step be slice_read (map_prod id (view remaining) s) =
      map_option (map_sum (map_prod id (view remaining)) (map_prod id (view remaining))) (skip_step be rd s)"
    for s :: "nat \<times> ('r, 'c) reader"
  proof -
    obtain k st where s: "s = (k, st)" by (cases s)
    obtain x where n: "next_header slice_read (view remaining (st\<lparr>decoded_pos := length (decoded st)\<rparr>)) =
        map_option (map_prod id (view remaining)) x"
      "next_header rd (st\<lparr>decoded_pos := length (decoded st)\<rparr>) = x"
      using next_header_sim [of "st\<lparr>decoded_pos := length (decoded st)\<rparr>"] by (auto simp: sim_def)
    show ?thesis
    proof (cases x)
      case (Some y)
      obtain h st' where y: "y = (h, st')" by (cases y)
      have "skip_chunk be slice_read t k m (view remaining st') =
          map_option (map_prod id (view remaining)) (skip_chunk be rd t k m st')" for t k m
        using skip_chunk_sim [of be t k m st'] by (simp add: sim_def)
      with n show ?thesis
        by (cases "usub (length (decoded st)) (decoded_pos st)")
          (auto simp: skip_step_def s Some y set_err_def Let_def split: sum.split option.split bind_splits)
    qed (use n in \<open>simp add: skip_step_def s Let_def split: bind_splits\<close>)
  qed
  have "sim remaining (loop (skip_step be rd) (n, st)) (loop (skip_step be slice_read) (map_prod id (view remaining) (n, st)))"
    by (rule sim_loop) (rule step)
  then show ?thesis
    by (simp add: reader_skip_def sim_Some split: option.split)
qed

end

end
