(* ===== verification/Reader_Total.thy ===== *)
theory Reader_Total
  imports Reader_Source Block_Correct
begin

text \<open>
  The reader on any input at all: no method panics, overflows a counter or runs forever, whatever bytes
  the source delivers. The source is a byte string here, to which \<^theory_text>\<open>Reader_Source\<close> reduces every other.
\<close>

section \<open>Reading from a byte string\<close>

lemma read_exact_or_corrupt_bytes [simp]:
  "read_exact_or_corrupt slice_read n st =
   Some (if n \<le> length (rd_src st) then (Inr (take n (rd_src st)), st\<lparr>rd_src := drop n (rd_src st)\<rparr>)
     else (Inl SCorrupt, st\<lparr>rd_src := []\<rparr>))"
  using slice_source.read_exact_ok [of n "rd_src st"]
  by (auto simp: read_exact_or_corrupt_def split: if_splits)

lemma skip_n_bytes [simp]:
  fixes st :: "(bytes, 'c) reader"
  shows "skip_n slice_read n st =
    Some (if n \<le> length (rd_src st) then (Inr (), st\<lparr>rd_src := drop n (rd_src st)\<rparr>) else (Inl SCorrupt, st\<lparr>rd_src := []\<rparr>))"
proof (induction n arbitrary: st rule: less_induct)
  case (less n)
  have "skip_n slice_read n st = (case skip_n_step slice_read (n, st) of
      None \<Rightarrow> None | Some (Inl (m, st)) \<Rightarrow> skip_n slice_read m st | Some (Inr r) \<Rightarrow> Some r)"
    unfolding skip_n_def by (subst loop.simps) (auto split: option.split sum.split)
  moreover have "n - min n 4096 < n" if "0 < n" using that by simp
  ultimately show ?case
    using less [of "n - min n 4096"] by (cases "n = 0") (auto simp: skip_n_step_def min_def)
qed

lemma read_full_bytes [simp]:
  "read_full_or_eof slice_read n allow r =
   Some (if n \<le> length r then (Inr (Some (take n r)), drop n r)
     else if r = [] \<and> allow then (Inr None, []) else (Inl (stream_error_to_io SCorrupt), []))"
proof -
  obtain res r' where "read_full_or_eof slice_read n allow r = Some (res, r')"
    "if n \<le> length r then res = Inr (Some (take n r)) \<and> r' = drop n r
     else if r = [] \<and> allow then res = Inr None \<and> r' = []
     else res = Inl (stream_error_to_io SCorrupt) \<and> r' = []"
    using source.read_full_ok [OF slice_source.source_axioms, of n allow r] by blast
  then show ?thesis by (simp split: if_splits)
qed

text \<open>The buffer after a chunk of \<open>n\<close> bytes has been read into it.\<close>

definition filled :: "nat \<Rightarrow> (bytes, 'c) reader \<Rightarrow> bytes" where
  "filled n st = take n (rd_src st) @ drop n (if length (rbuf st) < n then vec_resize n (rbuf st) else rbuf st)"

lemma ensure_read [simp]:
  "with_st (ensure_buf n st) (\<lambda>_ st. with_st (read_buf slice_read n st) f) =
   (if max_buf_size st < n then Some (Inl SCorrupt, st)
    else if n \<le> length (rd_src st) then f () (st\<lparr>rd_src := drop n (rd_src st), rbuf := filled n st\<rparr>)
    else Some (Inl SCorrupt, st\<lparr>rbuf := if length (rbuf st) < n then vec_resize n (rbuf st) else rbuf st, rd_src := []\<rparr>))"
  by (simp add: ensure_buf_def read_buf_def filled_def vec_resize_def)

lemma filled_update [simp]:
  "filled n (st\<lparr>block_start := i\<rparr>) = filled n st" "filled n (st\<lparr>decoded := x\<rparr>) = filled n st"
  by (simp_all add: filled_def)

lemma filled_chunk [simp]:
  assumes "CHECKSUM_SIZE \<le> n" "n \<le> length (rd_src st)"
  shows "stream_read_u32_le (take CHECKSUM_SIZE (filled n st)) = Some (of_le (take CHECKSUM_SIZE (rd_src st)))"
    and "slice (filled n st) CHECKSUM_SIZE n = Some (drop CHECKSUM_SIZE (take n (rd_src st)))"
proof -
  have n: "4 \<le> n" using assms by (simp add: stream_consts)
  have "length (take 4 (rd_src st)) = Suc (Suc (Suc (Suc 0)))" using n assms(2) by simp
  then obtain a b c d where "take 4 (rd_src st) = [a, b, c, d]"
    by (auto simp only: length_Suc_conv length_0_conv)
  moreover have "take 4 (filled n st) = take 4 (rd_src st)" using n assms(2) by (simp add: filled_def min_def)
  ultimately show "stream_read_u32_le (take CHECKSUM_SIZE (filled n st)) = Some (of_le (take CHECKSUM_SIZE (rd_src st)))"
    by (simp add: stream_read_u32_le_def idx_def stream_consts)
  show "slice (filled n st) CHECKSUM_SIZE n = Some (drop CHECKSUM_SIZE (take n (rd_src st)))"
    using n assms(2) by (simp add: slice_def stream_consts drop_take filled_def)
qed

section \<open>Outcomes\<close>

text \<open>\<open>rd_out P m\<close>: the call \<open>m\<close> returns, with \<open>P\<close> unless it returns an error.\<close>

definition rd_out :: "('a \<Rightarrow> 's \<Rightarrow> bool) \<Rightarrow> (('e + 'a) \<times> 's) option \<Rightarrow> bool" where
  "rd_out P m = (case m of None \<Rightarrow> False | Some (Inl e, st) \<Rightarrow> True | Some (Inr a, st) \<Rightarrow> P a st)"

lemma rd_out_simps [simp]:
  "rd_out P (Some (Inr a, st)) = P a st" "rd_out P (Some (Inl e, st))" "\<not> rd_out P None"
  by (simp_all add: rd_out_def)

lemma rd_out_bind:
  assumes "rd_out P m" "\<And>a st. P a st \<Longrightarrow> rd_out Q (f a st)"
  shows "rd_out Q (with_st m f)"
proof (cases m)
  case (Some x)
  obtain r st where "x = (r, st)" by (cases x)
  with assms Some show ?thesis by (cases r) simp_all
qed (use assms in simp)

lemma rd_out_cases:
  assumes "rd_out P m"
  obtains e st where "m = Some (Inl e, st)" | a st where "m = Some (Inr a, st)" "P a st"
proof (cases m)
  case (Some x)
  obtain r st where "x = (r, st)" by (cases x)
  with assms Some that show thesis by (cases r) simp_all
qed (use assms in simp)

lemma check_crc_returns: "check_crc t body out v ig = Some (Inr ()) \<or> (\<exists>e. check_crc t body out v ig = Some (Inl e))"
proof -
  have "strip_dlen_varint body = Some (Inl SCorrupt) \<or> (\<exists>b. strip_dlen_varint body = Some (Inr b))"
    using stream_uvarint.dec_bound
    by (auto simp: strip_dlen_varint_def slice_from_def split: option.split)
  then show ?thesis by (elim disjE exE) (simp_all add: check_crc_def)
qed

text \<open>The two passes over a chunk body agree on its decoded length.\<close>

lemma chunk_body_cases:
  obtains e where "decoded_len_chunk_body body = Some (Inl e)"
  | n e where "decoded_len_chunk_body body = Some (Inr n)" "append_decoded_chunk_body be [] body = Some (Inl e)"
  | out where "decoded_len_chunk_body body = Some (Inr (length out))" "append_decoded_chunk_body be [] body = Some (Inr out)"
proof -
  have "(\<exists>e. decoded_len_chunk_body body = Some (Inl e)) \<or> (\<exists>n. decoded_len_chunk_body body = Some (Inr n))"
    by (cases rule: split_chunk_body_ok [of body]) (auto simp: decoded_len_chunk_body_def)
  then show thesis
    using that by (cases rule: append_decoded_chunk_ok [of be "[]" body]) auto
qed

section \<open>The invariant\<close>

text \<open>
  The counters fit their words as long as the data that the remaining bytes can stand for fits: a chunk
  has a header of four bytes and brings at most one block.
\<close>

definition budget :: "(bytes, 'c) reader \<Rightarrow> nat" where
  "budget st = block_start st + length (decoded st) + MAX_BLOCK_SIZE * length (rd_src st)"

definition rd_ok :: "nat \<Rightarrow> (bytes, 'c) reader \<Rightarrow> bool" where
  "rd_ok k st \<longleftrightarrow> decoded_pos st \<le> length (decoded st) \<and> length (decoded st) \<le> MAX_BLOCK_SIZE \<and>
     max_block st \<le> MAX_BLOCK_SIZE \<and> max_block_user st \<le> MAX_BLOCK_SIZE \<and> length (callbacks st) = USER_CB_COUNT \<and>
     rd_err st = None \<and> budget st + k < 2 ^ 64"

text \<open>After a chunk: the invariant again, and no more bytes than before.\<close>

definition chunk_done :: "(bytes, 'c) reader \<Rightarrow> 'a \<Rightarrow> (bytes, 'c) reader \<Rightarrow> bool" where
  "chunk_done st a st' \<longleftrightarrow> rd_ok 0 st' \<and> length (rd_src st') \<le> length (rd_src st)"

lemma max_buf_size_ge [simp]: "\<not> max_buf_size st < CHECKSUM_SIZE"
  by (simp add: max_buf_size_def)

lemma max_buf_size_update [simp]:
  "max_buf_size (st\<lparr>block_start := i\<rparr>) = max_buf_size st" "max_buf_size (st\<lparr>decoded := x\<rparr>) = max_buf_size st"
  by (simp_all add: max_buf_size_def)

lemma rd_out_check: "rd_out P (f ()) \<Longrightarrow> rd_out P (and_then_at (check_crc t body out v ig) st f)"
  using check_crc_returns [of t body out v ig] by auto

lemma chunk_doneI:
  assumes "rd_ok MAX_BLOCK_SIZE st" "block_start st' + length (decoded st') \<le> block_start st + length (decoded st) + MAX_BLOCK_SIZE"
    and "length (rd_src st') \<le> length (rd_src st)" "decoded_pos st' \<le> length (decoded st')" "length (decoded st') \<le> MAX_BLOCK_SIZE"
    and "max_block st' \<le> MAX_BLOCK_SIZE" "max_block_user st' = max_block_user st" "length (callbacks st') = length (callbacks st)"
    and "rd_err st' = rd_err st"
  shows "chunk_done st a st'"
proof -
  have "MAX_BLOCK_SIZE * length (rd_src st') \<le> MAX_BLOCK_SIZE * length (rd_src st)" using assms(3) by simp
  then have "budget st' + 0 < 2 ^ 64" using assms(1,2) unfolding rd_ok_def budget_def by linarith
  then show ?thesis using assms by (simp add: chunk_done_def rd_ok_def)
qed

lemma rd_ok_start:
  assumes "rd_ok MAX_BLOCK_SIZE st" "k \<le> MAX_BLOCK_SIZE"
  shows "chk_u64 (block_start st + length (decoded st)) = Some (block_start st + length (decoded st))"
    and "chk_u64 (block_start st + (length (decoded st) + k)) = Some (block_start st + length (decoded st) + k)"
  using assms by (simp_all add: rd_ok_def budget_def chk_u64_def)

lemma rd_okD:
  "rd_ok k st \<Longrightarrow> decoded_pos st \<le> length (decoded st) \<and> length (decoded st) \<le> MAX_BLOCK_SIZE \<and>
     max_block st \<le> MAX_BLOCK_SIZE \<and> max_block_user st \<le> MAX_BLOCK_SIZE \<and> length (callbacks st) = USER_CB_COUNT \<and>
     rd_err st = None"
  by (simp add: rd_ok_def)

section \<open>Chunks\<close>

lemma handle_compressed_chunk_total:
  assumes "rd_ok MAX_BLOCK_SIZE st"
  shows "rd_out (chunk_done st) (handle_compressed_chunk be slice_read t n st)"
  using rd_okD [OF assms]
  by (cases rule: chunk_body_cases [where body = "drop CHECKSUM_SIZE (take n (rd_src st))" and be = be])
    (auto simp: handle_compressed_chunk_def rd_ok_start [OF assms order.refl] Let_def from_block_def
       intro!: rd_out_check chunk_doneI [OF assms])

lemma handle_uncompressed_chunk_total:
  assumes "rd_ok MAX_BLOCK_SIZE st"
  shows "rd_out (chunk_done st) (handle_uncompressed_chunk slice_read n st)"
  using rd_okD [OF assms]
  by (auto simp: handle_uncompressed_chunk_def rd_ok_start [OF assms order.refl] Let_def intro!: chunk_doneI [OF assms])

lemma handle_eof_chunk_total:
  assumes "rd_ok MAX_BLOCK_SIZE st"
  shows "rd_out (chunk_done st) (handle_eof_chunk slice_read n st)"
  using rd_okD [OF assms]
  by (auto simp: handle_eof_chunk_def check_total_def rd_ok_start [OF assms order.refl] Let_def
      split: option.split intro!: chunk_doneI [OF assms])

lemma handle_stream_identifier_total:
  assumes "rd_ok MAX_BLOCK_SIZE st"
  shows "rd_out (chunk_done st) (handle_stream_identifier slice_read n st)"
  using rd_okD [OF assms]
  by (auto simp: handle_stream_identifier_def Let_def stream_consts slice_def idx_def
      split: option.split intro!: chunk_doneI [OF assms])

lemma handle_skippable_total:
  assumes "rd_ok MAX_BLOCK_SIZE st"
  shows "rd_out (chunk_done st) (handle_skippable slice_read t n st)"
proof -
  have "unat (t - MIN_USER_SKIPPABLE_CHUNK) < length (callbacks st)"
    if "MIN_USER_SKIPPABLE_CHUNK \<le> t" "t \<le> MAX_USER_NON_SKIPPABLE_CHUNK"
    using that rd_okD [OF assms] by (simp add: USER_CB_COUNT_def stream_consts word_le_nat_alt unat_sub)
  then show ?thesis
    using rd_okD [OF assms]
    by (auto simp: handle_skippable_def Let_def idx_def split: option.split prod.split sum.split
        intro!: chunk_doneI [OF assms])
qed

lemma handle_chunk_total:
  "rd_ok MAX_BLOCK_SIZE st \<Longrightarrow> rd_out (chunk_done st) (handle_chunk be slice_read t n st)"
  by (simp add: handle_chunk_def handle_compressed_chunk_total handle_uncompressed_chunk_total
      handle_eof_chunk_total handle_stream_identifier_total handle_skippable_total)

lemma skip_compressed_total:
  assumes "rd_ok MAX_BLOCK_SIZE st"
  shows "rd_out (chunk_done st) (skip_compressed_or_decode be slice_read t n k st)"
  using rd_okD [OF assms]
  by (cases rule: chunk_body_cases [where body = "drop CHECKSUM_SIZE (take n (rd_src st))" and be = be])
    (auto simp: skip_compressed_or_decode_def rd_ok_start [OF assms order.refl] rd_ok_start(2) [OF assms] Let_def from_block_def
       intro!: rd_out_check chunk_doneI [OF assms])

lemma skip_uncompressed_total:
  assumes "rd_ok MAX_BLOCK_SIZE st"
  shows "rd_out (chunk_done st) (skip_uncompressed_or_decode slice_read n k st)"
proof (cases "n < CHECKSUM_SIZE")
  case True
  then show ?thesis by (simp add: skip_uncompressed_or_decode_def)
next
  case False
  define m where "m = n - CHECKSUM_SIZE"
  have n: "n = m + CHECKSUM_SIZE" using False by (simp add: m_def)
  show ?thesis
    using rd_okD [OF assms]
    by (auto simp: n skip_uncompressed_or_decode_def rd_ok_start [OF assms order.refl] rd_ok_start(2) [OF assms]
        Let_def simp del: add_diff_eq intro!: chunk_doneI [OF assms])
qed

lemma skip_chunk_total:
  assumes "rd_ok MAX_BLOCK_SIZE st"
  shows "rd_out (chunk_done st) (skip_chunk be slice_read t n k st)"
proof -
  have then_done: "rd_out (chunk_done st) m \<Longrightarrow> rd_out (chunk_done st) (with_st m (\<lambda>_ st. Some (Inr k, st)))"
    for m :: "(bytes, 'a, unit) stream_res"
    by (erule rd_out_cases) (simp_all add: chunk_done_def)
  show ?thesis
    unfolding skip_chunk_def
    by (auto intro!: then_done simp: skip_compressed_total skip_uncompressed_total handle_eof_chunk_total
        handle_stream_identifier_total handle_skippable_total assms)
qed

section \<open>The methods\<close>

lemma next_header_bytes:
  assumes "rd_src st = t # lb @ rest" "length lb = 3" "read_chunk_len lb = Some n"
  shows "next_header slice_read st =
    (if \<not> header_read st \<and> t \<noteq> CHUNK_TYPE_STREAM_IDENTIFIER \<and> t \<le> MAX_NON_SKIPPABLE_CHUNK \<and> t \<noteq> CHUNK_TYPE_EOF
     then Some (set_err SCorrupt (st\<lparr>rd_src := rest\<rparr>))
     else Some (Inr (Some (t, n)), st\<lparr>rd_src := rest, header_read := header_read st \<or> t = CHUNK_TYPE_STREAM_IDENTIFIER\<rparr>))"
  using assms by (auto simp: next_header_def CHUNK_HEADER_SIZE_def idx_def Let_def)

lemma next_header_short:
  "length (rd_src st) < 4 \<Longrightarrow> next_header slice_read st =
    Some (if rd_src st = [] \<and> \<not> expect_eof st then Inr None else Inl (stream_error_to_io SCorrupt), st\<lparr>rd_src := []\<rparr>)"
  by (auto simp: next_header_def stream_consts)

lemma split_header:
  assumes "4 \<le> length xs"
  obtains t lb rest n where "xs = t # lb @ rest" "length lb = 3" "read_chunk_len lb = Some n"
proof -
  obtain t ys where xs: "xs = t # ys" using assms by (cases xs) simp_all
  have "length (take 3 ys) = Suc (Suc (Suc 0))" using assms xs by simp
  then obtain a b c where "take 3 ys = [a, b, c]" by (auto simp only: length_Suc_conv length_0_conv)
  then have "ys = [a, b, c] @ drop 3 ys" by (metis append_take_drop_id)
  with that [of t "[a, b, c]" "drop 3 ys"] xs show thesis by (simp add: read_chunk_len_def idx_def)
qed

text \<open>A header costs four bytes, which pays for the block it brings.\<close>

lemma next_header_total:
  assumes "rd_ok 0 st"
  obtains (header) t n st' where "next_header slice_read st = Some (Inr (Some (t, n)), st')" "rd_ok MAX_BLOCK_SIZE st'"
      "length (rd_src st') < length (rd_src st)"
  | (ended) st' where "next_header slice_read st = Some (Inr None, st')" "rd_ok 0 st'"
  | (failed) e st' where "next_header slice_read st = Some (Inl e, st')" "rd_err st' = None \<longrightarrow> rd_ok 0 st'"
proof (cases "4 \<le> length (rd_src st)")
  case True
  obtain t lb rest n where h: "rd_src st = t # lb @ rest" "length lb = 3" "read_chunk_len lb = Some n"
    by (rule split_header [OF True])
  then have "rd_ok MAX_BLOCK_SIZE (st\<lparr>rd_src := rest, header_read := v\<rparr>)" for v
    using assms by (simp add: rd_ok_def budget_def add_mult_distrib2)
  moreover have "length rest < length (rd_src st)" using h by simp
  ultimately show ?thesis
    using that(1) [of t n] that(3) next_header_bytes [OF h] by (cases "header_read st") (auto simp: set_err_def split: if_splits)
next
  case False
  have "rd_ok 0 (st\<lparr>rd_src := []\<rparr>)" using assms by (simp add: rd_ok_def budget_def)
  with False that(2,3) next_header_short [of st] show ?thesis by (auto split: if_splits)
qed

text \<open>A reader is sound when it has an error to report or keeps the invariant.\<close>

definition rd_sound :: "(bytes, 'c) reader \<Rightarrow> bool" where
  "rd_sound st \<longleftrightarrow> rd_err st \<noteq> None \<or> rd_ok 0 st"

lemma set_err_sound: "\<exists>io st'. set_err e st = (Inl io, st') \<and> rd_err st' = Some io"
  by (simp add: set_err_def)

lemma fill_decoded_total:
  assumes "rd_ok 0 st"
  shows "\<exists>res st'. fill_decoded be slice_read st = Some (res, st') \<and> rd_sound st' \<and> (res = Inr True \<longrightarrow> rd_ok 0 st')"
proof -
  have "\<exists>x. loop (fill_step be slice_read) st = Some x \<and>
    (\<lambda>(res, st'). rd_sound st' \<and> (res = Inr True \<longrightarrow> rd_ok 0 st')) x"
  proof (rule loop_total [where I = "rd_ok 0" and m = "\<lambda>st. length (rd_src st)", OF assms])
    fix s :: "(bytes, 'a) reader"
    assume s: "rd_ok 0 s"
    show "(\<exists>s'. fill_step be slice_read s = Some (Inl s') \<and> rd_ok 0 s' \<and> length (rd_src s') < length (rd_src s)) \<or>
      (\<exists>x. fill_step be slice_read s = Some (Inr x) \<and> (\<lambda>(res, st'). rd_sound st' \<and> (res = Inr True \<longrightarrow> rd_ok 0 st')) x)"
    proof (cases "decoded_pos s < length (decoded s)")
      case True
      with s show ?thesis by (simp add: fill_step_def rd_sound_def)
    next
      case False
      from s show ?thesis
      proof (cases rule: next_header_total)
        case (header t n st')
        from handle_chunk_total [OF header(2), of be t n] show ?thesis
          by (rule rd_out_cases) (use False header in \<open>auto simp: fill_step_def chunk_done_def set_err_def rd_sound_def\<close>)
      qed (use False in \<open>auto simp: fill_step_def rd_sound_def\<close>)
    qed
  qed
  then show ?thesis by (auto simp: fill_decoded_def)
qed

lemma reader_read_total:
  assumes "rd_sound st"
  shows "\<exists>res st'. reader_read be slice_read n st = Some (res, st') \<and> rd_sound st'"
proof (cases "rd_err st = None \<and> 0 < n")
  case True
  then obtain res st' where f: "fill_decoded be slice_read st = Some (res, st')" "rd_sound st'" "res = Inr True \<longrightarrow> rd_ok 0 st'"
    using fill_decoded_total [of st be] assms by (auto simp: rd_sound_def)
  show ?thesis
  proof (cases "res = Inr True")
    case more: True
    then have ok: "rd_ok 0 st'" using f(3) by simp
    then have "rd_ok 0 (st'\<lparr>decoded_pos := decoded_pos st' + min (length (decoded st') - decoded_pos st') n\<rparr>)"
      by (auto simp: rd_ok_def budget_def)
    moreover have "decoded_pos st' + min (length (decoded st') - decoded_pos st') n \<le> length (decoded st')"
      using rd_okD [OF ok] by linarith
    ultimately show ?thesis
      using True f(1) more rd_okD [OF ok] by (simp add: reader_read_def fault_simps Let_def rd_sound_def)
  qed (use True f in \<open>cases res; simp add: reader_read_def\<close>)
qed (use assms in \<open>auto simp: reader_read_def split: option.split\<close>)

lemma reader_fill_buf_total:
  assumes "rd_sound st"
  shows "\<exists>res st'. reader_fill_buf be slice_read st = Some (res, st') \<and> rd_sound st'"
proof (cases "rd_err st")
  case None
  then obtain res st' where f: "fill_decoded be slice_read st = Some (res, st')" "rd_sound st'" "res = Inr True \<longrightarrow> rd_ok 0 st'"
    using fill_decoded_total [of st be] assms by (auto simp: rd_sound_def)
  then show ?thesis
    using None rd_okD [of 0 st'] by (cases res) (auto simp: reader_fill_buf_def fault_simps)
qed (use assms in \<open>simp add: reader_fill_buf_def\<close>)

lemma reader_skip_total:
  assumes "rd_sound st"
  shows "\<exists>res st'. reader_skip be slice_read n st = Some (res, st') \<and> rd_sound st'"
proof (cases "rd_err st")
  case None
  then have "rd_ok 0 st" using assms by (simp add: rd_sound_def)
  have "\<exists>x. loop (skip_step be slice_read) (n, st) = Some x \<and> (\<lambda>(res, st'). rd_sound st') x"
  proof (rule loop_total [where I = "\<lambda>(k, st). rd_ok 0 st" and m = "\<lambda>(k, st). length (rd_src st)"])
    show "case (n, st) of (k, st) \<Rightarrow> rd_ok 0 st" using \<open>rd_ok 0 st\<close> by simp
    fix ks :: "nat \<times> (bytes, 'a) reader"
    assume "case ks of (k, st) \<Rightarrow> rd_ok 0 st"
    then obtain k s where ks: "ks = (k, s)" "rd_ok 0 s" by (cases ks) simp
    show "(\<exists>s'. skip_step be slice_read ks = Some (Inl s') \<and> (case s' of (k, st) \<Rightarrow> rd_ok 0 st) \<and>
        (case s' of (k, st) \<Rightarrow> length (rd_src st)) < (case ks of (k, st) \<Rightarrow> length (rd_src st))) \<or>
      (\<exists>x. skip_step be slice_read ks = Some (Inr x) \<and> (\<lambda>(res, st'). rd_sound st') x)"
    proof (cases "k = 0 \<or> k \<le> length (decoded s) - decoded_pos s")
      case True
      then have "rd_ok 0 s" "k \<noteq> 0 \<longrightarrow> rd_ok 0 (s\<lparr>decoded_pos := decoded_pos s + k\<rparr>)"
        using ks(2) by (auto simp: rd_ok_def budget_def)
      with True rd_okD [OF ks(2)] show ?thesis by (auto simp: skip_step_def ks(1) fault_simps rd_sound_def)
    next
      case False
      let ?k = "k - (length (decoded s) - decoded_pos s)"
      have s1: "rd_ok 0 (s\<lparr>decoded_pos := length (decoded s)\<rparr>)" using ks(2) by (simp add: rd_ok_def budget_def)
      note simps = skip_step_def ks(1) fault_simps rd_okD [OF ks(2)] Let_def
      from s1 show ?thesis
      proof (cases rule: next_header_total)
        case (header t m st')
        from skip_chunk_total [OF header(2), of be t m ?k] show ?thesis
          by (rule rd_out_cases) (use False header in \<open>auto simp: simps chunk_done_def set_err_def rd_sound_def\<close>)
      qed (use False in \<open>auto simp: simps rd_sound_def\<close>)
    qed
  qed
  then show ?thesis using None by (auto simp: reader_skip_def)
qed (use assms in \<open>simp add: reader_skip_def\<close>)

lemma reader_consume_total:
  assumes "rd_ok k st"
  shows "\<exists>st'. reader_consume amt st = Some st' \<and> rd_ok k st' \<and> decoded st' = decoded st \<and>
    decoded_pos st' = min (decoded_pos st + amt) (length (decoded st))"
  using assms by (auto simp: reader_consume_def usub_def rd_ok_def budget_def)

lemma reader_build_sound:
  assumes "reader_build r env b = Inr st" "length (rb_callbacks b) = USER_CB_COUNT" "length r < 2 ^ 40"
  shows "rd_sound st"
  using assms by (auto simp: reader_build_def reader_with_builder_def rd_sound_def rd_ok_def budget_def format_consts split: if_splits)

end
