(* ===== verification/Reader_Correct.thy ===== *)
theory Reader_Correct
  imports Reader_Total Stream_Spec
begin

text \<open>
  What the reader makes of a stream. The format is a transition system over chunks: outside a stream or
  inside one that announced a block size and has brought so many bytes. The reader follows it: chunk by
  chunk, across any number of streams in a row, it delivers their data, runs the callbacks of their user
  chunks in their order, and reports an input that ends inside a stream.
\<close>

section \<open>The format as a transition system\<close>

text \<open>
  \<open>Between n\<close>: \<open>n\<close> streams have ended. \<open>Inside n m pre\<close>: within the next one, of block size \<open>m\<close>, which
  has brought the bytes \<open>pre\<close>.
\<close>

datatype phase = Between nat | Inside nat nat bytes

inductive gram :: "nat set \<Rightarrow> phase \<Rightarrow> bytes \<Rightarrow> phase \<Rightarrow> item list \<Rightarrow> bool" for U where
  Head: "ind AND 0xc0 = 0 \<Longrightarrow> block_size_from_indicator ind = Some m \<Longrightarrow> m \<in> U \<Longrightarrow>
    gram U (Between n) (chunk CHUNK_TYPE_STREAM_IDENTIFIER (MAGIC_BODY @ [ind])) (Inside n m []) []"
| Again: "ind AND 0xc0 = 0 \<Longrightarrow> block_size_from_indicator ind = Some m' \<Longrightarrow> m' \<in> U \<Longrightarrow>
    gram U (Inside n m []) (chunk CHUNK_TYPE_STREAM_IDENTIFIER (MAGIC_BODY @ [ind])) (Inside n m' []) []"
| Item: "item_chunk m it c \<Longrightarrow> length (pre @ item_data it) < 2 ^ 64 \<Longrightarrow>
    gram U (Inside n m pre) c (Inside n m (pre @ item_data it)) [it]"
| Tail: "gram U (Inside n m pre) (eof_chunk (length pre)) (Between (Suc n)) []"
| Pass: "item_chunk 0 (Other t body) c \<Longrightarrow> gram U (Between n) c (Between n) [Other t body]"

text \<open>
  \<open>feeds U N ph bs its whole\<close>: read from phase \<open>ph\<close> on when block sizes in \<open>U\<close> are announced, the
  input \<open>bs\<close> brings the items \<open>its\<close> and ends behind the \<open>N\<close>-th stream, or it ends inside a stream or
  within a chunk.
\<close>

inductive feeds :: "nat set \<Rightarrow> nat \<Rightarrow> phase \<Rightarrow> bytes \<Rightarrow> item list \<Rightarrow> bool \<Rightarrow> bool" for U N where
  Whole: "feeds U N (Between N) [] [] True"
| Cut: "feeds U N (Inside n m pre) [] [] False"
| Short: "gram U ph c ph' i \<Longrightarrow> 0 < j \<Longrightarrow> j < length c \<Longrightarrow> feeds U N ph (take j c) [] False"
| More: "gram U ph c ph' i \<Longrightarrow> feeds U N ph' bs its whole \<Longrightarrow> feeds U N ph (c @ bs) (i @ its) whole"

text \<open>One stream after another.\<close>

lemma feeds_append:
  "feeds U N ph bs its True \<Longrightarrow> feeds U M (Between N) cs jts whole \<Longrightarrow> feeds U M ph (bs @ cs) (its @ jts) whole"
proof (induction ph bs its "True" rule: feeds.induct)
  case (More ph c ph' i bs its)
  from feeds.More [OF More.hyps(1) More.hyps(3) [OF More.prems]] show ?case by simp
qed simp_all

text \<open>Streams are counted upwards, and behind the last one there is no data.\<close>

fun ended :: "phase \<Rightarrow> nat" where
  "ended (Between n) = n"
| "ended (Inside n m pre) = n"

lemma gram_ended: "gram U ph c ph' i \<Longrightarrow> ended ph \<le> ended ph'"
  by (induction rule: gram.induct) simp_all

lemma feeds_ended:
  "feeds U N ph bs its True \<Longrightarrow> ended ph \<le> N \<and> (\<forall>m pre. ph = Inside N m pre \<longrightarrow> False) \<and> (ph = Between N \<longrightarrow> data_of its = [])"
proof (induction ph bs its "True" rule: feeds.induct)
  case (More ph c ph' i bs its)
  then show ?case by (cases rule: gram.cases [OF More.hyps(1)]) auto
qed simp_all

section \<open>User chunks\<close>

definition cb_slot :: "'c user_chunk_cb option list \<Rightarrow> byte \<Rightarrow> 'c user_chunk_cb option" where
  "cb_slot cbs t = (if MIN_USER_SKIPPABLE_CHUNK \<le> t \<and> t \<le> MAX_USER_NON_SKIPPABLE_CHUNK
     then cbs ! unat (t - MIN_USER_SKIPPABLE_CHUNK) else None)"

text \<open>A user chunk is accepted when it may be skipped or its callback succeeds.\<close>

fun accepts :: "'c user_chunk_cb option list \<Rightarrow> item \<Rightarrow> bool" where
  "accepts cbs (Data d) = True"
| "accepts cbs (Other t body) = (case cb_slot cbs t of
     Some cb \<Rightarrow> \<forall>env. \<exists>env'. cb t body env = (Inr (), env')
   | None \<Rightarrow> t = CHUNK_TYPE_PADDING \<or> t < MIN_USER_NON_SKIPPABLE_CHUNK)"

fun deliver :: "'c user_chunk_cb option list \<Rightarrow> item \<Rightarrow> 'c \<Rightarrow> 'c" where
  "deliver cbs (Data d) env = env"
| "deliver cbs (Other t body) env = (case cb_slot cbs t of Some cb \<Rightarrow> snd (cb t body env) | None \<Rightarrow> env)"

lemma cb_slot_none [simp]: "cb_slot (replicate USER_CB_COUNT None) t = None"
  by (auto simp: cb_slot_def USER_CB_COUNT_def stream_consts word_le_nat_alt unat_sub intro!: nth_replicate)

lemma accepts_skippable: "skippable its \<Longrightarrow> it \<in> set its \<Longrightarrow> accepts (replicate USER_CB_COUNT None) it"
  by (cases it) (auto simp: skippable_def split: item.splits)

section \<open>The chunk handlers\<close>

text \<open>What a chunk leaves as it is.\<close>

definition same :: "(bytes, 'c) reader \<Rightarrow> (bytes, 'c) reader \<Rightarrow> bool" where
  "same st st' \<longleftrightarrow> max_block_user st' = max_block_user st \<and> callbacks st' = callbacks st \<and> rd_err st' = rd_err st"

text \<open>\<open>short m\<close>: the call \<open>m\<close> reports that the input has ended too early.\<close>

definition short :: "((stream_error + 'a) \<times> 's) option \<Rightarrow> bool" where
  "short m \<longleftrightarrow> (\<exists>e st. m = Some (Inl e, st) \<and> stream_error_to_io e = stream_error_to_io SCorrupt)"

lemma short_simps [simp]:
  "short (Some (Inl e, st)) \<longleftrightarrow> stream_error_to_io e = stream_error_to_io SCorrupt" "\<not> short (Some (Inr a, st))" "\<not> short None"
  by (simp_all add: short_def)

lemma spec_chunk_decodes:
  assumes "spec_chunk body = Some d"
  shows "append_decoded_chunk_body False [] body = Some (Inr d) \<and> decoded_len_chunk_body body = Some (Inr (length d))"
  using append_decoded_chunk_ok [of False "[]" body] assms by auto

lemma block_fits:
  assumes "16 \<le> max_block st" "max_block st \<le> MAX_BLOCK_SIZE"
  shows "max_buf_size st = max_block st + 6"
  using assms by (simp add: max_buf_size_def max_encoded_len_eq stream_consts)

lemma check_crc_ok:
  "check_crc t body d v False = Some (Inr ()) \<Longrightarrow> check_crc t body d v ig = Some (Inr ())"
  by (cases ig) (simp_all add: check_crc_def)

lemma handle_compressed_chunk_ok:
  assumes d: "spec_chunk body = Some d" "length body \<le> length d" "length d \<le> max_block st"
    and m: "16 \<le> max_block st" "max_block st \<le> MAX_BLOCK_SIZE" "block_start st + length (decoded st) < 2 ^ 64"
    and crc: "length cs = CHECKSUM_SIZE" "check_crc t body d (of_le cs) False = Some (Inr ())"
    and n: "n = length body + CHECKSUM_SIZE"
  shows "rd_src st = cs @ body @ rest \<Longrightarrow> handle_compressed_chunk False slice_read t n st =
      Some (Inr (), st\<lparr>block_start := block_start st + length (decoded st), rd_src := rest, rbuf := filled n st,
        decoded := d, decoded_pos := 0\<rparr>)"
    and "length (rd_src st) < n \<Longrightarrow> short (handle_compressed_chunk False slice_read t n st)"
proof -
  have s: "chk_u64 (block_start st + length (decoded st)) = Some (block_start st + length (decoded st))"
    using m(3) by (simp add: chk_u64_def)
  have b: "\<not> max_buf_size st < n" "\<not> max_block st < length d" "\<not> n < CHECKSUM_SIZE" "CHECKSUM_SIZE \<le> n"
    using d m n by (simp_all add: block_fits stream_consts)
  note simps = handle_compressed_chunk_def s b Let_def from_block_def
  show "handle_compressed_chunk False slice_read t n st =
      Some (Inr (), st\<lparr>block_start := block_start st + length (decoded st), rd_src := rest, rbuf := filled n st,
        decoded := d, decoded_pos := 0\<rparr>)"
    if rd_src: "rd_src st = cs @ body @ rest"
  proof -
    have "take n (cs @ body @ rest) = cs @ body" "n \<le> length (cs @ body @ rest)" "drop n (cs @ body @ rest) = rest"
      using crc(1) n by simp_all
    then show ?thesis
      using crc(1) spec_chunk_decodes [OF d(1)] check_crc_ok [OF crc(2)] by (simp add: simps rd_src)
  qed
  show "short (handle_compressed_chunk False slice_read t n st)" if "length (rd_src st) < n"
    using that by (simp add: simps)
qed

lemma handle_uncompressed_chunk_ok:
  assumes d: "length d \<le> max_block st" "block_start st + length (decoded st) < 2 ^ 64"
    and crc: "length cs = CHECKSUM_SIZE" "of_le cs = masked_crc32c d" and n: "n = length d + CHECKSUM_SIZE"
  shows "rd_src st = cs @ d @ rest \<Longrightarrow> handle_uncompressed_chunk slice_read n st =
      Some (Inr (), st\<lparr>block_start := block_start st + length (decoded st), rbuf := filled CHECKSUM_SIZE st,
        rd_src := rest, decoded := d, decoded_pos := 0\<rparr>)"
    and "length (rd_src st) < n \<Longrightarrow> short (handle_uncompressed_chunk slice_read n st)"
proof -
  have s: "chk_u64 (block_start st + length (decoded st)) = Some (block_start st + length (decoded st))"
    using d(2) by (simp add: chk_u64_def)
  note simps = handle_uncompressed_chunk_def s Let_def n d(1) [unfolded not_less [symmetric]]
  show "handle_uncompressed_chunk slice_read n st =
      Some (Inr (), st\<lparr>block_start := block_start st + length (decoded st), rbuf := filled CHECKSUM_SIZE st,
        rd_src := rest, decoded := d, decoded_pos := 0\<rparr>)"
    if rd_src: "rd_src st = cs @ d @ rest"
    using crc by (simp add: simps rd_src)
  show "short (handle_uncompressed_chunk slice_read n st)" if "length (rd_src st) < n"
    using that by (auto simp: simps)
qed

lemma handle_eof_chunk_ok:
  assumes "block_start st + length (decoded st) < 2 ^ 64"
  defines "body \<equiv> uvarint (of_nat (block_start st + length (decoded st)))"
  shows "rd_src st = body @ rest \<Longrightarrow> handle_eof_chunk slice_read (length body) st =
      Some (Inr (), st\<lparr>rd_src := rest, expect_eof := False, header_read := False\<rparr>)"
    and "length (rd_src st) < length body \<Longrightarrow> short (handle_eof_chunk slice_read (length body) st)"
proof -
  have s: "chk_u64 (block_start st + length (decoded st)) = Some (block_start st + length (decoded st))"
    "unat (of_nat (block_start st + length (decoded st)) :: u64) = block_start st + length (decoded st)"
    using assms(1) by (simp_all add: chk_u64_def unsigned_of_nat take_bit_nat_eq_self del: of_nat_add)
  have b: "\<not> MAX_VARINT_LEN_64 < length body" "body \<noteq> []"
    using length_uvarint_max [of "of_nat (block_start st + length (decoded st))"]
    by (simp_all add: body_def stream_consts)
  have v: "stream_get_uvarint body = Some (of_nat (block_start st + length (decoded st)), length body)"
    unfolding body_def by (rule stream_uvarint.dec_enc_exact)
  show "handle_eof_chunk slice_read (length body) st =
      Some (Inr (), st\<lparr>rd_src := rest, expect_eof := False, header_read := False\<rparr>)" if "rd_src st = body @ rest"
    using that b s v by (simp add: handle_eof_chunk_def check_total_def del: of_nat_add)
  show "short (handle_eof_chunk slice_read (length body) st)" if "length (rd_src st) < length body"
    using that b by (simp add: handle_eof_chunk_def)
qed

lemma handle_stream_identifier_ok:
  assumes "ind AND 0xc0 = 0" "block_size_from_indicator ind = Some m" "m \<le> max_block_user st"
    and n: "n = length (MAGIC_BODY @ [ind])"
  shows "rd_src st = MAGIC_BODY @ [ind] @ rest \<Longrightarrow> handle_stream_identifier slice_read n st =
      Some (Inr (), st\<lparr>rd_src := rest, max_block := m, block_start := 0, decoded := [], decoded_pos := 0, expect_eof := True\<rparr>)"
    and "length (rd_src st) < n \<Longrightarrow> short (handle_stream_identifier slice_read n st)"
proof -
  have ne: "n = MAGIC_BODY_LEN" by (simp add: n MAGIC_BODY_LEN_def)
  show "handle_stream_identifier slice_read n st =
      Some (Inr (), st\<lparr>rd_src := rest, max_block := m, block_start := 0, decoded := [], decoded_pos := 0, expect_eof := True\<rparr>)"
    if "rd_src st = MAGIC_BODY @ [ind] @ rest"
    using that assms(1-3) by (simp add: handle_stream_identifier_def ne slice_def idx_def MAGIC_BODY_LEN_def nth_append Let_def)
  show "short (handle_stream_identifier slice_read n st)" if "length (rd_src st) < n"
    using that by (simp add: handle_stream_identifier_def ne)
qed

lemma handle_skippable_ok:
  assumes cbs: "length (callbacks st) = USER_CB_COUNT"
  shows "accepts (callbacks st) (Other t body) \<Longrightarrow> rd_src st = body @ rest \<Longrightarrow> \<exists>buf. handle_skippable slice_read t (length body) st =
      Some (Inr (), st\<lparr>rd_src := rest, cb_buf := buf, cb_env := deliver (callbacks st) (Other t body) (cb_env st)\<rparr>)"
    and "length (rd_src st) < length body \<Longrightarrow> short (handle_skippable slice_read t (length body) st)"
proof -
  let ?i = "unat (t - MIN_USER_SKIPPABLE_CHUNK)"
  have i: "idx (callbacks st) ?i = Some (cb_slot (callbacks st) t)"
    if "MIN_USER_SKIPPABLE_CHUNK \<le> t" "t \<le> MAX_USER_NON_SKIPPABLE_CHUNK"
    using that cbs by (auto simp: idx_def cb_slot_def USER_CB_COUNT_def stream_consts word_le_nat_alt unat_sub)
  show "\<exists>buf. handle_skippable slice_read t (length body) st =
      Some (Inr (), st\<lparr>rd_src := rest, cb_buf := buf, cb_env := deliver (callbacks st) (Other t body) (cb_env st)\<rparr>)"
    if acc: "accepts (callbacks st) (Other t body)" and rd_src: "rd_src st = body @ rest"
  proof (cases "cb_slot (callbacks st) t")
    case None
    then have "\<not> (MIN_USER_NON_SKIPPABLE_CHUNK \<le> t \<and> t \<le> MAX_USER_NON_SKIPPABLE_CHUNK)"
      using acc by (auto simp: stream_consts)
    with None rd_src i show ?thesis
      by (intro exI [of _ "cb_buf st"]) (auto simp: handle_skippable_def)
  next
    case (Some cb)
    then obtain env' where "cb t body (cb_env st) = (Inr (), env')" using acc by auto
    moreover have "MIN_USER_SKIPPABLE_CHUNK \<le> t" "t \<le> MAX_USER_NON_SKIPPABLE_CHUNK"
      using Some by (auto simp: cb_slot_def split: if_splits)
    ultimately show ?thesis
      using rd_src i Some by (intro exI [of _ body]) (simp add: handle_skippable_def Let_def)
  qed
  show "short (handle_skippable slice_read t (length body) st)" if "length (rd_src st) < length body"
    using that i by (cases "cb_slot (callbacks st) t") (auto simp: handle_skippable_def Let_def)
qed

section \<open>One chunk\<close>

text \<open>The state of a reader in a phase, all of what it has decoded being consumed or not.\<close>

definition at_phase :: "phase \<Rightarrow> (bytes, 'c) reader \<Rightarrow> bool" where
  "at_phase ph st \<longleftrightarrow> rd_err st = None \<and> decoded_pos st \<le> length (decoded st) \<and> length (callbacks st) = USER_CB_COUNT \<and>
     (case ph of
        Between n \<Rightarrow> \<not> expect_eof st
      | Inside n m pre \<Rightarrow> expect_eof st \<and> header_read st \<and> max_block st = m \<and> 16 \<le> m \<and> m \<le> MAX_BLOCK_SIZE \<and>
          block_start st + length (decoded st) = length pre \<and> drop (block_start st) pre = decoded st \<and> length pre < 2 ^ 64)"

definition pending :: "(bytes, 'c) reader \<Rightarrow> bytes" where
  "pending st = drop (decoded_pos st) (decoded st)"

text \<open>
  What a chunk that brings the items \<open>i\<close> does to the reader, when \<open>k\<close> bytes are to be skipped; a stream
  has been read once its identifier is no longer remembered.
\<close>

definition took :: "nat \<Rightarrow> item list \<Rightarrow> phase \<Rightarrow> bytes \<Rightarrow> (bytes, 'c) reader \<Rightarrow> (bytes, 'c) reader \<Rightarrow> bool" where
  "took k i ph rest st st' \<longleftrightarrow> at_phase ph st' \<and> rd_src st' = rest \<and> pending st' = drop k (data_of i) \<and>
     callbacks st' = callbacks st \<and> max_block_user st' = max_block_user st \<and>
     cb_env st' = fold (deliver (callbacks st)) i (cb_env st) \<and>
     (\<forall>n. ph = Between n \<longrightarrow> (header_read st' \<longrightarrow> header_read st \<and> \<not> expect_eof st) \<and>
        block_start st' + decoded_pos st' = block_start st + length (decoded st))"

lemma indicator_size:
  assumes "block_size_from_indicator ind = Some m"
  shows "16 \<le> m" "m \<le> MAX_BLOCK_SIZE"
proof -
  have "unat (ind AND 15) < 16" using unat_and_low(4) [of ind] by simp
  moreover have "unat ((ind AND 15) + 10) = unat (ind AND 15) + 10"
    using \<open>unat (ind AND 15) < 16\<close> by (simp add: unat_word_ariths)
  ultimately have u: "m = 2 ^ (unat (ind AND 15) + 10)" "unat (ind AND 15) + 10 \<le> 23"
    using assms by (auto simp: block_size_from_indicator_def stream_consts word_less_nat_alt Let_def split: if_splits)
  have "(2::nat) ^ 10 \<le> 2 ^ (unat (ind AND 15) + 10)" "(2::nat) ^ (unat (ind AND 15) + 10) \<le> 2 ^ 23"
    by (rule power_increasing; use u(2) in simp)+
  with u show "16 \<le> m" "m \<le> MAX_BLOCK_SIZE" by (simp_all add: format_consts)
qed

lemma of_le_to_le [simp]: "of_le (to_le_bytes v) = v"
  using read_u32_to_le [of v "[]"] by (simp add: stream_read_u32_le_def idx_def bind_eq_Some_conv to_le_bytes_def upt_rec)

lemma handle_data_ok:
  assumes "data_chunk m d c" "at_phase (Inside n m pre) st" "length (pre @ d) < 2 ^ 64"
  obtains t body where "c = chunk t body" "length body < 2 ^ 24"
    "\<And>rest. rd_src st = body @ rest \<Longrightarrow> t \<noteq> CHUNK_TYPE_STREAM_IDENTIFIER \<and>
      (\<exists>st'. handle_chunk False slice_read t (length body) st = Some (Inr (), st') \<and> took 0 [Data d] (Inside n m (pre @ d)) rest st st')"
    "length (rd_src st) < length body \<Longrightarrow> short (handle_chunk False slice_read t (length body) st)"
proof -
  have st: "max_block st = m" "16 \<le> m" "m \<le> MAX_BLOCK_SIZE" "block_start st + length (decoded st) = length pre" "length pre < 2 ^ 64"
    "block_start st + length (decoded st) < 2 ^ 64" "length d \<le> max_block st" "length d \<le> MAX_BLOCK_SIZE"
    using assms by (simp_all add: at_phase_def data_chunk_def)
  have pre: "drop (block_start st + length (decoded st)) (pre @ d) = d" using st(4) by simp
  have took: "took 0 [Data d] (Inside n m (pre @ d)) rest st
      (st\<lparr>block_start := block_start st + length (decoded st), rd_src := rest, rbuf := buf, decoded := d, decoded_pos := 0\<rparr>)"
    "took 0 [Data d] (Inside n m (pre @ d)) rest st
      (st\<lparr>block_start := block_start st + length (decoded st), rbuf := buf, rd_src := rest, decoded := d, decoded_pos := 0\<rparr>)"
    for rest buf
    using assms(2,3) pre by (simp_all add: took_def at_phase_def pending_def)
  have ty: "CHUNK_TYPE_UNCOMPRESSED_DATA \<noteq> CHUNK_TYPE_STREAM_IDENTIFIER" by (simp add: stream_consts)
  note ts = handle_chunk_def stream_consts
  from assms(1) show thesis
    unfolding data_chunk_def
  proof (elim conjE disjE exE)
    assume "c = chunk CHUNK_TYPE_UNCOMPRESSED_DATA (to_le_bytes (masked_crc32c d) @ d)"
    then show thesis
    proof (rule that)
      show "length (to_le_bytes (masked_crc32c d) @ d) < 2 ^ 24" using st(8) by (simp add: format_consts)
    next
      fix rest assume "rd_src st = (to_le_bytes (masked_crc32c d) @ d) @ rest"
      then show "CHUNK_TYPE_UNCOMPRESSED_DATA \<noteq> CHUNK_TYPE_STREAM_IDENTIFIER \<and>
        (\<exists>st'. handle_chunk False slice_read CHUNK_TYPE_UNCOMPRESSED_DATA (length (to_le_bytes (masked_crc32c d) @ d)) st =
          Some (Inr (), st') \<and> took 0 [Data d] (Inside n m (pre @ d)) rest st st')"
        using handle_uncompressed_chunk_ok(1) [OF st(7,6), of "to_le_bytes (masked_crc32c d)" _ rest] took(2) ty
        by (simp add: handle_chunk_def CHECKSUM_SIZE_def add.commute) (simp add: stream_consts)
    next
      show "length (rd_src st) < length (to_le_bytes (masked_crc32c d) @ d) \<Longrightarrow>
        short (handle_chunk False slice_read CHUNK_TYPE_UNCOMPRESSED_DATA (length (to_le_bytes (masked_crc32c d) @ d)) st)"
        using handle_uncompressed_chunk_ok(2) [OF st(7,6), of "to_le_bytes (masked_crc32c d)"]
        by (simp add: ts add.commute)
    qed
  next
    fix body
    assume "spec_chunk body = Some d" "length body \<le> length d"
      and c: "c = chunk CHUNK_TYPE_MINLZ_COMPRESSED_DATA (to_le_bytes (masked_crc32c d) @ body)"
    note h = handle_compressed_chunk_ok [OF this(1,2) st(7) _ _ st(6) _ _ add.commute, of "to_le_bytes (masked_crc32c d)"
        CHUNK_TYPE_MINLZ_COMPRESSED_DATA]
    from c show thesis
      by (rule that) (use h st \<open>length body \<le> length d\<close> took in \<open>auto simp: ts check_crc_def format_consts\<close>)
  next
    fix body v k
    assume "spec_chunk body = Some d" "length body \<le> length d" "get_uvarint body = Some (v, k)"
      and c: "c = chunk CHUNK_TYPE_MINLZ_COMPRESSED_DATA_COMP_CRC (to_le_bytes (masked_crc32c (drop k body)) @ body)"
    note h = handle_compressed_chunk_ok [OF this(1,2) st(7) _ _ st(6) _ _ add.commute, of "to_le_bytes (masked_crc32c (drop k body))"
        CHUNK_TYPE_MINLZ_COMPRESSED_DATA_COMP_CRC]
    have "strip_dlen_varint body = Some (Inr (drop k body))"
      using \<open>get_uvarint body = Some (v, k)\<close> uvarint_slice [of body v k]
      by (simp add: strip_dlen_varint_def stream_get_uvarint_eq get_uvarint_eq)
    with c show thesis
      by (intro that) (use h st \<open>length body \<le> length d\<close> took in \<open>auto simp: ts check_crc_def format_consts\<close>)
  qed
qed

lemma gram_handle:
  assumes "gram U ph c ph' i" "at_phase ph st" "decoded_pos st = length (decoded st)" "U \<subseteq> {..max_block_user st}"
  obtains t body where "c = chunk t body" "length body < 2 ^ 24"
    "ph = Between (ended ph) \<Longrightarrow> t = CHUNK_TYPE_STREAM_IDENTIFIER \<or> MAX_NON_SKIPPABLE_CHUNK < t"
    "\<And>rest. \<forall>it \<in> set i. accepts (callbacks st) it \<Longrightarrow> rd_src st = body @ rest \<Longrightarrow>
      (t = CHUNK_TYPE_STREAM_IDENTIFIER \<Longrightarrow> header_read st) \<Longrightarrow>
      \<exists>st'. handle_chunk False slice_read t (length body) st = Some (Inr (), st') \<and> took 0 i ph' rest st st'"
    "length (rd_src st) < length body \<Longrightarrow> short (handle_chunk False slice_read t (length body) st)"
proof -
  note result = that
  have cbs: "length (callbacks st) = USER_CB_COUNT" using assms(2) by (simp add: at_phase_def)
  have other: thesis
    if "c = chunk t body" "MAX_NON_SKIPPABLE_CHUNK < t" "t \<noteq> CHUNK_TYPE_STREAM_IDENTIFIER" "length body \<le> MAX_USER_CHUNK_SIZE"
      "i = [Other t body]" "ph' = ph" for t body
  proof (rule result)
    have ty: "handle_chunk False slice_read t (length body) st = handle_skippable slice_read t (length body) st"
      using \<open>MAX_NON_SKIPPABLE_CHUNK < t\<close> \<open>t \<noteq> CHUNK_TYPE_STREAM_IDENTIFIER\<close>
      by (auto simp: handle_chunk_def stream_consts word_less_nat_alt word_le_nat_alt)
    show "c = chunk t body" "length body < 2 ^ 24" "t = CHUNK_TYPE_STREAM_IDENTIFIER \<or> MAX_NON_SKIPPABLE_CHUNK < t"
      using that by (simp_all add: stream_consts)
    show "short (handle_chunk False slice_read t (length body) st)" if "length (rd_src st) < length body"
      unfolding ty using that by (rule handle_skippable_ok(2) [OF cbs])
    show "\<exists>st'. handle_chunk False slice_read t (length body) st = Some (Inr (), st') \<and> took 0 i ph' rest st st'"
      if acc: "\<forall>it \<in> set i. accepts (callbacks st) it" and rd_src: "rd_src st = body @ rest" for rest
      using handle_skippable_ok(1) [OF cbs _ rd_src, of t] acc assms(2,3) \<open>i = _\<close> \<open>ph' = ph\<close>
      by (auto simp: ty took_def at_phase_def pending_def split: phase.splits)
  qed
  have ident: "handle_chunk False slice_read CHUNK_TYPE_STREAM_IDENTIFIER n st = handle_stream_identifier slice_read n st" for n
    by (simp add: handle_chunk_def stream_consts)
  from assms(1) show thesis
  proof cases
    case (Head ind m n)
    have le: "m \<le> max_block_user st" using Head(7) assms(4) by auto
    from Head(2) show thesis
      by (rule that) (use handle_stream_identifier_ok [OF Head(5,6) le refl] assms(2) Head indicator_size [OF Head(6)] in
        \<open>auto simp: ident took_def at_phase_def pending_def MAGIC_BODY_def\<close>)
  next
    case (Again ind m' n m)
    have le: "m' \<le> max_block_user st" using Again(7) assms(4) by auto
    from Again(2) show thesis
      by (rule that) (use handle_stream_identifier_ok [OF Again(5,6) le refl] assms(2) Again indicator_size [OF Again(6)] in
        \<open>auto simp: ident took_def at_phase_def pending_def MAGIC_BODY_def\<close>)
  next
    case (Item m it pre n)
    show thesis
    proof (cases it)
      case (Data d)
      show thesis
        by (rule handle_data_ok [of m d c n pre st]) (use Item Data assms(2) that in auto)
    next
      case (Other t body)
      with Item show thesis by (intro other) auto
    qed
  next
    case (Tail n m pre)
    have p: "length pre = block_start st + length (decoded st)" "block_start st + length (decoded st) < 2 ^ 64"
      using assms(2) Tail by (auto simp: at_phase_def)
    note h = handle_eof_chunk_ok [OF p(2), folded p(1)]
    have ty: "handle_chunk False slice_read CHUNK_TYPE_EOF n st = handle_eof_chunk slice_read n st" for n
      by (simp add: handle_chunk_def stream_consts)
    from Tail(2) [unfolded eof_chunk_def] show thesis
      by (rule that) (use h assms(2,3) Tail length_uvarint_max [of "of_nat (length pre)"] in
        \<open>auto simp: ty took_def at_phase_def pending_def\<close>)
  next
    case (Pass t body n)
    then show thesis by (intro other) auto
  qed
qed

lemma gram_ident:
  assumes "gram U ph (chunk t body) ph' i" "ph' = Between (ended ph')"
  shows "t \<noteq> CHUNK_TYPE_STREAM_IDENTIFIER"
  using assms(1)
proof cases
  case (Tail n m pre)
  then show ?thesis by (simp add: eof_chunk_def chunk_def stream_consts)
next
  case (Pass t' body' n)
  then show ?thesis by (simp add: chunk_def)
qed (use assms(2) in simp_all)

text \<open>One round of the reader's loop: a chunk of the format is taken, a part of one is reported.\<close>

lemma drained_step:
  assumes "decoded_pos st = length (decoded st)"
  shows "fill_step be rd st = Option.bind (next_header rd st) (\<lambda>(h, st).
      case h of
        Inl e \<Rightarrow> Some (Inr (Inl e, st))
      | Inr None \<Rightarrow> Some (Inr (Inr False, st))
      | Inr (Some (t, n)) \<Rightarrow> Option.bind (handle_chunk be rd t n st) (\<lambda>(res, st).
          case res of Inl e \<Rightarrow> Some (Inr (set_err e st)) | Inr _ \<Rightarrow> Some (Inl st)))"
  using assms by (simp add: fill_step_def)

lemma fill_step_chunk:
  assumes g: "gram U ph c ph' i" "at_phase ph st" "decoded_pos st = length (decoded st)" "U \<subseteq> {..max_block_user st}"
  shows "\<forall>it \<in> set i. accepts (callbacks st) it \<Longrightarrow> rd_src st = c @ rest \<Longrightarrow> \<exists>st'. fill_step False slice_read st = Some (Inl st') \<and> took 0 i ph' rest st st'"
    and "rd_src st = take j c \<Longrightarrow> 0 < j \<Longrightarrow> j < length c \<Longrightarrow>
      \<exists>st'. fill_step False slice_read st = Some (Inr (Inl (stream_error_to_io SCorrupt), st'))"
proof -
  define s where "s = (\<lambda>r t. st\<lparr>rd_src := r, header_read := header_read st \<or> t = CHUNK_TYPE_STREAM_IDENTIFIER\<rparr>)"
  have s: "max_block_user (s r t) = max_block_user st" "at_phase ph (s r t)" "decoded_pos (s r t) = length (decoded (s r t))"
    "callbacks (s r t) = callbacks st" "rd_src (s r t) = r"
    "took 0 i ph' r' (s r t) st' \<Longrightarrow> t \<noteq> CHUNK_TYPE_STREAM_IDENTIFIER \<or> ph' \<noteq> Between (ended ph') \<Longrightarrow> took 0 i ph' r' st st'"
    "t = CHUNK_TYPE_STREAM_IDENTIFIER \<Longrightarrow> header_read (s r t)" for r t r' st'
    using g(2,3) by (auto simp: s_def at_phase_def took_def split: phase.splits)
  have hdr: "next_header slice_read st = Some (Inr (Some (t, n)), s r t)"
    if "rd_src st = t # len_bytes n @ r" "n < 2 ^ 24" "ph = Between (ended ph) \<Longrightarrow> t = CHUNK_TYPE_STREAM_IDENTIFIER \<or> MAX_NON_SKIPPABLE_CHUNK < t"
    for t n r
  proof -
    have "(\<not> header_read st \<and> t \<noteq> CHUNK_TYPE_STREAM_IDENTIFIER \<and> t \<le> MAX_NON_SKIPPABLE_CHUNK \<and> t \<noteq> CHUNK_TYPE_EOF) = False"
      using that(3) g(2) by (cases ph) (auto simp: at_phase_def)
    moreover have "read_chunk_len (len_bytes n) = Some n" using read_len_bytes [OF that(2), of "[]"] by simp
    ultimately show ?thesis unfolding next_header_bytes [OF that(1) length_len_bytes \<open>read_chunk_len _ = _\<close>] s_def by (simp only: if_False)
  qed
  obtain t body where c: "c = chunk t body" "length body < 2 ^ 24"
    "ph = Between (ended ph) \<Longrightarrow> t = CHUNK_TYPE_STREAM_IDENTIFIER \<or> MAX_NON_SKIPPABLE_CHUNK < t"
    by (rule gram_handle [OF g]) blast
  have h: "((\<forall>it \<in> set i. accepts (callbacks st) it) \<longrightarrow> rd_src (s r t) = body @ rest \<longrightarrow>
      (\<exists>st'. handle_chunk False slice_read t (length body) (s r t) = Some (Inr (), st') \<and> took 0 i ph' rest st st')) \<and>
    (length r < length body \<longrightarrow> short (handle_chunk False slice_read t (length body) (s r t)))" for r
  proof (rule gram_handle [of U ph c ph' i "s r t"], goal_cases)
    case (5 t' body')
    then have tb: "t' = t" "body' = body" using c(1) by (simp_all add: chunk_def)
    have "t \<noteq> CHUNK_TYPE_STREAM_IDENTIFIER \<or> ph' \<noteq> Between (ended ph')"
      using gram_ident [of _ ph t body ph' i] g(1) c(1) by blast
    with 5 tb s(4,5) s(7) [where t = t and r = r] s(6) [where t = t and r = r] show ?case by auto
  qed (use g s in simp_all)
  show "\<exists>st'. fill_step False slice_read st = Some (Inl st') \<and> took 0 i ph' rest st st'"
    if acc: "\<forall>it \<in> set i. accepts (callbacks st) it" and rd_src: "rd_src st = c @ rest"
  proof -
    have "next_header slice_read st = Some (Inr (Some (t, length body)), s (body @ rest) t)"
      by (rule hdr [OF _ c(2,3)]) (simp_all add: rd_src c(1) chunk_def)
    with acc h [of "body @ rest"] show ?thesis by (auto simp: drained_step g(3) s)
  qed
  show "\<exists>st'. fill_step False slice_read st = Some (Inr (Inl (stream_error_to_io SCorrupt), st'))"
    if rd_src: "rd_src st = take j c" "0 < j" "j < length c"
  proof (cases "j < 4")
    case True
    then have "length (rd_src st) < 4" "rd_src st \<noteq> []" using rd_src by auto
    then show ?thesis by (simp add: drained_step g(3) next_header_short)
  next
    case False
    define k where "k = j - 4"
    have j: "j = 4 + k" using False by (simp add: k_def)
    have "rd_src st = t # len_bytes (length body) @ take k body" using rd_src(1) by (simp add: j c(1) chunk_def take_Cons')
    then have "next_header slice_read st = Some (Inr (Some (t, length body)), s (take k body) t)"
      by (rule hdr [OF _ c(2,3)])
    moreover have "length (take k body) < length body" using rd_src(3) by (simp add: j c(1))
    moreover from this h [of "take k body"] obtain e st' where
      "handle_chunk False slice_read t (length body) (s (take k body) t) = Some (Inl e, st')"
      "stream_error_to_io e = stream_error_to_io SCorrupt" unfolding short_def by blast
    ultimately show ?thesis by (simp add: drained_step g(3) set_err_def)
  qed
qed

section \<open>Reading to the end\<close>

text \<open>
  A client that reads until nothing more comes, with buffers of any sizes, the size of the next being
  a function of what it has got. It keeps what was delivered before an error.
\<close>

definition drain_step ::
  "bool \<Rightarrow> 'r reader_fn \<Rightarrow> (nat \<Rightarrow> nat) \<Rightarrow> bytes \<times> ('r, 'c) reader \<Rightarrow>
     (bytes \<times> ('r, 'c) reader + (io_error + unit) \<times> bytes \<times> ('r, 'c) reader) option" where
  "drain_step be rd sz = (\<lambda>(got, st). do {
     (res, st) \<leftarrow> reader_read be rd (sz (length got)) st;
     case res of
       Inl e \<Rightarrow> Some (Inr (Inl e, got, st))
     | Inr p \<Rightarrow> if p = [] then Some (Inr (Inr (), got, st)) else Some (Inl (got @ p, st)) })"

definition drain ::
  "bool \<Rightarrow> 'r reader_fn \<Rightarrow> (nat \<Rightarrow> nat) \<Rightarrow> ('r, 'c) reader \<Rightarrow> ((io_error + unit) \<times> bytes \<times> ('r, 'c) reader) option" where
  "drain be rd sz st = loop (drain_step be rd sz) ([], st)"

lemma fill_decoded_step:
  "fill_step be rd st = Some (Inl st') \<Longrightarrow> fill_decoded be rd st = fill_decoded be rd st'"
  by (simp add: fill_decoded_def loop.simps [of _ st])

lemma reader_read_step:
  assumes "fill_step be rd st = Some (Inl st')" "rd_err st = None" "rd_err st' = None" "0 < n"
  shows "reader_read be rd n st = reader_read be rd n st'"
  using assms by (simp add: reader_read_def fill_decoded_step [OF assms(1)])

text \<open>What is decoded is delivered first.\<close>

lemma drain_pending:
  assumes "rd_err st = None" "decoded_pos st \<le> length (decoded st)" "\<forall>n. 0 < sz n"
  shows "loop (drain_step be rd sz) (got, st) =
    loop (drain_step be rd sz) (got @ pending st, st\<lparr>decoded_pos := length (decoded st)\<rparr>)"
  using assms(1,2)
proof (induction "length (decoded st) - decoded_pos st" arbitrary: got st rule: less_induct)
  case less
  show ?case
  proof (cases "decoded_pos st = length (decoded st)")
    case True
    then have "st\<lparr>decoded_pos := length (decoded st)\<rparr> = st" by simp
    then show ?thesis using True by (simp only: pending_def drop_all order.refl append_Nil2)
  next
    case False
    then have lt: "decoded_pos st < length (decoded st)" using less.prems(2) by simp
    let ?k = "min (length (decoded st) - decoded_pos st) (sz (length got))"
    let ?p = "take ?k (drop (decoded_pos st) (decoded st))"
    let ?s = "st\<lparr>decoded_pos := decoded_pos st + ?k\<rparr>"
    have n: "0 < sz (length got)" using assms(3) by simp
    have "fill_decoded be rd st = Some (Inr True, st)"
      using lt by (simp add: fill_decoded_def loop.simps [of _ st] fill_step_def)
    then have r: "reader_read be rd (sz (length got)) st = Some (Inr ?p, ?s)"
      using less.prems n by (simp add: reader_read_def fault_simps Let_def slice_def)
    have "?p \<noteq> []" using lt n by simp
    then have "loop (drain_step be rd sz) (got, st) = loop (drain_step be rd sz) (got @ ?p, ?s)"
      by (simp add: loop.simps [of _ "(got, st)"] drain_step_def r)
    also have "\<dots> = loop (drain_step be rd sz) ((got @ ?p) @ pending ?s, ?s\<lparr>decoded_pos := length (decoded ?s)\<rparr>)"
      by (rule less.hyps) (use lt n less.prems in auto)
    also have "pending ?s = drop ?k (drop (decoded_pos st) (decoded st))"
      by (simp add: pending_def add.commute)
    also have "(got @ ?p) @ \<dots> = got @ pending st"
      by (simp only: append_assoc append_take_drop_id pending_def)
    finally show ?thesis by simp
  qed
qed

lemma drain_feeds:
  fixes st :: "(bytes, 'c) reader"
  assumes "feeds U N ph (rd_src st) its whole" "U \<subseteq> {..max_block_user st}" "at_phase ph st" "decoded_pos st = length (decoded st)"
    and "\<forall>it \<in> set its. accepts (callbacks st) it" "\<forall>n. 0 < sz n"
  shows "\<exists>st'. loop (drain_step False slice_read sz) (got, st) =
      Some (if whole then Inr () else Inl (stream_error_to_io SCorrupt), got @ data_of its, st') \<and>
    (whole \<longrightarrow> cb_env st' = fold (deliver (callbacks st)) its (cb_env st))"
proof -
  have n: "sz k = 0 \<longleftrightarrow> False" for k using assms(6) by simp
  have "\<exists>st'. loop (drain_step False slice_read sz) (got, st) =
      Some (if whole then Inr () else Inl (stream_error_to_io SCorrupt), got @ data_of its, st') \<and>
    (whole \<longrightarrow> cb_env st' = fold (deliver (callbacks st)) its (cb_env st))"
    if "feeds U N ph bs its whole" "U \<subseteq> {..max_block_user st}" "bs = rd_src st" "at_phase ph st" "decoded_pos st = length (decoded st)"
      "\<forall>it \<in> set its. accepts (callbacks st) it"
    for bs and st :: "(bytes, 'c) reader"
    using that
  proof (induction arbitrary: st got rule: feeds.induct)
    case Whole
    then have "fill_step False slice_read st = Some (Inr (Inr False, st\<lparr>rd_src := []\<rparr>))"
      using next_header_short [of st] by (simp add: drained_step at_phase_def)
    then have "reader_read False slice_read (sz (length got)) st = Some (Inr [], st\<lparr>rd_src := []\<rparr>)"
      using Whole.prems(3) by (simp add: n reader_read_def fill_decoded_def loop.simps [of _ st] at_phase_def)
    then show ?case by (simp add: loop.simps [of _ "(got, st)"] drain_step_def)
  next
    case (Cut n m pre)
    then have "fill_step False slice_read st = Some (Inr (Inl (stream_error_to_io SCorrupt), st\<lparr>rd_src := []\<rparr>))"
      using next_header_short [of st] by (simp add: drained_step at_phase_def)
    then have "reader_read False slice_read (sz (length got)) st = Some (Inl (stream_error_to_io SCorrupt), st\<lparr>rd_src := []\<rparr>)"
      using Cut.prems(3) by (simp add: n reader_read_def fill_decoded_def loop.simps [of _ st] at_phase_def)
    then show ?case by (simp add: loop.simps [of _ "(got, st)"] drain_step_def)
  next
    case (Short ph c ph' i j)
    then obtain st' where "fill_step False slice_read st = Some (Inr (Inl (stream_error_to_io SCorrupt), st'))"
      using fill_step_chunk(2) [of U ph c ph' i st j] by auto
    then have "reader_read False slice_read (sz (length got)) st = Some (Inl (stream_error_to_io SCorrupt), st')"
      using Short.prems(3) by (simp add: n reader_read_def fill_decoded_def loop.simps [of _ st] at_phase_def)
    then show ?case by (simp add: loop.simps [of _ "(got, st)"] drain_step_def)
  next
    case (More ph c ph' i bs its whole)
    then obtain st' where st': "fill_step False slice_read st = Some (Inl st')" "took 0 i ph' bs st st'"
      using fill_step_chunk(1) [of U ph c ph' i st bs] by auto
    have "loop (drain_step False slice_read sz) (got, st) = loop (drain_step False slice_read sz) (got, st')"
      using reader_read_step [OF st'(1)] st'(2) More.prems(3) assms(6)
      by (simp add: loop.simps [of _ "(got, st)"] loop.simps [of _ "(got, st')"] drain_step_def took_def at_phase_def)
    also have "\<dots> = loop (drain_step False slice_read sz) (got @ data_of i, st'\<lparr>decoded_pos := length (decoded st')\<rparr>)"
      using st'(2) drain_pending [of st' sz False slice_read got] assms(6) by (simp add: took_def at_phase_def)
    finally have eq: "loop (drain_step False slice_read sz) (got, st) =
      loop (drain_step False slice_read sz) (got @ data_of i, st'\<lparr>decoded_pos := length (decoded st')\<rparr>)" .
    show ?case
      using More.IH [of "st'\<lparr>decoded_pos := length (decoded st')\<rparr>" "got @ data_of i"] st'(2) More.prems
      unfolding eq by (auto simp: took_def at_phase_def split: phase.splits)
  qed
  from this [OF assms(1,2) refl assms(3-5)] show ?thesis .
qed

section \<open>Streams\<close>

text \<open>The size that the identifier of a stream announces: the next power of two.\<close>

definition announced_size :: "nat \<Rightarrow> nat option" where
  "announced_size m = Option.bind (block_size_indicator m) block_size_from_indicator"

lemma item_chunk_mono: "item_chunk m it c \<Longrightarrow> m \<le> k \<Longrightarrow> item_chunk k it c"
  by (cases it) (auto simp: data_chunk_def)

lemma trailer_feeds:
  assumes "list_all2 (item_chunk 0) trailer ts" "skippable trailer"
  shows "feeds U N (Between N) (concat ts) trailer True"
  using assms
proof (induction rule: list_all2_induct)
  case (Cons it its c cs)
  then obtain t body where it: "it = Other t body" by auto
  from feeds.More [OF gram.Pass [OF Cons(1) [unfolded it]]] Cons show ?case by (simp add: it)
qed (simp add: feeds.Whole)

lemma items_feed:
  assumes "list_all2 (item_chunk m) its cs" "length (pre @ data_of its) < 2 ^ 64"
  defines "body \<equiv> concat cs @ eof_chunk (length (pre @ data_of its))"
  shows "feeds U N (Between (Suc n)) rest tr True \<Longrightarrow> feeds U N (Inside n m pre) (body @ rest) (its @ tr) True"
    and "j < length body \<Longrightarrow> \<exists>l. feeds U N (Inside n m pre) (take j body) (take l its) False"
proof -
  have "(feeds U N (Between (Suc n)) rest tr True \<longrightarrow>
      feeds U N (Inside n m pre) (concat cs @ eof_chunk (length (pre @ data_of its)) @ rest) (its @ tr) True) \<and>
    (j < length (concat cs @ eof_chunk (length (pre @ data_of its))) \<longrightarrow>
      (\<exists>l. feeds U N (Inside n m pre) (take j (concat cs @ eof_chunk (length (pre @ data_of its)))) (take l its) False))" for j
    using assms(1,2)
  proof (induction arbitrary: pre j rule: list_all2_induct)
    case Nil
    show ?case
    proof (cases "j = 0")
      case True
      then show ?thesis using feeds.More [OF gram.Tail] feeds.Cut by fastforce
    next
      case False
      have "feeds U N (Inside n m pre) (take j (eof_chunk (length pre))) [] False" if "j < length (eof_chunk (length pre))"
        using feeds.Short [OF gram.Tail _ that] False by simp
      then show ?thesis using feeds.More [OF gram.Tail] by fastforce
    qed
  next
    case (Cons it its c cs)
    let ?q = "pre @ item_data it"
    have q: "length ?q < 2 ^ 64" "length (?q @ data_of its) < 2 ^ 64" using Cons.prems by simp_all
    note g = gram.Item [OF Cons.hyps(1) q(1), of U n]
    note ih = Cons.IH [OF q(2)]
    have a: "?q @ data_of its = pre @ data_of (it # its)" by simp
    show ?case
    proof (intro conjI impI)
      assume "feeds U N (Between (Suc n)) rest tr True"
      then have "feeds U N (Inside n m ?q) (concat cs @ eof_chunk (length (pre @ data_of (it # its))) @ rest) (its @ tr) True"
        using ih unfolding a by blast
      from feeds.More [OF g this]
      show "feeds U N (Inside n m pre) (concat (c # cs) @ eof_chunk (length (pre @ data_of (it # its))) @ rest) ((it # its) @ tr) True"
        by simp
    next
      assume j: "j < length (concat (c # cs) @ eof_chunk (length (pre @ data_of (it # its))))"
      consider "j = 0" | "0 < j" "j < length c" | k where "j = length c + k"
        using le_Suc_ex [of "length c" j] by (cases "j = 0 \<or> j < length c") auto
      then show "\<exists>l. feeds U N (Inside n m pre) (take j (concat (c # cs) @ eof_chunk (length (pre @ data_of (it # its))))) (take l (it # its)) False"
      proof cases
        case 1
        then show ?thesis using feeds.Cut by (intro exI [of _ 0]) simp
      next
        case 2
        then show ?thesis using feeds.Short [OF g 2] by (intro exI [of _ 0]) simp
      next
        case 3
        then obtain l where "feeds U N (Inside n m ?q) (take k (concat cs @ eof_chunk (length (pre @ data_of (it # its))))) (take l its) False"
          using ih [of k] j unfolding a by auto
        from feeds.More [OF g this] show ?thesis using 3 by (intro exI [of _ "Suc l"]) simp
      qed
    qed
  qed
  then show "feeds U N (Between (Suc n)) rest tr True \<Longrightarrow> feeds U N (Inside n m pre) (body @ rest) (its @ tr) True"
    "j < length body \<Longrightarrow> \<exists>l. feeds U N (Inside n m pre) (take j body) (take l its) False" by (auto simp: body_def)
qed

text \<open>
  A stream feeds a reader that accepts its announced block size, from its start and from the chunk of
  each of its items on, and a part of it that ends before the end of its end-of-stream chunk is reported.
\<close>

lemma stream_feeds:
  assumes s: "stream_parts m its trailer cs bs" "MIN_BLOCK_SIZE \<le> m" "m \<le> MAX_BLOCK_SIZE" "announced_size m = Some k" "k \<in> U"
    and n: "length (data_of its) < 2 ^ 64"
  obtains core ts where "bs = core @ concat ts" "list_all2 (item_chunk 0) trailer ts" "skippable trailer"
    "\<And>n. feeds U (Suc n) (Between n) bs (its @ trailer) True"
    "\<And>n. feeds U (Suc n) (Inside n k []) bs (its @ trailer) True"
    "\<And>n j. 0 < j \<Longrightarrow> j < length core \<Longrightarrow> \<exists>i. feeds U n (Between n) (take j core) (take i its) False"
    "\<And>n i. i \<le> length its \<Longrightarrow> feeds U (Suc n) (Inside n k (data_of (take i its)))
        (drop (STREAM_HEADER_LEN + length (concat (take i cs))) bs) (drop i its @ trailer) True"
    "\<And>n. gram U (Between n) (take STREAM_HEADER_LEN bs) (Inside n k []) []"
proof -
  from s(1) obtain h ts where p: "make_stream_header m = Some h" "list_all2 (item_chunk m) its cs"
    "list_all2 (item_chunk 0) trailer ts" "skippable trailer"
    "bs = h @ concat cs @ eof_chunk (length (data_of its)) @ concat ts"
    by (auto simp: stream_parts_def)
  obtain ind e where ind: "block_size_indicator m = Some ind" "block_size_from_indicator ind = Some (2 ^ e)" "m \<le> 2 ^ e"
    "ind AND 0xc0 = 0" by (rule block_size_indicator_ok [OF s(2,3)]) blast
  with s(4) have k: "k = 2 ^ e" by (simp add: announced_size_def)
  have h: "h = chunk CHUNK_TYPE_STREAM_IDENTIFIER (MAGIC_BODY @ [ind])"
    using make_stream_header_chunk [OF p(1)] ind(1) by simp
  with gram.Head [OF ind(4,2)] gram.Again [OF ind(4,2)] s(5) k
  have g: "gram U (Between n) h (Inside n k []) []" "gram U (Inside n k []) h (Inside n k []) []" for n by simp_all
  have its: "list_all2 (item_chunk k) its cs"
    using p(2) item_chunk_mono [OF _ ind(3)] k by (auto intro: list_all2_mono)
  have n0: "length ([] @ data_of its) < 2 ^ 64" using n by simp
  note f = items_feed [OF its n0, unfolded append_Nil]
  have tf: "feeds U (Suc n) (Between (Suc n)) (concat ts) trailer True" for n by (rule trailer_feeds [OF p(3,4)])
  show thesis
  proof (rule that)
    show "bs = (h @ concat cs @ eof_chunk (length (data_of its))) @ concat ts" using p(5) by simp
    show "feeds U (Suc n) (Between n) bs (its @ trailer) True" "feeds U (Suc n) (Inside n k []) bs (its @ trailer) True" for n
      using feeds.More [OF g(1) f(1) [OF tf]] feeds.More [OF g(2) f(1) [OF tf]] p(5) by simp_all
    fix n j assume j: "0 < j" "j < length (h @ concat cs @ eof_chunk (length (data_of its)))"
    show "\<exists>i. feeds U n (Between n) (take j (h @ concat cs @ eof_chunk (length (data_of its)))) (take i its) False"
    proof (cases "j < length h")
      case True
      then show ?thesis using feeds.Short [OF g(1) j(1)] by (intro exI [of _ 0]) simp
    next
      case False
      then obtain l where l: "j = length h + l" using le_Suc_ex [of "length h" j] by auto
      with f(2) [where j = l and U = U and N = n and n = n] j(2) obtain i where
        "feeds U n (Inside n k []) (take l (concat cs @ eof_chunk (length (data_of its)))) (take i its) False" by auto
      from feeds.More [OF g(1) this] show ?thesis using l by auto
    qed
  next
    show "gram U (Between n) (take STREAM_HEADER_LEN bs) (Inside n k []) []" for n
      using g(1) p(5) length_header [OF p(1)] by (simp add: stream_consts)
  next
    have "length h = STREAM_HEADER_LEN" using length_header [OF p(1)] by (simp add: stream_consts)
    fix n i assume "i \<le> length its"
    have "concat cs = concat (take i cs) @ concat (drop i cs)" by (metis append_take_drop_id concat_append)
    then have d: "drop (STREAM_HEADER_LEN + length (concat (take i cs))) bs =
        concat (drop i cs) @ eof_chunk (length (data_of its)) @ concat ts"
      using p(5) \<open>length h = _\<close> by simp
    have e: "data_of its = data_of (take i its) @ data_of (drop i its)"
      by (metis append_take_drop_id data_of_simps(3))
    have "list_all2 (item_chunk k) (drop i its) (drop i cs)" using its by (rule list_all2_dropI)
    from items_feed(1) [OF this _ tf [of n], of "data_of (take i its)"] n
    show "feeds U (Suc n) (Inside n k (data_of (take i its)))
        (drop (STREAM_HEADER_LEN + length (concat (take i cs))) bs) (drop i its @ trailer) True"
      unfolding d e [symmetric] by simp
  qed (use p in auto)
qed

text \<open>A new reader stands outside a stream.\<close>

lemma reader_with_builder_at:
  assumes "length (rb_callbacks b) = USER_CB_COUNT"
  shows "at_phase (Between n) (reader_with_builder r env b)"
    and "decoded_pos (reader_with_builder r env b) = length (decoded (reader_with_builder r env b))"
    and "rd_src (reader_with_builder r env b) = r" "callbacks (reader_with_builder r env b) = rb_callbacks b"
    and "max_block_user (reader_with_builder r env b) = rb_max_block_size b" "cb_env (reader_with_builder r env b) = env"
  using assms by (simp_all add: at_phase_def reader_with_builder_def)

lemma drain_ok:
  assumes "feeds U N (Between n) bs its whole" "U \<subseteq> {..rb_max_block_size b}" "length (rb_callbacks b) = USER_CB_COUNT"
    and "\<forall>it \<in> set its. accepts (rb_callbacks b) it" "\<forall>n. 0 < sz n"
  shows "\<exists>st'. drain False slice_read sz (reader_with_builder bs env b) =
      Some (if whole then Inr () else Inl (stream_error_to_io SCorrupt), data_of its, st') \<and>
    (whole \<longrightarrow> cb_env st' = fold (deliver (rb_callbacks b)) its env)"
  using drain_feeds [of U N "Between n" "reader_with_builder bs env b" its whole sz "[]"] assms
  by (simp add: drain_def reader_with_builder_at)

text \<open>For a reader that accepts every block size up to its maximum.\<close>

lemmas stream_feeds_upto = stream_feeds [where U = "{..um}" for um, unfolded atMost_iff]

lemmas drain_ok_upto = drain_ok [where U = "{..rb_max_block_size b}" and b = b for b, OF _ order.refl]

section \<open>Any source\<close>

context source
begin

lemma drain_sim:
  fixes st :: "('r, 'c) reader"
  shows "drain be slice_read sz (view remaining st) =
    map_option (map_prod id (map_prod id (view remaining))) (drain be rd sz st)"
proof -
  have "drain_step be slice_read sz (map_prod id (view remaining) s) =
    map_option (map_sum (map_prod id (view remaining)) (map_prod id (map_prod id (view remaining)))) (drain_step be rd sz s)"
    for s :: "bytes \<times> ('r, 'c) reader"
  proof -
    obtain got st where s: "s = (got, st)" by (cases s)
    show ?thesis
      using reader_read_sim [of be "sz (length got)" st]
      by (cases "reader_read be rd (sz (length got)) st") (auto simp: s drain_step_def sim_def split: sum.split)
  qed
  from loop_map [where f = "drain_step be rd sz" and f' = "drain_step be slice_read sz", OF this, of "([], st)"]
  show ?thesis by (simp add: drain_def)
qed

lemma view_reader_with_builder: "view remaining (reader_with_builder r env b) = reader_with_builder (remaining r) env b"
  by (simp add: view_def reader_with_builder_def)

lemma drain_any:
  assumes "drain be slice_read sz (reader_with_builder (remaining r) env b) = Some (res, got, st')"
  obtains st where "drain be rd sz (reader_with_builder r env b) = Some (res, got, st)" "cb_env st = cb_env st'"
proof -
  have "map_option (map_prod id (map_prod id (view remaining))) (drain be rd sz (reader_with_builder r env b)) = Some (res, got, st')"
    using drain_sim [of be sz "reader_with_builder r env b"] assms by (simp add: view_reader_with_builder)
  then obtain st where "drain be rd sz (reader_with_builder r env b) = Some (res, got, st)" "st' = view remaining st" by auto
  with that show thesis by simp
qed

end

end
