(* ===== verification/Reader_Skip.thy ===== *)
theory Reader_Skip
  imports Reader_Correct
begin

text \<open>
  Skipping is reading without looking: after a skip the reader delivers what it would have delivered
  after a read of that many bytes, although it decodes only the block in which the skip ends.
\<close>

section \<open>One chunk\<close>

lemma skip_compressed_ok:
  assumes d: "spec_chunk body = Some d" "length body \<le> length d" "length d \<le> max_block st"
    and m: "16 \<le> max_block st" "max_block st \<le> MAX_BLOCK_SIZE" "block_start st + (length (decoded st) + length d) < 2 ^ 64"
    and crc: "length cs = CHECKSUM_SIZE" "check_crc t body d (of_le cs) False = Some (Inr ())"
    and n: "n = length body + CHECKSUM_SIZE" and src: "rd_src st = cs @ body @ rest"
  shows "skip_compressed_or_decode False slice_read t n k st =
    Some (Inr (k - length d),
      if k < length d then st\<lparr>rd_src := rest, rbuf := filled n st, block_start := block_start st + length (decoded st),
        decoded := d, decoded_pos := k\<rparr>
      else st\<lparr>rd_src := rest, rbuf := filled n st, block_start := block_start st + (length (decoded st) + length d),
        decoded := [], decoded_pos := 0\<rparr>)"
proof -
  have s: "chk_u64 (block_start st + length (decoded st)) = Some (block_start st + length (decoded st))"
    "chk_u64 (block_start st + (length (decoded st) + length d)) = Some (block_start st + (length (decoded st) + length d))"
    using m(3) by (simp_all add: chk_u64_def)
  have b: "\<not> max_buf_size st < n" "\<not> max_block st < length d" "\<not> n < CHECKSUM_SIZE" "CHECKSUM_SIZE \<le> n"
    using d m n by (simp_all add: block_fits stream_consts)
  have "take n (cs @ body @ rest) = cs @ body" "n \<le> length (cs @ body @ rest)" "drop n (cs @ body @ rest) = rest"
    using crc(1) n by simp_all
  then show ?thesis
    using crc(1) spec_chunk_decodes [OF d(1)] check_crc_ok [OF crc(2)]
    by (simp add: skip_compressed_or_decode_def s b Let_def from_block_def src)
qed

lemma skip_uncompressed_ok:
  assumes d: "length d \<le> max_block st" "block_start st + (length (decoded st) + length d) < 2 ^ 64"
    and crc: "length cs = CHECKSUM_SIZE" "of_le cs = masked_crc32c d" and n: "n = length d + CHECKSUM_SIZE"
    and src: "rd_src st = cs @ d @ rest"
  shows "skip_uncompressed_or_decode slice_read n k st =
    Some (Inr (k - length d),
      if k < length d then st\<lparr>block_start := block_start st + length (decoded st), rbuf := filled CHECKSUM_SIZE st,
        rd_src := rest, decoded := d, decoded_pos := k\<rparr>
      else st\<lparr>block_start := block_start st + (length (decoded st) + length d), decoded := [], decoded_pos := 0,
        rd_src := rest\<rparr>)"
proof -
  have s: "chk_u64 (block_start st + length (decoded st)) = Some (block_start st + length (decoded st))"
    "chk_u64 (block_start st + (length (decoded st) + length d)) = Some (block_start st + (length (decoded st) + length d))"
    using d(2) by (simp_all add: chk_u64_def)
  show ?thesis
    using crc d(1) by (simp add: skip_uncompressed_or_decode_def s Let_def n src not_less [symmetric])
qed

lemma skip_data_ok:
  assumes "data_chunk m d c" "at_phase (Inside n m pre) st" "length (pre @ d) < 2 ^ 64"
  obtains t body where "c = chunk t body" "length body < 2 ^ 24"
    "\<And>rest. rd_src st = body @ rest \<Longrightarrow>
      \<exists>st'. skip_chunk False slice_read t (length body) k st = Some (Inr (k - length d), st') \<and>
        took k [Data d] (Inside n m (pre @ d)) rest st st'"
proof -
  have st: "max_block st = m" "16 \<le> max_block st" "max_block st \<le> MAX_BLOCK_SIZE" "block_start st + length (decoded st) = length pre"
    "block_start st + (length (decoded st) + length d) < 2 ^ 64" "length d \<le> max_block st" "length d \<le> MAX_BLOCK_SIZE"
    using assms by (simp_all add: at_phase_def data_chunk_def)
  have pre: "drop (block_start st + length (decoded st)) (pre @ d) = d"
    "drop (block_start st + (length (decoded st) + length d)) (pre @ d) = []" using st(4) by simp_all
  have sk: "took k [Data d] (Inside n m (pre @ d)) rest st
      (if k < length d then st\<lparr>rd_src := rest, rbuf := buf, block_start := block_start st + length (decoded st),
        decoded := d, decoded_pos := k\<rparr>
      else st\<lparr>rd_src := rest, rbuf := buf, block_start := block_start st + (length (decoded st) + length d),
        decoded := [], decoded_pos := 0\<rparr>)"
    "took k [Data d] (Inside n m (pre @ d)) rest st
      (if k < length d then st\<lparr>block_start := block_start st + length (decoded st), rbuf := buf,
        rd_src := rest, decoded := d, decoded_pos := k\<rparr>
      else st\<lparr>block_start := block_start st + (length (decoded st) + length d), decoded := [], decoded_pos := 0,
        rd_src := rest\<rparr>)" for rest buf
    using assms(2,3) pre by (simp_all add: took_def at_phase_def pending_def)
  have ty: "skip_chunk False slice_read t n k st = skip_compressed_or_decode False slice_read t n k st"
    if "t = CHUNK_TYPE_MINLZ_COMPRESSED_DATA \<or> t = CHUNK_TYPE_MINLZ_COMPRESSED_DATA_COMP_CRC" for t n
    using that by (simp add: skip_chunk_def)
  have uty: "skip_chunk False slice_read CHUNK_TYPE_UNCOMPRESSED_DATA n k st = skip_uncompressed_or_decode slice_read n k st" for n
    by (simp add: skip_chunk_def stream_consts)
  have le: "length (to_le_bytes v) = CHECKSUM_SIZE" for v by (simp add: stream_consts)
  have ln: "length (to_le_bytes v @ b) = length b + CHECKSUM_SIZE" for v b by (simp add: stream_consts)
  from assms(1) show thesis
    unfolding data_chunk_def
  proof (elim conjE disjE exE)
    assume "c = chunk CHUNK_TYPE_UNCOMPRESSED_DATA (to_le_bytes (masked_crc32c d) @ d)"
    then show thesis
    proof (rule that)
      show "length (to_le_bytes (masked_crc32c d) @ d) < 2 ^ 24" using st(7) by (simp add: format_consts)
      fix rest assume "rd_src st = (to_le_bytes (masked_crc32c d) @ d) @ rest"
      then have r: "rd_src st = to_le_bytes (masked_crc32c d) @ d @ rest" by simp
      show "\<exists>st'. skip_chunk False slice_read CHUNK_TYPE_UNCOMPRESSED_DATA (length (to_le_bytes (masked_crc32c d) @ d)) k st =
          Some (Inr (k - length d), st') \<and> took k [Data d] (Inside n m (pre @ d)) rest st st'"
        unfolding uty skip_uncompressed_ok [OF st(6,5) le of_le_to_le ln r] using sk(2) by blast
    qed
  next
    fix body
    assume b: "spec_chunk body = Some d" "length body \<le> length d"
      and c: "c = chunk CHUNK_TYPE_MINLZ_COMPRESSED_DATA (to_le_bytes (masked_crc32c d) @ body)"
    have crc: "check_crc CHUNK_TYPE_MINLZ_COMPRESSED_DATA body d (of_le (to_le_bytes (masked_crc32c d))) False = Some (Inr ())"
      by (simp add: check_crc_def stream_consts)
    from c show thesis
    proof (rule that)
      show "length (to_le_bytes (masked_crc32c d) @ body) < 2 ^ 24" using st(7) b(2) by (simp add: format_consts)
      fix rest assume "rd_src st = (to_le_bytes (masked_crc32c d) @ body) @ rest"
      then have r: "rd_src st = to_le_bytes (masked_crc32c d) @ body @ rest" by simp
      show "\<exists>st'. skip_chunk False slice_read CHUNK_TYPE_MINLZ_COMPRESSED_DATA (length (to_le_bytes (masked_crc32c d) @ body)) k st =
          Some (Inr (k - length d), st') \<and> took k [Data d] (Inside n m (pre @ d)) rest st st'"
        unfolding ty [OF disjI1 [OF refl]] skip_compressed_ok [OF b st(6,2,3,5) le crc ln r] using sk(1) by blast
    qed
  next
    fix body v j
    assume b: "spec_chunk body = Some d" "length body \<le> length d" "get_uvarint body = Some (v, j)"
      and c: "c = chunk CHUNK_TYPE_MINLZ_COMPRESSED_DATA_COMP_CRC (to_le_bytes (masked_crc32c (drop j body)) @ body)"
    have "strip_dlen_varint body = Some (Inr (drop j body))"
      using b(3) uvarint_slice [of body v j] by (simp add: strip_dlen_varint_def stream_get_uvarint_eq get_uvarint_eq)
    then have crc: "check_crc CHUNK_TYPE_MINLZ_COMPRESSED_DATA_COMP_CRC body d (of_le (to_le_bytes (masked_crc32c (drop j body)))) False =
        Some (Inr ())" by (simp add: check_crc_def)
    from c show thesis
    proof (rule that)
      show "length (to_le_bytes (masked_crc32c (drop j body)) @ body) < 2 ^ 24" using st(7) b(2) by (simp add: format_consts)
      fix rest assume "rd_src st = (to_le_bytes (masked_crc32c (drop j body)) @ body) @ rest"
      then have r: "rd_src st = to_le_bytes (masked_crc32c (drop j body)) @ body @ rest" by simp
      show "\<exists>st'. skip_chunk False slice_read CHUNK_TYPE_MINLZ_COMPRESSED_DATA_COMP_CRC
            (length (to_le_bytes (masked_crc32c (drop j body)) @ body)) k st =
          Some (Inr (k - length d), st') \<and> took k [Data d] (Inside n m (pre @ d)) rest st st'"
        unfolding ty [OF disjI2 [OF refl]] skip_compressed_ok [OF b(1,2) st(6,2,3,5) le crc ln r] using sk(1) by blast
    qed
  qed
qed

definition data_type :: "byte \<Rightarrow> bool" where
  "data_type t \<longleftrightarrow> t = CHUNK_TYPE_MINLZ_COMPRESSED_DATA \<or> t = CHUNK_TYPE_MINLZ_COMPRESSED_DATA_COMP_CRC \<or>
     t = CHUNK_TYPE_UNCOMPRESSED_DATA"

lemma skip_chunk_other:
  assumes "\<not> data_type t"
  shows "skip_chunk be rd t n k st = with_st (handle_chunk be rd t n st) (\<lambda>_ st. Some (Inr k, st))"
  using assms by (simp add: skip_chunk_def handle_chunk_def data_type_def)

lemma gram_other_chunk:
  assumes "gram U ph c ph' i" "c = chunk t body" "data_of i = []" "\<And>it d. i = [it] \<Longrightarrow> it \<noteq> Data d"
  shows "\<not> data_type t"
  using assms(1)
proof cases
  case (Head ind m n)
  then show ?thesis using assms(2) by (simp add: data_type_def chunk_def stream_consts)
next
  case (Again ind m' n m)
  then show ?thesis using assms(2) by (simp add: data_type_def chunk_def stream_consts)
next
  case (Item m it pre n)
  then show ?thesis
    using assms(2,4) by (cases it) (auto simp: data_type_def chunk_def stream_consts word_less_nat_alt)
next
  case (Tail n m pre)
  then show ?thesis using assms(2) by (simp add: data_type_def eof_chunk_def chunk_def stream_consts)
next
  case (Pass t body n)
  then show ?thesis using assms(2) by (auto simp: data_type_def chunk_def stream_consts word_less_nat_alt)
qed

lemma gram_skip:
  assumes "gram U ph c ph' i" "at_phase ph st" "decoded_pos st = length (decoded st)" "U \<subseteq> {..max_block_user st}"
    and "\<forall>it \<in> set i. accepts (callbacks st) it"
  obtains t body where "c = chunk t body" "length body < 2 ^ 24"
    "ph = Between (ended ph) \<Longrightarrow> t = CHUNK_TYPE_STREAM_IDENTIFIER \<or> MAX_NON_SKIPPABLE_CHUNK < t"
    "\<And>rest. rd_src st = body @ rest \<Longrightarrow> (t = CHUNK_TYPE_STREAM_IDENTIFIER \<Longrightarrow> header_read st) \<Longrightarrow>
      \<exists>st'. skip_chunk False slice_read t (length body) k st = Some (Inr (k - length (data_of i)), st') \<and> took k i ph' rest st st'"
proof -
  obtain t body where h: "c = chunk t body" "length body < 2 ^ 24"
    "ph = Between (ended ph) \<Longrightarrow> t = CHUNK_TYPE_STREAM_IDENTIFIER \<or> MAX_NON_SKIPPABLE_CHUNK < t"
    "\<And>rest. rd_src st = body @ rest \<Longrightarrow> (t = CHUNK_TYPE_STREAM_IDENTIFIER \<Longrightarrow> header_read st) \<Longrightarrow>
      \<exists>st'. handle_chunk False slice_read t (length body) st = Some (Inr (), st') \<and> took 0 i ph' rest st st'"
  proof (rule gram_handle [OF assms(1-4)], goal_cases)
    case (1 t body)
    show ?case by (rule 1(1) [OF 1(2-4)]) (use 1(5) assms(5) in blast)+
  qed
  show thesis
  proof (cases "\<exists>d. i = [Data d]")
    case True
    then obtain d m n pre where i: "i = [Data d]" "ph = Inside n m pre" "ph' = Inside n m (pre @ d)" "data_chunk m d c"
      "length (pre @ d) < 2 ^ 64"
      using assms(1) by (auto elim: gram.cases)
    obtain t' body' where "c = chunk t' body'" "\<And>rest. rd_src st = body' @ rest \<Longrightarrow>
      \<exists>st'. skip_chunk False slice_read t' (length body') k st = Some (Inr (k - length d), st') \<and>
        took k [Data d] (Inside n m (pre @ d)) rest st st'"
      using skip_data_ok [OF i(4) assms(2) [unfolded i(2)] i(5), of k] by blast
    moreover from this(1) h(1) have "t' = t" "body' = body" by (simp_all add: chunk_def)
    ultimately show thesis by (intro that [OF h(1-3)]) (simp_all add: i)
  next
    case False
    then have "item_data it = []" if "i = [it]" for it using that by (cases it) auto
    then have i: "data_of i = []" using assms(1) by (auto elim!: gram.cases)
    have t: "\<not> data_type t" by (rule gram_other_chunk [OF assms(1) h(1) i]) (use False in auto)
    show thesis
    proof (rule that [OF h(1-3)])
      fix rest assume "rd_src st = body @ rest" "t = CHUNK_TYPE_STREAM_IDENTIFIER \<Longrightarrow> header_read st"
      with h(4) obtain st' where "handle_chunk False slice_read t (length body) st = Some (Inr (), st')" "took 0 i ph' rest st st'"
        by blast
      then show "\<exists>st'. skip_chunk False slice_read t (length body) k st = Some (Inr (k - length (data_of i)), st') \<and>
          took k i ph' rest st st'"
        by (simp add: skip_chunk_other [OF t] i took_def took_def)
    qed
  qed
qed

text \<open>One round of the loop of a skip: what is decoded first, and then a chunk.\<close>

lemma skip_step_drained:
  assumes "decoded_pos st \<le> length (decoded st)" "length (pending st) < n"
  shows "skip_step be rd (n, st) = Option.bind (next_header rd (st\<lparr>decoded_pos := length (decoded st)\<rparr>)) (\<lambda>(h, st').
      case h of
        Inl e \<Rightarrow> Some (Inr (Inl e, st'))
      | Inr None \<Rightarrow> let e = Io_Error UnexpectedEof ''unexpected end of file'' in Some (Inr (Inl e, st'\<lparr>rd_err := Some e\<rparr>))
      | Inr (Some (t, k)) \<Rightarrow> Option.bind (skip_chunk be rd t k (n - length (pending st)) st') (\<lambda>(res, st').
          case res of Inl e \<Rightarrow> Some (Inr (set_err e st')) | Inr n \<Rightarrow> Some (Inl (n, st'))))"
proof -
  have "length (decoded st) - decoded_pos st = length (pending st)" by (simp add: pending_def)
  with assms show ?thesis by (simp add: skip_step_def usub_def Let_def)
qed

lemma skip_step_pending:
  assumes "rd_err st = None" "decoded_pos st \<le> length (decoded st)" "n \<le> length (pending st)"
  obtains st' where "skip_step be rd (n, st) = Some (Inr (Inr (), st'))" "st' = st\<lparr>decoded_pos := decoded_pos st + n\<rparr>"
  using assms by (cases "n = 0") (auto simp: skip_step_def fault_simps pending_def)

lemma skip_step_chunk:
  assumes g: "gram U ph c ph' i" "at_phase ph st" "length (pending st) < n" "rd_src st = c @ rest" "U \<subseteq> {..max_block_user st}"
    and acc: "\<forall>it \<in> set i. accepts (callbacks st) it"
  shows "\<exists>st'. skip_step False slice_read (n, st) = Some (Inl (n - length (pending st) - length (data_of i), st')) \<and>
    took (n - length (pending st)) i ph' rest st st'"
proof -
  let ?k = "n - length (pending st)"
  define s where "s = (\<lambda>r t. st\<lparr>decoded_pos := length (decoded st), rd_src := r,
    header_read := header_read st \<or> t = CHUNK_TYPE_STREAM_IDENTIFIER\<rparr>)"
  have s: "max_block_user (s r t) = max_block_user st" "at_phase ph (s r t)" "decoded_pos (s r t) = length (decoded (s r t))"
    "callbacks (s r t) = callbacks st" "rd_src (s r t) = r"
    "took k i ph' r' (s r t) st' \<Longrightarrow> t \<noteq> CHUNK_TYPE_STREAM_IDENTIFIER \<or> ph' \<noteq> Between (ended ph') \<Longrightarrow> took k i ph' r' st st'"
    "t = CHUNK_TYPE_STREAM_IDENTIFIER \<Longrightarrow> header_read (s r t)" for r t r' st' k
    using g(2) by (auto simp: s_def at_phase_def took_def split: phase.splits)
  obtain t body where c: "c = chunk t body" "length body < 2 ^ 24"
    "ph = Between (ended ph) \<Longrightarrow> t = CHUNK_TYPE_STREAM_IDENTIFIER \<or> MAX_NON_SKIPPABLE_CHUNK < t"
    by (rule gram_skip [of U ph c ph' i "s [] 0" 0]) (use g s acc in auto)
  have "\<exists>st'. skip_chunk False slice_read t (length body) ?k (s (body @ rest) t) =
      Some (Inr (?k - length (data_of i)), st') \<and> took ?k i ph' rest st st'"
  proof (rule gram_skip [of U ph c ph' i "s (body @ rest) t" ?k], goal_cases)
    case (6 t' body')
    then have tb: "t' = t" "body' = body" using c(1) by (simp_all add: chunk_def)
    have "t \<noteq> CHUNK_TYPE_STREAM_IDENTIFIER \<or> ph' \<noteq> Between (ended ph')"
      using gram_ident [of _ ph t body ph' i] g(1) c(1) by blast
    moreover obtain st' where "skip_chunk False slice_read t (length body) ?k (s (body @ rest) t) =
        Some (Inr (?k - length (data_of i)), st')" "took ?k i ph' rest (s (body @ rest) t) st'"
      using 6(4) [of rest] tb s(5,7) by blast
    ultimately show ?case using s(6) by blast
  qed (use g s acc in simp_all)
  then obtain st' where st': "skip_chunk False slice_read t (length body) ?k (s (body @ rest) t) =
      Some (Inr (?k - length (data_of i)), st')" "took ?k i ph' rest st st'" by blast
  have "rd_src (st\<lparr>decoded_pos := length (decoded st)\<rparr>) = t # len_bytes (length body) @ body @ rest"
    using g(4) by (simp add: c(1) chunk_def)
  note h = next_header_bytes [OF this length_len_bytes]
  have hr: "header_read (st\<lparr>decoded_pos := length (decoded st)\<rparr>) = header_read st" by simp
  have "read_chunk_len (len_bytes (length body)) = Some (length body)" using read_len_bytes [OF c(2), of "[]"] by simp
  moreover have "(\<not> header_read st \<and> t \<noteq> CHUNK_TYPE_STREAM_IDENTIFIER \<and> t \<le> MAX_NON_SKIPPABLE_CHUNK \<and> t \<noteq> CHUNK_TYPE_EOF) = False"
    using c(3) g(2) by (cases ph) (auto simp: at_phase_def)
  ultimately have "next_header slice_read (st\<lparr>decoded_pos := length (decoded st)\<rparr>) =
      Some (Inr (Some (t, length body)), s (body @ rest) t)"
    unfolding h [OF \<open>read_chunk_len _ = _\<close>] s_def hr by (simp only: if_False)
  with st' g(2,3) show ?thesis by (simp add: skip_step_drained at_phase_def)
qed

section \<open>A skip\<close>

text \<open>
  What the reader stands in front of: the bytes \<open>data\<close> that it will deliver before a clean end. As long
  as the first stream has not ended, they are the rest of all the bytes \<open>D\<close>.
\<close>

fun goal :: "nat set \<Rightarrow> bytes \<Rightarrow> phase \<Rightarrow> item list \<Rightarrow> (bytes, 'c) reader \<Rightarrow> bool" where
  "goal U D (Between n) its st \<longleftrightarrow> (n = 0 \<longrightarrow> data_of its = D \<and> block_start st + decoded_pos st = 0) \<and>
     (n = 1 \<longrightarrow> block_start st + decoded_pos st + length (data_of its) = length D)"
| "goal U D (Inside n m pre) its st \<longleftrightarrow> (n = 0 \<longrightarrow> pre @ data_of its = D \<and> m \<in> U)"

text \<open>Between streams the identifier has been forgotten, and all is consumed behind one.\<close>

fun fresh :: "phase \<Rightarrow> (bytes, 'c) reader \<Rightarrow> bool" where
  "fresh (Between n) st \<longleftrightarrow> \<not> header_read st \<and> pending st = []"
| "fresh (Inside n m pre) st \<longleftrightarrow> True"

lemma took_fresh:
  assumes "gram U ph c ph' i" "at_phase ph st" "fresh ph st" "took k i ph' rest st st'"
  shows "fresh ph' st'"
proof (cases ph')
  case (Between n)
  then have "data_of i = []" using assms(1) by (auto elim: gram.cases)
  moreover have "\<not> header_read st'"
    using assms(2-4) Between by (cases ph) (auto simp: took_def at_phase_def)
  ultimately show ?thesis using assms(4) Between by (simp add: took_def)
qed simp

text \<open>A chunk keeps what is ahead.\<close>

lemma goal_gram:
  assumes "gram U ph c ph' i" "at_phase ph st" "fresh ph st" "took k i ph' rest st st'" "goal U D ph (i @ its) st"
  shows "goal U D ph' its st'"
  using assms(1)
proof cases
  case (Tail n m pre)
  then show ?thesis using assms(2,4,5) by (auto simp: took_def at_phase_def)
next
  case (Pass t body n)
  then have "decoded_pos st = length (decoded st)" using assms(2,3) by (simp add: at_phase_def pending_def)
  with Pass show ?thesis using assms(4,5) by (auto simp: took_def)
qed (use assms(5) in auto)

definition ahead :: "'c user_chunk_cb option list \<Rightarrow> nat set \<Rightarrow> nat \<Rightarrow> bytes \<Rightarrow> bytes \<Rightarrow> (bytes, 'c) reader \<Rightarrow> bool" where
  "ahead cbs U N D data st \<longleftrightarrow> (\<exists>ph its. at_phase ph st \<and> feeds U N ph (rd_src st) its True \<and>
     data = pending st @ data_of its \<and> (\<forall>it \<in> set its. accepts (callbacks st) it) \<and> goal U D ph its st \<and> fresh ph st \<and> U \<subseteq> {..max_block_user st} \<and>
     callbacks st = cbs)"

lemma skip_feeds:
  fixes st :: "(bytes, 'c) reader"
  assumes "feeds U N ph bs its True" "at_phase ph st" "bs = rd_src st"
    and "\<forall>it \<in> set its. accepts (callbacks st) it" "goal U D ph its st" "fresh ph st" "U \<subseteq> {..max_block_user st}"
    and "callbacks st = cbs"
  shows "(n \<le> length (pending st @ data_of its) \<longrightarrow> (\<exists>st'. loop (skip_step False slice_read) (n, st) = Some (Inr (), st') \<and>
      ahead cbs U N D (drop n (pending st @ data_of its)) st')) \<and>
    (length (pending st @ data_of its) < n \<longrightarrow> (\<exists>st'. loop (skip_step False slice_read) (n, st) =
      Some (Inl (Io_Error UnexpectedEof ''unexpected end of file''), st') \<and>
      rd_err st' = Some (Io_Error UnexpectedEof ''unexpected end of file'')))"
  using assms
proof (induction ph bs its "True" arbitrary: st n rule: feeds.induct)
  case Whole
  show ?case
  proof (cases "n \<le> length (pending st)")
    case True
    have ok: "rd_err st = None" "decoded_pos st \<le> length (decoded st)" using Whole by (simp_all add: at_phase_def)
    obtain st' where st': "skip_step False slice_read (n, st) = Some (Inr (Inr (), st'))" "st' = st\<lparr>decoded_pos := decoded_pos st + n\<rparr>"
      by (rule skip_step_pending [OF ok True])
    have "ahead cbs U N D (drop n (pending st)) st'"
      unfolding ahead_def using Whole True st'(2) feeds.Whole
      by (intro exI [of _ "Between N"] exI [of _ "[]"]) (auto simp: at_phase_def pending_def add.commute)
    with st'(1) True show ?thesis by (simp add: loop.simps [of _ "(n, st)"])
  next
    case False
    have "next_header slice_read (st\<lparr>decoded_pos := length (decoded st)\<rparr>) =
        Some (Inr None, st\<lparr>decoded_pos := length (decoded st), rd_src := []\<rparr>)"
      using Whole next_header_short [of "st\<lparr>decoded_pos := length (decoded st)\<rparr>"] by (simp add: at_phase_def)
    with False Whole show ?thesis
      by (simp add: loop.simps [of _ "(n, st)"] skip_step_drained at_phase_def Let_def)
  qed
next
  case (More ph c ph' i bs its)
  show ?case
  proof (cases "n \<le> length (pending st)")
    case True
    have ok: "rd_err st = None" "decoded_pos st \<le> length (decoded st)" using More.prems by (simp_all add: at_phase_def)
    obtain st' where st': "skip_step False slice_read (n, st) = Some (Inr (Inr (), st'))" "st' = st\<lparr>decoded_pos := decoded_pos st + n\<rparr>"
      by (rule skip_step_pending [OF ok True])
    have "feeds U N ph (c @ bs) (i @ its) True" by (rule feeds.More [OF More.hyps(1,2)])
    then have "ahead cbs U N D (drop n (pending st) @ data_of (i @ its)) st'"
      unfolding ahead_def using More.prems True st'(2)
      by (intro exI [of _ ph] exI [of _ "i @ its"]) (auto simp: at_phase_def pending_def add.commute split: phase.splits)
    with st'(1) True show ?thesis by (simp add: loop.simps [of _ "(n, st)"])
  next
    case False
    then have n: "length (pending st) < n" by simp
    obtain st' where st': "skip_step False slice_read (n, st) = Some (Inl (n - length (pending st) - length (data_of i), st'))"
      "took (n - length (pending st)) i ph' bs st st'"
      using skip_step_chunk [of U ph c ph' i st n bs] More.hyps(1) More.prems n by auto
    let ?n = "n - length (pending st) - length (data_of i)"
    have p: "pending st' = drop (n - length (pending st)) (data_of i)" using st'(2) by (simp add: took_def)
    have "drop ?n (pending st' @ data_of its) = drop n (pending st @ data_of (i @ its))"
      using n by (cases "n - length (pending st) \<le> length (data_of i)") (simp_all add: p)
    moreover have "?n \<le> length (pending st' @ data_of its) \<longleftrightarrow> n \<le> length (pending st @ data_of (i @ its))"
      using n by (simp add: p) linarith
    moreover have "loop (skip_step False slice_read) (n, st) = loop (skip_step False slice_read) (?n, st')"
      by (simp add: loop.simps [of _ "(n, st)"] st'(1))
    moreover have "goal U D ph' its st'" "fresh ph' st'"
      using goal_gram [OF More.hyps(1) More.prems(1,5) st'(2) More.prems(4)] took_fresh [OF More.hyps(1) More.prems(1,5) st'(2)] .
    moreover note More.hyps(3) [of st' ?n]
    ultimately show ?thesis
      using st'(2) More.prems by (simp only: took_def) (auto simp: not_le [symmetric])
  qed
qed simp_all

lemma reader_skip_ok:
  assumes "ahead cbs U N D data st"
  shows "n \<le> length data \<Longrightarrow> \<exists>st'. reader_skip False slice_read n st = Some (Inr (), st') \<and> ahead cbs U N D (drop n data) st'"
    and "length data < n \<Longrightarrow> \<exists>st'. reader_skip False slice_read n st =
      Some (Inl (Io_Error UnexpectedEof ''unexpected end of file''), st') \<and>
      rd_err st' = Some (Io_Error UnexpectedEof ''unexpected end of file'')"
proof -
  obtain ph its where a: "at_phase ph st" "feeds U N ph (rd_src st) its True"
    "data = pending st @ data_of its" "\<forall>it \<in> set its. accepts (callbacks st) it"
    "goal U D ph its st" "fresh ph st" "U \<subseteq> {..max_block_user st}" "callbacks st = cbs" using assms by (auto simp: ahead_def)
  note sf = skip_feeds [OF a(2,1) refl a(4-8), of n]
  have "rd_err st = None" using a(1) by (simp add: at_phase_def)
  then show "n \<le> length data \<Longrightarrow> \<exists>st'. reader_skip False slice_read n st = Some (Inr (), st') \<and> ahead cbs U N D (drop n data) st'"
    "length data < n \<Longrightarrow> \<exists>st'. reader_skip False slice_read n st =
      Some (Inl (Io_Error UnexpectedEof ''unexpected end of file''), st') \<and>
      rd_err st' = Some (Io_Error UnexpectedEof ''unexpected end of file'')"
    using sf a(3) by (auto simp: reader_skip_def)
qed

text \<open>What is ahead is delivered.\<close>

lemma drain_ahead:
  assumes "ahead cbs U N D data st" "\<forall>n. 0 < sz n"
  shows "\<exists>st'. drain False slice_read sz st = Some (Inr (), data, st')"
proof -
  obtain ph its where a: "at_phase ph st" "feeds U N ph (rd_src st) its True"
    "data = pending st @ data_of its" "\<forall>it \<in> set its. accepts (callbacks st) it"
    "goal U D ph its st" "fresh ph st" "U \<subseteq> {..max_block_user st}" "callbacks st = cbs" using assms(1) by (auto simp: ahead_def)
  let ?s = "st\<lparr>decoded_pos := length (decoded st)\<rparr>"
  have p: "at_phase ph ?s" using a(1) by (auto simp: at_phase_def split: phase.splits)
  have "\<exists>st'. loop (drain_step False slice_read sz) (pending st, ?s) = Some (Inr (), pending st @ data_of its, st')"
    using drain_feeds [of U N ph ?s its True sz "pending st"] p a(2,4,7) assms(2) by auto
  moreover have "loop (drain_step False slice_read sz) ([], st) = loop (drain_step False slice_read sz) ([] @ pending st, ?s)"
    by (rule drain_pending) (use a(1) assms(2) in \<open>auto simp: at_phase_def\<close>)
  ultimately show ?thesis by (simp add: drain_def a(3))
qed

section \<open>A read\<close>

text \<open>Filling the buffer queues some of the bytes ahead, unless there are none.\<close>

lemma fill_feeds:
  fixes st :: "(bytes, 'c) reader"
  assumes "feeds U N ph bs its True" "at_phase ph st" "bs = rd_src st"
    and "\<forall>it \<in> set its. accepts (callbacks st) it" "goal U D ph its st" "fresh ph st" "U \<subseteq> {..max_block_user st}"
    and "callbacks st = cbs"
  shows "\<exists>st'. fill_decoded False slice_read st = Some (Inr (pending st' \<noteq> []), st') \<and>
    ahead cbs U N D (pending st @ data_of its) st' \<and> (pending st' = [] \<longrightarrow> pending st @ data_of its = [])"
  using assms
proof (induction ph bs its "True" arbitrary: st rule: feeds.induct)
  case Whole
  show ?case
  proof (cases "pending st = []")
    case False
    then have "fill_decoded False slice_read st = Some (Inr True, st)"
      by (simp add: fill_decoded_def loop.simps [of _ st] fill_step_def pending_def)
    moreover have "ahead cbs U N D (pending st) st"
      unfolding ahead_def using Whole feeds.Whole by (intro exI [of _ "Between N"] exI [of _ "[]"]) auto
    ultimately show ?thesis using False by simp
  next
    case True
    then have dr: "decoded_pos st = length (decoded st)" using Whole by (simp add: at_phase_def pending_def)
    have "next_header slice_read st = Some (Inr None, st\<lparr>rd_src := []\<rparr>)"
      using Whole next_header_short [of st] by (simp add: at_phase_def)
    then have "fill_decoded False slice_read st = Some (Inr False, st\<lparr>rd_src := []\<rparr>)"
      by (simp add: fill_decoded_def loop.simps [of _ st] drained_step [OF dr])
    moreover have "ahead cbs U N D [] (st\<lparr>rd_src := []\<rparr>)"
      unfolding ahead_def using Whole feeds.Whole True
      by (intro exI [of _ "Between N"] exI [of _ "[]"]) (auto simp: at_phase_def pending_def)
    ultimately show ?thesis using True by (simp add: pending_def)
  qed
next
  case (More ph c ph' i bs its)
  have whole: "feeds U N ph (c @ bs) (i @ its) True" by (rule feeds.More [OF More.hyps(1,2)])
  show ?case
  proof (cases "pending st = []")
    case False
    then have "fill_decoded False slice_read st = Some (Inr True, st)"
      by (simp add: fill_decoded_def loop.simps [of _ st] fill_step_def pending_def)
    moreover have "ahead cbs U N D (pending st @ data_of (i @ its)) st"
      unfolding ahead_def using More.prems whole by (intro exI [of _ ph] exI [of _ "i @ its"]) auto
    ultimately show ?thesis using False by simp
  next
    case True
    then have dr: "decoded_pos st = length (decoded st)" using More.prems by (simp add: at_phase_def pending_def)
    obtain st' where st': "fill_step False slice_read st = Some (Inl st')" "took 0 i ph' bs st st'"
      using fill_step_chunk(1) [of U ph c ph' i st bs] More.hyps(1) More.prems dr by auto
    have "goal U D ph' its st'" "fresh ph' st'"
      using goal_gram [OF More.hyps(1) More.prems(1,5) st'(2) More.prems(4)] took_fresh [OF More.hyps(1) More.prems(1,5) st'(2)] .
    with st' More.hyps(3) [of st'] More.prems True show ?thesis
      by (auto simp: took_def fill_decoded_step [OF st'(1)])
  qed
qed simp_all

lemma fill_ahead:
  assumes "ahead cbs U N D data st"
  obtains st' where "fill_decoded False slice_read st = Some (Inr (pending st' \<noteq> []), st')" "ahead cbs U N D data st'"
    "pending st' = [] \<Longrightarrow> data = []" "rd_err st' = None" "decoded_pos st' \<le> length (decoded st')"
proof -
  obtain ph its where a: "at_phase ph st" "feeds U N ph (rd_src st) its True"
    "data = pending st @ data_of its" "\<forall>it \<in> set its. accepts (callbacks st) it"
    "goal U D ph its st" "fresh ph st" "U \<subseteq> {..max_block_user st}" "callbacks st = cbs" using assms by (auto simp: ahead_def)
  obtain st' where "fill_decoded False slice_read st = Some (Inr (pending st' \<noteq> []), st')" "ahead cbs U N D data st'"
    "pending st' = [] \<longrightarrow> data = []"
    using fill_feeds [OF a(2,1) refl a(4-8)] by (auto simp: a(3))
  moreover from this(2) have "rd_err st' = None" "decoded_pos st' \<le> length (decoded st')"
    by (auto simp: ahead_def at_phase_def)
  ultimately show thesis using that by blast
qed

lemma ahead_advance:
  assumes "ahead cbs U N D data st" "k \<le> length (pending st)"
  shows "ahead cbs U N D (drop k data) (st\<lparr>decoded_pos := decoded_pos st + k\<rparr>)"
proof -
  obtain ph its where a: "at_phase ph st" "feeds U N ph (rd_src st) its True"
    "data = pending st @ data_of its" "\<forall>it \<in> set its. accepts (callbacks st) it"
    "goal U D ph its st" "fresh ph st" "U \<subseteq> {..max_block_user st}" "callbacks st = cbs" using assms(1) by (auto simp: ahead_def)
  with assms(2) show ?thesis
    unfolding ahead_def
    by (intro exI [of _ ph] exI [of _ its]) (auto simp: at_phase_def pending_def add.commute split: phase.splits)
qed

lemma ahead_pending: "ahead cbs U N D data st \<Longrightarrow> data = pending st @ drop (length (pending st)) data"
  by (auto simp: ahead_def)

lemma reader_read_ok:
  assumes "ahead cbs U N D data st" "0 < n"
  obtains p st' where "reader_read False slice_read n st = Some (Inr p, st')" "data = p @ drop (length p) data"
    "ahead cbs U N D (drop (length p) data) st'" "length p \<le> n" "p = [] \<Longrightarrow> data = []"
proof -
  have e: "rd_err st = None" using assms(1) by (auto simp: ahead_def at_phase_def)
  obtain st' where f: "fill_decoded False slice_read st = Some (Inr (pending st' \<noteq> []), st')" "ahead cbs U N D data st'"
    "pending st' = [] \<Longrightarrow> data = []" "rd_err st' = None" "decoded_pos st' \<le> length (decoded st')"
    using fill_ahead [OF assms(1)] by blast
  show thesis
  proof (cases "pending st' = []")
    case True
    then have d: "data = []" by (rule f(3))
    show thesis
      by (rule that [of "[]" st']) (use e f assms(2) True d in \<open>simp_all add: reader_read_def\<close>)
  next
    case False
    let ?k = "min (length (decoded st') - decoded_pos st') n" and ?p = "take (min (length (decoded st') - decoded_pos st') n) (pending st')"
    have k: "?k \<le> length (pending st')" "length ?p = ?k" by (simp_all add: pending_def)
    show thesis
    proof (rule that [of ?p "st'\<lparr>decoded_pos := decoded_pos st' + ?k\<rparr>"])
      have "decoded_pos st' + ?k \<le> length (decoded st')" using f(5) by linarith
      then show "reader_read False slice_read n st = Some (Inr ?p, st'\<lparr>decoded_pos := decoded_pos st' + ?k\<rparr>)"
        using e f(1,5) assms(2) False by (simp add: reader_read_def fault_simps Let_def pending_def)
      show "ahead cbs U N D (drop (length ?p) data) (st'\<lparr>decoded_pos := decoded_pos st' + ?k\<rparr>)"
        unfolding k(2) by (rule ahead_advance [OF f(2) k(1)])
      show "data = ?p @ drop (length ?p) data"
        using ahead_pending [OF f(2)] k by (metis append_take_drop_id take_append append_eq_conv_conj take_take min.absorb1 diff_is_0_eq' take_0 append_Nil2)
      show "length ?p \<le> n" "?p = [] \<Longrightarrow> data = []" using False assms(2) f(5) by (auto simp: pending_def)
    qed
  qed
qed

lemma ahead_feeds:
  assumes "feeds U N (Between n) bs its True" "U \<subseteq> {..rb_max_block_size b}" "length (rb_callbacks b) = USER_CB_COUNT"
    and "\<forall>it \<in> set its. accepts (rb_callbacks b) it"
    and "\<not> rb_ignore_stream_id b" "n = 0" "data_of its = D"
  shows "ahead (rb_callbacks b) U N D (data_of its) (reader_with_builder bs env b)"
  unfolding ahead_def using assms
  by (intro exI [of _ "Between n"] exI [of _ its]) (simp add: reader_with_builder_at, simp add: pending_def reader_with_builder_def)

end
