(* ===== verification/Stream_Roundtrip.thy ===== *)
theory Stream_Roundtrip
  imports Writer_Correct Reader_Skip
begin

text \<open>
  The writer and the reader together: a reader over what a writer has produced delivers what was
  written, from any source and with buffers of any sizes.
\<close>

section \<open>What was written\<close>

fun op_data :: "writer_op \<Rightarrow> bytes" where
  "op_data (Op_Write p) = p"
| "op_data Op_Flush = []"
| "op_data (Op_Chunk t b) = []"

fun op_skippable :: "writer_op \<Rightarrow> bool" where
  "op_skippable (Op_Chunk t b) = (t < MIN_USER_NON_SKIPPABLE_CHUNK)"
| "op_skippable op = True"

lemma symbol_data_ops: "symbol_data (concat (map op_symbols ops)) = concat (map op_data ops)"
proof (induction ops)
  case (Cons op ops)
  then show ?case by (cases op) simp_all
qed simp

lemma other_symbols: "Other t body \<in> set its \<Longrightarrow> Inr (t, body) \<in> set (symbols its)"
  by (induction its) auto

lemma op_chunk_symbols: "Inr (t, body) \<in> set (concat (map op_symbols ops)) \<Longrightarrow> Op_Chunk t body \<in> set ops"
proof (induction ops)
  case (Cons op ops)
  then show ?case by (cases op) auto
qed simp

text \<open>A reader without callbacks accepts what a writer without unskippable chunks has produced.\<close>

lemma accepts_ops:
  assumes "symbols its = concat (map op_symbols ops)" "\<forall>op \<in> set ops. op_skippable op" "it \<in> set its"
  shows "accepts (replicate USER_CB_COUNT None) it"
proof (cases it)
  case (Other t body)
  then have "Op_Chunk t body \<in> set ops"
    using op_chunk_symbols [of t body ops] other_symbols [of t body its] assms(1,3) by simp
  with assms(2) Other show ?thesis by auto
qed simp

lemma announced_size_ok:
  assumes "MIN_BLOCK_SIZE \<le> m" "m \<le> MAX_BLOCK_SIZE"
  obtains k where "announced_size m = Some k" "m \<le> k" "k \<le> MAX_BLOCK_SIZE"
proof (rule block_size_indicator_ok [OF assms])
  fix ind k
  assume "block_size_indicator m = Some ind" "block_size_from_indicator ind = Some (2 ^ k)" "m \<le> 2 ^ k"
  with indicator_size [of ind "2 ^ k"] that [of "2 ^ k"] show thesis by (simp add: announced_size_def)
qed

text \<open>Several streams in a row, each given as its block size, items, trailer and bytes.\<close>

definition streams :: "nat \<Rightarrow> (nat \<times> item list \<times> item list \<times> bytes) list \<Rightarrow> bool" where
  "streams um ss \<longleftrightarrow> (\<forall>(m, its, trailer, bs) \<in> set ss. stream_of m its trailer bs \<and> MIN_BLOCK_SIZE \<le> m \<and>
     m \<le> MAX_BLOCK_SIZE \<and> (\<exists>k \<le> um. announced_size m = Some k) \<and> length (data_of its) < 2 ^ 64)"

definition stream_items :: "(nat \<times> item list \<times> item list \<times> bytes) list \<Rightarrow> item list" where
  "stream_items ss = concat (map (\<lambda>(m, its, trailer, bs). its @ trailer) ss)"

definition stream_bytes :: "(nat \<times> item list \<times> item list \<times> bytes) list \<Rightarrow> bytes" where
  "stream_bytes ss = concat (map (\<lambda>(m, its, trailer, bs). bs) ss)"

lemma streams_feed: "streams um ss \<Longrightarrow> feeds {..um} (n + length ss) (Between n) (stream_bytes ss) (stream_items ss) True"
proof (induction ss arbitrary: n)
  case Nil
  then show ?case by (simp add: stream_bytes_def stream_items_def feeds.Whole)
next
  case (Cons s ss)
  obtain m its trailer bs where s: "s = (m, its, trailer, bs)" by (cases s)
  then obtain k cs where st: "stream_parts m its trailer cs bs" "MIN_BLOCK_SIZE \<le> m" "m \<le> MAX_BLOCK_SIZE"
    "announced_size m = Some k" "k \<in> {..um}" "length (data_of its) < 2 ^ 64"
    using Cons.prems by (auto simp: streams_def stream_of_def)
  have "feeds {..um} (Suc n) (Between n) bs (its @ trailer) True"
    by (rule stream_feeds [OF st]) blast
  from feeds_append [OF this Cons.IH] Cons.prems show ?case
    by (simp add: s streams_def stream_items_def stream_bytes_def)
qed

lemma trailer_unique:
  "list_all2 (item_chunk 0) trailer ts \<Longrightarrow> list_all2 (item_chunk 0) trailer ts' \<Longrightarrow> skippable trailer \<Longrightarrow> ts = ts'"
proof (induction arbitrary: ts' rule: list_all2_induct)
  case (Cons it its c cs)
  obtain t body where it: "it = Other t body" using Cons.prems(2) by auto
  obtain c' cs' where ts': "ts' = c' # cs'" "item_chunk 0 it c'" "list_all2 (item_chunk 0) its cs'"
    using Cons.prems(1) by (auto simp: list_all2_Cons1)
  have "c' = c" using ts'(2) Cons.hyps(1) unfolding it item_chunk.simps by blast
  then show ?case using Cons.IH [OF ts'(3)] Cons.prems(2) ts'(1) by simp
qed simp

section \<open>An example\<close>

text \<open>Some calls on a writer with the default options, to run the theorems on.\<close>

definition sample_ops :: "writer_op list" where
  "sample_ops = [Op_Write [1, 2], Op_Chunk 0x80 [7], Op_Write [3]]"

lemma builder_default_ok: "builder_ok writer_builder_default"
  by (simp add: builder_ok_def writer_builder_default_def stream_consts format_consts)

lemma sample_ops_ok:
  "\<forall>op \<in> set sample_ops. op_valid op \<and> op_skippable op" "sum_list (map op_cost sample_ops) < 2 ^ 59"
  "concat (map op_data sample_ops) = [1, 2, 3]" "concat (map op_symbols sample_ops) = [Inl 1, Inl 2, Inr (0x80, [7]), Inl 3]"
  by (simp_all add: sample_ops_def stream_consts)

lemma sample_stream:
  obtains its trailer bs where "write_stream vec_sink [] writer_builder_default sample_ops = Some (Inr (), bs)"
    "stream_of DEFAULT_BLOCK_SIZE its trailer bs" "symbols its = concat (map op_symbols sample_ops)"
proof -
  have free: "fault_free vec_sink" by (simp add: fault_free_def vec_sink_def)
  have "\<forall>op \<in> set sample_ops. op_valid op" using sample_ops_ok(1) by simp
  from write_stream_ok [OF vec_sink.sink_axioms builder_default_ok this sample_ops_ok(2), of "[]"] show thesis
  proof (cases rule: res_cases)
    case (3 u w')
    with that show thesis by (auto simp: writer_builder_default_def)
  qed (use free in \<open>simp_all add: writer_builder_default_def\<close>)
qed

lemma default_block_size:
  "MIN_BLOCK_SIZE \<le> DEFAULT_BLOCK_SIZE" "DEFAULT_BLOCK_SIZE \<le> MAX_BLOCK_SIZE"
  by (simp_all add: stream_consts format_consts)

lemma sample_streams:
  assumes "stream_of DEFAULT_BLOCK_SIZE its trailer bs" "symbols its = concat (map op_symbols sample_ops)"
  shows "streams MAX_BLOCK_SIZE [(DEFAULT_BLOCK_SIZE, its, trailer, bs)]" "data_of its = [1, 2, 3]" "data_of trailer = []"
    "\<forall>it \<in> set (its @ trailer). accepts (replicate USER_CB_COUNT None) it"
proof -
  have d: "data_of its = [1, 2, 3]" by (simp add: data_of_symbols assms(2) sample_ops_ok(4))
  obtain k where k: "announced_size DEFAULT_BLOCK_SIZE = Some k" "k \<le> MAX_BLOCK_SIZE"
    by (rule announced_size_ok [OF default_block_size])
  then show "streams MAX_BLOCK_SIZE [(DEFAULT_BLOCK_SIZE, its, trailer, bs)]"
    using default_block_size assms(1) d by (auto simp: streams_def)
  have "length (data_of its) < 2 ^ 64" by (simp add: d)
  then have sk: "skippable trailer"
    using assms(1) by (auto simp: stream_of_def stream_parts_def)
  show "data_of its = [1, 2, 3]" "data_of trailer = []" by (simp_all add: d skippable_data [OF sk])
  show "\<forall>it \<in> set (its @ trailer). accepts (replicate USER_CB_COUNT None) it"
    using accepts_ops [OF assms(2)] accepts_skippable [OF sk] sample_ops_ok(1) by auto
qed

end
