(* ===== verification/Seek.thy ===== *)
theory Seek
  imports Reader Index
begin

text \<open>
  \<^verbatim>\<open>stream/seek.rs\<close>: random access to a stream by uncompressed offsets, over a source that can seek, with
  an index that is given or loaded from the end of the source (\<^verbatim>\<open>Index::load_stream\<close>). The source is a
  parameter with the contracts of the traits \<^verbatim>\<open>Read\<close> and \<^verbatim>\<open>Seek\<close>; a method gives its result and the
  state after it, and None is a panic.
\<close>

section \<open>Sources that seek\<close>

datatype seek_from = Start nat | Current int | End int

type_synonym 'r seek_fn = "seek_from \<Rightarrow> 'r \<Rightarrow> (io_error + nat) \<times> 'r"

text \<open>
  The contract over a source of fixed contents: it stands at some offset, a seek from the start or from
  the end to an offset within the contents moves it there, and a seek by nothing tells where it is.
\<close>

locale seekable = source rd remaining patience
  for rd :: "'r reader_fn" and remaining :: "'r \<Rightarrow> bytes" and patience :: "'r \<Rightarrow> nat" +
  fixes sk :: "'r seek_fn"
    and contents :: bytes
  assumes seek_start: "n \<le> length contents \<Longrightarrow> sk (Start n) r = (res, r') \<Longrightarrow>
      res = Inr n \<and> remaining r' = drop n contents"
    and seek_end: "n \<le> length contents \<Longrightarrow> sk (End (- int n)) r = (res, r') \<Longrightarrow>
      res = Inr (length contents - n) \<and> remaining r' = drop (length contents - n) contents"
    and seek_current: "sk (Current 0) r = (res, r') \<Longrightarrow> \<exists>n. res = Inr n \<and>
      remaining r = drop n contents \<and> remaining r' = remaining r"

text \<open>
  \<^verbatim>\<open>std::io::Cursor<&[u8]>\<close>: an offset into a slice, possibly beyond its end. Seeks relative to the end or
  to the offset fail when they leave the range of \<open>u64\<close>, within which every slice lies.
\<close>

definition at_read :: "bytes \<Rightarrow> nat reader_fn" where
  "at_read bs n p = (Inr (take n (drop p bs)), p + length (take n (drop p bs)))"

definition at_seek :: "bytes \<Rightarrow> nat seek_fn" where
  "at_seek bs s p = (case s of
     Start n \<Rightarrow> (Inr n, n)
   | _ \<Rightarrow>
     let target = (case s of Current d \<Rightarrow> int p + d | End d \<Rightarrow> int (length bs) + d | Start n \<Rightarrow> int n) in
      if 0 \<le> target \<and> (target < 2 ^ 64 \<or> target \<le> int (max p (length bs))) then (Inr (nat target), nat target)
      else (Inl (Io_Error InvalidInput ''invalid seek to a negative or overflowing position''), p))"

interpretation at_source: seekable "at_read bs" "\<lambda>p. drop p bs" "\<lambda>_. 0" "at_seek bs" bs
  for bs
proof unfold_locales
  fix n p :: nat and out p'
  assume "at_read bs n p = (Inr out, p')"
  then have o: "out = take n (drop p bs)" "p' = p + length out" by (auto simp: at_read_def)
  have "drop p bs = take n (drop p bs) @ drop (length (take n (drop p bs))) (drop p bs)"
    by (metis append_eq_conv_conj append_take_drop_id)
  then show "drop p bs = out @ drop p' bs \<and> length out \<le> n \<and> (out = [] \<longrightarrow> n = 0 \<or> drop p bs = []) \<and> (0 :: nat) \<le> 0"
    by (simp add: o add.commute)
qed (auto simp: at_read_def at_seek_def Let_def simp flip: of_nat_diff split: if_splits)

section \<open>The index of a seekable source\<close>

definition index_load_stream ::
  "'r reader_fn \<Rightarrow> 'r seek_fn \<Rightarrow> 'r \<Rightarrow> index \<Rightarrow> ((index_error + unit) \<times> index \<times> 'r) option" where
  "index_load_stream rd sk r ix =
     (case sk (End (- 10)) r of
        (Inl e, r) \<Rightarrow> Some (Inl (IIo e), ix, r)
      | (Inr _, r) \<Rightarrow> do {
          (tail, r) \<leftarrow> read_exact rd 10 r;
          case tail of
            Inl e \<Rightarrow> Some (Inl (IIo e), ix, r)
          | Inr tail \<Rightarrow> do {
              mark \<leftarrow> slice tail 4 (4 + length INDEX_TRAILER);
              if mark \<noteq> INDEX_TRAILER then Some (Inl (IBadFormat ''trailer not found''), ix, r)
              else
                let sz = unat (of_le (take 4 tail) :: u32) in
                if MAX_USER_CHUNK_SIZE + SKIPPABLE_FRAME_HEADER < sz then
                  Some (Inl (IInvalid ''size exceeds maximum''), ix, r)
                else case sk (End (- int sz)) r of
                  (Inl e, r) \<Rightarrow> Some (Inl (IIo e), ix, r)
                | (Inr _, r) \<Rightarrow> do {
                    (buf, r) \<leftarrow> read_exact rd sz r;
                    case buf of
                      Inl e \<Rightarrow> Some (Inl (IIo e), ix, r)
                    | Inr buf \<Rightarrow> do {
                        (res, ix) \<leftarrow> index_load buf ix;
                        Some (case res of Inl e \<Rightarrow> Inl e | Inr _ \<Rightarrow> Inr (), ix, r) } } } })"

section \<open>The seeking reader\<close>

record ('r, 'c) read_seeker =
  sk_reader :: "('r, 'c) reader"
  sk_index :: index

definition looks_like_full_index_chunk :: "bytes \<Rightarrow> bool" where
  "looks_like_full_index_chunk b =
     (if length b < 4 + length INDEX_HEADER then False
      else if b ! 0 \<noteq> CHUNK_TYPE_INDEX \<and> b ! 0 \<noteq> LEGACY_INDEX_CHUNK then False
      else take (length INDEX_HEADER) (drop 4 b) = INDEX_HEADER)"

text \<open>The three shapes of the index; the position of the source is restored before an error of the
  load is returned.\<close>

definition seeker_new ::
  "'r reader_fn \<Rightarrow> 'r seek_fn \<Rightarrow> ('r, 'c) reader \<Rightarrow> bytes \<Rightarrow> (io_error + ('r, 'c) read_seeker) option" where
  "seeker_new rd sk st index_bytes =
     (if index_bytes \<noteq> [] then
        (if looks_like_full_index_chunk index_bytes then do {
           (res, ix) \<leftarrow> index_load index_bytes index_default;
           Some (case res of Inl e \<Rightarrow> Inl (index_error_to_io e) | Inr _ \<Rightarrow> Inr \<lparr>sk_reader = st, sk_index = ix\<rparr>) }
         else
           let restored = restore_index_headers index_bytes in
           if restored = [] then Some (Inl (Io_Error InvalidData ''minlz: empty index payload''))
           else do {
             (res, ix) \<leftarrow> index_load restored index_default;
             Some (case res of Inl e \<Rightarrow> Inl (index_error_to_io e) | Inr _ \<Rightarrow> Inr \<lparr>sk_reader = st, sk_index = ix\<rparr>) })
      else
        case sk (Current 0) (rd_src st) of
          (Inl e, r) \<Rightarrow> Some (Inl e)
        | (Inr pos, r) \<Rightarrow> do {
            (res, ix, r) \<leftarrow> index_load_stream rd sk r index_default;
            let (restore, r) = sk (Start pos) r;
            Some (case res of
                Inl e \<Rightarrow> Inl (index_error_to_io e)
              | Inr _ \<Rightarrow> (case restore of Inl e \<Rightarrow> Inl e
                  | Inr _ \<Rightarrow> Inr \<lparr>sk_reader = st\<lparr>rd_src := r\<rparr>, sk_index = ix\<rparr>)) })"

type_synonym ('r, 'c, 'a) seeker_res = "((io_error + 'a) \<times> ('r, 'c) read_seeker) option"

text \<open>\<^verbatim>\<open>i64::try_from\<close> and \<^verbatim>\<open>checked_add\<close>.\<close>

definition offset_to_i64 :: "nat \<Rightarrow> io_error + int" where
  "offset_to_i64 v = (if v \<le> MAX_I64 then Inr (int v) else Inl (Io_Error InvalidInput ''offset exceeds i64 seek range''))"

definition offset_add :: "nat \<Rightarrow> int \<Rightarrow> io_error + int" where
  "offset_add v d = (case offset_to_i64 v of
     Inl e \<Rightarrow> Inl e
   | Inr i \<Rightarrow> (case chk_i64 (i + d) of None \<Rightarrow> Inl (Io_Error InvalidInput ''seek overflow'') | Some j \<Rightarrow> Inr j))"

text \<open>The absolute offset a seek asks for, checked against the start and, when it is known, the end.\<close>

definition seek_target :: "seek_from \<Rightarrow> ('r, 'c) read_seeker \<Rightarrow> (io_error + nat) option" where
  "seek_target pos s = do {
     abs_off \<leftarrow> (case pos of
       Start o' \<Rightarrow> Some (offset_to_i64 o')
     | Current d \<Rightarrow> do { cur \<leftarrow> current_offset (sk_reader s); Some (offset_add cur d) }
     | End d \<Rightarrow> Some (case total_uncompressed (sk_index s) of
         None \<Rightarrow> Inl (Io_Error Unsupported ''seek from end requires known total_uncompressed'')
       | Some n \<Rightarrow> offset_add n d));
     Some (case abs_off of
       Inl e \<Rightarrow> Inl e
     | Inr i \<Rightarrow>
         if i < 0 then Inl (Io_Error InvalidInput ''seek before start of file'')
         else case total_uncompressed (sk_index s) of
           None \<Rightarrow> Inr (nat i)
         | Some n \<Rightarrow> if n < nat i then Inl (Io_Error UnexpectedEof ''unexpected end of file'') else Inr (nat i))
   }"

text \<open>Moves the source of the reader.\<close>

definition seek_src :: "'r seek_fn \<Rightarrow> seek_from \<Rightarrow> ('r, 'c) reader \<Rightarrow> ('r, 'c, nat) reader_res" where
  "seek_src sk pos st = (case sk pos (rd_src st) of (res, r) \<Rightarrow> Some (res, st\<lparr>rd_src := r\<rparr>))"

definition on_reader :: "('r, 'c, 'a) reader_res \<Rightarrow> ('r, 'c) read_seeker \<Rightarrow> ('r, 'c, 'a) seeker_res" where
  "on_reader m s = map_option (map_prod id (\<lambda>st. s\<lparr>sk_reader := st\<rparr>)) m"

text \<open>The part of a seek behind the checks: the identifier is read first, a target in the decoded block
  only moves within it, and any other goes by way of the index.\<close>

definition seek_to :: "bool \<Rightarrow> 'r reader_fn \<Rightarrow> 'r seek_fn \<Rightarrow> nat \<Rightarrow> index \<Rightarrow> ('r, 'c) reader \<Rightarrow> ('r, 'c, nat) reader_res" where
  "seek_to be rd sk abs_off ix st =
     with_st (if \<not> header_read st then
         with_st (seek_src sk (Start 0) st) (\<lambda>_ st. with_st (reader_fill_buf be rd st) (\<lambda>_ st. Some (Inr (), st)))
       else Some (Inr (), st)) (\<lambda>_ st. do {
     block_end \<leftarrow> chk_u64 (block_start st + length (decoded st));
     if block_start st \<le> abs_off \<and> abs_off < block_end then
       Some (Inr abs_off, st\<lparr>decoded_pos := abs_off - block_start st\<rparr>)
     else do {
       entry \<leftarrow> index_find ix abs_off;
       with_st (seek_src sk (Start (compressed entry)) st) (\<lambda>_ st.
       let st = st\<lparr>decoded := [], decoded_pos := 0, block_start := uncompressed entry\<rparr> in
       with_st (if uncompressed entry < abs_off then reader_skip be rd (abs_off - uncompressed entry) st
                else Some (Inr (), st)) (\<lambda>_ st.
       if uncompressed entry \<le> abs_off then Some (Inr abs_off, st) else None)) } })"

definition seek_uncompressed ::
  "bool \<Rightarrow> 'r reader_fn \<Rightarrow> 'r seek_fn \<Rightarrow> seek_from \<Rightarrow> ('r, 'c) read_seeker \<Rightarrow> ('r, 'c, nat) seeker_res" where
  "seek_uncompressed be rd sk pos s = (case rd_err (sk_reader s) of
     Some e \<Rightarrow>
       if kind e \<noteq> UnexpectedEof then Some (Inl e, s)
       else let s = s\<lparr>sk_reader := (sk_reader s)\<lparr>rd_err := None\<rparr>\<rparr> in
         and_then_at (seek_target pos s) s (\<lambda>abs_off. on_reader (seek_to be rd sk abs_off (sk_index s) (sk_reader s)) s)
   | None \<Rightarrow> and_then_at (seek_target pos s) s (\<lambda>abs_off. on_reader (seek_to be rd sk abs_off (sk_index s) (sk_reader s)) s))"

text \<open>\<open>read_at\<close> gives the bytes it has put into the buffer.\<close>

definition seeker_read :: "bool \<Rightarrow> 'r reader_fn \<Rightarrow> nat \<Rightarrow> ('r, 'c) read_seeker \<Rightarrow> ('r, 'c, bytes) seeker_res" where
  "seeker_read be rd n s = on_reader (reader_read be rd n (sk_reader s)) s"

definition read_at_step ::
  "bool \<Rightarrow> 'r reader_fn \<Rightarrow> nat \<Rightarrow> bytes \<times> ('r, 'c) read_seeker \<Rightarrow>
     (bytes \<times> ('r, 'c) read_seeker + (io_error + bytes) \<times> ('r, 'c) read_seeker) option" where
  "read_at_step be rd len = (\<lambda>(got, s).
     if length got < len then do {
       (res, s) \<leftarrow> on_reader (reader_read be rd (len - length got) (sk_reader s)) s;
       case res of
         Inr p \<Rightarrow> if p = [] then Some (Inr (Inr got, s)) else Some (Inl (got @ p, s))
       | Inl e \<Rightarrow> if kind e = Interrupted then Some (Inl (got, s)) else Some (Inr (Inl e, s)) }
     else Some (Inr (Inr got, s)))"

definition read_at ::
  "bool \<Rightarrow> 'r reader_fn \<Rightarrow> 'r seek_fn \<Rightarrow> nat \<Rightarrow> nat \<Rightarrow> ('r, 'c) read_seeker \<Rightarrow> ('r, 'c, bytes) seeker_res" where
  "read_at be rd sk len off s =
     with_st (seek_uncompressed be rd sk (Start off) s) (\<lambda>_ s. loop (read_at_step be rd len) ([], s))"

definition read_exact_at ::
  "bool \<Rightarrow> 'r reader_fn \<Rightarrow> 'r seek_fn \<Rightarrow> nat \<Rightarrow> nat \<Rightarrow> ('r, 'c) read_seeker \<Rightarrow> ('r, 'c, bytes) seeker_res" where
  "read_exact_at be rd sk len off s =
     with_st (read_at be rd sk len off s) (\<lambda>p s.
       if length p < len then Some (Inl (Io_Error UnexpectedEof ''unexpected end of file''), s) else Some (Inr p, s))"

end
