(* ===== verification/Reader_Client.thy ===== *)
theory Reader_Client
  imports Reader_Skip
begin

text \<open>
  A client of the reader that reads and skips as it likes, and what it may rely on: a cursor over the
  data of the streams. The reader refines the cursor from its first call on.
\<close>

datatype client_op = Client_Read nat | Client_Skip nat

text \<open>The results of the reads until the first error, and the reader after them.\<close>

fun run_client ::
  "bool \<Rightarrow> 'r reader_fn \<Rightarrow> client_op list \<Rightarrow> ('r, 'c) reader \<Rightarrow> ((io_error + unit) \<times> bytes list \<times> ('r, 'c) reader) option" where
  "run_client be rd [] st = Some (Inr (), [], st)"
| "run_client be rd (Client_Read n # ops) st = do {
     (res, st) \<leftarrow> reader_read be rd n st;
     case res of
       Inl e \<Rightarrow> Some (Inl e, [], st)
     | Inr p \<Rightarrow> map_option (map_prod id (map_prod ((#) p) id)) (run_client be rd ops st) }"
| "run_client be rd (Client_Skip n # ops) st = do {
     (res, st) \<leftarrow> reader_skip be rd n st;
     case res of Inl e \<Rightarrow> Some (Inl e, [], st) | Inr _ \<Rightarrow> run_client be rd ops st }"

text \<open>
  The cursor: a read gives some of the next bytes, and none only if none is asked for or left; a skip
  drops as many as it is asked to, and fails when fewer are left. The last argument is what remains,
  None behind a failed skip.
\<close>

inductive cursor :: "client_op list \<Rightarrow> bytes \<Rightarrow> bytes list \<Rightarrow> bytes option \<Rightarrow> bool" where
  Done: "cursor [] data [] (Some data)"
| Read: "length p \<le> n \<Longrightarrow> p = [] \<longrightarrow> n = 0 \<or> data = [] \<Longrightarrow> cursor ops data outs res \<Longrightarrow>
    cursor (Client_Read n # ops) (p @ data) (p # outs) res"
| Skip: "n \<le> length data \<Longrightarrow> cursor ops (drop n data) outs res \<Longrightarrow> cursor (Client_Skip n # ops) data outs res"
| Past: "length data < n \<Longrightarrow> cursor (Client_Skip n # ops) data [] None"

inductive_cases cursor_cases: "cursor (op # ops) data outs res"

lemma run_client_ok:
  assumes "ahead cbs U N D data st"
  obtains res outs st' left where "run_client False slice_read ops st = Some (res, outs, st')"
    "cursor ops data outs left"
    "case left of None \<Rightarrow> res = Inl (Io_Error UnexpectedEof ''unexpected end of file'') | Some d \<Rightarrow> res = Inr () \<and> ahead cbs U N D d st'"
  using assms
proof (induction ops arbitrary: data st thesis)
  case Nil
  from Nil.prems(1) [OF run_client.simps(1) cursor.Done] Nil.prems(2) show thesis by simp
next
  case (Cons op ops)
  note ahead = Cons.prems(2)
  show thesis
  proof (cases op)
    case (Client_Read n)
    obtain p s where r: "reader_read False slice_read n st = Some (Inr p, s)" "data = p @ drop (length p) data"
      "ahead cbs U N D (drop (length p) data) s" "length p \<le> n" "p = [] \<longrightarrow> n = 0 \<or> drop (length p) data = []"
    proof (cases "n = 0")
      case True
      have "rd_err st = None" using ahead by (auto simp: ahead_def at_phase_def)
      then show thesis using that [of "[]" st] ahead True by (simp add: reader_read_def)
    next
      case False
      then have "0 < n" by simp
      from reader_read_ok [OF ahead this] that show thesis by (metis drop_Nil)
    qed
    show thesis
    proof (rule Cons.IH [OF _ r(3)])
      fix res outs st' left
      assume "run_client False slice_read ops s = Some (res, outs, st')" "cursor ops (drop (length p) data) outs left"
        "case left of None \<Rightarrow> res = Inl (Io_Error UnexpectedEof ''unexpected end of file'') | Some d \<Rightarrow> res = Inr () \<and> ahead cbs U N D d st'"
      with Cons.prems(1) [of res "p # outs" st' left] cursor.Read [OF r(4,5), of ops outs left] r(1,2)
      show thesis by (simp add: Client_Read)
    qed
  next
    case (Client_Skip n)
    show thesis
    proof (cases "n \<le> length data")
      case True
      obtain s where s: "reader_skip False slice_read n st = Some (Inr (), s)" "ahead cbs U N D (drop n data) s"
        using reader_skip_ok(1) [OF ahead True] by blast
      show thesis
      proof (rule Cons.IH [OF _ s(2)])
        fix res outs st' left
        assume "run_client False slice_read ops s = Some (res, outs, st')" "cursor ops (drop n data) outs left"
          "case left of None \<Rightarrow> res = Inl (Io_Error UnexpectedEof ''unexpected end of file'') | Some d \<Rightarrow> res = Inr () \<and> ahead cbs U N D d st'"
        with Cons.prems(1) [of res outs st' left] cursor.Skip [OF True, of ops outs left] s(1)
        show thesis by (simp add: Client_Skip)
      qed
    next
      case False
      then have lt: "length data < n" by simp
      obtain s where "reader_skip False slice_read n st = Some (Inl (Io_Error UnexpectedEof ''unexpected end of file''), s)"
        using reader_skip_ok(2) [OF ahead lt] by blast
      with Cons.prems(1) [of _ "[]" s None] cursor.Past [OF lt] show thesis by (simp add: Client_Skip)
    qed
  qed
qed

context source
begin

lemma run_client_sim:
  fixes st :: "('r, 'c) reader"
  shows "run_client be slice_read ops (view remaining st) =
    map_option (map_prod id (map_prod id (view remaining))) (run_client be rd ops st)"
proof (induction ops arbitrary: st)
  case (Cons op ops)
  show ?case
  proof (cases op)
    case (Client_Read n)
    show ?thesis
      using reader_read_sim [of be n st] Cons
      by (cases "reader_read be rd n st") (auto simp: Client_Read sim_def option.map_comp split: sum.split intro!: option.map_cong)
  next
    case (Client_Skip n)
    show ?thesis
      using reader_skip_sim [of be n st] Cons
      by (cases "reader_skip be rd n st") (auto simp: Client_Skip sim_def split: sum.split)
  qed
qed simp

end

end
