(* ===== verification/Seek_Correct.thy ===== *)
theory Seek_Correct
  imports Seek Stream_Roundtrip Reader_Client
begin

text \<open>
  A seeking reader over an indexed stream behaves as a file with the data of the stream: whatever
  sequence of seeks and reads, and wherever the blocks and the entries of the index lie.
\<close>

section \<open>Where a reader stands\<close>

text \<open>With a single stream, the counters of the reader give the offset of the data ahead of it.\<close>

lemma ahead_offset:
  assumes "ahead cbs U (Suc 0) D data st"
  shows "block_start st + decoded_pos st + length data = length D" "decoded_pos st \<le> length (decoded st)"
    "block_start st + length (decoded st) \<le> length D" "data = drop (block_start st + decoded_pos st) D"
    "rd_err st = None"
proof -
  obtain ph its where a: "at_phase ph st" "feeds U (Suc 0) ph (rd_src st) its True" "data = pending st @ data_of its"
    "goal U D ph its st" "fresh ph st" using assms by (auto simp: ahead_def)
  show le: "decoded_pos st \<le> length (decoded st)" "rd_err st = None" using a(1) by (simp_all add: at_phase_def)
  have n: "ended ph \<le> Suc 0" "\<And>m pre. ph \<noteq> Inside (Suc 0) m pre" using feeds_ended [OF a(2)] by auto
  show eq: "block_start st + decoded_pos st + length data = length D"
  proof (cases ph)
    case (Between n)
    with a n show ?thesis by (cases n) auto
  next
    case (Inside n m pre)
    with n have n0: "n = 0" by (cases n) auto
    have "block_start st + length (decoded st) = length pre" "pre @ data_of its = D"
      using a(1,4) Inside n0 by (simp_all add: at_phase_def)
    with le a(3) show ?thesis by (auto simp: pending_def)
  qed
  show "block_start st + length (decoded st) \<le> length D"
    using eq a(3) le by (simp add: pending_def)
  show "data = drop (block_start st + decoded_pos st) D"
  proof (cases ph)
    case (Between n)
    then have p: "pending st = []" using a(5) by simp
    show ?thesis
    proof (cases n)
      case 0
      with a(3,4) Between p show ?thesis by simp
    next
      case (Suc m)
      with Between n(1) have "ph = Between (Suc 0)" by simp
      with feeds_ended [OF a(2)] have "data_of its = []" by simp
      with a(3) p eq show ?thesis by simp
    qed
  next
    case (Inside n m pre)
    with n have n0: "n = 0" by (cases n) auto
    have "block_start st + length (decoded st) = length pre" "pre @ data_of its = D" "drop (block_start st) pre = decoded st"
      using a(1,4) Inside n0 by (simp_all add: at_phase_def)
    then have "drop (block_start st + decoded_pos st) pre = drop (decoded_pos st) (decoded st)"
      by (metis drop_drop add.commute)
    moreover have "block_start st + decoded_pos st \<le> length pre" using \<open>_ = length pre\<close> le(1) by linarith
    ultimately show ?thesis using a(3) by (simp add: pending_def flip: \<open>pre @ data_of its = D\<close>)
  qed
qed

lemma ahead_pending_header: "ahead cbs U N D data st \<Longrightarrow> pending st \<noteq> [] \<Longrightarrow> header_read st"
  unfolding ahead_def at_phase_def by (elim exE conjE, rename_tac ph its, case_tac ph) auto

text \<open>Within a stream the reader can be moved inside its block, and to the start of any chunk.\<close>

lemma ahead_move:
  assumes "ahead cbs U (Suc 0) D data st" "header_read st" "block_start st \<le> a" "a < block_start st + length (decoded st)"
  shows "ahead cbs U (Suc 0) D (drop a D) (st\<lparr>decoded_pos := a - block_start st\<rparr>)"
proof -
  obtain ph its where h: "at_phase ph st" "feeds U (Suc 0) ph (rd_src st) its True"
    "data = pending st @ data_of its" "\<forall>it \<in> set its. accepts (callbacks st) it"
    "goal U D ph its st" "fresh ph st" "U \<subseteq> {..max_block_user st}" "callbacks st = cbs" using assms(1) by (auto simp: ahead_def)
  obtain n m pre where ph: "ph = Inside n m pre" using h(6) assms(2) by (cases ph) auto
  then have "n = 0" using feeds_ended [OF h(2)] by (cases n) auto
  with h(1,5) ph have pre: "block_start st + length (decoded st) = length pre" "pre @ data_of its = D"
    "drop (block_start st) pre = decoded st" by (simp_all add: at_phase_def)
  have "drop a pre = drop (a - block_start st) (decoded st)" using assms(3) by (simp flip: pre(3))
  moreover have "a \<le> length pre" using assms(4) pre(1) by simp
  ultimately have "drop a D = drop (a - block_start st) (decoded st) @ data_of its" by (simp flip: pre(2))
  then show ?thesis
    unfolding ahead_def using h assms(3,4) ph
    by (intro exI [of _ ph] exI [of _ its]) (auto simp: at_phase_def pending_def)
qed

lemma ahead_jump:
  assumes "ahead cbs {k} (Suc 0) D data st" "header_read st" "length D < 2 ^ 64"
    and "feeds {k} (Suc 0) (Inside 0 k pre) bs its True" "pre @ data_of its = D" "\<forall>it \<in> set its. accepts cbs it"
  shows "ahead cbs {k} (Suc 0) D (data_of its)
    (st\<lparr>rd_src := bs, decoded := [], decoded_pos := 0, block_start := length pre\<rparr>)"
proof -
  obtain ph its' where h: "at_phase ph st" "feeds {k} (Suc 0) ph (rd_src st) its' True"
    "goal {k} D ph its' st" "fresh ph st" "{k} \<subseteq> {..max_block_user st}" "callbacks st = cbs" using assms(1) by (auto simp: ahead_def)
  obtain n m pre' where ph: "ph = Inside n m pre'" using h(4) assms(2) by (cases ph) auto
  then have "n = 0" using feeds_ended [OF h(2)] by (cases n) auto
  with h(1,3) ph have i: "expect_eof st" "max_block st = k" "16 \<le> k" "k \<le> MAX_BLOCK_SIZE" "rd_err st = None"
    "length (callbacks st) = USER_CB_COUNT" by (auto simp: at_phase_def)
  show ?thesis
    unfolding ahead_def using i h(5,6) assms(2-6)
    by (intro exI [of _ "Inside 0 k pre"] exI [of _ its]) (auto simp: at_phase_def pending_def)
qed


section \<open>An indexed stream\<close>

text \<open>
  A stream with an index whose entries mark starts of its chunks; \<open>k\<close> is the block size its identifier
  announces. It holds some data, within the range that seeks can address.
\<close>

definition indexed :: "nat \<Rightarrow> item list \<Rightarrow> item list \<Rightarrow> bytes \<Rightarrow> index \<Rightarrow> bool" where
  "indexed k its trailer bs ix \<longleftrightarrow> (\<exists>m cs. stream_parts m its trailer cs bs \<and> MIN_BLOCK_SIZE \<le> m \<and> m \<le> MAX_BLOCK_SIZE \<and>
     announced_size m = Some k \<and> data_of its \<noteq> [] \<and> length (data_of its) \<le> MAX_I64 \<and> index_ok ix \<and>
     (\<forall>p \<in> set (offsets ix). marks its cs p) \<and> total_uncompressed ix = Some (length (data_of its)))"

text \<open>The search in the index ends at a chunk from which the reader can go on.\<close>

lemma indexed_entry:
  assumes "indexed k its trailer bs ix"
  obtains e pre i where "index_find ix a = Some e" "uncompressed e = length pre" "length pre \<le> a" "compressed e \<le> length bs"
    "feeds {k} (Suc 0) (Inside 0 k pre) (drop (compressed e) bs) (drop i its @ trailer) True"
    "pre @ data_of (drop i its @ trailer) = data_of its"
proof -
  obtain m cs where s: "stream_parts m its trailer cs bs" "MIN_BLOCK_SIZE \<le> m" "m \<le> MAX_BLOCK_SIZE" "announced_size m = Some k"
    "length (data_of its) < 2 ^ 64" and ix: "index_ok ix" "\<forall>p \<in> set (offsets ix). marks its cs p"
    using assms by (auto simp: indexed_def index_consts)
  obtain f: "feeds {k} (Suc 0) (Inside 0 k []) bs (its @ trailer) True" "skippable trailer"
    "\<And>i. i \<le> length its \<Longrightarrow> feeds {k} (Suc 0) (Inside 0 k (data_of (take i its)))
       (drop (STREAM_HEADER_LEN + length (concat (take i cs))) bs) (drop i its @ trailer) True"
    by (rule stream_feeds [OF s(1-4) _ s(5), of "{k}"]) blast+
  have sp: "spaced 0 (offsets ix)" by (rule index_ok_le [OF ix(1)])
  let ?e = "find_spec (offsets ix) a"
  have e: "index_find ix a = Some ?e" "uncompressed ?e \<le> a"
    using index_find_ok [OF sp] find_spec_greatest [OF sp] by blast+
  have "?e = zero_pair \<or> ?e \<in> set (offsets ix)"
  proof (cases "filter (\<lambda>p. uncompressed p \<le> a) (offsets ix)")
    case (Cons q qs)
    then have "last (q # qs) \<in> set (filter (\<lambda>p. uncompressed p \<le> a) (offsets ix))" by (metis last_in_set list.discI)
    then have "last (q # qs) \<in> set (offsets ix)" by auto
    with Cons show ?thesis by (simp only: find_spec_def list.case simp_thms)
  qed (simp add: find_spec_def)
  then show thesis
  proof
    assume z: "?e = zero_pair"
    show thesis
      by (rule that [of ?e "[]" 0]) (use e z f(1,2) in \<open>simp_all add: zero_pair_def skippable_data\<close>)
  next
    assume "?e \<in> set (offsets ix)"
    with ix(2) obtain j where j: "j \<le> length cs" "compressed ?e = STREAM_HEADER_LEN + length (concat (take j cs))"
      "uncompressed ?e = length (data_of (take j its))" by (auto simp: marks_def)
    obtain h ts where p: "make_stream_header m = Some h" "list_all2 (item_chunk m) its cs"
      "bs = h @ concat cs @ eof_chunk (length (data_of its)) @ concat ts" using s(1) by (auto simp: stream_parts_def)
    have l: "j \<le> length its" using j(1) list_all2_lengthD [OF p(2)] by simp
    have "concat cs = concat (take j cs) @ concat (drop j cs)" by (metis append_take_drop_id concat_append)
    then have "compressed ?e \<le> length bs" using j(2) p(3) length_header [OF p(1)] by (simp add: stream_consts)
    moreover have "data_of (take j its) @ data_of (drop j its @ trailer) = data_of its"
      using f(2) by (metis append_take_drop_id data_of_simps(3) skippable_data append_Nil2)
    ultimately show thesis using f(3) [OF l] e j(2,3) by (intro that [of ?e "data_of (take j its)" j]) simp_all
  qed
qed


section \<open>A seek\<close>

lemma sim_elim: "sim rem m m' \<Longrightarrow> m' = Some (a, s) \<Longrightarrow> \<exists>s'. m = Some (a, s') \<and> s = view rem s'"
  by (cases m) (auto simp: sim_def)

text \<open>The identifier, read again from the start of the source by a reader that stands outside a stream.\<close>

lemma refill_ahead:
  assumes "indexed k its trailer bs ix" "ahead cbs {k} (Suc 0) (data_of its) data st" "\<not> header_read st"
    and "\<forall>it \<in> set (its @ trailer). accepts cbs it"
  obtains p st' where "reader_fill_buf False slice_read (st\<lparr>rd_src := bs\<rparr>) = Some (Inr p, st')" "header_read st'"
    "ahead cbs {k} (Suc 0) (data_of its) (data_of its) st'"
proof -
  obtain m cs where s: "stream_parts m its trailer cs bs" "MIN_BLOCK_SIZE \<le> m" "m \<le> MAX_BLOCK_SIZE" "announced_size m = Some k"
    "length (data_of its) < 2 ^ 64" and ne: "data_of its \<noteq> []"
    using assms(1) by (auto simp: indexed_def index_consts)
  obtain f: "skippable trailer" "\<And>i. i \<le> length its \<Longrightarrow> feeds {k} (Suc 0) (Inside 0 k (data_of (take i its)))
       (drop (STREAM_HEADER_LEN + length (concat (take i cs))) bs) (drop i its @ trailer) True"
    "gram {k} (Between 0) (take STREAM_HEADER_LEN bs) (Inside 0 k []) []"
    by (rule stream_feeds [OF s(1-4) _ s(5), of "{k}"]) blast+
  obtain ph its' where h: "at_phase ph st" "fresh ph st" "{k} \<subseteq> {..max_block_user st}" "callbacks st = cbs"
    using assms(2) by (auto simp: ahead_def)
  let ?st = "st\<lparr>rd_src := bs\<rparr>"
  obtain n where "ph = Between n" using h(1) assms(3) by (cases ph) (auto simp: at_phase_def)
  then have o: "at_phase (Between 0) ?st" "decoded_pos ?st = length (decoded ?st)"
    using h(1,2) by (simp_all add: at_phase_def pending_def)
  obtain st1 where st1: "fill_step False slice_read ?st = Some (Inl st1)"
    "took 0 [] (Inside 0 k []) (drop STREAM_HEADER_LEN bs) ?st st1"
    using fill_step_chunk(1) [OF f(3) o, of "drop STREAM_HEADER_LEN bs"] h(3) by auto
  have a1: "ahead cbs {k} (Suc 0) (data_of its) (data_of its) st1"
    unfolding ahead_def using st1(2) f(1) f(2) [of 0] assms(4) h(3,4)
    by (intro exI [of _ "Inside 0 k []"] exI [of _ "its @ trailer"]) (simp add: took_def skippable_data)
  obtain st' where st': "fill_decoded False slice_read st1 = Some (Inr (pending st' \<noteq> []), st')"
    "ahead cbs {k} (Suc 0) (data_of its) (data_of its) st'" "pending st' \<noteq> []" "decoded_pos st' \<le> length (decoded st')"
  proof (rule fill_ahead [OF a1], goal_cases)
    case (1 st')
    show ?case by (rule 1(1) [OF 1(2,3) _ 1(6)]) (use 1(4) ne in blast)
  qed
  have "reader_fill_buf False slice_read ?st = Some (Inr (pending st'), st')"
    using st' h(1) by (simp add: reader_fill_buf_def fill_decoded_step [OF st1(1)] at_phase_def fault_simps pending_def)
  then show thesis using ahead_pending_header [OF st'(2,3)] st'(2) by (rule that)
qed

context seekable
begin

lemma seek_start_src:
  assumes "n \<le> length contents"
  obtains r where "seek_src sk (Start n) st = Some (Inr n, st\<lparr>rd_src := r\<rparr>)" "remaining r = drop n contents"
  using seek_start [OF assms] by (cases "sk (Start n) (rd_src st)") (auto simp: seek_src_def)

lemma seek_to_ok:
  fixes st :: "('r, 'c) reader"
  assumes ix: "indexed k its trailer contents ix" and st: "ahead cbs {k} (Suc 0) (data_of its) data (view remaining st)"
    and acc: "\<forall>it \<in> set (its @ trailer). accepts cbs it" and a: "a \<le> length (data_of its)"
  obtains st' where "seek_to False rd sk a ix st = Some (Inr a, st')"
    "ahead cbs {k} (Suc 0) (data_of its) (drop a (data_of its)) (view remaining st')"
proof -
  let ?D = "data_of its" and ?ahead = "ahead cbs {k} (Suc 0) (data_of its)"
  have big: "length ?D < 2 ^ 64" using ix by (auto simp: indexed_def index_consts)
  obtain st1 data1 where st1: "(if \<not> header_read st then
         with_st (seek_src sk (Start 0) st) (\<lambda>_ st. with_st (reader_fill_buf False rd st) (\<lambda>_ st. Some (Inr (), st)))
       else Some (Inr (), st)) = Some (Inr (), st1)" "?ahead data1 (view remaining st1)" "header_read st1"
  proof (cases "header_read st")
    case True
    with that st show thesis by auto
  next
    case False
    obtain r where r: "seek_src sk (Start 0) st = Some (Inr 0, st\<lparr>rd_src := r\<rparr>)" "remaining r = contents"
      using seek_start_src [of 0 st] by auto
    obtain p st' where "reader_fill_buf False slice_read ((view remaining st)\<lparr>rd_src := contents\<rparr>) = Some (Inr p, st')"
      "header_read st'" "?ahead ?D st'" by (rule refill_ahead [OF ix st _ acc]) (use False in simp)
    moreover have "(view remaining st)\<lparr>rd_src := contents\<rparr> = view remaining (st\<lparr>rd_src := r\<rparr>)"
      by (simp flip: r(2))
    ultimately obtain st'' where "reader_fill_buf False rd (st\<lparr>rd_src := r\<rparr>) = Some (Inr p, st'')" "st' = view remaining st''"
      using sim_elim [OF reader_fill_buf_sim [of False "st\<lparr>rd_src := r\<rparr>"]] by metis
    with that \<open>header_read st'\<close> \<open>?ahead ?D st'\<close> False r(1) show thesis by simp
  qed
  note off = ahead_offset [OF st1(2), simplified]
  have chk: "chk_u64 (block_start st1 + length (decoded st1)) = Some (block_start st1 + length (decoded st1))"
    using off(3) big by (simp add: chk_u64_def)
  show thesis
  proof (cases "block_start st1 \<le> a \<and> a < block_start st1 + length (decoded st1)")
    case True
    have "?ahead (drop a ?D) (view remaining (st1\<lparr>decoded_pos := a - block_start st1\<rparr>))"
      using ahead_move [OF st1(2), of a] True st1(3) by simp
    with True that show thesis unfolding seek_to_def st1(1) with_st_simps chk by simp
  next
    case False
    obtain e pre i where e: "index_find ix a = Some e" "uncompressed e = length pre" "length pre \<le> a" "compressed e \<le> length contents"
      "feeds {k} (Suc 0) (Inside 0 k pre) (drop (compressed e) contents) (drop i its @ trailer) True"
      "pre @ data_of (drop i its @ trailer) = ?D"
      by (rule indexed_entry [OF ix])
    obtain r where r: "seek_src sk (Start (compressed e)) st1 = Some (Inr (compressed e), st1\<lparr>rd_src := r\<rparr>)"
      "remaining r = drop (compressed e) contents" by (rule seek_start_src [OF e(4)])
    let ?st = "st1\<lparr>rd_src := r, decoded := [], decoded_pos := 0, block_start := length pre\<rparr>"
    have "\<forall>it \<in> set (drop i its @ trailer). accepts cbs it" using acc by (auto dest: in_set_dropD)
    from ahead_jump [OF st1(2) _ big e(5,6) this] st1(3)
    have j: "?ahead (data_of (drop i its @ trailer)) (view remaining ?st)" by (simp flip: r(2))
    have d: "drop a ?D = drop (a - length pre) (data_of (drop i its @ trailer))" using e(3) by (simp flip: e(6))
    have n: "a - length pre \<le> length (data_of (drop i its @ trailer))" using a by (simp flip: e(6))
    obtain st' where st': "(if length pre < a then reader_skip False rd (a - length pre) ?st else Some (Inr (), ?st)) = Some (Inr (), st')"
      "?ahead (drop a ?D) (view remaining st')"
    proof (cases "length pre < a")
      case True
      obtain s where "reader_skip False slice_read (a - length pre) (view remaining ?st) = Some (Inr (), s)" "?ahead (drop a ?D) s"
        using reader_skip_ok(1) [OF j n] by (auto simp: d)
      moreover from sim_elim [OF reader_skip_sim this(1)] obtain s' where
        "reader_skip False rd (a - length pre) ?st = Some (Inr (), s')" "s = view remaining s'" by blast
      ultimately show thesis using True that by simp
    next
      case False
      with e(3) have "a = length pre" by simp
      with d have "drop a ?D = data_of (drop i its @ trailer)" by simp
      with that [of ?st] j False show thesis by simp
    qed
    show thesis
    proof (rule that)
      show "seek_to False rd sk a ix st = Some (Inr a, st')"
        unfolding seek_to_def st1(1) with_st_simps chk Option.bind_lunit if_not_P [OF False] e(1) r(1) e(2) Let_def st'(1)
        using e(3) by simp
      show "?ahead (drop a ?D) (view remaining st')" by (rule st'(2))
    qed
  qed
qed

end


section \<open>A file\<close>

text \<open>What a client does with the seeker, and what it is told.\<close>

datatype seeker_op = Seek_Op seek_from | Read_Op nat | Read_At_Op nat nat | Read_Exact_At_Op nat nat

datatype seeker_out = Sought nat | Got bytes | Refused io_error

fun seeker_call ::
  "bool \<Rightarrow> 'r reader_fn \<Rightarrow> 'r seek_fn \<Rightarrow> seeker_op \<Rightarrow> ('r, 'c) read_seeker \<Rightarrow> (seeker_out \<times> ('r, 'c) read_seeker) option" where
  "seeker_call be rd sk (Seek_Op pos) s = map_option (map_prod (case_sum Refused Sought) id) (seek_uncompressed be rd sk pos s)"
| "seeker_call be rd sk (Read_Op n) s = map_option (map_prod (case_sum Refused Got) id) (seeker_read be rd n s)"
| "seeker_call be rd sk (Read_At_Op n off) s = map_option (map_prod (case_sum Refused Got) id) (read_at be rd sk n off s)"
| "seeker_call be rd sk (Read_Exact_At_Op n off) s =
     map_option (map_prod (case_sum Refused Got) id) (read_exact_at be rd sk n off s)"

fun run_seeker ::
  "bool \<Rightarrow> 'r reader_fn \<Rightarrow> 'r seek_fn \<Rightarrow> seeker_op list \<Rightarrow> ('r, 'c) read_seeker \<Rightarrow> (seeker_out list \<times> ('r, 'c) read_seeker) option" where
  "run_seeker be rd sk [] s = Some ([], s)"
| "run_seeker be rd sk (op # ops) s = do {
     (out, s) \<leftarrow> seeker_call be rd sk op s;
     (outs, s) \<leftarrow> run_seeker be rd sk ops s;
     Some (out # outs, s) }"

text \<open>
  The same for a file of the bytes \<open>D\<close> at an offset: a seek goes to the offset it names when that lies
  within the file, its end included; what is refused moves nothing, but a read of an exact length that
  finds too little has read to the end.
\<close>

fun sought :: "seek_from \<Rightarrow> nat \<Rightarrow> bytes \<Rightarrow> int" where
  "sought (Start n) a D = int n"
| "sought (Current d) a D = int a + d"
| "sought (End d) a D = int (length D) + d"

inductive file_call :: "bytes \<Rightarrow> seeker_op \<Rightarrow> nat \<Rightarrow> seeker_out \<Rightarrow> nat \<Rightarrow> bool" for D where
  Moves: "sought pos a D = int b \<Longrightarrow> b \<le> length D \<Longrightarrow> file_call D (Seek_Op pos) a (Sought b) b"
| Refuses: "sought pos a D < 0 \<or> int (length D) < sought pos a D \<Longrightarrow> file_call D (Seek_Op pos) a (Refused e) a"
| Reads: "p = take (length p) (drop a D) \<Longrightarrow> length p \<le> n \<Longrightarrow> p = [] \<longrightarrow> n = 0 \<or> length D \<le> a \<Longrightarrow>
    file_call D (Read_Op n) a (Got p) (a + length p)"
| Reads_At: "off \<le> length D \<Longrightarrow> p = take n (drop off D) \<Longrightarrow> file_call D (Read_At_Op n off) a (Got p) (off + length p)"
| Refuses_At: "length D < off \<Longrightarrow> file_call D (Read_At_Op n off) a (Refused e) a"
| Exactly: "off + n \<le> length D \<Longrightarrow> p = take n (drop off D) \<Longrightarrow> file_call D (Read_Exact_At_Op n off) a (Got p) (off + n)"
| Too_Short: "off \<le> length D \<Longrightarrow> length D < off + n \<Longrightarrow> kind e = UnexpectedEof \<Longrightarrow>
    file_call D (Read_Exact_At_Op n off) a (Refused e) (length D)"
| Refuses_Exact: "length D < off \<Longrightarrow> file_call D (Read_Exact_At_Op n off) a (Refused e) a"

inductive file_run :: "bytes \<Rightarrow> seeker_op list \<Rightarrow> nat \<Rightarrow> seeker_out list \<Rightarrow> nat \<Rightarrow> bool" for D where
  "file_run D [] a [] a"
| "file_call D op a out b \<Longrightarrow> file_run D ops b outs c \<Longrightarrow> file_run D (op # ops) a (out # outs) c"

definition stands ::
  "('r \<Rightarrow> bytes) \<Rightarrow> 'c user_chunk_cb option list \<Rightarrow> nat \<Rightarrow> bytes \<Rightarrow> index \<Rightarrow> nat \<Rightarrow> ('r, 'c) read_seeker \<Rightarrow> bool" where
  "stands rem cbs k D ix a s \<longleftrightarrow> sk_index s = ix \<and> a \<le> length D \<and>
     ahead cbs {k} (Suc 0) D (drop a D) (view rem (sk_reader s))"

lemma seek_target_ok:
  assumes "stands rem cbs k D ix a s" "total_uncompressed ix = Some (length D)" "length D \<le> MAX_I64"
  shows "0 \<le> sought pos a D \<and> sought pos a D \<le> int (length D) \<Longrightarrow> seek_target pos s = Some (Inr (nat (sought pos a D)))"
    and "sought pos a D < 0 \<or> int (length D) < sought pos a D \<Longrightarrow> \<exists>e. seek_target pos s = Some (Inl e)"
proof -
  have "block_start (sk_reader s) + decoded_pos (sk_reader s) = a" "a < 2 ^ 64"
    using assms ahead_offset(1) [of cbs "{k}" D "drop a D" "view rem (sk_reader s)"]
    by (auto simp: stands_def index_consts)
  then have "current_offset (sk_reader s) = Some a" by (simp add: current_offset_def chk_u64_def)
  then show "0 \<le> sought pos a D \<and> sought pos a D \<le> int (length D) \<Longrightarrow> seek_target pos s = Some (Inr (nat (sought pos a D)))"
    "sought pos a D < 0 \<or> int (length D) < sought pos a D \<Longrightarrow> \<exists>e. seek_target pos s = Some (Inl e)"
    using assms by (cases pos; force simp: seek_target_def stands_def offset_to_i64_def offset_add_def chk_i64_def index_consts
        split: option.splits sum.splits if_splits)+
qed

context seekable
begin

lemma seek_uncompressed_ok:
  fixes s :: "('r, 'c) read_seeker"
  assumes ix: "indexed k its trailer contents ix" and acc: "\<forall>it \<in> set (its @ trailer). accepts cbs it"
    and st: "stands remaining cbs k (data_of its) ix a s"
  shows "0 \<le> sought pos a (data_of its) \<and> sought pos a (data_of its) \<le> int (length (data_of its)) \<Longrightarrow>
      \<exists>s'. seek_uncompressed False rd sk pos s = Some (Inr (nat (sought pos a (data_of its))), s') \<and>
        stands remaining cbs k (data_of its) ix (nat (sought pos a (data_of its))) s'"
    and "sought pos a (data_of its) < 0 \<or> int (length (data_of its)) < sought pos a (data_of its) \<Longrightarrow>
      \<exists>e. seek_uncompressed False rd sk pos s = Some (Inl e, s)"
proof -
  let ?D = "data_of its"
  have tot: "total_uncompressed ix = Some (length ?D)" "length ?D \<le> MAX_I64" using ix by (auto simp: indexed_def)
  note a = st [unfolded stands_def]
  have e: "rd_err (sk_reader s) = None" using ahead_offset(5) a by fastforce
  note t = seek_target_ok [OF st tot]
  show "\<exists>s'. seek_uncompressed False rd sk pos s = Some (Inr (nat (sought pos a ?D)), s') \<and>
      stands remaining cbs k ?D ix (nat (sought pos a ?D)) s'"
    if b: "0 \<le> sought pos a ?D \<and> sought pos a ?D \<le> int (length ?D)"
  proof -
    have le: "nat (sought pos a ?D) \<le> length ?D" using b by linarith
    obtain st' where "seek_to False rd sk (nat (sought pos a ?D)) ix (sk_reader s) = Some (Inr (nat (sought pos a ?D)), st')"
      "ahead cbs {k} (Suc 0) ?D (drop (nat (sought pos a ?D)) ?D) (view remaining st')"
      using seek_to_ok [OF ix _ acc le] a by blast
    with t(1) [OF b] e a le show ?thesis
      by (simp add: seek_uncompressed_def on_reader_def stands_def)
  qed
  show "\<exists>e. seek_uncompressed False rd sk pos s = Some (Inl e, s)"
    if "sought pos a ?D < 0 \<or> int (length ?D) < sought pos a ?D"
    using t(2) [OF that] e by (auto simp: seek_uncompressed_def)
qed

lemma seeker_read_ok:
  fixes s :: "('r, 'c) read_seeker"
  assumes "stands remaining cbs k D ix a s"
  obtains p s' where "on_reader (reader_read False rd n (sk_reader s)) s = Some (Inr p, s')" "p = take (length p) (drop a D)"
    "length p \<le> n" "p = [] \<longrightarrow> n = 0 \<or> length D \<le> a" "stands remaining cbs k D ix (a + length p) s'"
proof (cases "n = 0")
  case True
  have "rd_err (sk_reader s) = None" using ahead_offset(5) assms by (fastforce simp: stands_def)
  with True that [of "[]" s] assms show thesis by (simp add: reader_read_def on_reader_def)
next
  case False
  have st: "ahead cbs {k} (Suc 0) D (drop a D) (view remaining (sk_reader s))" "a \<le> length D" "sk_index s = ix"
    using assms by (simp_all add: stands_def)
  obtain p v where p: "reader_read False slice_read n (view remaining (sk_reader s)) = Some (Inr p, v)"
    "drop a D = p @ drop (length p) (drop a D)" "ahead cbs {k} (Suc 0) D (drop (length p) (drop a D)) v" "length p \<le> n"
    "p = [] \<Longrightarrow> drop a D = []" using reader_read_ok [OF st(1), of n] False by blast
  obtain st' where st': "reader_read False rd n (sk_reader s) = Some (Inr p, st')" "v = view remaining st'"
    using sim_elim [OF reader_read_sim p(1)] by blast
  have "length p \<le> length D - a" using arg_cong [OF p(2), of length] by simp
  moreover have "p = take (length p) (drop a D)" using p(2) by (metis append_eq_conv_conj)
  ultimately show thesis
    using p(3-5) st st' by (intro that [of p "s\<lparr>sk_reader := st'\<rparr>"]) (auto simp: on_reader_def stands_def add.commute)
qed

lemma read_at_loop:
  fixes s :: "('r, 'c) read_seeker"
  assumes "stands remaining cbs k D ix off s"
  obtains s' where "loop (read_at_step False rd n) ([], s) = Some (Inr (take n (drop off D)), s')"
    "stands remaining cbs k D ix (off + length (take n (drop off D))) s'"
proof -
  define I where "I = (\<lambda>(got, t). got = take (length got) (drop off D) \<and> length got \<le> n \<and>
    stands remaining cbs k D ix (off + length got) t)"
  have "\<exists>r. loop (read_at_step False rd n) ([], s) = Some r \<and>
    (\<exists>s'. r = (Inr (take n (drop off D)), s') \<and> stands remaining cbs k D ix (off + length (take n (drop off D))) s')"
  proof (rule loop_total [where I = I and m = "\<lambda>(got, t). n - length got"], goal_cases)
    case 1
    show ?case using assms by (simp add: I_def)
  next
    case (2 x)
    obtain got t where x: "x = (got, t)" by (cases x)
    with 2 have got: "got = take (length got) (drop off D)" "length got \<le> n" "stands remaining cbs k D ix (off + length got) t"
      by (simp_all add: I_def)
    show ?case
    proof (cases "length got < n")
      case True
      obtain p s' where p: "on_reader (reader_read False rd (n - length got) (sk_reader t)) t = Some (Inr p, s')"
        "p = take (length p) (drop (off + length got) D)" "length p \<le> n - length got"
        "p = [] \<longrightarrow> n - length got = 0 \<or> length D \<le> off + length got" "stands remaining cbs k D ix (off + length got + length p) s'"
        by (rule seeker_read_ok [OF got(3)])
      show ?thesis
      proof (cases "p = []")
        case empty: True
        with p(4) True have "length D \<le> off + length got" by simp
        with got(1,2) have "take n (drop off D) = got" by (metis take_all_iff length_drop le_diff_conv add.commute take_all)
        with empty True p(1,5) show ?thesis by (simp add: x read_at_step_def)
      next
        case False
        have gp: "got @ p = take (length (got @ p)) (drop off D)"
          using got(1) p(2) by (metis drop_drop length_append take_add add.commute)
        moreover have "length (got @ p) \<le> n" "stands remaining cbs k D ix (off + length (got @ p)) s'"
          using p(3,5) True by (simp_all add: add.assoc)
        ultimately have "I (got @ p, s')" unfolding I_def by blast
        moreover have "n - length (got @ p) < n - length got" using False True by (cases p) auto
        moreover have "read_at_step False rd n x = Some (Inl (got @ p, s'))" using p(1) True False by (simp add: x read_at_step_def)
        ultimately show ?thesis by (simp add: x)
      qed
    next
      case False
      with got have "got = take n (drop off D)" by simp
      with False got(3) show ?thesis by (simp add: x read_at_step_def)
    qed
  qed
  with that show thesis by blast
qed

lemma read_at_ok:
  fixes s :: "('r, 'c) read_seeker"
  assumes ix: "indexed k its trailer contents ix" and acc: "\<forall>it \<in> set (its @ trailer). accepts cbs it"
    and st: "stands remaining cbs k (data_of its) ix a s"
  shows "off \<le> length (data_of its) \<Longrightarrow> \<exists>s'. read_at False rd sk n off s = Some (Inr (take n (drop off (data_of its))), s') \<and>
      stands remaining cbs k (data_of its) ix (off + length (take n (drop off (data_of its)))) s'"
    and "length (data_of its) < off \<Longrightarrow> \<exists>e. read_at False rd sk n off s = Some (Inl e, s)"
proof -
  note seek = seek_uncompressed_ok [OF ix acc st, of "Start off", unfolded sought.simps]
  show "\<exists>s'. read_at False rd sk n off s = Some (Inr (take n (drop off (data_of its))), s') \<and>
      stands remaining cbs k (data_of its) ix (off + length (take n (drop off (data_of its)))) s'" if le: "off \<le> length (data_of its)"
  proof -
    obtain t where t: "seek_uncompressed False rd sk (Start off) s = Some (Inr off, t)"
      "stands remaining cbs k (data_of its) ix off t" using seek(1) le by auto
    show ?thesis by (rule read_at_loop [OF t(2), of n]) (simp add: read_at_def t(1))
  qed
  show "\<exists>e. read_at False rd sk n off s = Some (Inl e, s)" if "length (data_of its) < off"
    using seek(2) that by (auto simp: read_at_def)
qed

text \<open>Every call does to the seeker what it does to the file.\<close>

lemma seeker_call_ok:
  fixes s :: "('r, 'c) read_seeker"
  assumes ix: "indexed k its trailer contents ix" and acc: "\<forall>it \<in> set (its @ trailer). accepts cbs it"
    and st: "stands remaining cbs k (data_of its) ix a s"
  shows "\<exists>out s' b. seeker_call False rd sk op s = Some (out, s') \<and> file_call (data_of its) op a out b \<and>
    stands remaining cbs k (data_of its) ix b s'"
proof (cases op)
  case (Seek_Op pos)
  let ?t = "sought pos a (data_of its)"
  show ?thesis
  proof (cases "0 \<le> ?t \<and> ?t \<le> int (length (data_of its))")
    case True
    then have "file_call (data_of its) op a (Sought (nat ?t)) (nat ?t)" unfolding Seek_Op by (intro file_call.Moves) auto
    with seek_uncompressed_ok(1) [OF assms True] show ?thesis by (auto simp: Seek_Op)
  next
    case False
    then have "?t < 0 \<or> int (length (data_of its)) < ?t" by linarith
    with seek_uncompressed_ok(2) [OF assms this] file_call.Refuses [OF this] st show ?thesis by (force simp: Seek_Op)
  qed
next
  case (Read_Op n)
  show ?thesis
    by (rule seeker_read_ok [OF st, of n]) (auto simp: Read_Op seeker_read_def intro!: file_call.Reads)
next
  case (Read_At_Op n off)
  show ?thesis
  proof (cases "off \<le> length (data_of its)")
    case True
    from read_at_ok(1) [OF assms True, of n] file_call.Reads_At [OF True refl, of n a] show ?thesis by (auto simp: Read_At_Op)
  next
    case False
    then have lt: "length (data_of its) < off" by simp
    from read_at_ok(2) [OF assms lt, of n] file_call.Refuses_At [OF lt, of n a] st show ?thesis by (force simp: Read_At_Op)
  qed
next
  case (Read_Exact_At_Op n off)
  show ?thesis
  proof (cases "off \<le> length (data_of its)")
    case True
    let ?p = "take n (drop off (data_of its))"
    obtain s' where s': "read_at False rd sk n off s = Some (Inr ?p, s')"
      "stands remaining cbs k (data_of its) ix (off + length ?p) s'" using read_at_ok(1) [OF assms True] by blast
    show ?thesis
    proof (cases "off + n \<le> length (data_of its)")
      case True
      then have "length ?p = n" by simp
      with s' file_call.Exactly [OF True refl, of a] show ?thesis by (auto simp: Read_Exact_At_Op read_exact_at_def)
    next
      case False
      then have lt: "length (data_of its) < off + n" by simp
      let ?e = "Io_Error UnexpectedEof ''unexpected end of file''"
      have "file_call (data_of its) op a (Refused ?e) (length (data_of its))"
        unfolding Read_Exact_At_Op by (rule file_call.Too_Short [OF True lt]) simp
      moreover have "length ?p < n" "off + length ?p = length (data_of its)" using True lt by auto
      ultimately show ?thesis using s' by (auto simp: Read_Exact_At_Op read_exact_at_def)
    qed
  next
    case False
    then have lt: "length (data_of its) < off" by simp
    from read_at_ok(2) [OF assms lt, of n] file_call.Refuses_Exact [OF lt, of n a] st show ?thesis
      by (force simp: Read_Exact_At_Op read_exact_at_def)
  qed
qed

lemma run_seeker_ok:
  fixes s :: "('r, 'c) read_seeker"
  assumes ix: "indexed k its trailer contents ix" and acc: "\<forall>it \<in> set (its @ trailer). accepts cbs it"
    and st: "stands remaining cbs k (data_of its) ix a s"
  shows "\<exists>outs s' b. run_seeker False rd sk ops s = Some (outs, s') \<and> file_run (data_of its) ops a outs b"
  using st
proof (induction ops arbitrary: a s)
  case Nil
  then show ?case by (auto intro: file_run.intros)
next
  case (Cons op ops)
  obtain out s1 b where 1: "seeker_call False rd sk op s = Some (out, s1)" "file_call (data_of its) op a out b"
    "stands remaining cbs k (data_of its) ix b s1" using seeker_call_ok [OF ix acc Cons.prems] by blast
  obtain outs s2 c where "run_seeker False rd sk ops s1 = Some (outs, s2)" "file_run (data_of its) ops b outs c"
    using Cons.IH [OF 1(3)] by blast
  with 1 show ?case by (auto intro: file_run.intros)
qed

section \<open>Loading the index\<close>

text \<open>An index at the very end of the source is found there.\<close>

lemma index_load_stream_ok:
  assumes c: "contents = pre @ ib" "ib = envelope p" "length p < 2 ^ 23" and l: "index_load ib old = Some (Inr [], ix)"
  obtains r' where "index_load_stream rd sk r old = Some (Inr (), ix, r')"
proof -
  have len: "length ib = length p + 20" by (simp add: c(2) envelope_def length_index_marks)
  have tail: "drop (length contents - 10) contents = to_le_bytes (of_nat (length p + 20)) @ INDEX_TRAILER"
  proof -
    let ?h = "pre @ CHUNK_TYPE_INDEX # len_bytes (length p + 16) @ INDEX_HEADER @ p"
    have "contents = ?h @ to_le_bytes (of_nat (length p + 20)) @ INDEX_TRAILER" by (simp add: c(1,2) envelope_def)
    moreover have "length contents - 10 = length ?h" using len by (simp add: c(1) length_index_marks)
    ultimately show ?thesis by (metis append_eq_conv_conj)
  qed
  have le: "10 \<le> length contents" "length ib \<le> length contents" using len c(1) by simp_all
  obtain r1 where r1: "sk (End (- 10)) r = (Inr (length contents - 10), r1)" "remaining r1 = drop (length contents - 10) contents"
    using seek_end [OF le(1)] by (cases "sk (End (- 10)) r") auto
  let ?tail = "to_le_bytes (of_nat (length p + 20)) @ INDEX_TRAILER"
  obtain r2 where r2: "read_exact rd 10 r1 = Some (Inr ?tail, r2)"
    using read_exact_ok [of 10 r1] by (auto simp: r1(2) tail length_index_marks)
  have sz: "unat (of_nat (length p + 20) :: u32) = length ib"
    unfolding len unat_of_nat using c(3) by simp
  obtain r3 where r3: "sk (End (- int (length ib))) r2 = (Inr (length contents - length ib), r3)"
    "remaining r3 = drop (length contents - length ib) contents"
    using seek_end [OF le(2)] by (cases "sk (End (- int (length ib))) r2") auto
  have "drop (length contents - length ib) contents = ib" by (simp add: c(1))
  then obtain r4 where r4: "read_exact rd (length ib) r3 = Some (Inr ib, r4)"
    using read_exact_ok [of "length ib" r3] by (auto simp: r3(2))
  have lim: "\<not> MAX_USER_CHUNK_SIZE + SKIPPABLE_FRAME_HEADER < length ib"
    using c(3) by (simp add: len stream_consts SKIPPABLE_FRAME_HEADER_def)
  have "slice ?tail 4 (4 + length INDEX_TRAILER) = Some INDEX_TRAILER" by (simp add: slice_def length_index_marks)
  then have "index_load_stream rd sk r old = Some (Inr (), ix, r4)"
    using r1 r2 r3 r4 l lim by (simp add: index_load_stream_def sz del: of_nat_add)
  then show thesis by (rule that)
qed

text \<open>A new seeker stands at the start of the file, with its index given or loaded.\<close>

lemma stands_new:
  assumes ix: "indexed k its trailer contents ix" and b: "k \<le> rb_max_block_size b" "length (rb_callbacks b) = USER_CB_COUNT"
    "\<forall>it \<in> set (its @ trailer). accepts (rb_callbacks b) it" "\<not> rb_ignore_stream_id b" and r: "remaining r = contents"
  shows "stands remaining (rb_callbacks b) k (data_of its) ix 0 \<lparr>sk_reader = reader_with_builder r env b, sk_index = ix\<rparr>"
proof -
  obtain m cs where s: "stream_parts m its trailer cs contents" "MIN_BLOCK_SIZE \<le> m" "m \<le> MAX_BLOCK_SIZE" "announced_size m = Some k"
    "length (data_of its) < 2 ^ 64" using ix by (auto simp: indexed_def index_consts)
  obtain f: "feeds {k} (Suc 0) (Between 0) contents (its @ trailer) True" "skippable trailer"
    by (rule stream_feeds [OF s(1-4) _ s(5), of "{k}"]) blast+
  have "ahead (rb_callbacks b) {k} (Suc 0) (data_of its) (data_of (its @ trailer)) (reader_with_builder contents env b)"
    by (rule ahead_feeds [OF f(1) _ b(2-4)]) (use b(1) f(2) in \<open>simp_all add: skippable_data\<close>)
  then show ?thesis by (simp add: stands_def view_reader_with_builder r skippable_data [OF f(2)])
qed

lemma seeker_new_ok:
  assumes ix: "indexed k its trailer contents ix" and b: "k \<le> rb_max_block_size b" "length (rb_callbacks b) = USER_CB_COUNT"
    "\<forall>it \<in> set (its @ trailer). accepts (rb_callbacks b) it" "\<not> rb_ignore_stream_id b" and r: "remaining r = contents"
    and l: "index_load ib index_default = Some (Inr [], ix)" and p: "ib = envelope p" "length p < 2 ^ 23"
    and given: "index_bytes = ib \<or> index_bytes = [] \<and> (\<exists>pre. contents = pre @ ib)"
  obtains s where "seeker_new rd sk (reader_with_builder r env b) index_bytes = Some (Inr s)"
    "stands remaining (rb_callbacks b) k (data_of its) ix 0 s"
  using given
proof
  assume ib: "index_bytes = ib"
  have "looks_like_full_index_chunk ib"
    by (simp add: looks_like_full_index_chunk_def p(1) envelope_def length_index_marks)
  moreover have "ib \<noteq> []" by (simp add: p(1) envelope_def)
  ultimately have "seeker_new rd sk (reader_with_builder r env b) index_bytes =
      Some (Inr \<lparr>sk_reader = reader_with_builder r env b, sk_index = ix\<rparr>)"
    using l by (simp add: seeker_new_def ib)
  then show thesis by (rule that) (rule stands_new [OF ix b r])
next
  assume "index_bytes = [] \<and> (\<exists>pre. contents = pre @ ib)"
  then obtain pre where pre: "index_bytes = []" "contents = pre @ ib" by blast
  then have ne: "contents \<noteq> []" by (simp add: p(1) envelope_def)
  obtain n r1 where c: "sk (Current 0) r = (Inr n, r1)" "remaining r = drop n contents"
    using seek_current [of r] by (cases "sk (Current 0) r") force
  have n: "n = 0"
  proof (rule ccontr)
    assume "n \<noteq> 0"
    with arg_cong [OF c(2), of length] ne r show False by (cases contents) simp_all
  qed
  obtain r2 where ls: "index_load_stream rd sk r1 index_default = Some (Inr (), ix, r2)"
    by (rule index_load_stream_ok [OF pre(2) p l])
  obtain r3 where s0: "sk (Start 0) r2 = (Inr 0, r3)" "remaining r3 = contents"
    using seek_start [of 0 r2] by (cases "sk (Start 0) r2") auto
  have "rd_src (reader_with_builder r env b) = r" "(reader_with_builder r env b)\<lparr>rd_src := r3\<rparr> = reader_with_builder r3 env b"
    by (simp_all add: reader_with_builder_def)
  then have "seeker_new rd sk (reader_with_builder r env b) index_bytes =
      Some (Inr \<lparr>sk_reader = reader_with_builder r3 env b, sk_index = ix\<rparr>)"
    by (simp add: seeker_new_def pre(1) c(1) n ls s0(1))
  then show thesis by (rule that) (rule stands_new [OF ix b s0(2)])
qed

end

text \<open>What a writer leaves, when it has appended the index of some data.\<close>

lemma closed_indexed:
  assumes "closed contents base m pad app True its ib w" "MIN_BLOCK_SIZE \<le> m" "m \<le> MAX_BLOCK_SIZE" "announced_size m = Some k"
    and "data_of its \<noteq> []" "length (data_of its) \<le> MAX_I64"
  obtains trailer bs ix p where "contents w = base @ bs" "indexed k its trailer bs ix" "skippable trailer"
    "index_load ib index_default = Some (Inr [], ix)" "ib = envelope p" "length p < 2 ^ 23" "app \<Longrightarrow> \<exists>pre. bs = pre @ ib"
proof -
  obtain trailer cs bs where c: "contents w = base @ bs" "stream_parts m its trailer cs bs" "index_for its cs ib"
    "app \<longrightarrow> (\<exists>pre. bs = pre @ ib)" using assms(1) by (auto simp: closed_def)
  obtain ix p where ix: "\<And>rest old. index_load (ib @ rest) old = Some (Inr rest, ix)" "index_ok ix"
    "\<forall>p \<in> set (offsets ix). marks its cs p" "total_uncompressed ix = Some (length (data_of its))"
    "ib = envelope p" "length p < 2 ^ 23" using c(3) by (auto simp: index_for_def)
  have "indexed k its trailer bs ix" using c(2) assms(2-6) ix(2-4) unfolding indexed_def by blast
  moreover have "skippable trailer" using c(2) by (auto simp: stream_parts_def)
  ultimately show thesis using c(1,4) ix(1) [of "[]"] ix(5,6) by (intro that) simp_all
qed

end
