(* ===== verification/Mt_Pipeline.thy ===== *)
theory Mt_Pipeline
  imports Io
begin

text \<open>
  Threads and channels, as \<^verbatim>\<open>stream/mt_writer.rs\<close> and \<^verbatim>\<open>stream/mt_reader.rs\<close> connect them: a client queues items for
  a writer thread and hands jobs to workers; the writer thread handles the items in their order, each job's
  item with what a worker made of the job. Jobs are numbered in the order of their submission; the number
  stands for the channel through which a job's result comes back. The queue of the writer thread holds
  one item more than there are workers, and each worker has a slot for one job. A step is a step of the
  client, of some worker or of the writer thread; a thread that has to wait has none. What the threads do
  by themselves are the fields of \<open>threads\<close>, which the concurrent writer and the concurrent reader give.
\<close>

section \<open>The client\<close>

text \<open>
  What the client does, up to its first error, is determined by itself alone: it looks at the slot where
  an error of the writer thread is recorded, queues bytes, queues a job and hands it to a worker, or fails.
  What the client of the writer does after an error, and what the client of the reader has read ahead, no
  other thread sees; the client is the list of its actions.
\<close>

datatype 'b mt_act = Act_Check | Act_Raw bytes | Act_Block 'b | Act_Fail io_error

section \<open>The state\<close>

type_synonym 'b mt_job = "nat \<times> 'b"

datatype order_item = Order_Raw bytes | Order_Block nat

text \<open>
  The client runs its actions, looks for a worker for a job (at a slot, after so many that were full),
  waits for a slot, or has closed the channels: to finish, or, after an error, to be dropped.
\<close>

datatype ('b, 'r) client_state =
    Running "'b mt_act list"
  | Dispatching "'b mt_job" nat nat "'b mt_act list"
  | Waiting "'b mt_job" nat "'b mt_act list"
  | Closing "io_error option"
  | Returned "io_error + 'r"

datatype 'b worker_state = Idle | Busy "'b mt_job" | Dead

datatype thread_state = Receiving | Awaiting nat | Ended "(io_error + unit) option"

record ('b, 'o, 't, 'r) pipeline =
  mt_client :: "('b, 'r) client_state"
  mt_next_worker :: nat
  mt_next_block :: nat
  mt_slots :: "'b mt_job option list"
  mt_workers :: "'b worker_state list"
  mt_order :: "order_item list"
  mt_results :: "nat \<Rightarrow> 'o option option"
  mt_state :: thread_state
  mt_thread :: 't
  mt_err :: "io_error option"

text \<open>A pipeline of \<open>n\<close> workers, whose client is going to do these actions.\<close>

definition start_pipeline :: "nat \<Rightarrow> 't \<Rightarrow> 'b mt_act list \<Rightarrow> ('b, 'o, 't, 'r) pipeline" where
  "start_pipeline n t acts = \<lparr>mt_client = Running acts, mt_next_worker = 0, mt_next_block = 0,
     mt_slots = replicate n None, mt_workers = replicate n Idle, mt_order = [], mt_results = (\<lambda>_. None),
     mt_state = Receiving, mt_thread = t, mt_err = None\<rparr>"

section \<open>What the threads do\<close>

text \<open>
  What a worker makes of a job, where None is a panic; what the writer thread does with queued bytes, with
  what a worker sent back, and when the queue is closed; what the client gets from it in the end; one
  attempt of the client to find a worker for a job, which gets where it looks and after how many attempts;
  and the errors of a closed queue, given the one that is recorded, of a dead worker, and of a writer
  thread that panicked.
\<close>

type_synonym 't thread_res = "((io_error + unit) \<times> 't) option"

record ('b, 'o, 't, 'r) threads =
  do_job :: "'b \<Rightarrow> 'o option"
  put_raw :: "bytes \<Rightarrow> 't \<Rightarrow> 't thread_res"
  put_result :: "'o \<Rightarrow> 't \<Rightarrow> 't thread_res"
  put_close :: "'t \<Rightarrow> 't thread_res"
  outcome :: "'t \<Rightarrow> 'r"
  try_job :: "'b mt_job \<Rightarrow> nat \<Rightarrow> nat \<Rightarrow> 'b mt_act list \<Rightarrow> ('b, 'o, 't, 'r) pipeline \<Rightarrow> ('b, 'o, 't, 'r) pipeline"
  queue_error :: "io_error option \<Rightarrow> io_error"
  pool_error :: "io_error option \<Rightarrow> io_error"
  exit_error :: io_error

section \<open>The steps of the client\<close>

text \<open>\<^verbatim>\<open>io::Error::other\<close>.\<close>

definition other_error :: "string \<Rightarrow> io_error" where
  "other_error m = Io_Error (OtherKind 0) m"

definition client_open :: "('b, 'o, 't, 'r) pipeline \<Rightarrow> bool" where
  "client_open s = (case mt_client s of Closing _ \<Rightarrow> False | Returned _ \<Rightarrow> False | _ \<Rightarrow> True)"

definition thread_ended :: "('b, 'o, 't, 'r) pipeline \<Rightarrow> bool" where
  "thread_ended s = (case mt_state s of Ended _ \<Rightarrow> True | _ \<Rightarrow> False)"

text \<open>An error of the client: it closes the channels, and drops a job that found no worker.\<close>

definition client_fails :: "io_error \<Rightarrow> ('b, 'o, 't, 'r) pipeline \<Rightarrow> ('b, 'o, 't, 'r) pipeline" where
  "client_fails e s = s\<lparr>mt_client := Closing (Some e)\<rparr>"

definition drop_job :: "'b mt_job \<Rightarrow> ('b, 'o, 't, 'r) pipeline \<Rightarrow> ('b, 'o, 't, 'r) pipeline" where
  "drop_job j s = s\<lparr>mt_results := (mt_results s)(fst j \<mapsto> None)\<rparr>"

text \<open>A send to the writer thread: it waits while the queue is full, and fails when nobody receives.\<close>

definition send_order :: "('b, 'o, 't, 'r) threads \<Rightarrow> order_item \<Rightarrow> (('b, 'o, 't, 'r) pipeline \<Rightarrow> ('b, 'o, 't, 'r) pipeline) \<Rightarrow> ('b, 'o, 't, 'r) pipeline \<Rightarrow> ('b, 'o, 't, 'r) pipeline option" where
  "send_order T item k s =
     (if thread_ended s then Some (client_fails (queue_error T (mt_err s)) s)
      else if length (mt_order s) < length (mt_slots s) + 1 then Some (k (s\<lparr>mt_order := mt_order s @ [item]\<rparr>))
      else None)"

definition place_job :: "'b mt_job \<Rightarrow> nat \<Rightarrow> ('b, 'o, 't, 'r) pipeline \<Rightarrow> ('b, 'o, 't, 'r) pipeline" where
  "place_job j slot s = s\<lparr>mt_slots := (mt_slots s)[slot := Some j]\<rparr>"

definition wait_slot :: "('b, 'o, 't, 'r) threads \<Rightarrow> 'b mt_job \<Rightarrow> nat \<Rightarrow> 'b mt_act list \<Rightarrow> ('b, 'o, 't, 'r) pipeline \<Rightarrow> ('b, 'o, 't, 'r) pipeline option" where
  "wait_slot T j slot acts s =
     (if mt_workers s ! slot = Dead then Some (client_fails (pool_error T (mt_err s)) (drop_job j s))
      else if mt_slots s ! slot = None then Some ((place_job j slot s)\<lparr>mt_client := Running acts\<rparr>)
      else None)"

definition run_act :: "('b, 'o, 't, 'r) threads \<Rightarrow> 'b mt_act \<Rightarrow> 'b mt_act list \<Rightarrow> ('b, 'o, 't, 'r) pipeline \<Rightarrow> ('b, 'o, 't, 'r) pipeline option" where
  "run_act T act acts s = (case act of
     Act_Check \<Rightarrow> Some (case mt_err s of Some e \<Rightarrow> client_fails e s | None \<Rightarrow> s\<lparr>mt_client := Running acts\<rparr>)
   | Act_Fail e \<Rightarrow> Some (client_fails e s)
   | Act_Raw bs \<Rightarrow> send_order T (Order_Raw bs) (\<lambda>s. s\<lparr>mt_client := Running acts\<rparr>) s
   | Act_Block b \<Rightarrow> send_order T (Order_Block (mt_next_block s)) (\<lambda>s. s\<lparr>mt_next_block := mt_next_block s + 1,
       mt_client := Dispatching (mt_next_block s, b) 0 0 acts\<rparr>) s)"

text \<open>The client joins the workers, which end when their slots are empty, and the writer thread.\<close>

definition workers_exited :: "('b, 'o, 't, 'r) pipeline \<Rightarrow> bool" where
  "workers_exited s \<longleftrightarrow> (\<forall>o' \<in> set (mt_slots s). o' = None) \<and> (\<forall>w \<in> set (mt_workers s). w = Idle \<or> w = Dead)"

definition join_threads :: "('b, 'o, 't, 'r) threads \<Rightarrow> io_error option \<Rightarrow> ('b, 'o, 't, 'r) pipeline \<Rightarrow> ('b, 'o, 't, 'r) pipeline option" where
  "join_threads T e s =
     (if \<not> workers_exited s then None
      else case mt_state s of
        Ended r \<Rightarrow> Some (s\<lparr>mt_client := Returned (case e of
            Some e \<Rightarrow> Inl e
          | None \<Rightarrow> (case r of
              None \<Rightarrow> Inl (exit_error T)
            | Some (Inl e) \<Rightarrow> Inl e
            | Some (Inr u) \<Rightarrow> Inr (outcome T (mt_thread s))))\<rparr>)
      | _ \<Rightarrow> None)"

definition client_step :: "('b, 'o, 't, 'r) threads \<Rightarrow> ('b, 'o, 't, 'r) pipeline \<Rightarrow> ('b, 'o, 't, 'r) pipeline option" where
  "client_step T s = (case mt_client s of
     Running [] \<Rightarrow> Some (s\<lparr>mt_client := Closing None\<rparr>)
   | Running (act # acts) \<Rightarrow> run_act T act acts s
   | Dispatching j i tried acts \<Rightarrow> Some (try_job T j i tried acts s)
   | Waiting j slot acts \<Rightarrow> wait_slot T j slot acts s
   | Closing e \<Rightarrow> join_threads T e s
   | Returned r \<Rightarrow> None)"

section \<open>The steps of a worker and of the writer thread\<close>

text \<open>A worker that panics takes its job and the one in its slot with it.\<close>

definition worker_dies :: "nat \<Rightarrow> 'b mt_job \<Rightarrow> ('b, 'o, 't, 'r) pipeline \<Rightarrow> ('b, 'o, 't, 'r) pipeline" where
  "worker_dies i j s =
     (let s = drop_job j (s\<lparr>mt_workers := (mt_workers s)[i := Dead]\<rparr>) in
      case mt_slots s ! i of None \<Rightarrow> s | Some j' \<Rightarrow> drop_job j' (s\<lparr>mt_slots := (mt_slots s)[i := None]\<rparr>))"

definition worker_step :: "('b, 'o, 't, 'r) threads \<Rightarrow> nat \<Rightarrow> ('b, 'o, 't, 'r) pipeline \<Rightarrow> ('b, 'o, 't, 'r) pipeline option" where
  "worker_step T i s =
     (if i < length (mt_workers s) then
        (case mt_workers s ! i of
           Idle \<Rightarrow> (case mt_slots s ! i of
               None \<Rightarrow> None
             | Some j \<Rightarrow> Some (s\<lparr>mt_slots := (mt_slots s)[i := None], mt_workers := (mt_workers s)[i := Busy j]\<rparr>))
         | Busy j \<Rightarrow> Some (case do_job T (snd j) of
               None \<Rightarrow> worker_dies i j s
             | Some out \<Rightarrow> s\<lparr>mt_workers := (mt_workers s)[i := Idle], mt_results := (mt_results s)(fst j \<mapsto> Some out)\<rparr>)
         | Dead \<Rightarrow> None)
      else None)"

text \<open>The end of the writer thread: its error is recorded, and what is queued is dropped.\<close>

definition thread_ends :: "(io_error + unit) option \<Rightarrow> ('b, 'o, 't, 'r) pipeline \<Rightarrow> ('b, 'o, 't, 'r) pipeline" where
  "thread_ends r s = s\<lparr>mt_state := Ended r, mt_order := [],
     mt_err := (case r of Some (Inl e) \<Rightarrow> (case mt_err s of None \<Rightarrow> Some e | Some e' \<Rightarrow> Some e') | _ \<Rightarrow> mt_err s)\<rparr>"

definition thread_goes_on :: "'t thread_res \<Rightarrow> ('b, 'o, 't, 'r) pipeline \<Rightarrow> ('b, 'o, 't, 'r) pipeline" where
  "thread_goes_on m s = (case m of
     None \<Rightarrow> thread_ends None s
   | Some (Inl e, t) \<Rightarrow> thread_ends (Some (Inl e)) (s\<lparr>mt_thread := t\<rparr>)
   | Some (Inr u, t) \<Rightarrow> s\<lparr>mt_state := Receiving, mt_thread := t\<rparr>)"

definition thread_step :: "('b, 'o, 't, 'r) threads \<Rightarrow> ('b, 'o, 't, 'r) pipeline \<Rightarrow> ('b, 'o, 't, 'r) pipeline option" where
  "thread_step T s = (case mt_state s of
     Receiving \<Rightarrow> (case mt_order s of
         Order_Raw bs # q \<Rightarrow> Some (thread_goes_on (put_raw T bs (mt_thread s)) (s\<lparr>mt_order := q\<rparr>))
       | Order_Block i # q \<Rightarrow> Some (s\<lparr>mt_order := q, mt_state := Awaiting i\<rparr>)
       | [] \<Rightarrow>
           if client_open s then None
           else Some (case put_close T (mt_thread s) of
               None \<Rightarrow> thread_ends None s
             | Some (r, t) \<Rightarrow> thread_ends (Some r) (s\<lparr>mt_thread := t\<rparr>)))
   | Awaiting i \<Rightarrow> (case mt_results s i of
         None \<Rightarrow> None
       | Some None \<Rightarrow> Some (thread_ends (Some (Inl (other_error ''MinLZ worker exited without producing output''))) s)
       | Some (Some out) \<Rightarrow> Some (thread_goes_on (put_result T out (mt_thread s)) s))
   | Ended r \<Rightarrow> None)"

inductive mt_step :: "('b, 'o, 't, 'r) threads \<Rightarrow> ('b, 'o, 't, 'r) pipeline \<Rightarrow> ('b, 'o, 't, 'r) pipeline \<Rightarrow> bool" for T where
  By_Client: "client_step T s = Some s' \<Longrightarrow> mt_step T s s'"
| By_Worker: "worker_step T i s = Some s' \<Longrightarrow> mt_step T s s'"
| By_Thread: "thread_step T s = Some s' \<Longrightarrow> mt_step T s s'"

inductive mt_reach :: "('b, 'o, 't, 'r) threads \<Rightarrow> ('b, 'o, 't, 'r) pipeline \<Rightarrow> ('b, 'o, 't, 'r) pipeline \<Rightarrow> bool" for T s0 where
  Start: "mt_reach T s0 s0"
| Step: "mt_reach T s0 s \<Longrightarrow> mt_step T s s' \<Longrightarrow> mt_reach T s0 s'"

inductive_cases mt_stepE: "mt_step T s s'"

section \<open>The contract of a client that looks for a worker\<close>

text \<open>A slot that the client may look at: one of a worker, or the one it waits for.\<close>

definition looks_at :: "('b, 'o, 't, 'r) pipeline \<Rightarrow> nat \<Rightarrow> bool" where
  "looks_at s slot \<longleftrightarrow> slot < length (mt_slots s) \<or> mt_slots s = [] \<or> (\<exists>j acts. mt_client s = Waiting j slot acts)"

text \<open>An attempt drops the job, because a worker is dead, or moves it to a free slot, or counts the full slot.\<close>

inductive dispatched ::
  "'b mt_job \<Rightarrow> nat \<Rightarrow> 'b mt_act list \<Rightarrow> ('b, 'o, 't, 'r) pipeline \<Rightarrow> ('b, 'o, 't, 'r) pipeline \<Rightarrow> bool" for j tried acts s where
  Dropped: "s' = client_fails e (drop_job j (s\<lparr>mt_next_worker := nw\<rparr>)) \<Longrightarrow> mt_workers s ! slot = Dead \<Longrightarrow>
    looks_at s slot \<Longrightarrow> dispatched j tried acts s s'"
| Placed: "s' = (place_job j slot s)\<lparr>mt_client := Running acts, mt_next_worker := nw\<rparr> \<Longrightarrow> mt_workers s ! slot \<noteq> Dead \<Longrightarrow>
    mt_slots s ! slot = None \<Longrightarrow> looks_at s slot \<Longrightarrow> dispatched j tried acts s s'"
| Searching: "s' = s\<lparr>mt_client := Dispatching j i tried' acts, mt_next_worker := nw\<rparr> \<Longrightarrow> tried < tried' \<Longrightarrow>
    tried' \<le> length (mt_slots s) \<or> mt_slots s = [] \<Longrightarrow> dispatched j tried acts s s'"
| Stopping: "s' = s\<lparr>mt_client := Waiting j slot acts, mt_next_worker := nw\<rparr> \<Longrightarrow>
    slot < length (mt_slots s) \<or> mt_slots s = [] \<Longrightarrow> dispatched j tried acts s s'"

locale dispatching =
  fixes T :: "('b, 'o, 't, 'r) threads"
  assumes tries: "dispatched j tried acts s (try_job T j i tried acts s)"

end
