(* ===== verification/Mt_Safety.thy ===== *)
theory Mt_Safety
  imports Mt_Pipeline
begin

text \<open>
  However the threads of the concurrent writer interleave, the writer thread handles the client's items
  in the order of their submission, each block with its own result: what it returns is what one thread
  would have written that takes the items one after the other.
\<close>

section \<open>The reference\<close>

fun run_acts :: "('b, 'o, 't, 'r) threads \<Rightarrow> 'b mt_act list \<Rightarrow> 't \<Rightarrow> 't thread_res" where
  "run_acts T [] t = Some (Inr (), t)"
| "run_acts T (Act_Raw bs # acts) t = with_st (put_raw T bs t) (\<lambda>_. run_acts T acts)"
| "run_acts T (Act_Block b # acts) t = (case do_job T b of
     None \<Rightarrow> Some (Inl (other_error ''MinLZ worker exited without producing output''), t)
   | Some out \<Rightarrow> with_st (put_result T out t) (\<lambda>_. run_acts T acts))"
| "run_acts T (_ # acts) t = run_acts T acts t"

definition run_alone :: "('b, 'o, 't, 'r) threads \<Rightarrow> 'b mt_act list \<Rightarrow> 't \<Rightarrow> 't thread_res" where
  "run_alone T acts t = with_st (run_acts T acts t) (\<lambda>_. put_close T)"

lemma run_acts_Nil [simp]: "run_acts T [] = (\<lambda>t. Some (Inr (), t))"
  by (rule ext) simp

lemma with_st_ext: "(\<And>a s. f a s = g a s) \<Longrightarrow> with_st m f = with_st m g"
  by (simp add: with_st_def split: option.split sum.split)

lemma run_acts_append:
  "run_acts T (as @ bs) t = with_st (run_acts T as t) (\<lambda>_. run_acts T bs)"
proof (induction as arbitrary: t)
  case (Cons a as)
  then show ?case by (cases a) (auto simp: with_st_assoc intro!: with_st_ext split: option.split)
qed simp

text \<open>The items of the client as the queue holds them.\<close>

fun number :: "nat \<Rightarrow> 'b mt_act list \<Rightarrow> order_item list" where
  "number i [] = []"
| "number i (Act_Raw bs # acts) = Order_Raw bs # number i acts"
| "number i (Act_Block b # acts) = Order_Block i # number (Suc i) acts"
| "number i (_ # acts) = number i acts"

fun blocks_of :: "'b mt_act list \<Rightarrow> 'b list" where
  "blocks_of [] = []"
| "blocks_of (Act_Block b # acts) = b # blocks_of acts"
| "blocks_of (_ # acts) = blocks_of acts"

lemma blocks_of_append [simp]: "blocks_of (as @ bs) = blocks_of as @ blocks_of bs"
  by (induction as rule: blocks_of.induct) simp_all

lemma number_append: "number i (as @ bs) = number i as @ number (i + length (blocks_of as)) bs"
  by (induction i as rule: number.induct) simp_all

text \<open>Actions that queue nothing, and the first item of the queue behind them.\<close>

fun quiet :: "'b mt_act \<Rightarrow> bool" where
  "quiet Act_Check = True"
| "quiet (Act_Fail e) = True"
| "quiet _ = False"

lemma quiet_acts:
  assumes "list_all quiet cs"
  shows "blocks_of cs = [] \<and> number i cs = []"
  using assms
proof (induction cs)
  case (Cons a cs)
  then show ?case by (cases a) auto
qed simp

lemma quiet_run: "list_all quiet cs \<Longrightarrow> run_acts T cs t = Some (Inr (), t)"
proof (induction cs)
  case (Cons a cs)
  then show ?case by (cases a) auto
qed simp

lemma list_all_takeWhile: "list_all P (takeWhile P xs)"
  by (auto simp: list_all_iff dest: set_takeWhileD)

lemma number_Cons:
  assumes "number i acts = x # q"
  obtains (Raw) cs p rest where "acts = cs @ Act_Raw p # rest" "list_all quiet cs" "x = Order_Raw p" "q = number i rest"
  | (Block) cs b rest where "acts = cs @ Act_Block b # rest" "list_all quiet cs" "x = Order_Block i" "q = number (Suc i) rest"
proof (cases "dropWhile quiet acts")
  case Nil
  then have "list_all quiet acts" by (simp add: list_all_iff dropWhile_eq_Nil_conv)
  with quiet_acts [of acts] assms show ?thesis by simp
next
  case (Cons a rest)
  let ?cs = "takeWhile quiet acts"
  have acts: "acts = ?cs @ a # rest" using takeWhile_dropWhile_id [of quiet acts] Cons by simp
  have "\<not> quiet a" using hd_dropWhile [of quiet acts] Cons by simp
  moreover have "number i (a # rest) = x # q"
    using assms number_append [of i ?cs "a # rest"] quiet_acts [OF list_all_takeWhile [of quiet acts]] unfolding acts [symmetric] by simp
  ultimately show ?thesis using acts list_all_takeWhile [of quiet acts] Raw Block by (cases a) auto
qed

lemma number_Nil: "number i acts = [] \<Longrightarrow> list_all quiet acts"
  by (induction i acts rule: number.induct) simp_all

section \<open>The invariant\<close>

fun client_jobs :: "('b, 'r) client_state \<Rightarrow> 'b mt_job set" where
  "client_jobs (Dispatching j i tried acts) = {j}"
| "client_jobs (Waiting j slot acts) = {j}"
| "client_jobs _ = {}"

definition jobs :: "('b, 'o, 't, 'r) pipeline \<Rightarrow> 'b mt_job set" where
  "jobs s = {j. Some j \<in> set (mt_slots s)} \<union> {j. Busy j \<in> set (mt_workers s)} \<union> client_jobs (mt_client s)"

text \<open>The actions \<open>dn\<close> that the client has done, of all its actions.\<close>

fun done_acts :: "'b mt_act list \<Rightarrow> 'b mt_act list \<Rightarrow> ('b, 'r) client_state \<Rightarrow> bool" where
  "done_acts A dn (Running acts) \<longleftrightarrow> A = dn @ acts"
| "done_acts A dn (Dispatching j i tried acts) \<longleftrightarrow> A = dn @ acts"
| "done_acts A dn (Waiting j slot acts) \<longleftrightarrow> A = dn @ acts"
| "done_acts A dn (Closing None) \<longleftrightarrow> dn = A"
| "done_acts A dn (Closing (Some e)) \<longleftrightarrow> (\<exists>acts. A = dn @ acts)"
| "done_acts A dn (Returned r) \<longleftrightarrow> (\<exists>acts. A = dn @ acts)"

definition jobs_ok :: "('b, 'o, 't, 'r) threads \<Rightarrow> 'b list \<Rightarrow> ('b, 'o, 't, 'r) pipeline \<Rightarrow> bool" where
  "jobs_ok T bs s \<longleftrightarrow> length (mt_slots s) = length (mt_workers s) \<and> mt_next_block s = length bs \<and> (\<forall>j \<in> jobs s. fst j < length bs \<and> bs ! fst j = snd j) \<and>
     (\<forall>i out. mt_results s i = Some (Some out) \<longrightarrow> i < length bs \<and> do_job T (bs ! i) = Some out)"

definition thread_ok ::
  "('b, 'o, 't, 'r) threads \<Rightarrow> 't \<Rightarrow> 'b mt_act list \<Rightarrow> ('b, 'o, 't, 'r) pipeline \<Rightarrow> bool" where
  "thread_ok T t0 dn s \<longleftrightarrow> (case mt_state s of
     Receiving \<Rightarrow> \<exists>past pend. dn = past @ pend \<and> mt_order s = number (length (blocks_of past)) pend \<and>
       run_acts T past t0 = Some (Inr (), mt_thread s)
   | Awaiting i \<Rightarrow> \<exists>past b pend. dn = past @ Act_Block b # pend \<and> i = length (blocks_of past) \<and>
       mt_order s = number (Suc i) pend \<and> run_acts T past t0 = Some (Inr (), mt_thread s)
   | Ended r \<Rightarrow> r = Some (Inr ()) \<longrightarrow> \<not> client_open s \<and> run_alone T dn t0 = Some (Inr (), mt_thread s))"

definition pipeline_inv ::
  "('b, 'o, 't, 'r) threads \<Rightarrow> 't \<Rightarrow> 'b mt_act list \<Rightarrow> ('b, 'o, 't, 'r) pipeline \<Rightarrow> bool" where
  "pipeline_inv T t0 A s \<longleftrightarrow>
     (\<exists>dn. done_acts A dn (mt_client s) \<and> jobs_ok T (blocks_of dn) s \<and> thread_ok T t0 dn s) \<and>
     (\<forall>w. mt_client s = Returned (Inr w) \<longrightarrow> (\<exists>t. run_alone T A t0 = Some (Inr (), t) \<and> w = outcome T t))"

lemma jobs_ok_mono:
  "jobs_ok T bs s \<Longrightarrow> jobs s' \<subseteq> jobs s \<Longrightarrow> mt_next_block s' = mt_next_block s \<Longrightarrow>
   length (mt_slots s') = length (mt_workers s') \<Longrightarrow>
   (\<And>i out. mt_results s' i = Some (Some out) \<Longrightarrow> mt_results s i = Some (Some out)) \<Longrightarrow> jobs_ok T bs s'"
  unfolding jobs_ok_def by (intro conjI ballI allI impI) (auto simp del: split_paired_All)

lemma in_set_updateD: "x \<in> set (xs[i := y]) \<Longrightarrow> x = y \<or> x \<in> set xs"
  using set_update_subset_insert [of xs i y] by blast

section \<open>Every step keeps it\<close>

lemma thread_ok_client:
  assumes "thread_ok T t0 dn s" "mt_state s' = mt_state s" "mt_thread s' = mt_thread s" "mt_order s' = mt_order s"
    and "client_open s' \<longrightarrow> client_open s"
  shows "thread_ok T t0 dn s'"
  using assms by (auto simp: thread_ok_def split: thread_state.splits)

lemma thread_ok_queue:
  assumes "thread_ok T t0 dn s" "mt_state s' = mt_state s" "mt_thread s' = mt_thread s"
    "mt_order s' = mt_order s @ number (length (blocks_of dn)) [a]" "\<not> thread_ended s"
  shows "thread_ok T t0 (dn @ [a]) s'"
proof (cases "mt_state s")
  case Receiving
  with assms(1) obtain past pend where p: "dn = past @ pend" "mt_order s = number (length (blocks_of past)) pend"
    "run_acts T past t0 = Some (Inr (), mt_thread s)" by (auto simp: thread_ok_def)
  then have "mt_order s' = number (length (blocks_of past)) (pend @ [a])" using assms(4) by (simp add: number_append)
  with p assms(2,3) Receiving show ?thesis unfolding thread_ok_def
    by (simp del: number.simps) (intro exI [of _ past] exI [of _ "pend @ [a]"], simp)
next
  case (Awaiting i)
  with assms(1) obtain past b pend where p: "dn = past @ Act_Block b # pend" "i = length (blocks_of past)"
    "mt_order s = number (Suc i) pend" "run_acts T past t0 = Some (Inr (), mt_thread s)" by (auto simp: thread_ok_def)
  then have "mt_order s' = number (Suc i) (pend @ [a])" using assms(4) by (simp add: number_append)
  with p assms(2,3) Awaiting show ?thesis unfolding thread_ok_def
    by (simp del: number.simps) (intro exI [of _ past] exI [of _ b] exI [of _ "pend @ [a]"], simp)
qed (use assms(5) in \<open>simp add: thread_ended_def\<close>)

lemma run_acts_skip: "a = Act_Check \<or> a = Act_Fail e \<Longrightarrow> run_acts T [a] t = Some (Inr (), t)"
  by auto

lemma thread_ok_check:
  assumes "thread_ok T t0 dn s" "mt_state s' = mt_state s" "mt_thread s' = mt_thread s" "mt_order s' = mt_order s"
    and "client_open s"
  shows "thread_ok T t0 (dn @ [Act_Check]) s'"
proof (cases "thread_ended s")
  case True
  then obtain r where "mt_state s = Ended r" by (auto simp: thread_ended_def split: thread_state.splits)
  with assms show ?thesis by (auto simp: thread_ok_def)
next
  case False
  from thread_ok_queue [OF assms(1-3) _ False] assms(4) show ?thesis by simp
qed

text \<open>What a step of the client leaves alone.\<close>

definition same_thread :: "('b, 'o, 't, 'r) pipeline \<Rightarrow> ('b, 'o, 't, 'r) pipeline \<Rightarrow> bool" where
  "same_thread s s' \<longleftrightarrow> mt_state s' = mt_state s \<and> mt_thread s' = mt_thread s \<and> mt_order s' = mt_order s \<and>
     mt_next_block s' = mt_next_block s \<and> (client_open s' \<longrightarrow> client_open s)"

lemma jobs_ok_sub:
  assumes "jobs_ok T bs s" "jobs s' \<subseteq> jobs s" "same_thread s s'" "length (mt_slots s') = length (mt_workers s')"
    and "mt_results s' = mt_results s \<or> (\<exists>j. mt_results s' = (mt_results s)(j \<mapsto> None))"
  shows "jobs_ok T bs s'"
  by (rule jobs_ok_mono [OF assms(1,2)]) (use assms in \<open>auto simp: same_thread_def jobs_ok_def split: if_splits\<close>)

lemma inv_unchanged:
  assumes "done_acts A dn (mt_client s)" "jobs_ok T (blocks_of dn) s" "thread_ok T t0 dn s"
    and "done_acts A dn (mt_client s')" "\<nexists>w. mt_client s' = Returned (Inr w)" "same_thread s s'" "jobs s' \<subseteq> jobs s"
    and "length (mt_slots s') = length (mt_workers s')"
    and "mt_results s' = mt_results s \<or> (\<exists>j. mt_results s' = (mt_results s)(j \<mapsto> None))"
  shows "pipeline_inv T t0 A s'"
proof -
  have "thread_ok T t0 dn s'"
    by (rule thread_ok_client [OF assms(3)]) (use assms(6) in \<open>auto simp: same_thread_def\<close>)
  with jobs_ok_sub [OF assms(2,7,6,8,9)] assms(4,5) show ?thesis unfolding pipeline_inv_def by blast
qed

lemma jobs_fail: "jobs (client_fails e s) \<subseteq> jobs s" "jobs (client_fails e (drop_job j s)) \<subseteq> jobs s"
  by (auto simp: jobs_def client_fails_def drop_job_def)

lemma same_thread_fail: "same_thread s (client_fails e s)" "same_thread s (client_fails e (drop_job j s))"
  by (auto simp: same_thread_def client_fails_def drop_job_def client_open_def)

lemma inv_fails:
  assumes "done_acts A dn (mt_client s)" "jobs_ok T (blocks_of dn) s" "thread_ok T t0 dn s" "client_open s"
  shows "pipeline_inv T t0 A (client_fails e s)" "pipeline_inv T t0 A (client_fails e (drop_job j s))"
proof -
  have "\<exists>acts. A = dn @ acts" using assms(1,4) by (cases "mt_client s") (auto simp: client_open_def)
  then have d: "done_acts A dn (mt_client (client_fails e s))" "done_acts A dn (mt_client (client_fails e (drop_job j s)))"
    by (auto simp: client_fails_def)
  show "pipeline_inv T t0 A (client_fails e s)"
    by (rule inv_unchanged [OF assms(1-3) d(1) _ same_thread_fail(1) jobs_fail(1)])
      (use assms(2) in \<open>simp_all add: client_fails_def jobs_ok_def\<close>)
  show "pipeline_inv T t0 A (client_fails e (drop_job j s))"
    by (rule inv_unchanged [OF assms(1-3) d(2) _ same_thread_fail(2) jobs_fail(2)])
      (use assms(2) in \<open>auto simp: client_fails_def drop_job_def jobs_ok_def\<close>)
qed

lemma inv_send:
  assumes "done_acts A dn (mt_client s)" "jobs_ok T (blocks_of dn) s" "thread_ok T t0 dn s" "client_open s"
    and "send_order T item k s = Some s'"
    and "length (mt_order s) < length (mt_slots s) + 1 \<Longrightarrow> \<not> thread_ended s \<Longrightarrow>
      pipeline_inv T t0 A (k (s\<lparr>mt_order := mt_order s @ [item]\<rparr>))"
  shows "pipeline_inv T t0 A s'"
proof (cases "thread_ended s")
  case True
  with inv_fails(1) [OF assms(1-4)] assms(5) show ?thesis by (auto simp: send_order_def)
next
  case False
  with assms(5,6) show ?thesis by (auto simp: send_order_def split: if_splits)
qed

lemma run_act_inv:
  assumes d: "A = dn @ act # acts" and j: "jobs_ok T (blocks_of dn) s" and t: "thread_ok T t0 dn s"
    and c: "mt_client s = Running (act # acts)" and eq: "run_act T act acts s = Some s'"
  shows "pipeline_inv T t0 A s'"
proof -
  have dn: "done_acts A dn (mt_client s)" and op: "client_open s" using d c by (simp_all add: client_open_def)
  note fails = inv_fails [OF dn j t op]
  show ?thesis
  proof (cases act)
    case Act_Check
    show ?thesis
    proof (cases "mt_err s")
      case None
      have "thread_ok T t0 (dn @ [Act_Check]) (s\<lparr>mt_client := Running acts\<rparr>)"
        by (rule thread_ok_check [OF t _ _ _ op]) simp_all
      moreover have "jobs_ok T (blocks_of (dn @ [Act_Check])) (s\<lparr>mt_client := Running acts\<rparr>)"
        using j c by (simp add: jobs_ok_def jobs_def)
      ultimately show ?thesis using Act_Check None eq d unfolding pipeline_inv_def
        by (auto simp: run_act_def intro!: exI [of _ "dn @ [Act_Check]"])
    qed (use Act_Check eq fails in \<open>auto simp: run_act_def\<close>)
  next
    case (Act_Fail e)
    with eq fails show ?thesis by (auto simp: run_act_def)
  next
    case (Act_Raw p)
    from eq Act_Raw have "send_order T (Order_Raw p) (\<lambda>s. s\<lparr>mt_client := Running acts\<rparr>) s = Some s'" by (simp add: run_act_def)
    then show ?thesis
    proof (rule inv_send [OF dn j t op])
      let ?s = "s\<lparr>mt_order := mt_order s @ [Order_Raw p], mt_client := Running acts\<rparr>"
      assume "\<not> thread_ended s"
      then have "thread_ok T t0 (dn @ [Act_Raw p]) ?s" by (intro thread_ok_queue [OF t]) simp_all
      moreover have "jobs_ok T (blocks_of (dn @ [Act_Raw p])) ?s" using j c by (simp add: jobs_ok_def jobs_def)
      ultimately show "pipeline_inv T t0 A ?s" using Act_Raw d unfolding pipeline_inv_def
        by (auto intro!: exI [of _ "dn @ [Act_Raw p]"])
    qed
  next
    case (Act_Block b)
    let ?i = "mt_next_block s"
    from eq Act_Block have "send_order T (Order_Block ?i) (\<lambda>s. s\<lparr>mt_next_block := mt_next_block s + 1,
       mt_client := Dispatching (mt_next_block s, b) 0 0 acts\<rparr>) s = Some s'" by (simp add: run_act_def)
    then show ?thesis
    proof (rule inv_send [OF dn j t op])
      let ?s = "s\<lparr>mt_order := mt_order s @ [Order_Block ?i], mt_next_block := ?i + 1, mt_client := Dispatching (?i, b) 0 0 acts\<rparr>"
      assume "\<not> thread_ended s"
      moreover have i: "?i = length (blocks_of dn)" using j by (simp add: jobs_ok_def)
      ultimately have "thread_ok T t0 (dn @ [Act_Block b]) ?s" by (intro thread_ok_queue [OF t]) simp_all
      moreover have "jobs ?s \<subseteq> insert (?i, b) (jobs s)" by (auto simp: jobs_def)
      then have "jobs_ok T (blocks_of (dn @ [Act_Block b])) ?s" using j i
        by (fastforce simp: jobs_ok_def nth_append)
      ultimately show "pipeline_inv T t0 A (s\<lparr>mt_order := mt_order s @ [Order_Block ?i],
          mt_next_block := mt_next_block (s\<lparr>mt_order := mt_order s @ [Order_Block ?i]\<rparr>) + 1,
          mt_client := Dispatching (mt_next_block (s\<lparr>mt_order := mt_order s @ [Order_Block ?i]\<rparr>), b) 0 0 acts\<rparr>)"
        using Act_Block d unfolding pipeline_inv_def by (auto intro!: exI [of _ "dn @ [Act_Block b]"])
    qed
  qed
qed

lemma jobs_place: "client_jobs (mt_client s) = {j} \<Longrightarrow>
  jobs ((place_job j slot s)\<lparr>mt_client := Running acts, mt_next_worker := nw\<rparr>) \<subseteq> jobs s"
  by (auto simp: jobs_def place_job_def dest!: in_set_updateD)

lemma wait_slot_dispatched:
  assumes "wait_slot T j slot acts s = Some s'" "mt_client s = Waiting j slot acts"
  shows "dispatched j tried acts s s'"
proof (cases "mt_workers s ! slot = Dead")
  case True
  with assms show ?thesis
    by (intro Dropped [where nw = "mt_next_worker s" and e = "pool_error T (mt_err s)"]) (auto simp: wait_slot_def looks_at_def)
next
  case False
  with assms show ?thesis
    by (intro Placed [where nw = "mt_next_worker s" and slot = slot]) (auto simp: wait_slot_def place_job_def looks_at_def split: if_splits)
qed

lemma dispatch_inv:
  assumes d: "A = dn @ acts" and j: "jobs_ok T (blocks_of dn) s" and t: "thread_ok T t0 dn s"
    and c: "mt_client s = Dispatching jb i tried acts \<or> mt_client s = Waiting jb i acts"
    and s': "dispatched jb k acts s s'"
  shows "pipeline_inv T t0 A s'"
proof -
  have dn: "done_acts A dn (mt_client s)" and op: "client_open s" and cj: "client_jobs (mt_client s) = {jb}"
    using d c by (auto simp: client_open_def)
  from s' have "done_acts A dn (mt_client s')" "\<nexists>w. mt_client s' = Returned (Inr w)"
    by (cases, use d in \<open>simp_all add: client_fails_def place_job_def\<close>)+
  moreover from s' have "same_thread s s'"
    by (cases, use op in \<open>simp_all add: same_thread_def client_fails_def drop_job_def place_job_def\<close>)
  moreover from s' have "jobs s' \<subseteq> jobs s"
  proof cases
    case (Placed nw slot)
    with jobs_place [OF cj] show ?thesis by simp
  next
    case (Dropped e nw slot)
    then show ?thesis by (auto simp: jobs_def client_fails_def drop_job_def)
  qed (simp_all add: jobs_def cj)
  moreover from s' have "length (mt_slots s') = length (mt_workers s')"
    by (cases, use j in \<open>simp_all add: jobs_ok_def client_fails_def drop_job_def place_job_def\<close>)
  moreover from s' have "mt_results s' = mt_results s \<or> (\<exists>j. mt_results s' = (mt_results s)(j \<mapsto> None))"
    by cases (auto simp: client_fails_def drop_job_def place_job_def)
  ultimately show ?thesis by (rule inv_unchanged [OF dn j t])
qed

lemma join_threads_cases:
  assumes "join_threads T e s = Some s'"
  obtains r t where "mt_state s = Ended t" "s' = s\<lparr>mt_client := Returned r\<rparr>"
    "\<And>w. r = Inr w \<Longrightarrow> e = None \<and> t = Some (Inr ()) \<and> w = outcome T (mt_thread s)"
    "\<And>e'. r = Inl e' \<Longrightarrow> e = Some e' \<or> t \<noteq> Some (Inr ())"
  using assms unfolding join_threads_def
  by (auto split: if_splits thread_state.splits option.splits sum.splits)

context dispatching
begin

lemma client_step_inv:
  assumes i: "pipeline_inv T t0 A s" and eq: "client_step T s = Some s'"
  shows "pipeline_inv T t0 A s'"
proof -
  from i obtain dn where dn: "done_acts A dn (mt_client s)" and j: "jobs_ok T (blocks_of dn) s"
    and t: "thread_ok T t0 dn s" unfolding pipeline_inv_def by blast
  show ?thesis
  proof (cases "mt_client s")
    case (Running acts)
    show ?thesis
    proof (cases acts)
      case Nil
      with Running eq have s': "s' = s\<lparr>mt_client := Closing None\<rparr>" by (simp add: client_step_def)
      show ?thesis
        by (rule inv_unchanged [OF dn j t])
          (use s' dn j Running Nil in \<open>simp_all add: same_thread_def client_open_def jobs_def jobs_ok_def\<close>)
    next
      case (Cons a acts)
      with Running eq dn run_act_inv [OF _ j t] show ?thesis by (simp add: client_step_def)
    qed
  next
    case (Dispatching jb i tried acts)
    with eq have "s' = try_job T jb i tried acts s" by (simp add: client_step_def)
    with tries have "dispatched jb tried acts s s'" by simp
    then show ?thesis using dispatch_inv [OF _ j t] dn Dispatching by simp
  next
    case (Waiting jb slot acts)
    with eq have "dispatched jb 0 acts s s'" by (simp add: client_step_def wait_slot_dispatched)
    then show ?thesis using dispatch_inv [OF _ j t] dn Waiting by simp
  next
    case (Closing e)
    with eq have "join_threads T e s = Some s'" by (simp add: client_step_def)
    then obtain r q where q: "mt_state s = Ended q" "s' = s\<lparr>mt_client := Returned r\<rparr>"
      "\<And>w. r = Inr w \<Longrightarrow> e = None \<and> q = Some (Inr ()) \<and> w = outcome T (mt_thread s)" by (rule join_threads_cases) blast
    have "jobs_ok T (blocks_of dn) s'"
      by (rule jobs_ok_sub [OF j]) (use q(2) j Closing in \<open>simp_all add: jobs_def same_thread_def client_open_def jobs_ok_def\<close>)
    moreover have "thread_ok T t0 dn s'"
      by (rule thread_ok_client [OF t]) (use q(2) in \<open>simp_all add: client_open_def\<close>)
    moreover have "done_acts A dn (mt_client s')" using dn Closing q(2) by (cases e) auto
    moreover have "\<exists>t. run_alone T A t0 = Some (Inr (), t) \<and> w = outcome T t" if "r = Inr w" for w
      using q(3) [OF that] t q(1) dn Closing by (auto simp: thread_ok_def)
    ultimately show ?thesis unfolding pipeline_inv_def using q(2) by auto
  qed (use eq in \<open>simp add: client_step_def\<close>)
qed

end

lemma nth_jobs:
  "length (mt_slots s) = length (mt_workers s) \<Longrightarrow> i < length (mt_workers s) \<Longrightarrow> mt_slots s ! i = Some j \<Longrightarrow> j \<in> jobs s"
  "i < length (mt_workers s) \<Longrightarrow> mt_workers s ! i = Busy j \<Longrightarrow> j \<in> jobs s"
  by (auto simp: jobs_def in_set_conv_nth)

lemma worker_step_inv:
  assumes i: "pipeline_inv T t0 A s" and eq: "worker_step T k s = Some s'"
  shows "pipeline_inv T t0 A s'"
proof -
  from i obtain dn where dn: "done_acts A dn (mt_client s)" and j: "jobs_ok T (blocks_of dn) s"
    and t: "thread_ok T t0 dn s" unfolding pipeline_inv_def by blast
  have k: "k < length (mt_workers s)" using eq by (auto simp: worker_step_def split: if_splits)
  have l: "length (mt_slots s) = length (mt_workers s)" using j by (simp add: jobs_ok_def)
  have st: "same_thread s s'" "mt_client s' = mt_client s" "length (mt_slots s') = length (mt_workers s')"
    using eq l by (auto simp: worker_step_def same_thread_def worker_dies_def drop_job_def client_open_def Let_def
      split: if_splits worker_state.splits option.splits)
  have "jobs_ok T (blocks_of dn) s'"
  proof (cases "mt_workers s ! k")
    case Idle
    then obtain jb where "mt_slots s ! k = Some jb"
      "s' = s\<lparr>mt_slots := (mt_slots s)[k := None], mt_workers := (mt_workers s)[k := Busy jb]\<rparr>"
      using eq k by (auto simp: worker_step_def split: option.splits)
    moreover from this nth_jobs(1) [OF l k] have "jobs s' \<subseteq> jobs s" by (auto simp: jobs_def dest!: in_set_updateD)
    ultimately show ?thesis using jobs_ok_sub [OF j _ st(1,3)] by simp
  next
    case (Busy jb)
    show ?thesis
    proof (cases "do_job T (snd jb)")
      case None
      with Busy eq k have s': "s' = worker_dies k jb s" by (simp add: worker_step_def)
      then have "jobs s' \<subseteq> jobs s"
        by (auto simp: worker_dies_def drop_job_def Let_def jobs_def dest!: in_set_updateD split: option.splits)
      then show ?thesis by (rule jobs_ok_mono [OF j])
        (use s' st j in \<open>auto simp: same_thread_def worker_dies_def drop_job_def Let_def split: option.splits if_splits\<close>)
    next
      case (Some out)
      with Busy eq k have s': "s' = s\<lparr>mt_workers := (mt_workers s)[k := Idle], mt_results := (mt_results s)(fst jb \<mapsto> Some out)\<rparr>"
        by (simp add: worker_step_def)
      then have "jobs s' \<subseteq> jobs s" by (auto simp: jobs_def dest!: in_set_updateD)
      moreover have "fst jb < length (blocks_of dn)" "blocks_of dn ! fst jb = snd jb"
        using j nth_jobs(2) [OF k Busy] by (auto simp: jobs_ok_def)
      ultimately show ?thesis using j s' Some unfolding jobs_ok_def by auto
    qed
  qed (use eq k in \<open>simp add: worker_step_def\<close>)
  moreover have "thread_ok T t0 dn s'"
    by (rule thread_ok_client [OF t]) (use st(1) in \<open>auto simp: same_thread_def\<close>)
  ultimately show ?thesis using i dn st(2) unfolding pipeline_inv_def by auto
qed

lemma goes_on_ok:
  assumes "\<And>t. m = Some (Inr (), t) \<Longrightarrow> thread_ok T t0 dn (s\<lparr>mt_state := Receiving, mt_thread := t\<rparr>)"
  shows "thread_ok T t0 dn (thread_goes_on m s)"
  using assms by (auto simp: thread_goes_on_def thread_ok_def thread_ends_def split: option.splits sum.splits)

lemma thread_ok_Receiving:
  "dn = past @ pend \<Longrightarrow> mt_state s = Receiving \<Longrightarrow> mt_order s = number (length (blocks_of past)) pend \<Longrightarrow>
   run_acts T past t0 = Some (Inr (), mt_thread s) \<Longrightarrow> thread_ok T t0 dn s"
  by (auto simp: thread_ok_def)

lemma thread_ok_Awaiting:
  "dn = past @ Act_Block b # pend \<Longrightarrow> mt_state s = Awaiting (length (blocks_of past)) \<Longrightarrow>
   mt_order s = number (Suc (length (blocks_of past))) pend \<Longrightarrow> run_acts T past t0 = Some (Inr (), mt_thread s) \<Longrightarrow>
   thread_ok T t0 dn s"
  by (auto simp: thread_ok_def)

lemma thread_ok_step:
  assumes j: "jobs_ok T (blocks_of dn) s" and t: "thread_ok T t0 dn s" and eq: "thread_step T s = Some s'"
  shows "thread_ok T t0 dn s'"
proof (cases "mt_state s")
  case Receiving
  with t obtain past pend where p: "dn = past @ pend" "mt_order s = number (length (blocks_of past)) pend"
    "run_acts T past t0 = Some (Inr (), mt_thread s)" by (auto simp: thread_ok_def)
  show ?thesis
  proof (cases "mt_order s")
    case Nil
    with eq Receiving have op: "\<not> client_open s" and s': "s' = (case put_close T (mt_thread s) of
        None \<Rightarrow> thread_ends None s | Some (r, t) \<Rightarrow> thread_ends (Some r) (s\<lparr>mt_thread := t\<rparr>))"
      by (auto simp: thread_step_def split: if_splits)
    have "run_acts T dn t0 = Some (Inr (), mt_thread s)"
      using p Nil quiet_run [OF number_Nil [of "length (blocks_of past)" pend]] by (simp add: run_acts_append)
    then show ?thesis using s' op
      by (auto simp: thread_ok_def thread_ends_def run_alone_def client_open_def split: option.splits)
  next
    case (Cons x q)
    with p(2) have "number (length (blocks_of past)) pend = x # q" by simp
    then show ?thesis
    proof (cases rule: number_Cons)
      case (Raw cs b rest)
      let ?past = "past @ cs @ [Act_Raw b]"
      have "run_acts T ?past t0 = with_st (put_raw T b (mt_thread s)) (\<lambda>_ t. Some (Inr (), t))"
        using p(3) by (simp add: run_acts_append quiet_run [OF Raw(2)])
      moreover have "blocks_of ?past = blocks_of past" using quiet_acts [OF Raw(2)] by simp
      moreover have "dn = ?past @ rest" using p(1) Raw(1) by simp
      moreover have "s' = thread_goes_on (put_raw T b (mt_thread s)) (s\<lparr>mt_order := q\<rparr>)"
        using eq Receiving Cons Raw(3) by (simp add: thread_step_def)
      ultimately show ?thesis using Raw(4)
        by (simp only:) (rule goes_on_ok, rule thread_ok_Receiving [of _ ?past rest], simp_all)
    next
      case (Block cs b rest)
      let ?past = "past @ cs"
      have "run_acts T ?past t0 = Some (Inr (), mt_thread s)"
        using p(3) by (simp add: run_acts_append quiet_run [OF Block(2)])
      moreover have "blocks_of ?past = blocks_of past" using quiet_acts [OF Block(2)] by simp
      moreover have "dn = ?past @ Act_Block b # rest" using p(1) Block(1) by simp
      moreover have "s' = s\<lparr>mt_order := q, mt_state := Awaiting (length (blocks_of past))\<rparr>"
        using eq Receiving Cons Block(3) by (simp add: thread_step_def)
      ultimately show ?thesis using Block(4)
        by (simp only:) (rule thread_ok_Awaiting [of _ ?past b rest], simp_all)
    qed
  qed
next
  case (Awaiting i)
  with t obtain past b pend where p: "dn = past @ Act_Block b # pend" "i = length (blocks_of past)"
    "mt_order s = number (Suc i) pend" "run_acts T past t0 = Some (Inr (), mt_thread s)" by (auto simp: thread_ok_def)
  obtain r where r: "mt_results s i = Some r" using eq Awaiting by (auto simp: thread_step_def split: option.splits)
  show ?thesis
  proof (cases r)
    case None
    with r eq Awaiting show ?thesis by (auto simp: thread_step_def thread_ok_def thread_ends_def)
  next
    case (Some out)
    have "do_job T (blocks_of dn ! i) = Some out" using j r Some unfolding jobs_ok_def by blast
    then have "do_job T b = Some out" using p(1,2) by (simp add: nth_append)
    then have "run_acts T (past @ [Act_Block b]) t0 = with_st (put_result T out (mt_thread s)) (\<lambda>_ t. Some (Inr (), t))"
      using p(4) by (simp add: run_acts_append)
    moreover have "s' = thread_goes_on (put_result T out (mt_thread s)) s"
      using eq Awaiting r Some by (simp add: thread_step_def)
    ultimately show ?thesis using p
      by (simp only:) (rule goes_on_ok, rule thread_ok_Receiving [of _ "past @ [Act_Block b]" pend], simp_all)
  qed
qed (use eq in \<open>simp add: thread_step_def\<close>)

lemma thread_step_rest:
  assumes "thread_step T s = Some s'"
  shows "mt_client s' = mt_client s \<and> mt_slots s' = mt_slots s \<and> mt_workers s' = mt_workers s \<and>
    mt_results s' = mt_results s \<and> mt_next_block s' = mt_next_block s"
  using assms by (auto simp: thread_step_def thread_ends_def thread_goes_on_def
    split: thread_state.splits list.splits order_item.splits if_splits option.splits sum.splits)

lemma thread_step_inv:
  assumes i: "pipeline_inv T t0 A s" and eq: "thread_step T s = Some s'"
  shows "pipeline_inv T t0 A s'"
proof -
  from i obtain dn where dn: "done_acts A dn (mt_client s)" and j: "jobs_ok T (blocks_of dn) s"
    and t: "thread_ok T t0 dn s" unfolding pipeline_inv_def by blast
  note rest = thread_step_rest [OF eq]
  have "jobs_ok T (blocks_of dn) s'" using j rest by (simp add: jobs_ok_def jobs_def)
  with thread_ok_step [OF j t eq] dn rest i show ?thesis unfolding pipeline_inv_def by auto
qed

lemma pipeline_start_inv:
  "mt_client s = Running A \<Longrightarrow> mt_next_block s = 0 \<Longrightarrow> mt_slots s = replicate n None \<Longrightarrow> mt_workers s = replicate n Idle \<Longrightarrow>
   mt_order s = [] \<Longrightarrow> mt_results s = (\<lambda>_. None) \<Longrightarrow> mt_state s = Receiving \<Longrightarrow> pipeline_inv T (mt_thread s) A s"
  by (auto simp: pipeline_inv_def jobs_ok_def jobs_def thread_ok_def intro!: exI [of _ "[]"])

context dispatching
begin

lemma reach_inv:
  "mt_reach T s0 s \<Longrightarrow> pipeline_inv T t0 A s0 \<Longrightarrow> pipeline_inv T t0 A s"
proof (induction rule: mt_reach.induct)
  case (Step s s')
  then have i: "pipeline_inv T t0 A s" by simp
  from Step.hyps(2) show ?case
    by (cases rule: mt_stepE) (use client_step_inv [OF i] worker_step_inv [OF i] thread_step_inv [OF i] in auto)
qed simp

end

end
