(* ===== verification/Mt_Complete.thy ===== *)
theory Mt_Complete
  imports Mt_Safety
begin

text \<open>
  When the one thread of the reference succeeds, nothing fails in the concurrent writer either, so it
  returns the same sink; and every run of the threads ends.
\<close>

section \<open>Sizes\<close>

definition shape :: "nat \<Rightarrow> ('b, 'o, 't, 'r) pipeline \<Rightarrow> bool" where
  "shape n s \<longleftrightarrow> 0 < n \<and> length (mt_slots s) = n \<and> length (mt_workers s) = n \<and>
     (\<forall>j slot acts. mt_client s = Waiting j slot acts \<longrightarrow> slot < n)"

lemma shape_dispatched: "shape n s \<Longrightarrow> dispatched j tried acts s s' \<Longrightarrow> shape n s'"
  by (erule dispatched.cases) (auto simp: shape_def client_fails_def drop_job_def place_job_def)

context dispatching
begin

lemma shape_client:
  assumes "shape n s" "client_step T s = Some s'"
  shows "shape n s'"
proof (cases "mt_client s")
  case (Running acts)
  show ?thesis
  proof (cases acts)
    case (Cons a as)
    with Running assms show ?thesis
      by (cases a) (auto simp: client_step_def run_act_def send_order_def client_fails_def shape_def split: if_splits option.splits)
  qed (use Running assms in \<open>auto simp: client_step_def shape_def\<close>)
next
  case (Dispatching j i tried acts)
  with assms(2) have "s' = try_job T j i tried acts s" by (simp add: client_step_def)
  with shape_dispatched [OF assms(1) tries] show ?thesis by simp
next
  case (Waiting j slot acts)
  with assms(2) have "dispatched j 0 acts s s'" by (simp add: client_step_def wait_slot_dispatched)
  with shape_dispatched [OF assms(1)] show ?thesis .
next
  case (Closing e)
  with assms(2) have "join_threads T e s = Some s'" by (simp add: client_step_def)
  then show ?thesis by (rule join_threads_cases) (use assms(1) in \<open>auto simp: shape_def\<close>)
qed (use assms in \<open>simp add: client_step_def\<close>)

end

lemma shape_worker: "shape n s \<Longrightarrow> worker_step T i s = Some s' \<Longrightarrow> shape n s'"
  by (auto simp: worker_step_def shape_def worker_dies_def drop_job_def Let_def split: if_splits worker_state.splits option.splits)

lemma shape_thread: "shape n s \<Longrightarrow> thread_step T s = Some s' \<Longrightarrow> shape n s'"
  by (drule thread_step_rest) (simp add: shape_def)

context dispatching
begin

lemma shape_step: "mt_step T s s' \<Longrightarrow> shape n s \<Longrightarrow> shape n s'"
  by (elim mt_stepE) (use shape_client shape_worker shape_thread in blast)+

lemma shape_reach: "mt_reach T s0 s \<Longrightarrow> shape n s0 \<Longrightarrow> shape n s"
  by (induction rule: mt_reach.induct) (auto intro: shape_step)

end

section \<open>Failures of the client\<close>

definition no_fail :: "'b mt_act list \<Rightarrow> bool" where
  "no_fail A \<longleftrightarrow> (\<forall>e. Act_Fail e \<notin> set A)"

lemma no_fail_simps [simp]:
  "no_fail []" "no_fail (as @ bs) \<longleftrightarrow> no_fail as \<and> no_fail bs" "no_fail (a # as) \<longleftrightarrow> (\<forall>e. a \<noteq> Act_Fail e) \<and> no_fail as"
  by (auto simp: no_fail_def)

text \<open>The client that closes the channels to finish has done all its actions, and none was a failure.\<close>

fun honest :: "'b mt_act list \<Rightarrow> ('b, 'r) client_state \<Rightarrow> bool" where
  "honest A (Running acts) \<longleftrightarrow> (\<exists>dn. A = dn @ acts \<and> no_fail dn)"
| "honest A (Dispatching j i tried acts) \<longleftrightarrow> (\<exists>dn. A = dn @ acts \<and> no_fail dn)"
| "honest A (Waiting j slot acts) \<longleftrightarrow> (\<exists>dn. A = dn @ acts \<and> no_fail dn)"
| "honest A (Closing e) \<longleftrightarrow> e = None \<longrightarrow> no_fail A"
| "honest A (Returned r) \<longleftrightarrow> (\<exists>w. r = Inr w) \<longrightarrow> no_fail A"

lemma honest_dispatched:
  assumes "dispatched j tried acts s s'" "A = dn @ acts" "no_fail dn"
  shows "honest A (mt_client s')"
  using assms(1) by cases (use assms(2,3) in \<open>auto simp: client_fails_def\<close>)

context dispatching
begin

lemma honest_client:
  assumes "honest A (mt_client s)" "client_step T s = Some s'"
  shows "honest A (mt_client s')"
proof (cases "mt_client s")
  case (Running acts)
  with assms(1) obtain dn where dn: "A = dn @ acts" "no_fail dn" by auto
  show ?thesis
  proof (cases acts)
    case (Cons a as)
    have "honest A (Running as)" if "\<forall>e. a \<noteq> Act_Fail e" using dn that Cons by (auto intro!: exI [of _ "dn @ [a]"])
    then show ?thesis using assms(2) Running Cons
      by (cases a) (auto simp: client_step_def run_act_def send_order_def client_fails_def split: if_splits option.splits)
  qed (use assms(2) Running dn in \<open>auto simp: client_step_def\<close>)
next
  case (Dispatching j i tried acts)
  with assms(2) have "s' = try_job T j i tried acts s" by (simp add: client_step_def)
  with honest_dispatched [OF tries [of j tried acts s i], of A] assms(1) Dispatching show ?thesis by auto
next
  case (Waiting j slot acts)
  with assms(2) have "dispatched j 0 acts s s'" by (simp add: client_step_def wait_slot_dispatched)
  from honest_dispatched [OF this, of A] assms(1) Waiting show ?thesis by auto
next
  case (Closing e)
  with assms(2) have "join_threads T e s = Some s'" by (simp add: client_step_def)
  then show ?thesis by (rule join_threads_cases) (use assms(1) Closing in auto)
qed (use assms(2) in \<open>simp add: client_step_def\<close>)

lemma honest_reach: "mt_reach T s0 s \<Longrightarrow> honest A (mt_client s0) \<Longrightarrow> honest A (mt_client s)"
proof (induction rule: mt_reach.induct)
  case (Step s s')
  have w: "worker_step T i s = Some s' \<Longrightarrow> mt_client s' = mt_client s" for i
    by (auto simp: worker_step_def worker_dies_def drop_job_def Let_def split: if_splits worker_state.splits option.splits)
  from Step.hyps(2) show ?case
    by (elim mt_stepE) (use honest_client [of A s s'] Step w thread_step_rest [of T s s'] in auto)
qed simp

end

section \<open>Nothing fails\<close>

lemma run_acts_blocks:
  "run_acts T A t = Some (Inr (), t') \<Longrightarrow> b \<in> set (blocks_of A) \<Longrightarrow> do_job T b \<noteq> None"
proof (induction A arbitrary: t)
  case (Cons a A)
  then show ?case by (cases a) (auto simp: with_st_def split: option.splits sum.splits)
qed simp

definition clean :: "('b, 'o, 't, 'r) pipeline \<Rightarrow> bool" where
  "clean s \<longleftrightarrow> mt_err s = None \<and> Dead \<notin> set (mt_workers s) \<and> (\<forall>i. mt_results s i \<noteq> Some None) \<and>
     (\<forall>e. mt_client s \<noteq> Closing (Some e) \<and> mt_client s \<noteq> Returned (Inl e)) \<and>
     (\<forall>r. mt_state s = Ended r \<longrightarrow> r = Some (Inr ())) \<and> (\<forall>r. mt_client s = Returned r \<longrightarrow> thread_ended s)"

lemma clean_dispatched:
  assumes "clean s" "shape n s" "client_open s" "dispatched j tried acts s s'"
  shows "clean s'"
  using assms(4)
proof cases
  case (Dropped e nw slot)
  then have "slot < n" using assms(2) by (auto simp: looks_at_def shape_def)
  then have "Dead \<in> set (mt_workers s)" using Dropped(2) assms(2) nth_mem by (metis shape_def)
  with assms(1) show ?thesis by (simp add: clean_def)
qed (use assms(1,3) in \<open>auto simp: clean_def place_job_def thread_ended_def\<close>)

lemma alone_acts:
  assumes "run_alone T A t0 = Some (Inr (), t)"
  obtains t1 where "run_acts T A t0 = Some (Inr (), t1)" "put_close T t1 = Some (Inr (), t)"
  using assms by (auto simp: run_alone_def with_st_def split: option.splits sum.splits)

lemma run_acts_prefix:
  assumes "run_acts T (as @ bs) t0 = Some (Inr (), t)" "run_acts T as t0 = Some (Inr (), t1)"
  shows "run_acts T bs t1 = Some (Inr (), t)"
  using assms by (simp add: run_acts_append)

context dispatching
begin

lemma clean_client:
  assumes nofail: "no_fail A" and i: "pipeline_inv T t0 A s"
    and c: "clean s" and n: "shape n s" and eq: "client_step T s = Some s'"
  shows "clean s'"
proof -
  from i obtain dn where dn: "done_acts A dn (mt_client s)" and t: "thread_ok T t0 dn s"
    unfolding pipeline_inv_def by blast
  have run: "\<not> thread_ended s" if "client_open s" using t c that by (auto simp: thread_ok_def clean_def thread_ended_def split: thread_state.splits)
  show ?thesis
  proof (cases "mt_client s")
    case (Running acts)
    then have op: "\<not> thread_ended s" using run by (simp add: client_open_def)
    show ?thesis
    proof (cases acts)
      case (Cons a as)
      have "a \<noteq> Act_Fail e" for e using nofail dn Running Cons by (auto simp: no_fail_def)
      then show ?thesis using Running Cons eq c op
        by (cases a) (auto simp: client_step_def run_act_def send_order_def clean_def thread_ended_def split: if_splits)
    qed (use Running eq c in \<open>auto simp: client_step_def clean_def thread_ended_def\<close>)
  next
    case (Dispatching j k tried acts)
    then have "client_open s" by (simp add: client_open_def)
    moreover from Dispatching eq have "s' = try_job T j k tried acts s" by (simp add: client_step_def)
    ultimately show ?thesis using clean_dispatched [OF c n _ tries] by simp
  next
    case (Waiting j slot acts)
    then have "client_open s" by (simp add: client_open_def)
    moreover from Waiting eq have "dispatched j 0 acts s s'" by (simp add: client_step_def wait_slot_dispatched)
    ultimately show ?thesis by (rule clean_dispatched [OF c n])
  next
    case (Closing e)
    with eq have "join_threads T e s = Some s'" by (simp add: client_step_def)
    then obtain r q where "mt_state s = Ended q" "s' = s\<lparr>mt_client := Returned r\<rparr>" "\<And>e'. r = Inl e' \<Longrightarrow> e = Some e' \<or> q \<noteq> Some (Inr ())"
      by (rule join_threads_cases) blast
    with c Closing show ?thesis by (auto simp: clean_def thread_ended_def)
  qed (use eq in \<open>simp add: client_step_def\<close>)
qed

end

lemma blocks_prefix: "done_acts A dn c \<Longrightarrow> set (blocks_of dn) \<subseteq> set (blocks_of A)"
  by (cases "(A, dn, c)" rule: done_acts.cases) auto

lemma clean_worker:
  assumes alone: "run_alone T A t0 = Some (Inr (), t)" and i: "pipeline_inv T t0 A s"
    and c: "clean s" and eq: "worker_step T k s = Some s'"
  shows "clean s'"
proof -
  from i obtain dn where dn: "done_acts A dn (mt_client s)" and j: "jobs_ok T (blocks_of dn) s"
    unfolding pipeline_inv_def by blast
  have k: "k < length (mt_workers s)" using eq by (auto simp: worker_step_def split: if_splits)
  have "do_job T (snd jb) \<noteq> None" if "mt_workers s ! k = Busy jb" for jb
  proof -
    have "jb \<in> jobs s" using nth_jobs(2) [OF k that] .
    then have "fst jb < length (blocks_of dn)" "blocks_of dn ! fst jb = snd jb" using j by (auto simp: jobs_ok_def)
    then have "snd jb \<in> set (blocks_of dn)" using nth_mem by metis
    with blocks_prefix [OF dn] run_acts_blocks show ?thesis by (metis alone_acts [OF alone] subsetD)
  qed
  with c eq k show ?thesis
    by (auto simp: worker_step_def clean_def thread_ended_def dest!: in_set_updateD split: worker_state.splits option.splits if_splits)
qed

lemma clean_thread:
  assumes alone: "run_alone T A t0 = Some (Inr (), t)" and i: "pipeline_inv T t0 A s"
    and c: "clean s" and eq: "thread_step T s = Some s'"
  shows "clean s'"
proof -
  from i obtain dn where dn: "done_acts A dn (mt_client s)" and j: "jobs_ok T (blocks_of dn) s"
    and t: "thread_ok T t0 dn s" unfolding pipeline_inv_def by blast
  obtain rest where A: "A = dn @ rest" using dn by (cases "(A, dn, mt_client s)" rule: done_acts.cases) auto
  obtain t1 where t1: "run_acts T (dn @ rest) t0 = Some (Inr (), t1)" "put_close T t1 = Some (Inr (), t)"
    using alone_acts [OF alone] A by metis
  have goes: "clean (thread_goes_on m s2)" if "m = Some (Inr (), t2)" "clean s2" "\<not> thread_ended s"
    "mt_client s2 = mt_client s" for m t2 s2
    using that c by (auto simp: clean_def thread_goes_on_def)
  show ?thesis
  proof (cases "mt_state s")
    case Receiving
    with t obtain past pend where p: "dn = past @ pend" "mt_order s = number (length (blocks_of past)) pend"
      "run_acts T past t0 = Some (Inr (), mt_thread s)" by (auto simp: thread_ok_def)
    have rest: "run_acts T (pend @ rest) (mt_thread s) = Some (Inr (), t1)"
      using run_acts_prefix [of T past "pend @ rest"] t1(1) p(1,3) by simp
    show ?thesis
    proof (cases "mt_order s")
      case Nil
      with eq Receiving have op: "\<not> client_open s" and s': "s' = (case put_close T (mt_thread s) of
          None \<Rightarrow> thread_ends None s | Some (r, t) \<Rightarrow> thread_ends (Some r) (s\<lparr>mt_thread := t\<rparr>))"
        by (auto simp: thread_step_def split: if_splits)
      from op c Receiving have "mt_client s = Closing None" by (auto simp: client_open_def clean_def thread_ended_def split: client_state.splits)
      then have "rest = []" using dn A by simp
      moreover have "list_all quiet pend" using p(2) Nil number_Nil by metis
      ultimately have "t1 = mt_thread s" using rest by (simp add: quiet_run)
      with s' t1(2) c \<open>mt_client s = Closing None\<close> show ?thesis by (auto simp: thread_ends_def clean_def)
    next
      case (Cons x q)
      with p(2) have "number (length (blocks_of past)) pend = x # q" by simp
      then show ?thesis
      proof (cases rule: number_Cons)
        case (Raw cs b more)
        then obtain t2 where "put_raw T b (mt_thread s) = Some (Inr (), t2)"
          using rest by (auto simp: run_acts_append quiet_run [OF Raw(2)] with_st_def split: option.splits sum.splits)
        with goes [OF this, of "s\<lparr>mt_order := q\<rparr>"] eq Receiving Cons Raw(3) c show ?thesis
          by (simp add: thread_step_def clean_def thread_ended_def)
      qed (use eq Receiving Cons c in \<open>auto simp: thread_step_def clean_def thread_ended_def\<close>)
    qed
  next
    case (Awaiting i)
    with t obtain past b pend where p: "dn = past @ Act_Block b # pend" "i = length (blocks_of past)"
      "run_acts T past t0 = Some (Inr (), mt_thread s)" by (auto simp: thread_ok_def)
    obtain out where r: "mt_results s i = Some (Some out)"
      using eq Awaiting c by (auto simp: thread_step_def clean_def split: option.splits)
    have "do_job T (blocks_of dn ! i) = Some out" using j r unfolding jobs_ok_def by blast
    then have "do_job T b = Some out" using p(1,2) by (simp add: nth_append)
    moreover have "run_acts T (Act_Block b # pend @ rest) (mt_thread s) = Some (Inr (), t1)"
      using run_acts_prefix [of T past "Act_Block b # pend @ rest"] t1(1) p(1,3) by simp
    ultimately obtain t2 where "put_result T out (mt_thread s) = Some (Inr (), t2)"
      by (auto simp: with_st_def split: option.splits sum.splits)
    with goes [OF this c] Awaiting eq r show ?thesis by (simp add: thread_step_def thread_ended_def)
  qed (use eq in \<open>simp add: thread_step_def\<close>)
qed

context dispatching
begin

lemma clean_reach:
  assumes "mt_reach T s0 s" "run_alone T A t0 = Some (Inr (), t)" "no_fail A"
    and "pipeline_inv T t0 A s0" "shape n s0" "clean s0"
  shows "clean s"
  using assms(1)
proof (induction rule: mt_reach.induct)
  case (Step s s')
  note i = reach_inv [OF Step.hyps(1) assms(4)] and n = shape_reach [OF Step.hyps(1) assms(5)]
  from Step.hyps(2) show ?case
    by (elim mt_stepE)
      (use clean_client [OF assms(3) i Step.IH n] clean_worker [OF assms(2) i Step.IH] clean_thread [OF assms(2) i Step.IH] in auto)
qed (rule assms(6))

end

end
