(* ===== verification/Mt_Progress.thy ===== *)
theory Mt_Progress
  imports Mt_Complete
begin

text \<open>
  The concurrent writer neither deadlocks nor runs forever, whatever the scheduler does: while the
  client has not returned some thread can take a step, and every step uses up some of the work left.
\<close>

section \<open>The work left\<close>

text \<open>The weight of an action covers the steps it causes, with \<open>n\<close> workers.\<close>

fun act_work :: "nat \<Rightarrow> 'b mt_act \<Rightarrow> nat" where
  "act_work n (Act_Raw p) = 3"
| "act_work n (Act_Block b) = n + 7"
| "act_work n _ = 1"

definition acts_work :: "nat \<Rightarrow> 'b mt_act list \<Rightarrow> nat" where
  "acts_work n acts = sum_list (map (act_work n) acts)"

lemma acts_work_simps [simp]: "acts_work n [] = 0" "acts_work n (a # acts) = act_work n a + acts_work n acts"
  by (simp_all add: acts_work_def)

fun client_work :: "nat \<Rightarrow> ('b, 'r) client_state \<Rightarrow> nat" where
  "client_work n (Running acts) = acts_work n acts + 2"
| "client_work n (Dispatching j i tried acts) = acts_work n acts + (n + 1 - tried) + 5"
| "client_work n (Waiting j slot acts) = acts_work n acts + 5"
| "client_work n (Closing e) = 1"
| "client_work n (Returned r) = 0"

fun slot_work :: "'b mt_job option \<Rightarrow> nat" where
  "slot_work None = 0"
| "slot_work (Some j) = 2"

fun worker_work :: "'b worker_state \<Rightarrow> nat" where
  "worker_work (Busy j) = 1"
| "worker_work _ = 0"

fun thread_work :: "thread_state \<Rightarrow> nat" where
  "thread_work Receiving = 1"
| "thread_work (Awaiting i) = 2"
| "thread_work (Ended r) = 0"

definition mt_work :: "('b, 'o, 't, 'r) pipeline \<Rightarrow> nat" where
  "mt_work s = client_work (length (mt_slots s)) (mt_client s) + sum_list (map slot_work (mt_slots s)) +
     sum_list (map worker_work (mt_workers s)) + 2 * length (mt_order s) + thread_work (mt_state s)"

lemma sum_list_put: "k < length xs \<Longrightarrow> sum_list (map f (xs[k := x])) + f (xs ! k) = sum_list (map f xs) + (f x :: nat)"
proof (induction xs arbitrary: k)
  case (Cons y ys)
  then show ?case by (cases k) simp_all
qed simp

section \<open>The invariant\<close>

text \<open>A dead worker has no job in its slot, and the job of a block without a result is somewhere.\<close>

definition live :: "nat \<Rightarrow> ('b, 'o, 't, 'r) pipeline \<Rightarrow> bool" where
  "live n s \<longleftrightarrow> shape n s \<and> (\<forall>k < n. mt_workers s ! k = Dead \<longrightarrow> mt_slots s ! k = None) \<and>
     (\<forall>i < mt_next_block s. mt_results s i \<noteq> None \<or> i \<in> fst ` jobs s) \<and>
     (\<forall>j k tried acts. mt_client s = Dispatching j k tried acts \<longrightarrow> tried \<le> n)"

lemma worker_decreases:
  assumes "shape n s" "worker_step T k s = Some s'"
  shows "mt_work s' < mt_work s"
proof -
  have k: "k < length (mt_workers s)" "k < length (mt_slots s)"
    using assms by (auto simp: shape_def worker_step_def split: if_splits)
  note puts = sum_list_put [OF k(1), of worker_work] sum_list_put [OF k(2), of slot_work]
  show ?thesis
  proof (cases "mt_workers s ! k")
    case Idle
    then obtain j where "mt_slots s ! k = Some j"
      "s' = s\<lparr>mt_slots := (mt_slots s)[k := None], mt_workers := (mt_workers s)[k := Busy j]\<rparr>"
      using assms(2) k by (auto simp: worker_step_def split: option.splits)
    then show ?thesis using puts(1) [of "Busy j"] puts(2) [of None] Idle by (simp add: mt_work_def)
  next
    case (Busy j)
    show ?thesis
    proof (cases "do_job T (snd j)")
      case None
      with Busy assms(2) k have s': "s' = worker_dies k j s" by (simp add: worker_step_def)
      show ?thesis using puts(1) [of Dead] puts(2) [of None] Busy
        by (simp add: s' worker_dies_def drop_job_def mt_work_def Let_def split: option.splits)
    next
      case (Some out)
      with Busy assms(2) k puts(1) [of Idle] show ?thesis by (auto simp: worker_step_def mt_work_def)
    qed
  qed (use assms(2) k in \<open>simp add: worker_step_def\<close>)
qed

lemma goes_on_work: "mt_work (thread_goes_on m s) \<le> mt_work (s\<lparr>mt_state := Receiving\<rparr>)"
  by (auto simp: thread_goes_on_def thread_ends_def mt_work_def split: option.splits sum.splits)

lemma thread_decreases:
  assumes "thread_step T s = Some s'"
  shows "mt_work s' < mt_work s"
proof (cases "mt_state s")
  case Receiving
  show ?thesis
  proof (cases "mt_order s")
    case (Cons x q)
    have "mt_work (thread_goes_on m (s\<lparr>mt_order := q\<rparr>)) < mt_work s" for m
      using goes_on_work [of m "s\<lparr>mt_order := q\<rparr>"] Receiving Cons by (simp add: mt_work_def)
    with Receiving Cons assms show ?thesis by (cases x) (auto simp: thread_step_def mt_work_def)
  qed (use Receiving assms in \<open>auto simp: thread_step_def thread_ends_def mt_work_def split: if_splits option.splits\<close>)
next
  case (Awaiting i)
  have "mt_work (thread_goes_on m s) < mt_work s" for m
    using goes_on_work [of m s] Awaiting by (simp add: mt_work_def)
  with Awaiting assms show ?thesis by (auto simp: thread_step_def thread_ends_def mt_work_def split: option.splits)
qed (use assms in \<open>simp add: thread_step_def\<close>)

lemma slots_put:
  assumes "k < length (mt_slots s)" "mt_slots s ! k = None"
  shows "sum_list (map slot_work ((mt_slots s)[k := Some j])) = sum_list (map slot_work (mt_slots s)) + 2"
  using sum_list_put [OF assms(1), of slot_work "Some j"] assms(2) by simp

lemma dispatched_decreases:
  assumes "live n s" "dispatched j tried acts s s'" "mt_client s = Dispatching j i tried acts"
  shows "mt_work s' < mt_work s"
proof -
  have n: "0 < n" "length (mt_slots s) = n" "tried \<le> n" using assms(1,3) by (simp_all add: live_def shape_def)
  show ?thesis
    using assms(2)
  proof cases
    case (Placed nw slot)
    then have "slot < length (mt_slots s)" using n assms(3) by (auto simp: looks_at_def)
    from slots_put [OF this Placed(3), of j] Placed(1) n assms(3) show ?thesis by (simp add: mt_work_def place_job_def)
  qed (use n assms(3) in \<open>auto simp: mt_work_def client_fails_def drop_job_def\<close>)
qed

lemma wait_decreases:
  assumes "live n s" "mt_client s = Waiting j slot acts" "wait_slot T j slot acts s = Some s'"
  shows "mt_work s' < mt_work s"
proof -
  have "slot < length (mt_slots s)" using assms(1,2) by (auto simp: live_def shape_def)
  from slots_put [OF this, of j] assms(2,3) show ?thesis
    by (auto simp: wait_slot_def client_fails_def drop_job_def place_job_def mt_work_def split: if_splits)
qed

context dispatching
begin

lemma client_decreases:
  assumes "live n s" "client_step T s = Some s'"
  shows "mt_work s' < mt_work s"
proof (cases "mt_client s")
  case (Running acts)
  show ?thesis
  proof (cases acts)
    case (Cons a as)
    with Running assms(2) show ?thesis
      by (cases a) (auto simp: client_step_def run_act_def send_order_def client_fails_def mt_work_def split: if_splits option.splits)
  qed (use Running assms in \<open>auto simp: client_step_def mt_work_def\<close>)
next
  case (Dispatching j i tried acts)
  with assms(2) have "s' = try_job T j i tried acts s" by (simp add: client_step_def)
  with dispatched_decreases [OF assms(1) tries Dispatching] show ?thesis by simp
next
  case (Waiting j slot acts)
  with assms(2) wait_decreases [OF assms(1) Waiting] show ?thesis by (simp add: client_step_def)
next
  case (Closing e)
  with assms(2) have "join_threads T e s = Some s'" by (simp add: client_step_def)
  then show ?thesis by (rule join_threads_cases) (use Closing in \<open>auto simp: mt_work_def\<close>)
qed (use assms in \<open>simp add: client_step_def\<close>)

lemma step_decreases: "mt_step T s s' \<Longrightarrow> live n s \<Longrightarrow> mt_work s' < mt_work s"
  by (elim mt_stepE) (use client_decreases worker_decreases thread_decreases in \<open>auto simp: live_def\<close>)

end

section \<open>Every step keeps it\<close>

definition dead_idle :: "('b, 'o, 't, 'r) pipeline \<Rightarrow> bool" where
  "dead_idle s \<longleftrightarrow> (\<forall>k < length (mt_workers s). mt_workers s ! k = Dead \<longrightarrow> mt_slots s ! k = None)"

definition blocks_kept :: "('b, 'o, 't, 'r) pipeline \<Rightarrow> bool" where
  "blocks_kept s \<longleftrightarrow> (\<forall>i < mt_next_block s. mt_results s i \<noteq> None \<or> i \<in> fst ` jobs s)"

definition tried_ok :: "nat \<Rightarrow> ('b, 'o, 't, 'r) pipeline \<Rightarrow> bool" where
  "tried_ok n s \<longleftrightarrow> (\<forall>j k tried acts. mt_client s = Dispatching j k tried acts \<longrightarrow> tried \<le> n)"

lemma live_parts: "live n s \<longleftrightarrow> shape n s \<and> dead_idle s \<and> blocks_kept s \<and> tried_ok n s"
  by (auto simp: live_def dead_idle_def blocks_kept_def tried_ok_def shape_def)

lemma kept_mono:
  assumes "blocks_kept s" "mt_next_block s' = mt_next_block s"
    and "\<And>j. j \<in> jobs s \<Longrightarrow> j \<in> jobs s' \<or> mt_results s' (fst j) \<noteq> None" "\<And>i. mt_results s i \<noteq> None \<Longrightarrow> mt_results s' i \<noteq> None"
  shows "blocks_kept s'"
  unfolding blocks_kept_def
proof (intro allI impI)
  fix i assume "i < mt_next_block s'"
  with assms(1,2) have "mt_results s i \<noteq> None \<or> i \<in> fst ` jobs s" by (simp add: blocks_kept_def)
  then show "mt_results s' i \<noteq> None \<or> i \<in> fst ` jobs s'" using assms(3,4) by fastforce
qed

text \<open>A slot that is filled keeps the jobs of the others; one that is emptied loses its own only.\<close>

lemma set_put: "k < length xs \<Longrightarrow> x \<in> set xs \<Longrightarrow> x = xs ! k \<or> x \<in> set (xs[k := y])"
  by (metis in_set_conv_nth length_list_update nth_list_update_neq)

lemma live_dispatched:
  assumes l: "live n s" and d: "dispatched j tried acts s s'" and c: "client_jobs (mt_client s) = {j}"
    and t: "tried_ok n s'" and n: "shape n s'"
  shows "live n s'"
proof -
  have l': "shape n s" "dead_idle s" "blocks_kept s" using l by (simp_all add: live_parts)
  from d have "dead_idle s' \<and> blocks_kept s'"
  proof cases
    case (Dropped e nw slot)
    have "blocks_kept s'" by (rule kept_mono [OF l'(3)])
      (use Dropped c in \<open>auto simp: client_fails_def drop_job_def jobs_def\<close>)
    with Dropped l'(2) show ?thesis by (simp add: dead_idle_def client_fails_def drop_job_def)
  next
    case (Placed nw k)
    then have k: "k < length (mt_slots s)" "k < length (mt_workers s)" using l'(1) by (auto simp: shape_def looks_at_def)
    have "blocks_kept s'"
    proof (rule kept_mono [OF l'(3)])
      fix i assume "i \<in> jobs s"
      then show "i \<in> jobs s' \<or> mt_results s' (fst i) \<noteq> None"
        using set_put [OF k(1), of "Some i" "Some j"] k c Placed
        by (auto simp: jobs_def place_job_def intro: set_update_memI)
    qed (use Placed in \<open>simp_all add: place_job_def\<close>)
    moreover have "dead_idle s'" using l'(2) Placed k by (auto simp: dead_idle_def place_job_def nth_list_update)
    ultimately show ?thesis by simp
  next
    case (Searching i k nw)
    have "blocks_kept s'" by (rule kept_mono [OF l'(3)]) (use Searching c in \<open>auto simp: jobs_def\<close>)
    with Searching l'(2) show ?thesis by (simp add: dead_idle_def)
  next
    case (Stopping k nw)
    have "blocks_kept s'" by (rule kept_mono [OF l'(3)]) (use Stopping c in \<open>auto simp: jobs_def\<close>)
    with Stopping l'(2) show ?thesis by (simp add: dead_idle_def)
  qed
  with n t show ?thesis by (simp add: live_parts)
qed

lemma tried_dispatched: "shape n s \<Longrightarrow> dispatched j tried acts s s' \<Longrightarrow> tried_ok n s'"
  by (erule dispatched.cases) (auto simp: tried_ok_def client_fails_def shape_def)

context dispatching
begin

lemma live_client:
  assumes l: "live n s" and eq: "client_step T s = Some s'"
  shows "live n s'"
proof -
  have l': "shape n s" "dead_idle s" "blocks_kept s" "0 < n" "length (mt_slots s) = n" using l by (simp_all add: live_parts shape_def)
  have n: "shape n s'" by (rule shape_client [OF l'(1) eq])
  show ?thesis
  proof (cases "mt_client s")
    case (Running acts)
    have "dead_idle s' \<and> blocks_kept s' \<and> tried_ok n s'"
    proof (cases acts)
      case Nil
      with Running eq have "s' = s\<lparr>mt_client := Closing None\<rparr>" by (simp add: client_step_def)
      with l' Running show ?thesis by (auto simp: dead_idle_def blocks_kept_def tried_ok_def jobs_def)
    next
      case (Cons a as)
      with eq Running have r: "run_act T a as s = Some s'" by (simp add: client_step_def)
      show ?thesis
      proof (cases a)
        case (Act_Block b)
        with r consider e where "s' = client_fails e s"
          | "s' = s\<lparr>mt_order := mt_order s @ [Order_Block (mt_next_block s)], mt_next_block := mt_next_block s + 1,
              mt_client := Dispatching (mt_next_block s, b) 0 0 as\<rparr>"
          by (auto simp: run_act_def send_order_def split: if_splits)
        then show ?thesis
        proof cases
          case 2
          have "jobs s' = insert (mt_next_block s, b) (jobs s)" using 2 Running by (auto simp: jobs_def)
          with l'(2,3) 2 show ?thesis by (auto simp: dead_idle_def blocks_kept_def tried_ok_def less_Suc_eq)
        qed (use l' Running in \<open>auto simp: dead_idle_def blocks_kept_def tried_ok_def client_fails_def jobs_def\<close>)
      qed (use l' Running r in \<open>auto simp: run_act_def send_order_def client_fails_def dead_idle_def blocks_kept_def tried_ok_def
          jobs_def split: if_splits option.splits\<close>)
    qed
    with n show ?thesis by (simp add: live_parts)
  next
    case (Dispatching j i tried acts)
    with eq have s': "s' = try_job T j i tried acts s" by (simp add: client_step_def)
    show ?thesis using live_dispatched [OF l tries [of j tried acts s i]] tried_dispatched [OF l'(1) tries] n Dispatching
      by (simp add: s')
  next
    case (Waiting j slot acts)
    then have w: "dispatched j 0 acts s s'" using eq by (simp add: client_step_def wait_slot_dispatched)
    show ?thesis using live_dispatched [OF l w _ tried_dispatched [OF l'(1) w] n] Waiting by simp
  next
    case (Closing e)
    with eq have "join_threads T e s = Some s'" by (simp add: client_step_def)
    then obtain r where "s' = s\<lparr>mt_client := Returned r\<rparr>" by (rule join_threads_cases) blast
    with l' n Closing show ?thesis by (auto simp: live_parts dead_idle_def blocks_kept_def tried_ok_def jobs_def)
  qed (use eq in \<open>simp add: client_step_def\<close>)
qed

end

lemma live_worker:
  assumes l: "live n s" and eq: "worker_step T k s = Some s'"
  shows "live n s'"
proof -
  have l': "shape n s" "dead_idle s" "blocks_kept s" "tried_ok n s" using l by (simp_all add: live_parts)
  have n: "shape n s'" by (rule shape_worker [OF l'(1) eq])
  have k: "k < length (mt_workers s)" "k < length (mt_slots s)"
    using eq l'(1) by (auto simp: shape_def worker_step_def split: if_splits)
  have "mt_client s' = mt_client s"
    using eq by (auto simp: worker_step_def worker_dies_def drop_job_def Let_def split: if_splits worker_state.splits option.splits)
  then have t: "tried_ok n s'" using l'(4) by (simp add: tried_ok_def)
  show ?thesis
  proof (cases "mt_workers s ! k")
    case Idle
    then obtain jb where s': "mt_slots s ! k = Some jb"
      "s' = s\<lparr>mt_slots := (mt_slots s)[k := None], mt_workers := (mt_workers s)[k := Busy jb]\<rparr>"
      using eq k by (auto simp: worker_step_def split: option.splits)
    have "blocks_kept s'"
    proof (rule kept_mono [OF l'(3)])
      fix i assume "i \<in> jobs s"
      then have "i \<in> jobs s'"
        using set_put [OF k(2), of "Some i" None] set_put [OF k(1), of "Busy i" "Busy jb"] k s' Idle
        by (auto simp: jobs_def intro: set_update_memI)
      then show "i \<in> jobs s' \<or> mt_results s' (fst i) \<noteq> None" ..
    qed (use s' in simp_all)
    moreover have "dead_idle s'" using l'(2) s' k by (auto simp: dead_idle_def nth_list_update)
    ultimately show ?thesis using n t by (simp add: live_parts)
  next
    case (Busy jb)
    show ?thesis
    proof (cases "do_job T (snd jb)")
      case None
      with Busy eq k have s': "s' = worker_dies k jb s" by (simp add: worker_step_def)
      have "blocks_kept s'"
      proof (rule kept_mono [OF l'(3)])
        fix i assume "i \<in> jobs s"
        then show "i \<in> jobs s' \<or> mt_results s' (fst i) \<noteq> None"
          using set_put [OF k(2), of "Some i" None] set_put [OF k(1), of "Busy i" Dead] k s' Busy
          by (auto simp: jobs_def worker_dies_def drop_job_def Let_def split: option.splits)
      qed (use s' in \<open>auto simp: worker_dies_def drop_job_def Let_def split: option.splits\<close>)
      moreover have "dead_idle s'" using l'(2) s' k
        by (auto simp: dead_idle_def worker_dies_def drop_job_def Let_def nth_list_update split: option.splits)
      ultimately show ?thesis using n t by (simp add: live_parts)
    next
      case (Some out)
      with Busy eq k have s': "s' = s\<lparr>mt_workers := (mt_workers s)[k := Idle], mt_results := (mt_results s)(fst jb \<mapsto> Some out)\<rparr>"
        by (simp add: worker_step_def)
      have "blocks_kept s'"
      proof (rule kept_mono [OF l'(3)])
        fix i assume "i \<in> jobs s"
        then show "i \<in> jobs s' \<or> mt_results s' (fst i) \<noteq> None"
          using set_put [OF k(1), of "Busy i" Idle] s' Busy by (auto simp: jobs_def)
      qed (use s' in auto)
      moreover have "dead_idle s'" using l'(2) s' k by (auto simp: dead_idle_def nth_list_update)
      ultimately show ?thesis using n t by (simp add: live_parts)
    qed
  qed (use eq k in \<open>simp add: worker_step_def\<close>)
qed

lemma live_thread: "live n s \<Longrightarrow> thread_step T s = Some s' \<Longrightarrow> live n s'"
  by (drule thread_step_rest) (simp add: live_def shape_def jobs_def)

context dispatching
begin

lemma live_step: "mt_step T s s' \<Longrightarrow> live n s \<Longrightarrow> live n s'"
  by (elim mt_stepE) (use live_client live_worker live_thread in blast)+

end

section \<open>Some thread can go on\<close>

lemma worker_can_step:
  assumes "shape n s" "dead_idle s" "\<not> workers_exited s"
  shows "\<exists>k s'. worker_step T k s = Some s'"
proof -
  have "\<exists>k < n. (mt_slots s ! k \<noteq> None \<and> mt_workers s ! k = Idle) \<or> (\<exists>j. mt_workers s ! k = Busy j)"
  proof -
    from assms(1,3) consider k where "k < n" "mt_slots s ! k \<noteq> None" | k where "k < n" "mt_workers s ! k \<noteq> Idle" "mt_workers s ! k \<noteq> Dead"
      by (auto simp: workers_exited_def shape_def in_set_conv_nth)
    then show ?thesis
    proof cases
      case (1 k)
      then have "mt_workers s ! k \<noteq> Dead" using assms(1,2) by (auto simp: dead_idle_def shape_def)
      with 1 show ?thesis by (cases "mt_workers s ! k") auto
    next
      case (2 k)
      then show ?thesis by (cases "mt_workers s ! k") auto
    qed
  qed
  then obtain k where "k < n" "(mt_slots s ! k \<noteq> None \<and> mt_workers s ! k = Idle) \<or> (\<exists>j. mt_workers s ! k = Busy j)" by blast
  then show ?thesis using assms(1) by (intro exI [of _ k]) (auto simp: worker_step_def shape_def)
qed

lemma no_jobs: "workers_exited s \<Longrightarrow> client_jobs (mt_client s) = {} \<Longrightarrow> jobs s = {}"
  by (auto simp: workers_exited_def jobs_def)

text \<open>A writer thread that has not thread_ended can go on, unless it waits for the client or for a worker.\<close>

lemma thread_can_step:
  assumes l: "live n s" and i: "pipeline_inv T t0 A s" and e: "\<not> thread_ended s"
    and c: "client_jobs (mt_client s) = {}" and o: "mt_order s = [] \<Longrightarrow> \<not> client_open s \<or> (\<exists>i. mt_state s = Awaiting i)"
  shows "\<exists>s'. mt_step T s s'"
proof (cases "workers_exited s")
  case False
  with worker_can_step l show ?thesis unfolding live_parts by (meson By_Worker)
next
  case True
  from i obtain dn where j: "jobs_ok T (blocks_of dn) s" and t: "thread_ok T t0 dn s"
    unfolding pipeline_inv_def by blast
  have "\<exists>s'. thread_step T s = Some s'"
  proof (cases "mt_state s")
    case Receiving
    with o show ?thesis by (cases "mt_order s") (auto simp: thread_step_def split: order_item.splits)
  next
    case (Awaiting i)
    with t have "i < length (blocks_of dn)" by (auto simp: thread_ok_def)
    then have "mt_results s i \<noteq> None" using j l no_jobs [OF True c] by (auto simp: jobs_ok_def live_parts blocks_kept_def)
    with Awaiting show ?thesis by (auto simp: thread_step_def split: option.splits)
  qed (use e in \<open>simp add: thread_ended_def\<close>)
  then show ?thesis by (meson By_Thread)
qed

lemma can_step:
  assumes l: "live n s" and i: "pipeline_inv T t0 A s" and r: "\<nexists>r. mt_client s = Returned r"
  shows "\<exists>s'. mt_step T s s'"
proof (cases "client_step T s")
  case (Some s')
  then show ?thesis by (meson By_Client)
next
  case None
  show ?thesis
  proof (cases "mt_client s")
    case (Running acts)
    have full: "length (mt_order s) \<ge> length (mt_slots s) + 1" "\<not> thread_ended s"
      using None Running by (auto simp: client_step_def run_act_def send_order_def split: list.splits mt_act.splits if_splits)
    then have "mt_order s \<noteq> []" by auto
    with thread_can_step [OF l i full(2)] Running show ?thesis by simp
  next
    case (Waiting j slot acts)
    with None have w: "mt_workers s ! slot \<noteq> Dead" "mt_slots s ! slot \<noteq> None"
      by (auto simp: client_step_def wait_slot_def split: if_splits)
    have "slot < length (mt_slots s)" using l Waiting by (auto simp: live_def shape_def)
    then have "\<not> workers_exited s" using w(2) by (auto simp: workers_exited_def)
    with worker_can_step l show ?thesis unfolding live_parts by (meson By_Worker)
  next
    case (Closing e)
    show ?thesis
    proof (cases "workers_exited s \<and> thread_ended s")
      case True
      with None Closing show ?thesis
        by (auto simp: client_step_def join_threads_def thread_ended_def split: thread_state.splits)
    next
      case False
      show ?thesis
      proof (cases "workers_exited s")
        case True
        with False thread_can_step [OF l i] Closing show ?thesis by (simp add: client_open_def)
      next
        case False
        with worker_can_step l show ?thesis unfolding live_parts by (meson By_Worker)
      qed
    qed
  qed (use None r in \<open>auto simp: client_step_def\<close>)
qed

section \<open>Runs\<close>

text \<open>A run takes a step whenever there is one.\<close>

definition mt_run :: "('b, 'o, 't, 'r) threads \<Rightarrow> (nat \<Rightarrow> ('b, 'o, 't, 'r) pipeline) \<Rightarrow> bool" where
  "mt_run T f \<longleftrightarrow> (\<forall>k. mt_step T (f k) (f (Suc k)) \<or> (\<nexists>s'. mt_step T (f k) s') \<and> f (Suc k) = f k)"

lemma run_exists: "\<exists>f. f 0 = s \<and> mt_run T f"
proof -
  let ?step = "mt_step T"
  have "\<exists>f. \<forall>n. (n = 0 \<longrightarrow> f n = s) \<and> (?step (f n) (f (Suc n)) \<or> (\<nexists>s'. ?step (f n) s') \<and> f (Suc n) = f n)"
  proof (rule dependent_nat_choice)
    show "\<exists>x. 0 = (0 :: nat) \<longrightarrow> x = s" by blast
    show "\<exists>y. (Suc n = 0 \<longrightarrow> y = s) \<and> (?step x y \<or> (\<nexists>s'. ?step x s') \<and> y = x)" for x and n :: nat by blast
  qed
  then show ?thesis by (auto simp: mt_run_def)
qed

lemma run_reach: "mt_run T f \<Longrightarrow> mt_reach T (f 0) (f k)"
proof (induction k)
  case (Suc k)
  then have "mt_reach T (f 0) (f k)" by simp
  moreover have "mt_step T (f k) (f (Suc k)) \<or> f (Suc k) = f k" using Suc.prems unfolding mt_run_def by blast
  ultimately show ?case by (auto intro: mt_reach.Step)
qed (rule mt_reach.Start)

context dispatching
begin

lemma live_reach: "mt_reach T s0 s \<Longrightarrow> live n s0 \<Longrightarrow> live n s"
  by (induction rule: mt_reach.induct) (auto intro: live_step)

text \<open>The client returns before the work is used up.\<close>

lemma run_returns:
  assumes run: "mt_run T f" and l: "live n (f 0)" and i: "pipeline_inv T t0 A (f 0)"
  shows "\<exists>k \<le> mt_work (f 0). \<exists>r. mt_client (f k) = Returned r"
proof (rule ccontr)
  assume none: "\<not> ?thesis"
  have "mt_work (f k) + k \<le> mt_work (f 0)" if "k \<le> Suc (mt_work (f 0))" for k
    using that
  proof (induction k)
    case (Suc k)
    note r = run_reach [OF run, of k]
    have "\<nexists>r. mt_client (f k) = Returned r" using none Suc.prems by auto
    from can_step [OF live_reach [OF r l] reach_inv [OF r i] this] have "mt_step T (f k) (f (Suc k))"
      using run unfolding mt_run_def by blast
    from step_decreases [OF this live_reach [OF r l]] Suc show ?case by simp
  qed simp
  from this [of "Suc (mt_work (f 0))"] show False by simp
qed

text \<open>
  What every run comes to: the client returns, with the result of the one thread of the reference if that
  thread succeeds and no action is a failure of the client, and with an error otherwise.
\<close>

lemma start_pipeline_ok:
  assumes "0 < n"
  shows "live n (start_pipeline n t A)" "pipeline_inv T t A (start_pipeline n t A)" "clean (start_pipeline n t A)"
    "honest A (mt_client (start_pipeline n t A))" "mt_work (start_pipeline n t A) = acts_work n A + 3"
proof -
  show "live n (start_pipeline n t A)" "clean (start_pipeline n t A)" "honest A (mt_client (start_pipeline n t A))"
    using assms by (auto simp: live_def shape_def clean_def start_pipeline_def intro!: exI [of _ "[]"])
  show "pipeline_inv T t A (start_pipeline n t A)"
    using pipeline_start_inv [of "start_pipeline n t A" A n T] by (simp add: start_pipeline_def)
  show "mt_work (start_pipeline n t A) = acts_work n A + 3"
    by (simp add: mt_work_def start_pipeline_def sum_list_replicate)
qed

lemma run_outcome:
  assumes "0 < n" "mt_run T f" "f 0 = start_pipeline n t A"
  shows "\<exists>k \<le> acts_work n A + 3. \<exists>r. mt_client (f k) = Returned r \<and>
    (case r of
       Inl e \<Rightarrow> \<not> no_fail A \<or> (\<nexists>t'. run_alone T A t = Some (Inr (), t'))
     | Inr w \<Rightarrow> no_fail A \<and> (\<exists>t'. run_alone T A t = Some (Inr (), t') \<and> w = outcome T t'))"
proof -
  have start: "live n (f 0)" "pipeline_inv T t A (f 0)" "clean (f 0)" "honest A (mt_client (f 0))" "mt_work (f 0) = acts_work n A + 3"
    by (simp_all add: assms(3) start_pipeline_ok [OF assms(1)])
  from run_returns [OF assms(2) start(1,2)] start(5) obtain k r where r: "k \<le> acts_work n A + 3" "mt_client (f k) = Returned r"
    by auto
  note reach = run_reach [OF assms(2), of k]
  have "no_fail A \<and> (\<exists>t'. run_alone T A t = Some (Inr (), t') \<and> w = outcome T t')" if "r = Inr w" for w
    using honest_reach [OF reach start(4)] reach_inv [OF reach start(2)] r(2) that by (auto simp: pipeline_inv_def)
  moreover have False if "r = Inl e" "no_fail A" "run_alone T A t = Some (Inr (), t')" for e t'
    using clean_reach [OF reach that(3,2) start(2) _ start(3), where n = n] start(1) r(2) that(1) by (auto simp: clean_def live_def)
  ultimately show ?thesis using r by (intro exI [of _ k] conjI exI [of _ r]) (auto split: sum.split)
qed

end

end
