(* ===== verification/Mt_Writer.thy ===== *)
theory Mt_Writer
  imports Mt_Progress Writer
begin

text \<open>
  \<^verbatim>\<open>stream/mt_writer.rs\<close> and \<^verbatim>\<open>stream/mt_pool.rs\<close>: the concurrent writer. A client splits its input into blocks,
  workers compress them, and a writer thread writes the results in the order of submission. What each
  thread does on its own is a function; their channels are those of \<^theory_text>\<open>Mt_Pipeline\<close>. The buffers that circulate between the threads are always empty when they are taken from
  their pool, so a block is the list of its bytes.
\<close>

section \<open>The pool of buffers\<close>

record buffer_pool =
  pool_items :: "bytes list"
  max_items :: nat
  cap_hint :: nat

definition pool_new :: "nat \<Rightarrow> nat \<Rightarrow> buffer_pool" where
  "pool_new n cap = \<lparr>pool_items = [], max_items = n, cap_hint = cap\<rparr>"

definition pool_acquire :: "buffer_pool \<Rightarrow> bytes \<times> buffer_pool" where
  "pool_acquire p = (case pool_items p of
     [] \<Rightarrow> ([], p)
   | _ \<Rightarrow> (last (pool_items p), p\<lparr>pool_items := butlast (pool_items p)\<rparr>))"

definition pool_release :: "bytes \<Rightarrow> buffer_pool \<Rightarrow> buffer_pool" where
  "pool_release buf p =
     (if length (pool_items p) < max_items p then p\<lparr>pool_items := pool_items p @ [[]]\<rparr> else p)"

definition pool_ok :: "buffer_pool \<Rightarrow> bool" where
  "pool_ok p \<longleftrightarrow> (\<forall>b \<in> set (pool_items p). b = []) \<and> length (pool_items p) \<le> max_items p"

text \<open>A buffer taken from a pool is empty, and the pool never holds more than its maximum.\<close>

lemma pool_sound:
  "pool_ok (pool_new n cap)"
  "pool_ok p \<Longrightarrow> fst (pool_acquire p) = [] \<and> pool_ok (snd (pool_acquire p))"
  "pool_ok p \<Longrightarrow> pool_ok (pool_release b p)"
  by (auto simp: pool_ok_def pool_new_def pool_acquire_def pool_release_def dest: in_set_butlastD split: list.splits)

section \<open>Options\<close>

definition concurrency_new :: "nat \<Rightarrow> nat option" where
  "concurrency_new n = (if n = 0 then None else Some n)"

record mt_writer_builder =
  mb_block_size :: nat
  mb_level :: level
  mb_uncompressed :: bool
  mb_padding :: nat
  mb_concurrency :: nat
  mb_generate_index :: bool
  mb_append_index :: bool

text \<open>The default number of workers is the parallelism of the host, a parameter.\<close>

definition mt_writer_builder_default :: "nat \<Rightarrow> mt_writer_builder" where
  "mt_writer_builder_default available = \<lparr>mb_block_size = DEFAULT_BLOCK_SIZE, mb_level = Balanced, mb_uncompressed = False,
     mb_padding = 0, mb_concurrency = available, mb_generate_index = True, mb_append_index = False\<rparr>"

definition mt_set_block_size :: "nat \<Rightarrow> mt_writer_builder \<Rightarrow> mt_writer_builder" where
  "mt_set_block_size n b = b\<lparr>mb_block_size := n\<rparr>"

definition mt_set_level :: "level \<Rightarrow> mt_writer_builder \<Rightarrow> mt_writer_builder" where
  "mt_set_level lv b = b\<lparr>mb_level := lv, mb_uncompressed := False\<rparr>"

definition mt_set_uncompressed :: "mt_writer_builder \<Rightarrow> mt_writer_builder" where
  "mt_set_uncompressed b = b\<lparr>mb_uncompressed := True\<rparr>"

definition mt_set_padding :: "nat \<Rightarrow> mt_writer_builder \<Rightarrow> mt_writer_builder" where
  "mt_set_padding n b = b\<lparr>mb_padding := (if n \<le> 1 then 0 else n)\<rparr>"

definition mt_set_concurrency :: "nat \<Rightarrow> mt_writer_builder \<Rightarrow> mt_writer_builder" where
  "mt_set_concurrency n b = b\<lparr>mb_concurrency := n\<rparr>"

definition mt_set_generate_index :: "bool \<Rightarrow> mt_writer_builder \<Rightarrow> mt_writer_builder" where
  "mt_set_generate_index g b = b\<lparr>mb_generate_index := g\<rparr>"

definition mt_set_append_index :: "mt_writer_builder \<Rightarrow> mt_writer_builder" where
  "mt_set_append_index b = b\<lparr>mb_generate_index := True, mb_append_index := True\<rparr>"

section \<open>The client\<close>

text \<open>The calls of the client are functions to its actions and to the fields of the writer.\<close>

record mt_writer_fields =
  mw_block_size :: nat
  mw_ibuf :: bytes
  mw_uncomp_written :: nat
  mw_wrote_header :: bool

type_synonym mt_plan = "(bytes mt_act list \<times> mt_writer_fields) option"

definition then_do :: "mt_plan \<Rightarrow> (mt_writer_fields \<Rightarrow> mt_plan) \<Rightarrow> mt_plan" where
  "then_do m f = do { (acts, c) \<leftarrow> m; (acts', c) \<leftarrow> f c; Some (acts @ acts', c) }"

definition mt_check_err :: "mt_writer_fields \<Rightarrow> mt_plan" where
  "mt_check_err c = Some ([Act_Check], c)"

definition mt_submit_raw :: "bytes \<Rightarrow> mt_writer_fields \<Rightarrow> mt_plan" where
  "mt_submit_raw bs c = Some ([Act_Raw bs], c)"

definition mt_ensure_header :: "mt_writer_fields \<Rightarrow> mt_plan" where
  "mt_ensure_header c =
     (if mw_wrote_header c then Some ([], c)
      else do { h \<leftarrow> make_stream_header (mw_block_size c); mt_submit_raw h (c\<lparr>mw_wrote_header := True\<rparr>) })"

definition mt_submit_block :: "bytes \<Rightarrow> mt_writer_fields \<Rightarrow> mt_plan" where
  "mt_submit_block block c = do {
     n \<leftarrow> chk_u64 (mw_uncomp_written c + length block);
     Some ([Act_Block block], c\<lparr>mw_uncomp_written := n\<rparr>) }"

definition mt_blocks_step ::
  "bytes \<times> bytes mt_act list \<times> mt_writer_fields \<Rightarrow> (bytes \<times> bytes mt_act list \<times> mt_writer_fields + bytes mt_act list \<times> mt_writer_fields) option" where
  "mt_blocks_step = (\<lambda>(data, acts, c).
     if data \<noteq> [] then do {
       let n = min (length data) (mw_block_size c);
       (acts', c) \<leftarrow> then_do (mt_check_err c) (mt_submit_block (take n data));
       Some (Inl (drop n data, acts @ acts', c)) }
     else Some (Inr (acts, c)))"

definition mt_write_blocks :: "bytes \<Rightarrow> mt_writer_fields \<Rightarrow> mt_plan" where
  "mt_write_blocks data c = then_do (mt_ensure_header c) (\<lambda>c. loop mt_blocks_step (data, [], c))"

definition mt_flush_ibuf :: "mt_writer_fields \<Rightarrow> mt_plan" where
  "mt_flush_ibuf c =
     (if mw_ibuf c = [] then Some ([], c) else mt_write_blocks (mw_ibuf c) (c\<lparr>mw_ibuf := []\<rparr>))"

definition mt_write_step ::
  "bytes \<times> bytes mt_act list \<times> mt_writer_fields \<Rightarrow> (bytes \<times> bytes mt_act list \<times> mt_writer_fields + bytes mt_act list \<times> mt_writer_fields) option" where
  "mt_write_step = (\<lambda>(p, acts, c).
     if p \<noteq> [] then do {
       free \<leftarrow> usub (mw_block_size c) (length (mw_ibuf c));
       if mw_ibuf c = [] \<and> mw_block_size c \<le> length p then
         let n = min (length p - length p mod mw_block_size c) (length p) in do {
         (acts', c) \<leftarrow> mt_write_blocks (take n p) c;
         Some (Inl (drop n p, acts @ acts', c)) }
       else
         let n = min (length p) free; c = c\<lparr>mw_ibuf := mw_ibuf c @ take n p\<rparr> in do {
         (acts', c) \<leftarrow> (if length (mw_ibuf c) = mw_block_size c then mt_flush_ibuf c else Some ([], c));
         Some (Inl (drop n p, acts @ acts', c)) } }
     else Some (Inr (acts, c)))"

definition mt_write :: "bytes \<Rightarrow> mt_writer_fields \<Rightarrow> mt_plan" where
  "mt_write p c = then_do (mt_check_err c) (\<lambda>c. loop mt_write_step (p, [], c))"

definition mt_flush :: "mt_writer_fields \<Rightarrow> mt_plan" where
  "mt_flush c = then_do (mt_check_err c) mt_flush_ibuf"

definition mt_encode_buffer :: "bytes \<Rightarrow> mt_writer_fields \<Rightarrow> mt_plan" where
  "mt_encode_buffer buf c = then_do (mt_flush_ibuf c) (mt_write_blocks buf)"

definition mt_add_user_chunk :: "byte \<Rightarrow> bytes \<Rightarrow> mt_writer_fields \<Rightarrow> mt_plan" where
  "mt_add_user_chunk cid data c =
     (if \<not> (MIN_USER_SKIPPABLE_CHUNK \<le> cid \<and> cid \<le> MAX_USER_NON_SKIPPABLE_CHUNK) then
        Some ([Act_Fail (Io_Error InvalidInput (''user-chunk id '' @ show_hex_byte cid @ '' out of range''))], c)
      else if MAX_USER_CHUNK_SIZE < length data then
        Some ([Act_Fail (Io_Error InvalidInput ''user-chunk exceeds maximum size'')], c)
      else then_do (mt_check_err c) (\<lambda>c. then_do (mt_flush_ibuf c) (\<lambda>c. then_do (mt_ensure_header c)
        (mt_submit_raw (cid # len_bytes (length data) @ data)))))"

text \<open>The calls of \<^verbatim>\<open>finish\<close> before it closes the queue.\<close>

definition mt_finish_acts :: "mt_writer_fields \<Rightarrow> mt_plan" where
  "mt_finish_acts c = then_do (mt_check_err c) (\<lambda>c. then_do (mt_flush_ibuf c) (\<lambda>c. then_do (mt_ensure_header c) (\<lambda>c. do {
     (v, n) \<leftarrow> stream_put_uvarint (replicate MAX_VARINT_LEN_64 0) (of_nat (mw_uncomp_written c));
     p \<leftarrow> slice ([CHUNK_TYPE_EOF, of_nat n, 0, 0] @ v) 0 (CHUNK_HEADER_SIZE + n);
     mt_submit_raw p c })))"

datatype mt_op = Mt_Write bytes | Mt_Flush | Mt_Chunk byte bytes | Mt_Encode bytes

fun mt_run_op :: "mt_op \<Rightarrow> mt_writer_fields \<Rightarrow> mt_plan" where
  "mt_run_op (Mt_Write p) = mt_write p"
| "mt_run_op Mt_Flush = mt_flush"
| "mt_run_op (Mt_Chunk cid data) = mt_add_user_chunk cid data"
| "mt_run_op (Mt_Encode buf) = mt_encode_buffer buf"

fun mt_run_ops :: "mt_op list \<Rightarrow> mt_writer_fields \<Rightarrow> mt_plan" where
  "mt_run_ops [] c = Some ([], c)"
| "mt_run_ops (op # ops) c = then_do (mt_run_op op c) (mt_run_ops ops)"

section \<open>A worker\<close>

text \<open>What a worker sends back, without the buffers that return to their pools.\<close>

record worker_output =
  out_hdr :: bytes
  out_body :: bytes
  out_uncomp_len :: nat

definition error_marker :: bytes where
  "error_marker = [0xff, 0, 0, 0, 0, 0, 0, 0]"

definition is_error_marker :: "bytes \<Rightarrow> bool" where
  "is_error_marker hdr \<longleftrightarrow> take 4 hdr = [0xff, 0, 0, 0]"

text \<open>The output for a block; None is a panic of the encoder. The body of an error is its text.\<close>

definition worker_encode :: "level \<Rightarrow> bool \<Rightarrow> bytes \<Rightarrow> worker_output option" where
  "worker_encode lv uncompressed_mode block = do {
     let crc = masked_crc32c block;
     r \<leftarrow> (if uncompressed_mode then Some (Inr ([], False)) else append_encoded_chunk_body [] block lv);
     Some (case r of
       Inl e \<Rightarrow> \<lparr>out_hdr = error_marker, out_body = map of_char (''encode: '' @ show_error e),
         out_uncomp_len = unat (of_nat (length block) :: u32)\<rparr>
     | Inr (out, compressed_ok) \<Rightarrow>
         let (chunk_type, body) = (if compressed_ok then (CHUNK_TYPE_MINLZ_COMPRESSED_DATA, out)
           else (CHUNK_TYPE_UNCOMPRESSED_DATA, block)) in
         \<lparr>out_hdr = data_header chunk_type (CHECKSUM_SIZE + length body) crc, out_body = body,
           out_uncomp_len = unat (of_nat (length block) :: u32)\<rparr>) }"

section \<open>The writer thread\<close>

record 'w writer_thread =
  th_sink :: 'w
  th_index :: "index option"
  th_append_index :: bool
  th_padding :: nat
  th_comp_written :: nat
  th_uncomp_written :: nat

definition th_write :: "'w sink_fns \<Rightarrow> bytes \<Rightarrow> 'w writer_thread \<Rightarrow> 'w writer_thread thread_res" where
  "th_write fns p t = (case write_all fns p (th_sink t) of (r, w) \<Rightarrow> Some (r, t\<lparr>th_sink := w\<rparr>))"

definition write_raw_item :: "'w sink_fns \<Rightarrow> bytes \<Rightarrow> 'w writer_thread \<Rightarrow> 'w writer_thread thread_res" where
  "write_raw_item fns bs t = with_st (th_write fns bs t) (\<lambda>_ t. do {
     n \<leftarrow> chk_u64 (th_comp_written t + length bs);
     Some (Inr (), t\<lparr>th_comp_written := n\<rparr>) })"

definition th_index_add :: "'w writer_thread \<Rightarrow> 'w writer_thread thread_res" where
  "th_index_add t = (case th_index t of
     None \<Rightarrow> Some (Inr (), t)
   | Some ix \<Rightarrow> do {
       (r, ix) \<leftarrow> index_add (th_comp_written t) (th_uncomp_written t) ix;
       Some (case r of Inl e \<Rightarrow> Inl (index_error_to_io e) | Inr u \<Rightarrow> Inr u, t\<lparr>th_index := Some ix\<rparr>) })"

definition write_block_item :: "'w sink_fns \<Rightarrow> worker_output \<Rightarrow> 'w writer_thread \<Rightarrow> 'w writer_thread thread_res" where
  "write_block_item fns out t =
     (if is_error_marker (out_hdr out) then Some (Inl (Io_Error InvalidData (map (\<lambda>b. char_of (unat b)) (out_body out))), t)
      else
        with_st (th_index_add t) (\<lambda>_ t.
        with_st (th_write fns (out_hdr out) t) (\<lambda>_ t.
        with_st (th_write fns (out_body out) t) (\<lambda>_ t. do {
          c \<leftarrow> chk_u64 (th_comp_written t + (length (out_hdr out) + length (out_body out)));
          u \<leftarrow> chk_u64 (th_uncomp_written t + out_uncomp_len out);
          Some (Inr (), t\<lparr>th_comp_written := c, th_uncomp_written := u\<rparr>) }))))"

definition mt_zeros_step ::
  "'w sink_fns \<Rightarrow> nat \<times> 'w writer_thread \<Rightarrow> (nat \<times> 'w writer_thread + (io_error + unit) \<times> 'w writer_thread) option" where
  "mt_zeros_step fns = (\<lambda>(remaining, t).
     if 0 < remaining then do {
       let n = min remaining 4096;
       (r, t) \<leftarrow> th_write fns (replicate n 0) t;
       case r of Inl e \<Rightarrow> Some (Inr (Inl e, t)) | Inr _ \<Rightarrow> Some (Inl (remaining - n, t)) }
     else Some (Inr (Inr (), t)))"

definition emit_mt_padding :: "'w sink_fns \<Rightarrow> 'w writer_thread \<Rightarrow> 'w writer_thread thread_res" where
  "emit_mt_padding fns t =
     (let multiple = th_padding t; leftover = th_comp_written t mod multiple in
      if leftover = 0 then Some (Inr (), t)
      else do {
        to_add \<leftarrow> loop (pad_step multiple) (multiple - leftover);
        if MAX_BLOCK_SIZE + CHUNK_HEADER_SIZE < to_add then Some (Inr (), t)
        else
          let body_len = to_add - CHUNK_HEADER_SIZE in
          with_st (th_write fns (CHUNK_TYPE_PADDING # len_bytes body_len) t) (\<lambda>_ t.
          with_st (loop (mt_zeros_step fns) (body_len, t)) (\<lambda>_ t. do {
            n \<leftarrow> chk_u64 (th_comp_written t + to_add);
            Some (Inr (), t\<lparr>th_comp_written := n\<rparr>) })) })"

text \<open>The index, whose bytes count for the padding when they are appended.\<close>

definition thread_index_bytes :: "'w writer_thread \<Rightarrow> ((io_error + bytes) \<times> 'w writer_thread) option" where
  "thread_index_bytes t = (case th_index t of
     None \<Rightarrow> Some (Inr [], t)
   | Some ix \<Rightarrow> do {
       let comp_total = (if th_padding t \<le> 1 then Some (th_comp_written t) else None);
       (r, ix) \<leftarrow> index_append_to [] (Some (th_uncomp_written t)) comp_total ix;
       let t = t\<lparr>th_index := Some ix\<rparr>;
       case r of
         Inl e \<Rightarrow> Some (Inl (index_error_to_io e), t)
       | Inr b \<Rightarrow>
           if th_append_index t then do {
             n \<leftarrow> chk_u64 (th_comp_written t + length b);
             Some (Inr b, t\<lparr>th_comp_written := n\<rparr>) }
           else Some (Inr [], t) })"

text \<open>What the thread does when the queue has been closed and is empty.\<close>

definition thread_close :: "'w sink_fns \<Rightarrow> 'w writer_thread \<Rightarrow> 'w writer_thread thread_res" where
  "thread_close fns t =
     with_st (thread_index_bytes t) (\<lambda>idx_bytes t.
     with_st (if 1 < th_padding t then emit_mt_padding fns t else Some (Inr (), t)) (\<lambda>_ t.
     with_st (if idx_bytes \<noteq> [] then th_write fns idx_bytes t else Some (Inr (), t)) (\<lambda>_ t.
     case flush_sink fns (th_sink t) of (r, w) \<Rightarrow> Some (r, t\<lparr>th_sink := w\<rparr>))))"

section \<open>A writer\<close>

definition mt_with_builder ::
  "'w \<Rightarrow> mt_writer_builder \<Rightarrow> nat \<Rightarrow> (bytes mt_act list \<Rightarrow> (bytes, worker_output, 'w writer_thread, 'w) pipeline) option" where
  "mt_with_builder w b concurrency = do {
     ix \<leftarrow> (if mb_generate_index b \<or> mb_append_index b then do {
         ix \<leftarrow> index_reset (mb_block_size b) index_default; Some (Some ix) }
       else Some None);
     Some (start_pipeline concurrency \<lparr>th_sink = w, th_index = ix, th_append_index = mb_append_index b,
       th_padding = mb_padding b, th_comp_written = 0, th_uncomp_written = 0\<rparr>) }"

definition mt_fields :: "mt_writer_builder \<Rightarrow> mt_writer_fields" where
  "mt_fields b = \<lparr>mw_block_size = mb_block_size b, mw_ibuf = [], mw_uncomp_written = 0, mw_wrote_header = False\<rparr>"

text \<open>A writer, as the pipeline that will run the actions of its client.\<close>

definition mt_build :: "'w \<Rightarrow> mt_writer_builder \<Rightarrow> (stream_error + (bytes mt_act list \<Rightarrow> (bytes, worker_output, 'w writer_thread, 'w) pipeline)) option" where
  "mt_build w b =
     (if \<not> (MIN_BLOCK_SIZE \<le> mb_block_size b \<and> mb_block_size b \<le> MAX_BLOCK_SIZE) then
        Some (Inl (SConfig ''block_size must be in [MIN_BLOCK_SIZE, MAX_BLOCK_SIZE]''))
      else if MAX_BLOCK_SIZE < mb_padding b then Some (Inl (SConfig (''padding must be '' @ [CHR 0xE2, CHR 0x89, CHR 0xA4] @ '' MAX_BLOCK_SIZE'')))
      else case concurrency_new (mb_concurrency b) of
        None \<Rightarrow> Some (Inl (SConfig (''concurrency must be '' @ [CHR 0xE2, CHR 0x89, CHR 0xA5] @ '' 1'')))
      | Some n \<Rightarrow> do { p \<leftarrow> mt_with_builder w b n; Some (Inr p) })"

text \<open>\<^verbatim>\<open>MtWriter::new\<close>, whose \<open>expect\<close> panics on an error; the number of workers is that of the host.\<close>

definition mt_new :: "nat \<Rightarrow> 'w \<Rightarrow> (bytes mt_act list \<Rightarrow> (bytes, worker_output, 'w writer_thread, 'w) pipeline) option" where
  "mt_new available w = do {
     r \<leftarrow> mt_build w (mt_writer_builder_default available);
     case r of Inl e \<Rightarrow> None | Inr p \<Rightarrow> Some p }"

definition mt_uncompressed_written :: "mt_writer_fields \<Rightarrow> nat" where
  "mt_uncompressed_written c = mw_uncomp_written c"

section \<open>The channels\<close>

definition pipeline_error :: "io_error option \<Rightarrow> io_error" where
  "pipeline_error err = (case err of Some e \<Rightarrow> e | None \<Rightarrow> other_error ''MinLZ MT pipeline closed unexpectedly'')"

text \<open>The first slot comes from the round robin, the next ones from the search of \<^verbatim>\<open>send_block_fallback\<close>.\<close>

definition try_first :: "bytes mt_job \<Rightarrow> bytes mt_act list \<Rightarrow> (bytes, worker_output, 'w writer_thread, 'w) pipeline \<Rightarrow> (bytes, worker_output, 'w writer_thread, 'w) pipeline" where
  "try_first j acts s =
     (let n = length (mt_slots s); slot = mt_next_worker s mod n; s = s\<lparr>mt_next_worker := (mt_next_worker s + 1) mod n\<rparr> in
      if mt_workers s ! slot = Dead then client_fails (pipeline_error (mt_err s)) (drop_job j s)
      else if mt_slots s ! slot = None then (place_job j slot s)\<lparr>mt_client := Running acts\<rparr>
      else s\<lparr>mt_client := Dispatching j (slot + 1) 1 acts\<rparr>)"

definition try_next :: "bytes mt_job \<Rightarrow> nat \<Rightarrow> nat \<Rightarrow> bytes mt_act list \<Rightarrow> (bytes, worker_output, 'w writer_thread, 'w) pipeline \<Rightarrow> (bytes, worker_output, 'w writer_thread, 'w) pipeline" where
  "try_next j i tried acts s =
     (let n = length (mt_slots s); slot = i mod n; i = (i + 1) mod n in
      if mt_workers s ! slot = Dead then client_fails (pipeline_error (mt_err s)) (drop_job j s)
      else if mt_slots s ! slot = None then (place_job j slot s)\<lparr>mt_client := Running acts, mt_next_worker := i\<rparr>
      else if n \<le> tried + 1 then s\<lparr>mt_client := Waiting j slot acts\<rparr>
      else s\<lparr>mt_client := Dispatching j i (tried + 1) acts\<rparr>)"

text \<open>The concurrent writer's threads, over a sink, with the level and the mode of its workers.\<close>

definition writer_threads ::
  "'w sink_fns \<Rightarrow> level \<Rightarrow> bool \<Rightarrow> (bytes, worker_output, 'w writer_thread, 'w) threads" where
  "writer_threads fns lv unc = \<lparr>do_job = worker_encode lv unc, put_raw = write_raw_item fns, put_result = write_block_item fns,
     put_close = thread_close fns, outcome = th_sink,
     try_job = (\<lambda>j i tried acts s. if tried = 0 then try_first j acts s else try_next j i tried acts s),
     queue_error = pipeline_error, pool_error = pipeline_error, exit_error = other_error ''writer thread did not return W''\<rparr>"

lemma writer_threads_simps [simp]:
  "do_job (writer_threads fns lv unc) = worker_encode lv unc" "put_raw (writer_threads fns lv unc) = write_raw_item fns"
  "put_result (writer_threads fns lv unc) = write_block_item fns" "put_close (writer_threads fns lv unc) = thread_close fns"
  "outcome (writer_threads fns lv unc) = th_sink"
  by (simp_all add: writer_threads_def)

text \<open>Its search for a worker keeps the contract.\<close>

lemma try_first_dispatched: "dispatched j 0 acts s (try_first j acts s)"
proof -
  let ?n = "length (mt_slots s)"
  let ?slot = "mt_next_worker s mod ?n"
  let ?nw = "(mt_next_worker s + 1) mod ?n"
  consider "mt_workers s ! ?slot = Dead" | "mt_workers s ! ?slot \<noteq> Dead" "mt_slots s ! ?slot = None"
    | "mt_workers s ! ?slot \<noteq> Dead" "mt_slots s ! ?slot \<noteq> None" by blast
  then show ?thesis
  proof cases
    case 1
    then show ?thesis by (intro Dropped [where nw = ?nw and slot = ?slot]) (auto simp: try_first_def looks_at_def Let_def)
  next
    case 2
    then show ?thesis by (intro Placed [where nw = ?nw and slot = ?slot]) (auto simp: try_first_def Let_def looks_at_def place_job_def)
  next
    case 3
    then show ?thesis by (intro Searching [where nw = ?nw and i = "?slot + 1" and tried' = 1]) (auto simp: Suc_le_eq try_first_def looks_at_def Let_def)
  qed
qed

lemma try_next_dispatched: "dispatched j tried acts s (try_next j i tried acts s)"
proof -
  let ?n = "length (mt_slots s)"
  let ?slot = "i mod ?n"
  consider "mt_workers s ! ?slot = Dead" | "mt_workers s ! ?slot \<noteq> Dead" "mt_slots s ! ?slot = None"
    | "mt_workers s ! ?slot \<noteq> Dead" "mt_slots s ! ?slot \<noteq> None" "?n \<le> tried + 1"
    | "mt_workers s ! ?slot \<noteq> Dead" "mt_slots s ! ?slot \<noteq> None" "\<not> ?n \<le> tried + 1" by blast
  then show ?thesis
  proof cases
    case 1
    then show ?thesis by (intro Dropped [where nw = "mt_next_worker s" and slot = ?slot]) (auto simp: try_next_def looks_at_def Let_def)
  next
    case 2
    then show ?thesis by (intro Placed [where nw = "(i + 1) mod ?n" and slot = ?slot]) (auto simp: try_next_def looks_at_def Let_def)
  next
    case 3
    then show ?thesis by (intro Stopping [where nw = "mt_next_worker s" and slot = ?slot]) (auto simp: try_next_def looks_at_def Let_def)
  next
    case 4
    then show ?thesis by (intro Searching [where nw = "mt_next_worker s" and i = "(i + 1) mod ?n" and tried' = "tried + 1"]) (auto simp: try_next_def looks_at_def Let_def)
  qed
qed

interpretation wr: dispatching "writer_threads fns lv unc"
  by unfold_locales (auto simp: writer_threads_def try_first_dispatched try_next_dispatched)

end
