(* ===== verification/Mt_Stream.thy ===== *)
theory Mt_Stream
  imports Mt_Writer Writer_Correct
begin

text \<open>
  What the concurrent writer writes. Its client and its writer thread together do what the
  single-threaded writer does: a block, or the end of the stream, succeeds for one exactly when it does
  for the other, and then leaves the same sink, index and counts.
\<close>

section \<open>The two writers side by side\<close>

text \<open>\<open>mirrors f m m'\<close>: both calls succeed or neither does, and \<open>f\<close> takes the first state to the second.\<close>

definition mirrors :: "('t \<Rightarrow> 's) \<Rightarrow> (('e + 'a) \<times> 't) option \<Rightarrow> (('f + 'b) \<times> 's) option \<Rightarrow> bool" where
  "mirrors f m m' \<longleftrightarrow> (\<forall>a t. m = Some (Inr a, t) \<longrightarrow> (\<exists>b. m' = Some (Inr b, f t))) \<and>
     (\<forall>b s. m' = Some (Inr b, s) \<longrightarrow> (\<exists>a t. m = Some (Inr a, t)))"

lemma mirrors_bind:
  assumes "mirrors f m m'" "\<And>a b t. m = Some (Inr a, t) \<Longrightarrow> m' = Some (Inr b, f t) \<Longrightarrow> mirrors g (k a t) (k' b (f t))"
  shows "mirrors g (with_st m k) (with_st m' k')"
proof (cases "\<exists>a t. m = Some (Inr a, t)")
  case True
  then obtain a t where a: "m = Some (Inr a, t)" by blast
  with assms(1) obtain b where "m' = Some (Inr b, f t)" unfolding mirrors_def by blast
  with a assms(2) show ?thesis by simp
next
  case False
  then have n: "\<nexists>b s. m' = Some (Inr b, s)" using assms(1) unfolding mirrors_def by blast
  have "with_st m k \<noteq> Some (Inr x, y)" for x y using False by (auto simp: with_st_def split: option.splits sum.splits)
  moreover have "with_st m' k' \<noteq> Some (Inr x, y)" for x y using n by (auto simp: with_st_def split: option.splits sum.splits)
  ultimately show ?thesis unfolding mirrors_def by blast
qed

lemma mirrors_Inr: "s = f t \<Longrightarrow> mirrors f (Some (Inr a, t)) (Some (Inr b, s))"
  by (simp add: mirrors_def)

definition as_writer :: "level \<Rightarrow> bool \<Rightarrow> mt_writer_fields \<Rightarrow> nat \<Rightarrow> bytes \<Rightarrow> 'w writer_thread \<Rightarrow> 'w writer" where
  "as_writer lv unc c k ob t = \<lparr>w_sink = th_sink t, ibuf = mw_ibuf c, obuf = ob, w_block_size = mw_block_size c, w_level = lv,
     w_uncompressed = unc, w_padding = th_padding t, w_flush_on_write = False, w_append_index = th_append_index t,
     w_index = th_index t, wrote_header = mw_wrote_header c, uncomp_written = th_uncomp_written t,
     comp_written = th_comp_written t + k, w_err = None\<rparr>"

lemma mirrors_write:
  assumes "th_comp_written t + k + length p < 2 ^ 64"
  shows "mirrors (as_writer lv unc c (k + length p) ob) (th_write fns p t) (write_all_tracked fns p (as_writer lv unc c k ob t))"
  using assms by (cases "write_all fns p (th_sink t)")
    (auto simp: mirrors_def th_write_def write_all_tracked_def as_writer_def chk_u64_def split: sum.splits)

lemma mirrors_index:
  "mirrors (as_writer lv unc c 0 ob) (th_index_add t) (index_block_start (as_writer lv unc c 0 ob t))"
proof (cases "th_index t")
  case (Some ix)
  show ?thesis
  proof (cases "index_add (th_comp_written t) (th_uncomp_written t) ix")
    case (Some r)
    moreover obtain q ix' where "r = (q, ix')" by (cases r)
    ultimately show ?thesis using \<open>th_index t = Some ix\<close>
      by (cases q) (auto simp: mirrors_def th_index_add_def index_block_start_def as_writer_def)
  qed (use Some in \<open>simp add: mirrors_def th_index_add_def index_block_start_def as_writer_def\<close>)
qed (simp add: mirrors_def th_index_add_def index_block_start_def as_writer_def)

lemma as_writer_obuf [simp]: "(as_writer lv unc c k ob t)\<lparr>obuf := ob'\<rparr> = as_writer lv unc c k ob' t"
  by (simp add: as_writer_def)

lemma th_keeps:
  "th_index_add t = Some (r, t') \<Longrightarrow> th_comp_written t' = th_comp_written t \<and> th_uncomp_written t' = th_uncomp_written t \<and>
    th_sink t' = th_sink t"
  "th_write fns p t = Some (r, t') \<Longrightarrow> th_comp_written t' = th_comp_written t \<and> th_uncomp_written t' = th_uncomp_written t"
  by (auto simp: th_index_add_def th_write_def Option.bind_eq_Some_conv split: option.splits prod.splits)

text \<open>An index entry, the two parts of a chunk, and the counts.\<close>

definition emit_parts :: "'w sink_fns \<Rightarrow> bytes \<Rightarrow> bytes \<Rightarrow> bytes \<Rightarrow> nat \<Rightarrow> 'w writer \<Rightarrow> ('w, unit) writer_res" where
  "emit_parts fns hdr ob body n st =
     with_st (index_block_start st) (\<lambda>_ st. with_st (write_all_tracked fns hdr (st\<lparr>obuf := ob\<rparr>)) (\<lambda>_ st.
     with_st (write_all_tracked fns body (st\<lparr>obuf := []\<rparr>)) (\<lambda>_ st. do {
       u \<leftarrow> chk_u64 (uncomp_written st + n);
       Some (Inr (), st\<lparr>uncomp_written := u\<rparr>) })))"

lemma mirrors_parts:
  assumes hdr: "\<not> is_error_marker (out_hdr out)"
    and n: "th_comp_written t + length (out_hdr out) + length (out_body out) < 2 ^ 64" "th_uncomp_written t + out_uncomp_len out < 2 ^ 64"
  shows "mirrors (as_writer lv unc c 0 []) (write_block_item fns out t)
    (emit_parts fns (out_hdr out) ob (out_body out) (out_uncomp_len out) (as_writer lv unc c 0 [] t))"
proof -
  let ?f = "as_writer lv unc c"
  show ?thesis unfolding emit_parts_def write_block_item_def if_not_P [OF hdr]
  proof (rule mirrors_bind [OF mirrors_index])
    fix a b t1
    assume t1: "th_index_add t = Some (Inr a, t1)"
    show "mirrors (?f 0 []) (with_st (th_write fns (out_hdr out) t1) (\<lambda>_ t. with_st (th_write fns (out_body out) t) (\<lambda>_ t.
        do { k \<leftarrow> chk_u64 (th_comp_written t + (length (out_hdr out) + length (out_body out)));
          u \<leftarrow> chk_u64 (th_uncomp_written t + out_uncomp_len out);
          Some (Inr (), t\<lparr>th_comp_written := k, th_uncomp_written := u\<rparr>) })))
      (with_st (write_all_tracked fns (out_hdr out) ((?f 0 [] t1)\<lparr>obuf := ob\<rparr>)) (\<lambda>_ st.
        with_st (write_all_tracked fns (out_body out) (st\<lparr>obuf := []\<rparr>)) (\<lambda>_ st.
        do { u \<leftarrow> chk_u64 (uncomp_written st + out_uncomp_len out); Some (Inr (), st\<lparr>uncomp_written := u\<rparr>) })))"
      unfolding as_writer_obuf
    proof (rule mirrors_bind [OF mirrors_write], goal_cases)
      case (2 a2 b2 t2)
      show ?case unfolding as_writer_obuf
      proof (rule mirrors_bind [OF mirrors_write], goal_cases)
        case (2 a3 b3 t3)
        then have "th_comp_written t3 = th_comp_written t \<and> th_uncomp_written t3 = th_uncomp_written t"
          using th_keeps(1) [OF t1] th_keeps(2) \<open>th_write fns (out_hdr out) t1 = Some (Inr a2, t2)\<close> by metis
        with n show ?case by (simp add: chk_u64_def mirrors_def as_writer_def)
      qed (use n th_keeps(1) [OF t1] th_keeps(2) [OF 2(1)] in simp)
    qed (use n th_keeps(1) [OF t1] in simp)
  qed
qed

lemma not_marker: "t \<noteq> 0xff \<Longrightarrow> \<not> is_error_marker (data_header t k crc)"
  by (simp add: is_error_marker_def data_header_def)

definition emit_and_count :: "'w sink_fns \<Rightarrow> bytes \<Rightarrow> 'w writer \<Rightarrow> ('w, unit) writer_res" where
  "emit_and_count fns b st = with_st (emit_block fns b st) (\<lambda>_ st. do {
     u \<leftarrow> chk_u64 (uncomp_written st + length b); Some (Inr (), st\<lparr>uncomp_written := u\<rparr>) })"

lemma with_st_cong: "(\<And>a s. m = Some (Inr a, s) \<Longrightarrow> f a s = g a s) \<Longrightarrow> with_st m f = with_st m g"
  by (auto simp: with_st_def split: option.split sum.split)

lemma write_keeps_obuf:
  "write_all_tracked fns p st = Some (Inr u, st') \<Longrightarrow> obuf st' = obuf st"
  "write_all_tracked fns p (st\<lparr>obuf := []\<rparr>) \<bind> (\<lambda>(res, st). Some (res, st\<lparr>obuf := []\<rparr>)) = write_all_tracked fns p (st\<lparr>obuf := []\<rparr>)"
  by (auto simp: write_all_tracked_def Option.bind_eq_Some_conv chk_u64_def split: prod.splits sum.splits if_splits)

lemma obuf_same: "obuf st = [] \<Longrightarrow> st\<lparr>obuf := []\<rparr> = st"
  by (cases st) simp

text \<open>A block of the single-threaded writer, when its compression does not pay off and when it does.\<close>

lemma emit_parts_plain:
  assumes "\<And>u st. index_block_start st0 = Some (Inr u, st) \<Longrightarrow> w_uncompressed st \<and> obuf st = [] \<or>
      \<not> w_uncompressed st \<and> append_encoded_chunk_body [] b (w_level st) = Some (Inr ([], False))"
  shows "emit_and_count fns b st0 =
    emit_parts fns (data_header CHUNK_TYPE_UNCOMPRESSED_DATA (CHECKSUM_SIZE + length b) (masked_crc32c b)) [] b (length b) st0"
  unfolding emit_and_count_def emit_block_def emit_parts_def with_st_assoc Let_def
proof (rule with_st_cong, goal_cases)
  case (1 u st)
  let ?hdr = "data_header CHUNK_TYPE_UNCOMPRESSED_DATA (CHECKSUM_SIZE + length b) (masked_crc32c b)"
  let ?count = "\<lambda>st. do { u \<leftarrow> chk_u64 (uncomp_written st + length b); Some (Inr (), st\<lparr>uncomp_written := u\<rparr>) }"
  have "with_st (write_all_tracked fns ?hdr (st\<lparr>obuf := []\<rparr>)) (\<lambda>_ st. with_st (write_all_tracked fns b st) (\<lambda>_. ?count)) =
      with_st (write_all_tracked fns ?hdr (st\<lparr>obuf := []\<rparr>)) (\<lambda>_ st. with_st (write_all_tracked fns b (st\<lparr>obuf := []\<rparr>)) (\<lambda>_. ?count))"
    by (rule with_st_cong) (drule write_keeps_obuf(1), simp add: obuf_same)
  with assms [OF 1] show ?case by (auto simp: with_st_assoc obuf_same)
qed

lemma emit_parts_packed:
  assumes "\<And>u st. index_block_start st0 = Some (Inr u, st) \<Longrightarrow>
      \<not> w_uncompressed st \<and> append_encoded_chunk_body [] b (w_level st) = Some (Inr (blk, True))"
  shows "emit_and_count fns b st0 =
    emit_parts fns (data_header CHUNK_TYPE_MINLZ_COMPRESSED_DATA (CHECKSUM_SIZE + length blk) (masked_crc32c b)) blk blk (length b) st0"
  unfolding emit_and_count_def emit_block_def emit_parts_def with_st_assoc Let_def
proof (rule with_st_cong, goal_cases)
  case (1 u st)
  with assms [OF 1] show ?case by (simp add: with_st_assoc write_keeps_obuf(2))
qed

lemma mirrors_block:
  assumes b: "length b \<le> MAX_BLOCK_SIZE" and n: "th_comp_written t < 2 ^ 62" "th_uncomp_written t < 2 ^ 62"
  shows "mirrors (as_writer lv unc c 0 []) (run_acts (writer_threads fns lv unc) [Act_Block b] t)
    (emit_and_count fns b (as_writer lv unc c 0 [] t))"
proof -
  let ?f = "as_writer lv unc c"
  have max: "length b \<le> 8388608" using b by (simp add: format_consts)
  have u32: "unat (of_nat (length b) :: u32) = length b" using max by (simp add: unat_of_nat)
  have one: "run_acts (writer_threads fns lv unc) [Act_Block b] t = write_block_item fns out t" if "worker_encode lv unc b = Some out" for out
    using that by (cases "write_block_item fns out t") (auto simp: with_st_def split: sum.splits)
  have keep: "w_uncompressed st = unc \<and> w_level st = lv \<and> obuf st = []" if "index_block_start (?f 0 [] t) = Some (Inr u, st)" for u st
    using that by (auto simp: index_block_start_def as_writer_def Option.bind_eq_Some_conv split: option.splits)
  let ?out = "\<lambda>ty body. \<lparr>out_hdr = data_header ty (CHECKSUM_SIZE + length body) (masked_crc32c b), out_body = body, out_uncomp_len = length b\<rparr>"
  have parts: "mirrors (?f 0 []) (write_block_item fns (?out ty body) t)
      (emit_parts fns (data_header ty (CHECKSUM_SIZE + length body) (masked_crc32c b)) ob body (length b) (?f 0 [] t))"
    if "ty \<noteq> 0xff" "length body \<le> length b" for ty body ob
    using mirrors_parts [of "?out ty body" t lv unc c fns ob] that n max not_marker [OF that(1)] by (simp add: data_header_def)
  have raw: "mirrors (?f 0 []) (run_acts (writer_threads fns lv unc) [Act_Block b] t) (emit_and_count fns b (?f 0 [] t))"
    if "worker_encode lv unc b = Some (?out CHUNK_TYPE_UNCOMPRESSED_DATA b)"
      "unc \<or> append_encoded_chunk_body [] b lv = Some (Inr ([], False))"
  proof -
    have "emit_and_count fns b (?f 0 [] t) = emit_parts fns (out_hdr (?out CHUNK_TYPE_UNCOMPRESSED_DATA b)) [] b (length b) (?f 0 [] t)"
      using emit_parts_plain [of "?f 0 [] t" b fns] keep that(2) by (simp, blast)
    with parts [of CHUNK_TYPE_UNCOMPRESSED_DATA b "[]"] one [OF that(1)] show ?thesis by (simp add: stream_consts)
  qed
  show ?thesis
  proof (cases unc)
    case True
    with raw u32 show ?thesis by (simp add: worker_encode_def Let_def)
  next
    case False
    show ?thesis
    proof (cases rule: chunk_encode_ok [OF b, of "[]" lv, case_names fault declined encoded])
      case fault
      have "worker_encode lv unc b = None" using False fault by (simp add: worker_encode_def Let_def)
      moreover have "emit_and_count fns b (?f 0 [] t) \<noteq> Some (Inr u, st)" for u st
        using keep fault False by (auto simp: emit_and_count_def emit_block_def with_st_def Let_def split: option.splits prod.splits sum.splits)
      ultimately show ?thesis by (simp add: mirrors_def)
    next
      case declined
      with raw u32 False show ?thesis by (simp add: worker_encode_def Let_def)
    next
      case (encoded blk)
      have "emit_and_count fns b (?f 0 [] t) = emit_parts fns
          (data_header CHUNK_TYPE_MINLZ_COMPRESSED_DATA (CHECKSUM_SIZE + length blk) (masked_crc32c b)) blk blk (length b) (?f 0 [] t)"
        using emit_parts_packed [of "?f 0 [] t" b blk fns] keep encoded(1) False by simp
      moreover have "worker_encode lv unc b = Some (?out CHUNK_TYPE_MINLZ_COMPRESSED_DATA blk)"
        using False encoded(1) u32 by (simp add: worker_encode_def Let_def)
      ultimately show ?thesis using parts [of CHUNK_TYPE_MINLZ_COMPRESSED_DATA blk blk] encoded(3) one by (simp add: stream_consts)
    qed
  qed
qed

lemma with_st_id: "with_st m (\<lambda>u st. Some (Inr (), st)) = m" for m :: "(('e + unit) \<times> 's) option"
  by (simp add: with_st_def split: option.split sum.split prod.split)

lemma mirrors_raw:
  assumes "th_comp_written t + length p < 2 ^ 64"
  shows "mirrors (as_writer lv unc c 0 []) (write_raw_item fns p t) (write_all_tracked fns p (as_writer lv unc c 0 [] t))"
proof -
  have "mirrors (as_writer lv unc c 0 []) (write_raw_item fns p t)
    (with_st (write_all_tracked fns p (as_writer lv unc c 0 [] t)) (\<lambda>_ st. Some (Inr (), st)))"
    unfolding write_raw_item_def
  proof (rule mirrors_bind [OF mirrors_write], goal_cases)
    case (2 a b t1)
    with th_keeps(2) [OF 2(1)] assms show ?case by (simp add: chk_u64_def mirrors_def as_writer_def)
  qed (use assms in simp)
  then show ?thesis by (simp only: with_st_id)
qed

section \<open>The end of the stream\<close>

lemma zeros_loops:
  "loop (mt_zeros_step fns) (0, t) = Some (Inr (), t)" "loop (zeros_step fns) (0, st) = Some (Inr (), st)"
  "0 < n \<Longrightarrow> loop (mt_zeros_step fns) (n, t) =
     with_st (th_write fns (replicate (min n 4096) 0) t) (\<lambda>_ t. loop (mt_zeros_step fns) (n - min n 4096, t))"
  "0 < n \<Longrightarrow> loop (zeros_step fns) (n, st) =
     with_st (write_all_tracked fns (replicate (min n 4096) 0) st) (\<lambda>_ st. loop (zeros_step fns) (n - min n 4096, st))"
  by (subst loop.simps, simp add: mt_zeros_step_def zeros_step_def with_st_def Let_def split: option.split sum.split prod.split)+

lemma mirrors_zeros:
  "th_comp_written t + k + n < 2 ^ 64 \<Longrightarrow>
   mirrors (as_writer lv unc c (k + n) []) (loop (mt_zeros_step fns) (n, t)) (loop (zeros_step fns) (n, as_writer lv unc c k [] t))"
proof (induction n arbitrary: k t rule: less_induct)
  case (less n)
  show ?case
  proof (cases "n = 0")
    case False
    let ?m = "min n 4096"
    show ?thesis unfolding zeros_loops(3,4) [OF False [THEN neq0_conv [THEN iffD1]]]
    proof (rule mirrors_bind [OF mirrors_write], goal_cases)
      case (2 a b t1)
      from th_keeps(2) [OF 2(1)] less.prems False
      have "mirrors (as_writer lv unc c (k + ?m + (n - ?m)) []) (loop (mt_zeros_step fns) (n - ?m, t1))
          (loop (zeros_step fns) (n - ?m, as_writer lv unc c (k + ?m) [] t1))"
        by (intro less.IH) auto
      then show ?case by simp
    qed (use less.prems in simp)
  qed (simp add: zeros_loops mirrors_def)
qed

lemma zeros_keep: "loop (mt_zeros_step fns) (n, t) = Some (r, t') \<Longrightarrow> th_comp_written t' = th_comp_written t"
  by (erule loop_partial [where I = "\<lambda>(n, t'). th_comp_written t' = th_comp_written t" and
        Q = "\<lambda>(r, t'). th_comp_written t' = th_comp_written t", THEN prod.case [THEN iffD1]])
    (auto simp: mt_zeros_step_def th_write_def Let_def split: if_splits prod.splits sum.splits)

lemma pad_loop_min: "loop (pad_step m) n = Some k \<Longrightarrow> CHUNK_HEADER_SIZE \<le> k"
  by (erule loop_partial [where I = "\<lambda>_. True"]) (auto simp: pad_step_def Option.bind_eq_Some_conv split: if_splits)

lemma mirrors_padding:
  assumes n: "th_comp_written t < 2 ^ 62"
  shows "mirrors (as_writer lv unc c 0 []) (if 1 < th_padding t then emit_mt_padding fns t else Some (Inr (), t))
    (emit_padding fns (as_writer lv unc c 0 [] t))"
proof (cases "1 < th_padding t \<and> th_comp_written t mod th_padding t \<noteq> 0")
  case True
  let ?f = "as_writer lv unc c"
  let ?m = "th_padding t"
  show ?thesis
  proof (cases "loop (pad_step ?m) (?m - th_comp_written t mod ?m)")
    case None
    with True show ?thesis by (simp add: mirrors_def emit_mt_padding_def emit_padding_def as_writer_def Let_def)
  next
    case (Some k)
    show ?thesis
    proof (cases "MAX_BLOCK_SIZE + CHUNK_HEADER_SIZE < k")
      case True
      with Some \<open>1 < ?m \<and> _\<close> show ?thesis by (simp add: mirrors_def emit_mt_padding_def emit_padding_def as_writer_def Let_def)
    next
      case False
      let ?body = "k - CHUNK_HEADER_SIZE"
      let ?hdr = "CHUNK_TYPE_PADDING # len_bytes ?body"
      have k: "4 \<le> k" "k \<le> 8388612" using pad_loop_min [OF Some] False by (simp_all add: format_consts stream_consts)
      have mt: "emit_mt_padding fns t = with_st (th_write fns ?hdr t) (\<lambda>_ t. with_st (loop (mt_zeros_step fns) (?body, t))
          (\<lambda>_ t. do { n \<leftarrow> chk_u64 (th_comp_written t + k); Some (Inr (), t\<lparr>th_comp_written := n\<rparr>) }))"
        using True Some False by (simp add: emit_mt_padding_def Let_def)
      have st: "emit_padding fns (?f 0 [] t) = with_st (write_all_tracked fns ?hdr (?f 0 [] t)) (\<lambda>_ st.
          with_st (loop (zeros_step fns) (?body, st)) (\<lambda>_ st. Some (Inr (), st)))"
        using True Some False unfolding emit_padding_def with_st_id by (simp add: as_writer_def Let_def)
      have "mirrors (?f 0 []) (emit_mt_padding fns t) (emit_padding fns (?f 0 [] t))"
        unfolding mt st
      proof (rule mirrors_bind [OF mirrors_write], goal_cases)
        case (2 a b t1)
        note t1 = th_keeps(2) [OF 2(1)]
        show ?case
        proof (rule mirrors_bind [OF mirrors_zeros], goal_cases)
          case (2 a2 b2 t2)
          with zeros_keep [OF 2(1)] t1 n k show ?case by (simp add: chk_u64_def mirrors_def as_writer_def stream_consts)
        qed (use t1 n k in \<open>simp add: stream_consts\<close>)
      qed (use n in simp)
      with True show ?thesis by simp
    qed
  qed
qed (auto simp: mirrors_def emit_mt_padding_def emit_padding_def as_writer_def Let_def)

lemma mirrors_index_bytes:
  "mirrors (as_writer lv unc c 0 []) (thread_index_bytes t) (close_index_bytes (th_index t \<noteq> None) (as_writer lv unc c 0 [] t))"
proof (cases "th_index t")
  case (Some ix)
  let ?r = "index_append_to [] (Some (th_uncomp_written t)) (if th_padding t \<le> 1 then Some (th_comp_written t) else None) ix"
  show ?thesis
  proof (cases ?r)
    case (Some r)
    moreover obtain q ix' where "r = (q, ix')" by (cases r)
    ultimately show ?thesis using \<open>th_index t = Some ix\<close>
      by (cases q; cases "th_append_index t")
        (auto simp: mirrors_def thread_index_bytes_def close_index_bytes_def as_writer_def Let_def chk_u64_def split: if_splits)
  qed (use Some in \<open>simp add: mirrors_def thread_index_bytes_def close_index_bytes_def as_writer_def Let_def split: if_splits\<close>)
qed (simp add: mirrors_def thread_index_bytes_def close_index_bytes_def as_writer_def)

text \<open>The configuration of the thread, which no operation changes.\<close>

definition th_config :: "'w writer_thread \<Rightarrow> bool \<times> nat \<times> bool" where
  "th_config t = (th_append_index t, th_padding t, th_index t = None)"

lemma with_st_keeps:
  assumes "with_st m f = Some (r, t')" "\<And>r t1. m = Some (r, t1) \<Longrightarrow> g t1 = g t" "\<And>a t1 r t2. f a t1 = Some (r, t2) \<Longrightarrow> g t2 = g t1"
  shows "g t' = g t"
  using assms by (auto simp: with_st_def split: option.splits sum.splits)

lemma config_write: "th_write fns p t = Some (r, t') \<Longrightarrow> th_config t' = th_config t"
  by (auto simp: th_write_def th_config_def split: prod.splits)

lemma config_zeros: "loop (mt_zeros_step fns) (n, t) = Some (r, t') \<Longrightarrow> th_config t' = th_config t"
  by (erule loop_partial [where I = "\<lambda>(n, t'). th_config t' = th_config t" and
        Q = "\<lambda>(r, t'). th_config t' = th_config t", THEN prod.case [THEN iffD1]])
    (auto simp: mt_zeros_step_def th_write_def th_config_def Let_def split: if_splits prod.splits sum.splits)

lemma config_padding: "emit_mt_padding fns t = Some (r, t') \<Longrightarrow> th_config t' = th_config t"
  by (auto simp: emit_mt_padding_def Let_def Option.bind_eq_Some_conv split: if_splits
      elim!: with_st_keeps [where g = th_config] dest!: config_write config_zeros) (auto simp: th_config_def)

lemma index_bytes_value:
  assumes "thread_index_bytes t = Some (Inr a, t1)" "close_index_bytes (th_index t \<noteq> None) (as_writer lv unc c 0 [] t) = Some (Inr b, st)"
  shows "a = (if th_append_index t then b else []) \<and> th_config t1 = th_config t"
  using assms
  by (auto simp: thread_index_bytes_def close_index_bytes_def as_writer_def Let_def th_config_def Option.bind_eq_Some_conv
    split: option.splits if_splits sum.splits)

definition close_rest :: "'w sink_fns \<Rightarrow> bool \<Rightarrow> 'w writer \<Rightarrow> ('w, bytes) writer_res" where
  "close_rest fns build st =
     with_st (close_index_bytes build st) (\<lambda>index_bytes st.
     with_st (emit_padding fns st) (\<lambda>_ st.
     with_st (write_index_chunk fns index_bytes st) (\<lambda>_ st.
     Some (Inr index_bytes, st))))"

definition flushed :: "'w sink_fns \<Rightarrow> ('w, 'a) writer_res \<Rightarrow> ('w, unit) writer_res" where
  "flushed fns m = with_st m (\<lambda>_ st. case flush_sink fns (w_sink st) of (r, w) \<Rightarrow> Some (r, st\<lparr>w_sink := w\<rparr>))"

text \<open>After the EOF chunk the writer thread does what the single-threaded writer does.\<close>

lemma mirrors_close:
  assumes n: "\<And>b t1. thread_index_bytes t = Some (Inr b, t1) \<Longrightarrow> th_comp_written t1 < 2 ^ 62"
  shows "mirrors (as_writer lv unc c 0 []) (thread_close fns t)
    (flushed fns (close_rest fns (th_index t \<noteq> None) (as_writer lv unc c 0 [] t)))"
  unfolding thread_close_def flushed_def close_rest_def with_st_assoc
proof (rule mirrors_bind [OF mirrors_index_bytes], goal_cases)
  case (1 a b t1)
  let ?f = "as_writer lv unc c 0 []"
  have v: "a = (if th_append_index t1 then b else [])" "th_config t1 = th_config t"
    using index_bytes_value [OF 1] by (simp_all add: th_config_def)
  show ?case
  proof (rule mirrors_bind [OF mirrors_padding [OF n [OF 1(1)]]], goal_cases)
    case (1 a2 b2 t2)
    then have "th_config t2 = th_config t1" using config_padding by (auto split: if_splits)
    then have app: "th_append_index t2 = th_append_index t1" by (simp add: th_config_def)
    have "mirrors ?f (if a \<noteq> [] then th_write fns a t2 else Some (Inr (), t2)) (write_index_chunk fns b (?f t2))"
      using v(1) app by (cases "write_all fns b (th_sink t2)")
        (auto simp: mirrors_def th_write_def write_index_chunk_def as_writer_def split: sum.splits)
    then show ?case unfolding with_st_simps
      by (rule mirrors_bind) (auto simp: mirrors_def as_writer_def split: prod.splits)
  qed
qed

end
