(* ===== verification/Mt_Correct.thy ===== *)
theory Mt_Correct
  imports Mt_Stream
begin

text \<open>
  The concurrent writer produces streams. The calls of the client and what they make the writer thread
  write are followed together: the plan of a call never panics, and the thread that runs it extends the
  stream by what the call was given.
\<close>

section \<open>Outcomes\<close>

text \<open>A thread that runs the actions gets through them, or fails for a reason outside the writer.\<close>

definition excused :: "'w sink_fns \<Rightarrow> level \<Rightarrow> bool" where
  "excused fns lv \<longleftrightarrow> \<not> fault_free fns \<or> lv = Smallest"

definition acts_out ::
  "'w sink_fns \<Rightarrow> level \<Rightarrow> ('w writer_thread \<Rightarrow> bool) \<Rightarrow> 'w writer_thread thread_res \<Rightarrow> bool" where
  "acts_out fns lv P m \<longleftrightarrow> (\<exists>t. m = Some (Inr (), t) \<and> P t) \<or> excused fns lv \<and> (\<nexists>t. m = Some (Inr (), t))"

text \<open>
  A plan for the client and, unless it has failed, a thread: the plan exists, has no error of the
  client, and leaves both as \<open>R\<close> says.
\<close>

definition mt_out ::
  "'w sink_fns \<Rightarrow> level \<Rightarrow> bool \<Rightarrow> (mt_writer_fields \<Rightarrow> 'w writer_thread option \<Rightarrow> bool) \<Rightarrow> mt_plan \<Rightarrow> 'w writer_thread option \<Rightarrow> bool" where
  "mt_out fns lv unc R plan ot \<longleftrightarrow> (\<exists>acts c. plan = Some (acts, c) \<and> no_fail acts \<and> R c None \<and>
     (\<forall>t. ot = Some t \<longrightarrow> acts_out fns lv (\<lambda>t. R c (Some t)) (run_acts (writer_threads fns lv unc) acts t)))"

lemma acts_out_mono: "acts_out fns lv P m \<Longrightarrow> (\<And>t. P t \<Longrightarrow> Q t) \<Longrightarrow> acts_out fns lv Q m"
  by (auto simp: acts_out_def)

lemma acts_out_bind:
  assumes "acts_out fns lv P m" "\<And>t. P t \<Longrightarrow> acts_out fns lv Q (k t)"
  shows "acts_out fns lv Q (with_st m (\<lambda>_. k))"
proof (cases "\<exists>t. m = Some (Inr (), t)")
  case True
  then obtain t where "m = Some (Inr (), t)" by blast
  with assms(1) assms(2) [of t] show ?thesis by (simp add: acts_out_def)
next
  case False
  then have "with_st m (\<lambda>_. k) \<noteq> Some (Inr (), t)" for t by (auto simp: with_st_def split: option.splits sum.splits)
  with False assms(1) show ?thesis by (auto simp: acts_out_def)
qed

lemma mt_out_mono:
  assumes "mt_out fns lv unc R plan ot" "\<And>c ot. R c ot \<Longrightarrow> Q c ot"
  shows "mt_out fns lv unc Q plan ot"
proof -
  from assms(1) obtain acts c where a: "plan = Some (acts, c)" "no_fail acts" "R c None"
    "\<And>t. ot = Some t \<Longrightarrow> acts_out fns lv (\<lambda>t. R c (Some t)) (run_acts (writer_threads fns lv unc) acts t)" unfolding mt_out_def by blast
  moreover have "acts_out fns lv (\<lambda>t. Q c (Some t)) (run_acts (writer_threads fns lv unc) acts t)" if "ot = Some t" for t
    using a(4) [OF that] by (rule acts_out_mono) (rule assms(2))
  ultimately show ?thesis using assms(2) by (simp add: mt_out_def)
qed

lemma mt_out_bind:
  assumes m: "mt_out fns lv unc R m ot" and f: "\<And>c ot. R c ot \<Longrightarrow> mt_out fns lv unc Q (f c) ot"
  shows "mt_out fns lv unc Q (then_do m f) ot"
proof -
  from m obtain acts c where a: "m = Some (acts, c)" "no_fail acts" "R c None"
    "\<And>t. ot = Some t \<Longrightarrow> acts_out fns lv (\<lambda>t. R c (Some t)) (run_acts (writer_threads fns lv unc) acts t)" unfolding mt_out_def by blast
  from f [OF a(3)] obtain acts' c' where b: "f c = Some (acts', c')" "no_fail acts'" "Q c' None"
    unfolding mt_out_def by blast
  have "acts_out fns lv (\<lambda>t. Q c' (Some t)) (run_acts (writer_threads fns lv unc) (acts @ acts') t)" if "ot = Some t" for t
    unfolding run_acts_append
  proof (rule acts_out_bind [OF a(4) [OF that]])
    fix t1 assume "R c (Some t1)"
    from f [OF this] b(1) show "acts_out fns lv (\<lambda>t. Q c' (Some t)) (run_acts (writer_threads fns lv unc) acts' t1)" by (simp add: mt_out_def)
  qed
  with a b show ?thesis by (auto simp: mt_out_def then_do_def)
qed

lemma mt_out_then:
  assumes m: "mt_out fns lv unc R (Some (acts, c)) ot" and f: "\<And>ot. R c ot \<Longrightarrow> mt_out fns lv unc Q (Some (acts', c')) ot"
  shows "mt_out fns lv unc Q (Some (acts @ acts', c')) ot"
proof -
  have "mt_out fns lv unc (\<lambda>x ot. x = c \<and> R x ot) (Some (acts, c)) ot" using m by (simp add: mt_out_def)
  from mt_out_bind [OF this, of Q "\<lambda>_. Some (acts', c')"] f show ?thesis by (simp add: then_do_def)
qed

lemma mt_out_done: "R c None \<Longrightarrow> (\<And>t. ot = Some t \<Longrightarrow> R c (Some t)) \<Longrightarrow> mt_out fns lv unc R (Some ([], c)) ot"
  by (simp add: mt_out_def acts_out_def)

lemma mt_out_check: "R c None \<Longrightarrow> (\<And>t. ot = Some t \<Longrightarrow> R c (Some t)) \<Longrightarrow> mt_out fns lv unc R (mt_check_err c) ot"
  by (simp add: mt_out_def acts_out_def mt_check_err_def)

lemma mt_out_one:
  "\<forall>e. a \<noteq> Act_Fail e \<Longrightarrow> R c None \<Longrightarrow>
   (\<And>t. ot = Some t \<Longrightarrow> acts_out fns lv (\<lambda>t. R c (Some t)) (run_acts (writer_threads fns lv unc) [a] t)) \<Longrightarrow>
   mt_out fns lv unc R (Some ([a], c)) ot"
  by (simp add: mt_out_def)

section \<open>The invariant\<close>

text \<open>What the symbols cost at the sink, at most.\<close>

definition sym_cost :: "(byte + byte \<times> bytes) list \<Rightarrow> nat" where
  "sym_cost ss = sum_list (map (case_sum (\<lambda>_. 9) (\<lambda>(t, b). length b + 4)) ss)"

lemma sym_cost_simps [simp]:
  "sym_cost [] = 0" "sym_cost (xs @ ys) = sym_cost xs + sym_cost ys" "sym_cost (map Inl d) = 9 * length d"
  "sym_cost [Inr (t, b)] = length b + 4"
proof -
  show "sym_cost (map Inl d) = 9 * length d" by (induction d) (simp_all add: sym_cost_def)
qed (simp_all add: sym_cost_def)

lemma sym_cost_data: "length (symbol_data ss) \<le> sym_cost ss"
proof (induction ss)
  case (Cons s ss)
  then show ?case by (cases s) (auto simp: sym_cost_def)
qed simp

text \<open>The symbols \<open>ss\<close> have been queued, and the thread, when it has run all that, has written them.\<close>

definition mt_sent ::
  "('w \<Rightarrow> bytes) \<Rightarrow> bytes \<Rightarrow> nat \<Rightarrow> bool \<times> nat \<times> bool \<Rightarrow> (byte + byte \<times> bytes) list \<Rightarrow> mt_writer_fields \<Rightarrow> 'w writer_thread option \<Rightarrow> bool" where
  "mt_sent contents base m cf ss c ot \<longleftrightarrow> mw_block_size c = m \<and> MIN_BLOCK_SIZE \<le> m \<and> m \<le> MAX_BLOCK_SIZE \<and>
     mw_uncomp_written c = length (symbol_data ss) \<and>
     (\<forall>t. ot = Some t \<longrightarrow> th_config t = cf \<and> th_comp_written t \<le> 10 + sym_cost ss \<and>
        (\<exists>its cs. symbols its = ss \<and> sent contents base its cs (as_writer Fastest False c 0 [] t)))"

lemma mt_sent_ibuf [simp]: "mt_sent contents base m cf ss (c\<lparr>mw_ibuf := x\<rparr>) ot = mt_sent contents base m cf ss c ot"
  by (simp add: mt_sent_def sent_def as_writer_def)

lemma mt_sent_client: "mt_sent contents base m cf ss c ot \<Longrightarrow> mt_sent contents base m cf ss c None"
  by (simp add: mt_sent_def)

text \<open>Between calls the input buffer holds less than a block.\<close>

definition mt_inv ::
  "('w \<Rightarrow> bytes) \<Rightarrow> bytes \<Rightarrow> nat \<Rightarrow> bool \<times> nat \<times> bool \<Rightarrow> (byte + byte \<times> bytes) list \<Rightarrow> mt_writer_fields \<Rightarrow> 'w writer_thread option \<Rightarrow> bool" where
  "mt_inv contents base m cf ss c ot \<longleftrightarrow> length (mw_ibuf c) < m \<and>
     (\<exists>ss0. ss = ss0 @ map Inl (mw_ibuf c) \<and> mt_sent contents base m cf ss0 c ot)"

section \<open>Single items\<close>

lemma mirror_out:
  assumes "mirrors f m m'" "wr_out (fault_free fns) lv P m'" "\<And>a t. P a (f t) \<Longrightarrow> R t"
  shows "acts_out fns lv R m"
  using assms(2)
proof (cases rule: wr_out_cases)
  case (3 a st)
  then obtain t where "m = Some (Inr (), t)" using assms(1) unfolding mirrors_def by auto
  with 3 assms(1,3) show ?thesis unfolding mirrors_def acts_out_def by auto
qed (use assms(1) in \<open>auto simp: mirrors_def acts_out_def excused_def\<close>)

lemma run_one_raw: "run_acts (writer_threads fns lv unc) [Act_Raw p] t = write_raw_item fns p t"
  by (simp add: with_st_id)

lemma th_config_as_writer:
  "th_config t = (w_append_index (as_writer lv unc c k ob t), w_padding (as_writer lv unc c k ob t), w_index (as_writer lv unc c k ob t) = None)"
  by (simp add: th_config_def as_writer_def)

lemma sent_as_writer:
  "sent contents base its cs (as_writer lv unc c k ob t) = sent contents base its cs (as_writer lv' unc' c k ob' t)"
  by (cases "mw_wrote_header c") (simp_all add: sent_def as_writer_def)

lemma mt_sentE:
  assumes "mt_sent contents base m cf ss c (Some t)" "mw_wrote_header c"
  obtains its cs where "symbols its = ss" "sent contents base its cs (as_writer lv unc c 0 [] t)" "th_config t = cf"
    "th_comp_written t \<le> 10 + sym_cost ss" "th_uncomp_written t = length (symbol_data ss)"
proof -
  from assms(1) obtain its cs where i: "symbols its = ss" "sent contents base its cs (as_writer Fastest False c 0 [] t)"
    "th_config t = cf" "th_comp_written t \<le> 10 + sym_cost ss" by (auto simp: mt_sent_def)
  moreover have "sent contents base its cs (as_writer lv unc c 0 [] t)" using i(2) by (subst sent_as_writer)
  moreover have "th_uncomp_written t = length (symbol_data ss)" using i(1,2) by (simp add: sent_def as_writer_def data_of_symbols)
  ultimately show ?thesis using that by blast
qed

lemma mt_sentI:
  assumes "mt_sent contents base m cf ss0 c0 None" "mw_block_size c = m" "mw_uncomp_written c = length (symbol_data ss)"
    and "\<And>t. ot = Some t \<Longrightarrow> th_config t = cf \<and> th_comp_written t \<le> 10 + sym_cost ss \<and>
      (\<exists>its cs. symbols its = ss \<and> sent contents base its cs (as_writer lv unc c 0 [] t))"
  shows "mt_sent contents base m cf ss c ot"
proof -
  have "sent contents base its cs (as_writer lv unc c 0 [] t) \<Longrightarrow> sent contents base its cs (as_writer Fastest False c 0 [] t)" for its cs t
    by (subst sent_as_writer)
  with assms show ?thesis unfolding mt_sent_def by blast
qed

context sink
begin

lemma raw_out:
  assumes "th_comp_written t + length p < 2 ^ 64"
  shows "acts_out fns lv (\<lambda>t'. \<exists>w. as_writer lv unc c 0 [] t' =
      (as_writer lv unc c 0 [] t)\<lparr>w_sink := w, comp_written := th_comp_written t + length p\<rparr> \<and>
      contents w = contents (th_sink t) @ p) (run_acts (writer_threads fns lv unc) [Act_Raw p] t)"
  unfolding run_one_raw
proof (rule mirror_out [OF mirrors_raw [OF assms, of lv unc c] write_tracked_ok [where lv = lv]], goal_cases)
  case (2 a t')
  then show ?case by (simp add: as_writer_def)
qed (use assms in \<open>simp add: as_writer_def\<close>)

lemma ensure_header_out:
  assumes s: "mt_sent contents base m cf ss c ot"
  shows "mt_out fns lv unc (\<lambda>c' ot'. mt_sent contents base m cf ss c' ot' \<and> mw_wrote_header c' \<and> mw_ibuf c' = mw_ibuf c)
    (mt_ensure_header c) ot"
proof (cases "mw_wrote_header c")
  case True
  then show ?thesis unfolding mt_ensure_header_def if_P [OF True] by (intro mt_out_done) (use s in \<open>auto simp: mt_sent_client\<close>)
next
  case False
  let ?c = "c\<lparr>mw_wrote_header := True\<rparr>"
  have m: "MIN_BLOCK_SIZE \<le> m" "m \<le> MAX_BLOCK_SIZE" "mw_block_size c = m" "mw_uncomp_written c = length (symbol_data ss)"
    using s by (simp_all add: mt_sent_def)
  then obtain ind where "block_size_indicator m = Some ind" using block_size_indicator_ok by blast
  then obtain h where h: "make_stream_header m = Some h" by (simp add: make_stream_header_def)
  have l: "length h = 10" by (rule length_header [OF h])
  have "mt_out fns lv unc (\<lambda>c' ot'. mt_sent contents base m cf ss c' ot' \<and> mw_wrote_header c' \<and> mw_ibuf c' = mw_ibuf c)
    (Some ([Act_Raw h], ?c)) ot"
  proof (rule mt_out_one, goal_cases)
    case 2
    show ?case using m by (simp add: mt_sent_def)
  next
    case (3 t)
    with s obtain its cs where t: "symbols its = ss" "sent contents base its cs (as_writer Fastest False c 0 [] t)" "th_config t = cf"
      by (auto simp: mt_sent_def)
    then have z: "th_comp_written t = 0" "its = []" "cs = []" "contents (th_sink t) = base" using False by (auto simp: sent_def as_writer_def)
    show ?case
    proof (rule acts_out_mono [OF raw_out [where c = ?c]])
      show "th_comp_written t + length h < 2 ^ 64" using z l by simp
      fix t'
      assume "\<exists>w. as_writer lv unc ?c 0 [] t' = (as_writer lv unc ?c 0 [] t)\<lparr>w_sink := w, comp_written := th_comp_written t + length h\<rparr> \<and>
        contents w = contents (th_sink t) @ h"
      then obtain w where w: "as_writer lv unc ?c 0 [] t' = (as_writer lv unc ?c 0 [] t)\<lparr>w_sink := w, comp_written := th_comp_written t + length h\<rparr>"
        "contents w = contents (th_sink t) @ h" by blast
      have "th_config t' = cf" using w(1) t(3) unfolding th_config_as_writer [of _ lv unc ?c 0 "[]"] by (simp add: th_config_def as_writer_def)
      moreover have "th_comp_written t' = 10" using arg_cong [OF w(1), of comp_written] z l by (simp add: as_writer_def)
      moreover have "sent contents base its cs (as_writer lv unc ?c 0 [] t')"
        using t(2) z w(2) h l m unfolding w(1) by (auto simp: sent_def as_writer_def stream_consts)
      ultimately show "mt_sent contents base m cf ss ?c (Some t') \<and> mw_wrote_header ?c \<and> mw_ibuf ?c = mw_ibuf c"
        using t(1) m by (intro conjI, intro mt_sentI [OF mt_sent_client [OF s], where lv = lv and unc = unc]) auto
    qed
  qed simp
  then show ?thesis using False h m(3) by (simp add: mt_ensure_header_def mt_submit_raw_def)
qed

lemma emit_and_count_ok:
  assumes s: "sent contents base its cs st" "wrote_header st" and d: "length d \<le> w_block_size st"
    and n: "comp_written st < 2 ^ 62" "uncomp_written st + length d < 2 ^ 62"
  shows "wr_out rel (w_level st) (\<lambda>_ st'. w_config st' = w_config st \<and> comp_written st' \<le> comp_written st + 8 + length d \<and>
      (\<exists>c. sent contents base (its @ [Data d]) (cs @ [c]) st')) (emit_and_count fns d st)"
  unfolding emit_and_count_def
proof (rule wr_out_bind [OF emit_block_ok [OF s d n(1)]], goal_cases)
  case (2 a st')
  then have "uncomp_written st' + length d < 2 ^ 64" using n(2) by simp
  with 2 show ?case by (auto simp: chk_u64_def w_config_def)
qed (use n in simp)

lemma th_config_of: "w_config (as_writer lv unc c 0 [] t') = w_config (as_writer lv unc c 0 [] t) \<Longrightarrow> th_config t' = th_config t"
  by (simp add: w_config_def as_writer_def th_config_def)

lemma block_out:
  assumes s: "mt_sent contents base m cf ss c ot" "mw_wrote_header c" and d: "length d \<le> m" "d \<noteq> []"
    and n: "sym_cost ss + 9 * length d < 2 ^ 61"
  shows "mt_out fns lv unc (\<lambda>c' ot'. mt_sent contents base m cf (ss @ map Inl d) c' ot' \<and> mw_wrote_header c' \<and> mw_ibuf c' = mw_ibuf c)
    (mt_submit_block d c) ot"
proof -
  let ?c = "c\<lparr>mw_uncomp_written := mw_uncomp_written c + length d\<rparr>"
  have m: "m \<le> MAX_BLOCK_SIZE" "mw_block_size c = m" "mw_uncomp_written c = length (symbol_data ss)"
    using s(1) by (simp_all add: mt_sent_def)
  have u: "length (symbol_data ss) + length d < 2 ^ 61" using n sym_cost_data [of ss] by simp
  have "mt_submit_block d c = Some ([Act_Block d], ?c)" using u m(3) by (simp add: mt_submit_block_def chk_u64_def)
  moreover have "mt_out fns lv unc (\<lambda>c' ot'. mt_sent contents base m cf (ss @ map Inl d) c' ot' \<and> mw_wrote_header c' \<and> mw_ibuf c' = mw_ibuf c)
    (Some ([Act_Block d], ?c)) ot"
  proof (rule mt_out_one, goal_cases)
    case 2
    show ?case using s m by (simp add: mt_sent_def)
  next
    case (3 t)
    obtain its cs where t: "symbols its = ss" "sent contents base its cs (as_writer lv unc c 0 [] t)" "th_config t = cf"
      "th_comp_written t \<le> 10 + sym_cost ss" "th_uncomp_written t = length (symbol_data ss)"
      using mt_sentE [of contents base m cf ss c t lv unc] s 3 by blast
    have lvl: "w_level (as_writer lv unc c 0 [] t) = lv" by (simp add: as_writer_def)
    have same: "as_writer lv unc ?c 0 [] x = as_writer lv unc c 0 [] x" for x :: "'w writer_thread" by (simp add: as_writer_def)
    have w: "wr_out rel (w_level (as_writer lv unc c 0 [] t)) (\<lambda>_ st'. w_config st' = w_config (as_writer lv unc c 0 [] t) \<and>
        comp_written st' \<le> th_comp_written t + 8 + length d \<and> (\<exists>x. sent contents base (its @ [Data d]) (cs @ [x]) st'))
      (emit_and_count fns d (as_writer lv unc c 0 [] t))"
      using emit_and_count_ok [OF t(2), of d] s(2) d m(2) n t(4,5) u by (simp add: as_writer_def)
    have "mirrors (as_writer lv unc c 0 []) (run_acts (writer_threads fns lv unc) [Act_Block d] t) (emit_and_count fns d (as_writer lv unc c 0 [] t))"
      using d m n t(4,5) u by (intro mirrors_block) simp_all
    then show ?case
    proof (rule mirror_out [OF _ w [unfolded lvl]], goal_cases)
      case (1 a t')
      then obtain x where x: "sent contents base (its @ [Data d]) (cs @ [x]) (as_writer lv unc ?c 0 [] t')" by (auto simp: same)
      have "th_config t' = cf" using 1 th_config_of t(3) by metis
      moreover have "th_comp_written t' \<le> th_comp_written t + 8 + length d" "1 \<le> length d"
        using 1 d(2) by (simp_all add: as_writer_def Suc_le_eq)
      then have "th_comp_written t' \<le> 10 + sym_cost (ss @ map Inl d)" using t(4) by simp
      moreover have "\<exists>its cs. symbols its = ss @ map Inl d \<and> sent contents base its cs (as_writer lv unc ?c 0 [] t')"
        by (rule exI [of _ "its @ [Data d]"], rule exI [of _ "cs @ [x]"]) (use x t(1) in simp)
      ultimately show ?case using m s
        by (intro conjI, intro mt_sentI [OF mt_sent_client [OF s(1)], where lv = lv and unc = unc]) auto
    qed
  qed simp
  ultimately show ?thesis by simp
qed

section \<open>Calls\<close>

lemma blocks_loop_out:
  assumes s: "mt_sent contents base m cf ss c ot" "mw_wrote_header c" and n: "sym_cost ss + 9 * length data < 2 ^ 61"
  shows "mt_out fns lv unc (\<lambda>c' ot'. mt_sent contents base m cf (ss @ map Inl data) c' ot' \<and> mw_wrote_header c' \<and> mw_ibuf c' = mw_ibuf c)
    (loop mt_blocks_step (data, [], c)) ot"
proof -
  let ?R = "\<lambda>dn c' ot'. mt_sent contents base m cf (ss @ map Inl dn) c' ot' \<and> mw_wrote_header c' \<and> mw_ibuf c' = mw_ibuf c"
  let ?I = "\<lambda>(rest, acts, c'). \<exists>dn. data = dn @ rest \<and> mt_out fns lv unc (?R dn) (Some (acts, c')) ot"
  have "\<exists>r. loop mt_blocks_step (data, [], c) = Some r \<and> mt_out fns lv unc (?R data) (Some r) ot"
  proof (rule loop_total [where I = ?I and m = "\<lambda>(rest, acts, c). length rest"])
    show "?I (data, [], c)" using s by (auto intro!: exI [of _ "[]"] mt_out_done simp: mt_sent_client)
    fix x
    assume "?I x"
    then obtain rest acts c1 dn where x: "x = (rest, acts, c1)" "data = dn @ rest" "mt_out fns lv unc (?R dn) (Some (acts, c1)) ot"
      by auto
    show "(\<exists>x'. mt_blocks_step x = Some (Inl x') \<and> ?I x' \<and> (case x' of (rest, acts, c) \<Rightarrow> length rest) < (case x of (rest, acts, c) \<Rightarrow> length rest)) \<or>
      (\<exists>r. mt_blocks_step x = Some (Inr r) \<and> mt_out fns lv unc (?R data) (Some r) ot)"
    proof (cases "rest = []")
      case True
      with x show ?thesis by (simp add: mt_blocks_step_def)
    next
      case False
      let ?n = "min (length rest) (mw_block_size c1)"
      have m: "mw_block_size c1 = m" "0 < m" using x(3) by (auto simp: mt_out_def mt_sent_def stream_consts)
      have n': "0 < ?n" "?n \<le> length rest" "take ?n rest \<noteq> []" using False m by (auto simp: min_def)
      let ?plan = "then_do (mt_check_err c1) (mt_submit_block (take ?n rest))"
      have plan: "mt_out fns lv unc (?R (dn @ take ?n rest)) ?plan ot2" if R: "?R dn c1 ot2" for ot2
      proof (rule mt_out_bind [OF mt_out_check])
        show "?R dn c1 None" using R by (auto simp: mt_sent_client)
        show "?R dn c1 (Some t)" if "ot2 = Some t" for t using R that by simp
        fix c2 ot3
        assume "?R dn c2 ot3"
        then show "mt_out fns lv unc (?R (dn @ take ?n rest)) (mt_submit_block (take ?n rest) c2) ot3"
          using block_out [of base m cf "ss @ map Inl dn" c2 ot3 "take ?n rest" lv unc] n' m n x(2)
          by (auto simp: min_def split: if_splits)
      qed
      have "?R dn c1 None" using x(3) by (simp add: mt_out_def)
      from plan [OF this] obtain acts' c2 where p: "?plan = Some (acts', c2)" by (auto simp: mt_out_def)
      from mt_out_then [OF x(3) plan [unfolded p]]
      have "mt_out fns lv unc (?R (dn @ take ?n rest)) (Some (acts @ acts', c2)) ot" .
      moreover have "data = (dn @ take ?n rest) @ drop ?n rest" using x(2) by simp
      ultimately have "?I (drop ?n rest, acts @ acts', c2)" by blast
      moreover have "mt_blocks_step x = Some (Inl (drop ?n rest, acts @ acts', c2))"
        using False p by (simp add: mt_blocks_step_def x(1) Let_def)
      moreover have "length (drop ?n rest) < length rest" using n' by simp
      ultimately show ?thesis unfolding x(1) by (intro disjI1 exI [of _ "(drop ?n rest, acts @ acts', c2)"]) simp
    qed
  qed
  then show ?thesis by auto
qed

lemma write_blocks_out:
  assumes s: "mt_sent contents base m cf ss c ot" and n: "sym_cost ss + 9 * length data < 2 ^ 61"
  shows "mt_out fns lv unc (\<lambda>c' ot'. mt_sent contents base m cf (ss @ map Inl data) c' ot' \<and> mw_wrote_header c' \<and> mw_ibuf c' = mw_ibuf c)
    (mt_write_blocks data c) ot"
  unfolding mt_write_blocks_def
proof (rule mt_out_bind [OF ensure_header_out [OF s]], goal_cases)
  case (1 c1 ot1)
  with blocks_loop_out [of base m cf ss c1 ot1 data lv unc] n show ?case by simp
qed

lemma flush_sent:
  assumes s: "mt_sent contents base m cf ss0 c ot" and n: "sym_cost ss0 + 9 * length (mw_ibuf c) < 2 ^ 61"
  shows "mt_out fns lv unc (\<lambda>c' ot'. mt_sent contents base m cf (ss0 @ map Inl (mw_ibuf c)) c' ot' \<and> mw_ibuf c' = []) (mt_flush_ibuf c) ot"
proof (cases "mw_ibuf c = []")
  case True
  with s show ?thesis by (auto simp: mt_flush_ibuf_def mt_sent_client intro!: mt_out_done)
next
  case False
  have "mt_out fns lv unc (\<lambda>c' ot'. mt_sent contents base m cf (ss0 @ map Inl (mw_ibuf c)) c' ot' \<and> mw_wrote_header c' \<and>
      mw_ibuf c' = mw_ibuf (c\<lparr>mw_ibuf := []\<rparr>)) (mt_write_blocks (mw_ibuf c) (c\<lparr>mw_ibuf := []\<rparr>)) ot"
    using s n by (intro write_blocks_out) simp_all
  from mt_out_mono [OF this] False s(1) show ?thesis by (simp add: mt_flush_ibuf_def)
qed

lemma flush_ibuf_out:
  assumes i: "mt_inv contents base m cf ss c ot" and n: "sym_cost ss < 2 ^ 61"
  shows "mt_out fns lv unc (\<lambda>c' ot'. mt_sent contents base m cf ss c' ot' \<and> mw_ibuf c' = []) (mt_flush_ibuf c) ot"
proof -
  obtain ss0 where "ss = ss0 @ map Inl (mw_ibuf c)" "mt_sent contents base m cf ss0 c ot" using i by (auto simp: mt_inv_def)
  with flush_sent [of base m cf ss0 c ot lv unc] n show ?thesis by simp
qed

lemma mt_inv_empty: "mt_sent contents base m cf ss c ot \<Longrightarrow> mw_ibuf c = [] \<Longrightarrow> mt_inv contents base m cf ss c ot"
  by (auto simp: mt_inv_def mt_sent_def stream_consts)

lemma mt_inv_client: "mt_inv contents base m cf ss c ot \<Longrightarrow> mt_inv contents base m cf ss c None"
  by (auto simp: mt_inv_def mt_sent_client)

lemma mt_invE:
  assumes "mt_inv contents base m cf ss c ot"
  shows "mw_block_size c = m" "length (mw_ibuf c) < m" "MIN_BLOCK_SIZE \<le> m"
  using assms by (auto simp: mt_inv_def mt_sent_def)

lemma check_inv: "mt_inv contents base m cf ss c ot \<Longrightarrow> mt_out fns lv unc (mt_inv contents base m cf ss) (mt_check_err c) ot"
  by (rule mt_out_check) (auto simp: mt_inv_client)

lemma encode_buffer_out:
  assumes i: "mt_inv contents base m cf ss c ot" and n: "sym_cost ss + 9 * length p < 2 ^ 61"
  shows "mt_out fns lv unc (mt_inv contents base m cf (ss @ map Inl p)) (mt_encode_buffer p c) ot"
  unfolding mt_encode_buffer_def
proof (rule mt_out_bind [OF flush_ibuf_out [OF i]], goal_cases)
  case (2 c1 ot1)
  show ?case by (rule mt_out_mono [OF write_blocks_out]) (use 2 n in \<open>auto simp: mt_inv_empty\<close>)
qed (use n in simp)

lemma flush_out:
  assumes i: "mt_inv contents base m cf ss c ot" and n: "sym_cost ss < 2 ^ 61"
  shows "mt_out fns lv unc (mt_inv contents base m cf ss) (mt_flush c) ot"
  unfolding mt_flush_def
  by (rule mt_out_bind [OF check_inv [OF i]], rule mt_out_mono [OF flush_ibuf_out]) (use n in \<open>auto simp: mt_inv_empty\<close>)

text \<open>One round of \<^verbatim>\<open>write\<close>: what it takes of its input, and the plan of its calls.\<close>

lemma write_round:
  assumes p: "p \<noteq> []" and c: "mw_block_size c = m" "length (mw_ibuf c) < m" and n: "sym_cost ss + 9 * length p < 2 ^ 61"
  obtains k plan where "0 < k" "k \<le> length p"
    "mt_write_step (p, acts, c) = do { (acts', c) \<leftarrow> plan; Some (Inl (drop k p, acts @ acts', c)) }"
    "\<And>ot. mt_inv contents base m cf ss c ot \<Longrightarrow> mt_out fns lv unc (mt_inv contents base m cf (ss @ map Inl (take k p))) plan ot"
proof (cases "mw_ibuf c = [] \<and> m \<le> length p")
  case True
  let ?k = "min (length p - length p mod m) (length p)"
  have "length p mod m < m" using c(2) by (intro mod_less_divisor) simp
  then have k: "0 < ?k" "?k \<le> length p" using True by linarith+
  show ?thesis
  proof (rule that [OF k, of "mt_write_blocks (take ?k p) c"], goal_cases)
    case 1
    then show ?case using True p c by (simp add: mt_write_step_def usub_def Let_def)
  next
    case (2 ot)
    then have "mt_sent contents base m cf ss c ot" using True by (simp add: mt_inv_def)
    then show ?case by (rule mt_out_mono [OF write_blocks_out]) (use True n in \<open>auto simp: mt_inv_empty\<close>)
  qed
next
  case False
  let ?k = "min (length p) (m - length (mw_ibuf c))"
  let ?c = "c\<lparr>mw_ibuf := mw_ibuf c @ take ?k p\<rparr>"
  have k: "0 < ?k" "?k \<le> length p" using p c by auto
  let ?plan = "if length (mw_ibuf ?c) = m then mt_flush_ibuf ?c else Some ([], ?c)"
  show ?thesis
  proof (rule that [OF k, of ?plan], goal_cases)
    case 1
    show ?case using False p c by (auto simp: mt_write_step_def usub_def Let_def)
  next
    case (2 ot)
    then obtain ss0 where s: "ss = ss0 @ map Inl (mw_ibuf c)" "mt_sent contents base m cf ss0 ?c ot" by (auto simp: mt_inv_def)
    have l: "length (mw_ibuf ?c) \<le> m" using c by auto
    show ?case
    proof (cases "length (mw_ibuf ?c) = m")
      case True
      have "mt_out fns lv unc (\<lambda>c' ot'. mt_sent contents base m cf (ss0 @ map Inl (mw_ibuf ?c)) c' ot' \<and> mw_ibuf c' = []) (mt_flush_ibuf ?c) ot"
        by (rule flush_sent [OF s(2)]) (use n s(1) in simp)
      then show ?thesis unfolding if_P [OF True] by (rule mt_out_mono) (use s(1) in \<open>auto simp: mt_inv_empty\<close>)
    next
      case False
      show ?thesis unfolding if_not_P [OF False]
        by (rule mt_out_done) (use s l False in \<open>auto simp: mt_inv_def mt_sent_client\<close>)
    qed
  qed
qed

lemma write_out:
  assumes i: "mt_inv contents base m cf ss c ot" and n: "sym_cost ss + 9 * length p < 2 ^ 61"
  shows "mt_out fns lv unc (mt_inv contents base m cf (ss @ map Inl p)) (mt_write p c) ot"
  unfolding mt_write_def
proof (rule mt_out_bind [OF check_inv [OF i]])
  fix c ot
  assume i: "mt_inv contents base m cf ss c ot"
  let ?R = "\<lambda>dn. mt_inv contents base m cf (ss @ map Inl dn)"
  let ?I = "\<lambda>(rest, acts, c'). \<exists>dn. p = dn @ rest \<and> mt_out fns lv unc (?R dn) (Some (acts, c')) ot"
  have "\<exists>r. loop mt_write_step (p, [], c) = Some r \<and> mt_out fns lv unc (?R p) (Some r) ot"
  proof (rule loop_total [where I = ?I and m = "\<lambda>(rest, acts, c). length rest"])
    show "?I (p, [], c)" using i by (auto intro!: exI [of _ "[]"] mt_out_done simp: mt_inv_client)
    fix x
    assume "?I x"
    then obtain rest acts c1 dn where x: "x = (rest, acts, c1)" "p = dn @ rest" "mt_out fns lv unc (?R dn) (Some (acts, c1)) ot"
      by auto
    show "(\<exists>x'. mt_write_step x = Some (Inl x') \<and> ?I x' \<and> (case x' of (rest, acts, c) \<Rightarrow> length rest) < (case x of (rest, acts, c) \<Rightarrow> length rest)) \<or>
      (\<exists>r. mt_write_step x = Some (Inr r) \<and> mt_out fns lv unc (?R p) (Some r) ot)"
    proof (cases "rest = []")
      case True
      with x show ?thesis by (simp add: mt_write_step_def)
    next
      case False
      have c1: "?R dn c1 None" using x(3) by (simp add: mt_out_def)
      note m = mt_invE [OF c1]
      obtain k plan where k: "0 < k" "k \<le> length rest"
        "mt_write_step (rest, acts, c1) = do { (acts', c) \<leftarrow> plan; Some (Inl (drop k rest, acts @ acts', c)) }"
        "\<And>ot. ?R dn c1 ot \<Longrightarrow> mt_out fns lv unc (mt_inv contents base m cf ((ss @ map Inl dn) @ map Inl (take k rest))) plan ot"
        by (rule write_round [OF False m(1,2), of "ss @ map Inl dn" acts base cf lv unc]) (use n x(2) in auto)
      from k(4) [OF c1] obtain acts' c2 where pl: "plan = Some (acts', c2)" by (auto simp: mt_out_def)
      from mt_out_then [OF x(3) k(4) [unfolded pl]]
      have "mt_out fns lv unc (?R (dn @ take k rest)) (Some (acts @ acts', c2)) ot" by simp
      moreover have "p = (dn @ take k rest) @ drop k rest" using x(2) by simp
      ultimately have "?I (drop k rest, acts @ acts', c2)" by blast
      moreover have "mt_write_step x = Some (Inl (drop k rest, acts @ acts', c2))" using k(3) pl x(1) by simp
      moreover have "length (drop k rest) < length rest" using k(1,2) by simp
      ultimately show ?thesis unfolding x(1) by (intro disjI1 exI [of _ "(drop k rest, acts @ acts', c2)"]) simp
    qed
  qed
  then show "mt_out fns lv unc (?R p) (loop mt_write_step (p, [], c)) ot" by auto
qed

lemma add_user_chunk_out:
  assumes i: "mt_inv contents base m cf ss c ot" and n: "sym_cost ss + length b < 2 ^ 61"
    and t: "MIN_USER_SKIPPABLE_CHUNK \<le> ty" "ty \<le> MAX_USER_NON_SKIPPABLE_CHUNK" "length b \<le> MAX_USER_CHUNK_SIZE"
  shows "mt_out fns lv unc (mt_inv contents base m cf (ss @ [Inr (ty, b)])) (mt_add_user_chunk ty b c) ot"
proof -
  have range: "MAX_NON_SKIPPABLE_CHUNK < ty" "ty \<noteq> CHUNK_TYPE_STREAM_IDENTIFIER"
    using t(1,2) by (auto simp: stream_consts elim: order_less_le_trans [rotated])
  have item: "mt_out fns lv unc (mt_inv contents base m cf (ss @ [Inr (ty, b)])) (Some ([Act_Raw (chunk ty b)], c)) ot"
    if s: "mt_sent contents base m cf ss c ot" "mw_wrote_header c" "mw_ibuf c = []" for c ot
  proof (rule mt_out_mono [where R = "\<lambda>c ot. mt_sent contents base m cf (ss @ [Inr (ty, b)]) c ot \<and> mw_ibuf c = []"], rule mt_out_one, goal_cases)
    case 2
    show ?case using s by (simp add: mt_sent_def)
  next
    case (3 t)
    obtain its cs where q: "symbols its = ss" "sent contents base its cs (as_writer lv unc c 0 [] t)" "th_config t = cf"
      "th_comp_written t \<le> 10 + sym_cost ss" using mt_sentE [of contents base m cf ss c t lv unc] s 3 by blast
    let ?w = "as_writer lv unc c 0 []"
    show ?case
    proof (rule acts_out_mono [OF raw_out [where c = c]])
      show "th_comp_written t + length (chunk ty b) < 2 ^ 64" using q(4) n by simp
      fix t'
      assume "\<exists>w. ?w t' = (?w t)\<lparr>w_sink := w, comp_written := th_comp_written t + length (chunk ty b)\<rparr> \<and>
        contents w = contents (th_sink t) @ chunk ty b"
      then obtain w where w: "?w t' = (?w t)\<lparr>w_sink := w, comp_written := th_comp_written t + length (chunk ty b)\<rparr>"
        "contents w = contents (th_sink t) @ chunk ty b" by blast
      have "sent contents base (its @ [Other ty b]) (cs @ [chunk ty b]) (?w t')"
        using sent_other [OF q(2), of ty b w] w s(2) range t(3) by (simp add: as_writer_def)
      then have "\<exists>its cs. symbols its = ss @ [Inr (ty, b)] \<and> sent contents base its cs (?w t')"
        by (intro exI [of _ "its @ [Other ty b]"] exI [of _ "cs @ [chunk ty b]"]) (simp add: q(1))
      moreover have "th_config t' = cf" using w(1) q(3) th_config_of [of lv unc c t' t] by (simp add: w_config_def)
      moreover have "th_comp_written t' \<le> 10 + sym_cost (ss @ [Inr (ty, b)])"
        using arg_cong [OF w(1), of comp_written] q(4) by (simp add: as_writer_def)
      ultimately show "mt_sent contents base m cf (ss @ [Inr (ty, b)]) c (Some t') \<and> mw_ibuf c = []"
        using s(1,3) by (intro conjI, intro mt_sentI [OF mt_sent_client [OF s(1)], where lv = lv and unc = unc]) (auto simp: mt_sent_def)
    qed
  qed (auto simp: mt_inv_empty)
  have "mt_out fns lv unc (mt_inv contents base m cf (ss @ [Inr (ty, b)])) (then_do (mt_check_err c) (\<lambda>c. then_do (mt_flush_ibuf c)
      (\<lambda>c. then_do (mt_ensure_header c) (mt_submit_raw (chunk ty b))))) ot"
  proof (rule mt_out_bind [OF check_inv [OF i]])
    fix c1 ot1
    assume i1: "mt_inv contents base m cf ss c1 ot1"
    show "mt_out fns lv unc (mt_inv contents base m cf (ss @ [Inr (ty, b)])) (then_do (mt_flush_ibuf c1)
        (\<lambda>c. then_do (mt_ensure_header c) (mt_submit_raw (chunk ty b)))) ot1"
    proof (rule mt_out_bind [OF flush_ibuf_out [OF i1]])
      fix c2 ot2
      assume s2: "mt_sent contents base m cf ss c2 ot2 \<and> mw_ibuf c2 = []"
      then show "mt_out fns lv unc (mt_inv contents base m cf (ss @ [Inr (ty, b)]))
          (then_do (mt_ensure_header c2) (mt_submit_raw (chunk ty b))) ot2"
        by (intro mt_out_bind [OF ensure_header_out]) (use s2 in \<open>auto simp: mt_submit_raw_def intro: item\<close>)
    qed (use n in simp)
  qed
  then show ?thesis using t by (simp add: mt_add_user_chunk_def chunk_def)
qed

end

section \<open>Whole runs\<close>

fun mt_op_symbols :: "mt_op \<Rightarrow> (byte + byte \<times> bytes) list" where
  "mt_op_symbols (Mt_Write p) = map Inl p"
| "mt_op_symbols Mt_Flush = []"
| "mt_op_symbols (Mt_Chunk t b) = [Inr (t, b)]"
| "mt_op_symbols (Mt_Encode p) = map Inl p"

fun mt_op_valid :: "mt_op \<Rightarrow> bool" where
  "mt_op_valid (Mt_Chunk t b) = (MIN_USER_SKIPPABLE_CHUNK \<le> t \<and> t \<le> MAX_USER_NON_SKIPPABLE_CHUNK \<and> length b \<le> MAX_USER_CHUNK_SIZE)"
| "mt_op_valid op = True"

abbreviation mt_ops_symbols :: "mt_op list \<Rightarrow> (byte + byte \<times> bytes) list" where
  "mt_ops_symbols ops \<equiv> concat (map mt_op_symbols ops)"

text \<open>What the client does from the construction of the writer to the end of its queue.\<close>

definition mt_actions :: "mt_writer_builder \<Rightarrow> mt_op list \<Rightarrow> bytes mt_act list option" where
  "mt_actions b ops = map_option fst (then_do (mt_run_ops ops (mt_fields b)) mt_finish_acts)"

context sink
begin

lemma run_op_out:
  assumes "mt_inv contents base m cf ss c ot" "mt_op_valid op" "sym_cost (ss @ mt_op_symbols op) < 2 ^ 61"
  shows "mt_out fns lv unc (mt_inv contents base m cf (ss @ mt_op_symbols op)) (mt_run_op op c) ot"
proof (cases op)
  case (Mt_Write p)
  with assms write_out [OF assms(1)] show ?thesis by simp
next
  case Mt_Flush
  with assms flush_out [OF assms(1)] show ?thesis by simp
next
  case (Mt_Chunk t b)
  with assms add_user_chunk_out [OF assms(1)] show ?thesis by simp
next
  case (Mt_Encode p)
  with assms encode_buffer_out [OF assms(1)] show ?thesis by simp
qed

lemma run_ops_out:
  assumes "mt_inv contents base m cf ss c ot" "\<forall>op \<in> set ops. mt_op_valid op" "sym_cost (ss @ mt_ops_symbols ops) < 2 ^ 61"
  shows "mt_out fns lv unc (mt_inv contents base m cf (ss @ mt_ops_symbols ops)) (mt_run_ops ops c) ot"
  using assms
proof (induction ops arbitrary: ss c ot)
  case Nil
  then show ?case by (auto intro!: mt_out_done simp: mt_inv_client)
next
  case (Cons op ops)
  have "mt_out fns lv unc (mt_inv contents base m cf (ss @ mt_op_symbols op)) (mt_run_op op c) ot"
    using Cons.prems by (intro run_op_out) simp_all
  then have "mt_out fns lv unc (mt_inv contents base m cf ((ss @ mt_op_symbols op) @ mt_ops_symbols ops))
      (then_do (mt_run_op op c) (mt_run_ops ops)) ot"
  proof (rule mt_out_bind)
    fix c1 ot1
    assume "mt_inv contents base m cf (ss @ mt_op_symbols op) c1 ot1"
    then show "mt_out fns lv unc (mt_inv contents base m cf ((ss @ mt_op_symbols op) @ mt_ops_symbols ops)) (mt_run_ops ops c1) ot1"
      by (rule Cons.IH) (use Cons.prems in simp_all)
  qed
  then show ?case by simp
qed

text \<open>The index takes little room.\<close>

lemma index_bytes_room:
  assumes s: "sent contents base its cs (as_writer lv unc c 0 [] t)" and h: "mw_wrote_header c"
    and n: "th_comp_written t1 = th_comp_written t + k" "k \<le> 14" "th_comp_written t < 2 ^ 60" "th_uncomp_written t1 = th_uncomp_written t"
      "th_index t1 = th_index t" "length (data_of its) < 2 ^ 60"
    and r: "thread_index_bytes t1 = Some (Inr b, t2)"
  shows "th_comp_written t2 < 2 ^ 62"
proof (cases "th_index t1")
  case None
  with r n(1-3) show ?thesis by (auto simp: thread_index_bytes_def)
next
  case (Some ix)
  let ?w = "as_writer lv unc c 0 [] t1"
  have parts: "list_all2 (item_chunk (mw_block_size c)) its cs" "index_inv its cs (th_index t)" "th_uncomp_written t = length (data_of its)"
    "length (concat cs) \<le> th_comp_written t" using s h by (auto simp: sent_def as_writer_def)
  obtain ib ix' where "close_index_bytes True ?w = Some (Inr ib, ?w\<lparr>w_index := Some ix', comp_written := comp_written ?w + (if w_append_index ?w then length ib else 0)\<rparr>)"
    "length ib \<le> 2 ^ 24"
  proof (rule close_index_bytes_ok [of its cs ?w], goal_cases)
    case 2
    show ?case using item_chunks_nonempty [OF parts(1)] .
  next
    case 7
    show ?case using Some by (simp add: as_writer_def)
  next
    case (8 ib ix')
    then show ?case by blast
  qed (use parts n Some in \<open>simp_all add: as_writer_def\<close>)
  moreover have "\<exists>b'. close_index_bytes (th_index t1 \<noteq> None) ?w = Some (Inr b', as_writer lv unc c 0 [] t2)"
    using mirrors_index_bytes [of lv unc c t1] r unfolding mirrors_def by blast
  ultimately have "as_writer lv unc c 0 [] t2 = ?w\<lparr>w_index := Some ix', comp_written := comp_written ?w + (if w_append_index ?w then length ib else 0)\<rparr>"
    using Some by simp
  from arg_cong [OF this, of comp_written] have "th_comp_written t2 \<le> th_comp_written t1 + length ib"
    by (simp add: as_writer_def split: if_splits)
  with n(1-3) \<open>length ib \<le> 2 ^ 24\<close> show ?thesis by simp
qed

text \<open>The EOF chunk, and what the thread does when the queue is closed.\<close>

lemma close_out:
  assumes s: "mt_sent contents base m cf ss c (Some t)" "mw_wrote_header c" and n: "sym_cost ss < 2 ^ 59"
    and cf: "cf = (app, pad, no_index)" "app \<longrightarrow> \<not> no_index"
  shows "acts_out fns lv (\<lambda>t'. \<exists>its ib. closed contents base m pad app (\<not> no_index) its ib (th_sink t') \<and> symbols its = ss)
    (with_st (run_acts (writer_threads fns lv unc) [Act_Raw (eof_chunk (length (symbol_data ss)))] t) (\<lambda>_. thread_close fns))"
proof -
  let ?eof = "eof_chunk (length (symbol_data ss))"
  let ?f = "as_writer lv unc c 0 []"
  obtain its cs where t: "symbols its = ss" "sent contents base its cs (?f t)" "th_config t = cf"
    "th_comp_written t \<le> 10 + sym_cost ss" "th_uncomp_written t = length (symbol_data ss)"
    using mt_sentE [of contents base m cf ss c t lv unc] s by blast
  have bs: "mw_block_size c = m" using s(1) by (simp add: mt_sent_def)
  have ix: "(th_index t = None) = no_index" "th_padding t = pad" "th_append_index t = app" using t(3) cf(1) by (simp_all add: th_config_def)
  have small: "length (data_of its) < 2 ^ 60" "th_comp_written t < 2 ^ 60" using t(1,4) n sym_cost_data [of ss] by (simp_all add: data_of_symbols)
  have "mirrors ?f (run_acts (writer_threads fns lv unc) [Act_Raw ?eof] t) (emit_eof fns (?f t))"
    using mirrors_raw [of t ?eof lv unc c fns] eof_bytes(3) [of "length (symbol_data ss)"] small(2) t(5)
    by (simp add: run_one_raw emit_eof_eq as_writer_def del: run_acts.simps)
  then have mir: "mirrors ?f (with_st (run_acts (writer_threads fns lv unc) [Act_Raw ?eof] t) (\<lambda>_. thread_close fns))
      (with_st (emit_eof fns (?f t)) (\<lambda>_ st. flushed fns (close_rest fns (\<not> no_index) st)))"
  proof (rule mirrors_bind, goal_cases)
    case (1 a b t1)
    have "wr_out rel Fastest (\<lambda>_ st'. \<exists>w. st' = (?f t)\<lparr>w_sink := w, comp_written := comp_written (?f t) + length (eof_chunk (uncomp_written (?f t)))\<rparr> \<and>
        contents w = contents (w_sink (?f t)) @ eof_chunk (uncomp_written (?f t))) (emit_eof fns (?f t))"
      by (rule emit_eof_ok) (use small(2) in \<open>simp add: as_writer_def\<close>)
    then obtain w where w: "?f t1 = (?f t)\<lparr>w_sink := w, comp_written := comp_written (?f t) + length (eof_chunk (uncomp_written (?f t)))\<rparr>"
      using 1(2) by auto
    have t1: "th_comp_written t1 = th_comp_written t + length ?eof" "th_uncomp_written t1 = th_uncomp_written t" "th_index t1 = th_index t"
      using arg_cong [OF w, of comp_written] arg_cong [OF w, of uncomp_written] arg_cong [OF w, of w_index] t(5)
      by (simp_all add: as_writer_def)
    have "mirrors ?f (thread_close fns t1) (flushed fns (close_rest fns (th_index t1 \<noteq> None) (?f t1)))"
      using index_bytes_room [OF t(2) s(2) t1(1) eof_bytes(3) small(2) t1(2,3) small(1)] by (intro mirrors_close) blast
    then show ?case using ix(1) t1(3) by simp
  qed
  have eq: "with_st (emit_eof fns (?f t)) (\<lambda>_ st. flushed fns (close_rest fns (\<not> no_index) st)) = flushed fns (close_tail fns (\<not> no_index) (?f t))"
    by (simp add: flushed_def close_tail_def close_rest_def with_st_assoc)
  have "wr_out rel lv (\<lambda>ib st'. closed contents base m pad app (\<not> no_index) its ib (w_sink st')) (close_tail fns (\<not> no_index) (?f t))"
    using close_tail_ok [OF t(2), of "\<not> no_index" lv] s(2) small ix cf(2) bs by (simp add: as_writer_def)
  then have tail: "(case flushed fns (close_tail fns (\<not> no_index) (?f t)) of None \<Rightarrow> lv = Smallest | Some (Inl e, st) \<Rightarrow> \<not> rel
      | Some (Inr u, st) \<Rightarrow> \<exists>ib. closed contents base m pad app (\<not> no_index) its ib (w_sink st))"
  proof (rule wr_out_cases)
    fix ib st1
    assume "close_tail fns (\<not> no_index) (?f t) = Some (Inr ib, st1)" "closed contents base m pad app (\<not> no_index) its ib (w_sink st1)"
    moreover obtain r w where w: "flush_sink fns (w_sink st1) = (r, w)" by (cases "flush_sink fns (w_sink st1)")
    moreover have "\<not> rel" if "r = Inl e" for e
      using w that by (auto simp: fault_free_def) (metis Inl_Inr_False prod.inject)
    moreover have "closed contents base m pad app (\<not> no_index) its ib w" if "r = Inr u" for u
    proof -
      have "contents w = contents (w_sink st1)" using flush_ok w that by blast
      then show ?thesis using \<open>closed contents base m pad app (\<not> no_index) its ib (w_sink st1)\<close> by (simp add: closed_def)
    qed
    ultimately show ?thesis by (cases r) (auto simp: flushed_def)
  qed (simp_all add: flushed_def)
  have "acts_out fns lv (\<lambda>t'. \<exists>ib. closed contents base m pad app (\<not> no_index) its ib (th_sink t'))
      (with_st (run_acts (writer_threads fns lv unc) [Act_Raw ?eof] t) (\<lambda>_. thread_close fns))"
    using mir [unfolded eq] by (cases rule: res_cases [OF tail]) (auto simp: mirrors_def acts_out_def excused_def as_writer_def)
  then show ?thesis by (rule acts_out_mono) (use t(1) in blast)
qed

end

lemma then_do_assoc: "then_do (then_do m f) g = then_do m (\<lambda>c. then_do (f c) g)"
proof (cases m)
  case (Some p)
  obtain acts c where p: "p = (acts, c)" by (cases p)
  show ?thesis
  proof (cases "f c")
    case (Some p')
    obtain acts' c' where p': "p' = (acts', c')" by (cases p')
    show ?thesis by (cases "g c'") (auto simp: then_do_def \<open>m = Some p\<close> p Some p')
  qed (simp add: then_do_def Some p)
qed (simp add: then_do_def)

context sink
begin

lemma finish_eof:
  "(do {
     (v, n) \<leftarrow> stream_put_uvarint (replicate MAX_VARINT_LEN_64 0) (of_nat (mw_uncomp_written c));
     p \<leftarrow> slice ([CHUNK_TYPE_EOF, of_nat n, 0, 0] @ v) 0 (CHUNK_HEADER_SIZE + n);
     mt_submit_raw p c }) = Some ([Act_Raw (eof_chunk (mw_uncomp_written c))], c)"
  using eof_bytes(1,2) by (simp add: mt_submit_raw_def)

lemma actions_out:
  assumes i: "mt_inv contents base m cf [] (mt_fields b) (Some t0)" and v: "\<forall>op \<in> set ops. mt_op_valid op"
    and n: "sym_cost (mt_ops_symbols ops) < 2 ^ 59" and cf: "cf = (app, pad, no_index)" "app \<longrightarrow> \<not> no_index"
  shows "\<exists>A. mt_actions b ops = Some A \<and> no_fail A \<and>
    acts_out fns lv (\<lambda>t. \<exists>its ib. closed contents base m pad app (\<not> no_index) its ib (th_sink t) \<and> symbols its = mt_ops_symbols ops)
      (run_alone (writer_threads fns lv unc) A t0)"
proof -
  let ?ss = "mt_ops_symbols ops"
  let ?pre = "then_do (mt_run_ops ops (mt_fields b)) (\<lambda>c. then_do (mt_check_err c) (\<lambda>c. then_do (mt_flush_ibuf c) mt_ensure_header))"
  have "mt_out fns lv unc (mt_inv contents base m cf ([] @ ?ss)) (mt_run_ops ops (mt_fields b)) (Some t0)"
    by (rule run_ops_out [OF i v]) (use n in simp)
  then have "mt_out fns lv unc (\<lambda>c ot. mt_sent contents base m cf ?ss c ot \<and> mw_wrote_header c) ?pre (Some t0)"
  proof (rule mt_out_bind)
    fix c1 ot1
    assume i1: "mt_inv contents base m cf ([] @ ?ss) c1 ot1"
    show "mt_out fns lv unc (\<lambda>c ot. mt_sent contents base m cf ?ss c ot \<and> mw_wrote_header c)
        (then_do (mt_check_err c1) (\<lambda>c. then_do (mt_flush_ibuf c) mt_ensure_header)) ot1"
    proof (rule mt_out_bind [OF check_inv [OF i1]])
      fix c2 ot2
      assume i2: "mt_inv contents base m cf ([] @ ?ss) c2 ot2"
      show "mt_out fns lv unc (\<lambda>c ot. mt_sent contents base m cf ?ss c ot \<and> mw_wrote_header c)
          (then_do (mt_flush_ibuf c2) mt_ensure_header) ot2"
      proof (rule mt_out_bind [OF flush_ibuf_out [OF i2]])
        fix c3 ot3
        assume "mt_sent contents base m cf ([] @ ?ss) c3 ot3 \<and> mw_ibuf c3 = []"
        then show "mt_out fns lv unc (\<lambda>c ot. mt_sent contents base m cf ?ss c ot \<and> mw_wrote_header c) (mt_ensure_header c3) ot3"
          by (intro mt_out_mono [OF ensure_header_out]) auto
      qed (use n in simp)
    qed
  qed
  then obtain acts c where p: "?pre = Some (acts, c)" "no_fail acts" "mt_sent contents base m cf ?ss c None"
    "acts_out fns lv (\<lambda>t. mt_sent contents base m cf ?ss c (Some t) \<and> mw_wrote_header c) (run_acts (writer_threads fns lv unc) acts t0)"
    by (auto simp: mt_out_def)
  let ?A = "acts @ [Act_Raw (eof_chunk (length (symbol_data ?ss)))]"
  have "then_do (mt_run_ops ops (mt_fields b)) mt_finish_acts = then_do ?pre (\<lambda>c. Some ([Act_Raw (eof_chunk (mw_uncomp_written c))], c))"
    unfolding mt_finish_acts_def finish_eof then_do_assoc ..
  also have "\<dots> = Some (?A, c)" unfolding p(1) using p(3) by (simp add: then_do_def mt_sent_def)
  finally have "mt_actions b ops = Some ?A" by (simp add: mt_actions_def)
  moreover have "acts_out fns lv (\<lambda>t. \<exists>its ib. closed contents base m pad app (\<not> no_index) its ib (th_sink t) \<and> symbols its = ?ss)
      (run_alone (writer_threads fns lv unc) ?A t0)"
    unfolding run_alone_def run_acts_append with_st_assoc writer_threads_simps
  proof (rule acts_out_bind [OF p(4)])
    fix t
    assume "mt_sent contents base m cf ?ss c (Some t) \<and> mw_wrote_header c"
    then show "acts_out fns lv (\<lambda>t. \<exists>its ib. closed contents base m pad app (\<not> no_index) its ib (th_sink t) \<and> symbols its = ?ss)
        (with_st (run_acts (writer_threads fns lv unc) [Act_Raw (eof_chunk (length (symbol_data ?ss)))] t) (\<lambda>_. thread_close fns))"
      using n cf by (intro close_out) auto
  qed
  ultimately show ?thesis using p(2) by auto
qed

end

section \<open>Building the writer\<close>

definition mt_builder_ok :: "mt_writer_builder \<Rightarrow> bool" where
  "mt_builder_ok b \<longleftrightarrow> MIN_BLOCK_SIZE \<le> mb_block_size b \<and> mb_block_size b \<le> MAX_BLOCK_SIZE \<and> mb_padding b \<le> MAX_BLOCK_SIZE \<and>
     0 < mb_concurrency b"

lemma mt_build_ok:
  assumes b: "mt_builder_ok b"
  obtains t0 where "mt_build w b = Some (Inr (start_pipeline (mb_concurrency b) t0))"
    "\<And>contents. mt_inv contents (contents w) (mb_block_size b)
      (mb_append_index b, mb_padding b, \<not> mb_generate_index b \<and> \<not> mb_append_index b) [] (mt_fields b) (Some t0)"
proof -
  have bs: "MIN_BLOCK_SIZE \<le> mb_block_size b" "mb_block_size b \<le> MAX_BLOCK_SIZE" "mb_padding b \<le> MAX_BLOCK_SIZE" "0 < mb_concurrency b"
    using b by (auto simp: mt_builder_ok_def)
  have "mb_block_size b < 2 ^ 62" using bs(2) by (simp add: format_consts)
  then obtain ix where ix: "index_reset (mb_block_size b) index_default = Some ix" "index_ok ix" "offsets ix = []"
    "est_block_uncomp ix < 2 ^ 62" by (rule index_reset_ok [of _ index_default]) blast
  let ?oix = "if mb_generate_index b \<or> mb_append_index b then Some ix else None"
  let ?t = "\<lparr>th_sink = w, th_index = ?oix, th_append_index = mb_append_index b, th_padding = mb_padding b, th_comp_written = 0, th_uncomp_written = 0\<rparr>"
  have "mt_build w b = Some (Inr (start_pipeline (mb_concurrency b) ?t))"
    using bs ix(1) by (simp add: mt_build_def mt_with_builder_def concurrency_new_def)
  moreover have "mt_inv contents (contents w) (mb_block_size b)
      (mb_append_index b, mb_padding b, \<not> mb_generate_index b \<and> \<not> mb_append_index b) [] (mt_fields b) (Some ?t)" for contents
  proof -
    have "sent contents (contents w) [] [] (as_writer Fastest False (mt_fields b) 0 [] ?t)"
      using bs ix by (auto simp: sent_def as_writer_def mt_fields_def index_inv_def)
    then show ?thesis using bs by (auto simp: mt_inv_def mt_sent_def mt_fields_def th_config_def stream_consts intro!: exI [of _ "[]"])
  qed
  ultimately show ?thesis by (rule that [of ?t])
qed

text \<open>Whatever the threads do: what the client gets back is a stream of what it wrote.\<close>

lemma mt_stream_ok:
  assumes s: "sink fns contents" and b: "mt_builder_ok b" "\<forall>op \<in> set ops. mt_op_valid op"
    and n: "sym_cost (mt_ops_symbols ops) < 2 ^ 59"
  shows "\<exists>p A. mt_build w b = Some (Inr p) \<and> mt_actions b ops = Some A \<and>
    (\<forall>s r. mt_reach (writer_threads fns (mb_level b) (mb_uncompressed b)) (p A) s \<longrightarrow> mt_client s = Returned r \<longrightarrow>
      (case r of
         Inl e \<Rightarrow> excused fns (mb_level b)
       | Inr w' \<Rightarrow> \<exists>its trailer bs. contents w' = contents w @ bs \<and> stream_of (mb_block_size b) its trailer bs \<and>
           symbols its = mt_ops_symbols ops \<and> (2 \<le> mb_padding b \<longrightarrow> mb_padding b dvd length bs)))"
proof -
  let ?lv = "mb_level b" and ?unc = "mb_uncompressed b" and ?no = "\<not> mb_generate_index b \<and> \<not> mb_append_index b"
  obtain t0 where p: "mt_build w b = Some (Inr (start_pipeline (mb_concurrency b) t0))"
    "mt_inv contents (contents w) (mb_block_size b) (mb_append_index b, mb_padding b, ?no) [] (mt_fields b) (Some t0)"
    by (rule mt_build_ok [OF b(1), of w]) blast
  have "0 < mb_concurrency b" using b(1) by (simp add: mt_builder_ok_def)
  note start = wr.start_pipeline_ok [OF this]
  obtain A where A: "mt_actions b ops = Some A" "no_fail A"
    "acts_out fns ?lv (\<lambda>t. \<exists>its ib. closed contents (contents w) (mb_block_size b) (mb_padding b) (mb_append_index b) (\<not> ?no) its ib (th_sink t) \<and>
      symbols its = mt_ops_symbols ops) (run_alone (writer_threads fns ?lv ?unc) A t0)"
    using sink.actions_out [OF s p(2) b(2) n refl, where lv = ?lv and unc = ?unc] by auto
  have "case r of
         Inl e \<Rightarrow> excused fns ?lv
       | Inr w' \<Rightarrow> \<exists>its trailer bs. contents w' = contents w @ bs \<and> stream_of (mb_block_size b) its trailer bs \<and>
           symbols its = mt_ops_symbols ops \<and> (2 \<le> mb_padding b \<longrightarrow> mb_padding b dvd length bs)"
    if r: "mt_reach (writer_threads fns ?lv ?unc) (start_pipeline (mb_concurrency b) t0 A) s" "mt_client s = Returned r" for s r
  proof (cases r)
    case (Inl e)
    have "excused fns ?lv"
    proof (rule ccontr)
      assume "\<not> excused fns ?lv"
      with A(3) obtain t where "run_alone (writer_threads fns ?lv ?unc) A t0 = Some (Inr (), t)" by (auto simp: acts_out_def)
      from wr.clean_reach [OF r(1) this A(2) start(2) _ start(3)] start(1) r(2) Inl show False by (auto simp: live_def clean_def)
    qed
    with Inl show ?thesis by simp
  next
    case (Inr w')
    then obtain t where "run_alone (writer_threads fns ?lv ?unc) A t0 = Some (Inr (), t)" "w' = th_sink t"
      using wr.reach_inv [OF r(1) start(2)] r(2) by (auto simp: pipeline_inv_def)
    with A(3) obtain its ib where "closed contents (contents w) (mb_block_size b) (mb_padding b) (mb_append_index b) (\<not> ?no) its ib w'"
      "symbols its = mt_ops_symbols ops" by (auto simp: acts_out_def)
    with closed_stream Inr show ?thesis by fastforce
  qed
  with p(1) A(1) show ?thesis by blast
qed

end
