(* ===== verification/Spec2Isabelle.thy ===== *)
theory Spec2Isabelle
  imports Code_Meaning Block_Correct Crc Index_Roundtrip Stream_Roundtrip Seek_Correct Mt_Correct
begin

text \<open>
  A verification development of the MinLZ compression library (crate \<^verbatim>\<open>crates/minlz\<close>): its block
  format, its stream format, the index that gives random access to a stream, and the concurrent
  writer.

  \<^bold>\<open>The program.\<close> A block is a header with the decoded length and a sequence of tokens: literals,
  copies from the output written so far, and repeats of the last offset. Three encoders, one for each
  level, write blocks through the emitters; one decoder reads them with unchecked loads and stores
  into a buffer with room for overshoot. A stream is a sequence of chunks: an identifier that announces
  the block size, data chunks with a checksum and a block or plain bytes, user chunks, padding, an
  end chunk with the total, and optionally an index. The writer buffers data into blocks and emits chunks
  to a sink; the concurrent writer has workers encode the blocks and a thread write them in their order.
  The reader takes chunks from a source and delivers their data; it skips data without decoding it
  where it can; the seeking reader uses the index to begin at a block close to an offset.

  \<^bold>\<open>Conventions.\<close> The value None is a fault: a panic, an arithmetic overflow, or an access outside of
  a buffer in \<^verbatim>\<open>unsafe\<close> code. An error is \<open>Inl\<close>, with the constructors of the source; an \<open>io_error\<close> is its kind
  and its text. A method gives its result and the state after it, also when it returns an error. Bytes
  and hashes are machine words; lengths and positions are natural numbers and their subtractions are
  checked (\<open>usub\<close>), counters of 64 bits have their overflow checked (\<open>chk_u64\<close>). Every loop of the source
  is an instance of \<open>loop\<close> (theory \<^theory_text>\<open>Prelude\<close>), whose value is None when it does not end, so a theorem that
  a function returns is a theorem that its loops end; its rule \<open>loop_total\<close> takes an invariant and a
  measure. There is no fuel. What belongs to a user of the library is a parameter: the sink and the source,
  with the contracts of \<^verbatim>\<open>Write\<close>, \<^verbatim>\<open>Read\<close> and \<^verbatim>\<open>Seek\<close> as the locales \<open>sink\<close>, \<open>reliable_sink\<close>, \<open>source\<close> and \<open>seekable\<close>, interpreted on
  vectors, byte slices and cursors; the callbacks of user chunks; the checksum instruction of the processor;
  the parallelism of the host.

  \<^bold>\<open>The theories and the code.\<close>

  \<^item> \<^theory_text>\<open>Prelude\<close>, \<^theory_text>\<open>Varint\<close>, \<^theory_text>\<open>Io\<close>: the shared vocabulary, codes that can be read back (a locale that the three varint
    codecs interpret), and what is used of \<^verbatim>\<open>std::io\<close>.
  \<^item> \<^theory_text>\<open>Block_Format\<close>: \<^verbatim>\<open>block/format.rs\<close>, \<^verbatim>\<open>error.rs\<close>. \<^theory_text>\<open>Load_Store\<close>: \<^verbatim>\<open>block/load_store.rs\<close>, \<^verbatim>\<open>block/hash.rs\<close>, \<^verbatim>\<open>block/match_len.rs\<close>
    (C8, C9). \<^theory_text>\<open>Block_Spec\<close>: the meaning of a block, which decoder and encoders are proved against.
  \<^item> \<^theory_text>\<open>Emit\<close>: \<^verbatim>\<open>block/emit.rs\<close>; \<^theory_text>\<open>Emit_Correct\<close> and \<^theory_text>\<open>Code_Meaning\<close> show that each emitter writes exactly a code, that
    the code is read back as its token, and that the size functions are right (C3 to C7).
  \<^item> \<^theory_text>\<open>Decode\<close>: \<^verbatim>\<open>block/decode.rs\<close>, on a memory with uninitialised cells; \<^theory_text>\<open>Decode_Correct\<close> and \<^theory_text>\<open>Decode_Refine\<close> show
    that it refines the meaning and is memory safe (C1, C2).
  \<^item> \<^theory_text>\<open>Encode_L1\<close>, \<^theory_text>\<open>Encode_L2\<close>, \<^theory_text>\<open>Encode_L3\<close>: \<^verbatim>\<open>block/encode_l1.rs\<close>, \<^verbatim>\<open>block/encode_l2.rs\<close>, \<^verbatim>\<open>block/encode_l3.rs\<close>, on the matching of
    \<^theory_text>\<open>Encode_Common\<close>; the theories with the ending \<^theory_text>\<open>_Correct\<close>, on the arithmetic of \<^theory_text>\<open>Encode_Room\<close>, show that they never fault and that
    what they write means their input (C11 to C14). Level 3 needs six bytes more than its callers give
    it; C14 says so.
  \<^item> \<^theory_text>\<open>Block\<close>: \<^verbatim>\<open>block/mod.rs\<close>; \<^theory_text>\<open>Block_Correct\<close> has the contract of an encoder (the locale that all levels interpret),
    the round trip and the errors (C10, C15 to C18).
  \<^item> \<^theory_text>\<open>Crc\<close>: \<^verbatim>\<open>stream/crc.rs\<close>, against the polynomial bit by bit (C19 to C21).
  \<^item> \<^theory_text>\<open>Stream_Format\<close>: \<^verbatim>\<open>stream/format.rs\<close>, \<^verbatim>\<open>stream/error.rs\<close>, the header of \<^verbatim>\<open>stream/mod.rs\<close> (C22). \<^theory_text>\<open>Stream_Spec\<close>: what a
    stream is, which writer and readers are proved against.
  \<^item> \<^theory_text>\<open>Index\<close>: \<^verbatim>\<open>index.rs\<close>; \<^theory_text>\<open>Index_Correct\<close> and \<^theory_text>\<open>Index_Roundtrip\<close> have its invariant, its search against a
    specification, and its round trips (C23 to C27).
  \<^item> \<^theory_text>\<open>Writer\<close>: \<^verbatim>\<open>stream/writer.rs\<close>; \<^theory_text>\<open>Writer_Correct\<close>: every sequence of calls makes a stream (C28, C29).
  \<^item> \<^theory_text>\<open>Reader\<close>: \<^verbatim>\<open>stream/reader.rs\<close>; \<^theory_text>\<open>Reader_Source\<close> replaces any source by its bytes (C31), \<^theory_text>\<open>Reader_Total\<close>
    covers hostile input (C30), \<^theory_text>\<open>Reader_Correct\<close> and \<^theory_text>\<open>Reader_Skip\<close> follow the format as a transition system, and
    \<^theory_text>\<open>Reader_Client\<close> refines a cursor over the data (C32, C34 to C36). \<^theory_text>\<open>Stream_Roundtrip\<close> joins writer and reader (C33).
  \<^item> \<^theory_text>\<open>Seek\<close>: \<^verbatim>\<open>stream/seek.rs\<close> and loading an index from the end of a source; \<^theory_text>\<open>Seek_Correct\<close>: over what a writer has
    produced it behaves as a file (C37).
  \<^item> \<^theory_text>\<open>Mt_Writer\<close>, \<^theory_text>\<open>Mt_Pipeline\<close>: \<^verbatim>\<open>stream/mt_writer.rs\<close>, \<^verbatim>\<open>stream/mt_pool.rs\<close>. What each thread does by itself is a
    function; the threads together are a step relation over their bounded channels. \<^theory_text>\<open>Mt_Safety\<close>: whatever
    the schedule, the outcome is that of one thread; \<^theory_text>\<open>Mt_Complete\<close>, \<^theory_text>\<open>Mt_Progress\<close>: no deadlock and no endless run, by the
    measure \<open>mt_work\<close>; \<^theory_text>\<open>Mt_Stream\<close>, \<^theory_text>\<open>Mt_Correct\<close>: that one thread writes a stream (C38, C39).

  \<^bold>\<open>Bounds.\<close> The theorems on writers ask for calls of less than \<open>2 ^ 59\<close> bytes with their framing (\<open>op_cost\<close>,
  \<open>sym_cost\<close>), so that no counter of 64 bits overflows; those on the reader ask for a source whose bytes, were
  each a chunk of a whole block, stay below \<open>2 ^ 64\<close> (\<open>budget\<close> in \<open>rd_ok\<close>), or for data below it.

  \<^bold>\<open>Not modelled.\<close> The concurrent reader (\<^verbatim>\<open>stream/mt_reader.rs\<close>), the command line tool and its arguments (\<^verbatim>\<open>src/bin/mz\<close>:
  files, terminal, timing), \<^verbatim>\<open>Index::to_json\<close> (text for people), \<^verbatim>\<open>load16\<close> (no caller), and the crate root, which only
  re-exports. Allocation failure and the reuse of allocations are not observable in the model; a poisoned
  lock is not, because no thread panics while it holds one.
\<close>

section \<open>The block decoder\<close>



text \<open>
  C2. Memory safety of the block decoder on every target, whatever the byte order: it returns on
  every source, it never reads or writes outside its source and its padded destination nor reads a
  byte that was never written, and when it accepts it has written every byte of the output.
\<close>

theorem decode_memory_safe:
  assumes "length m = dlen + OVERSHOOT_PAD"
  shows "\<exists>r. minlz_decode be m dlen src = Some r \<and>
    (case r of Inl e \<Rightarrow> True | Inr m' \<Rightarrow> length m' = length m \<and> None \<notin> set (take dlen m'))"
  using assms by (rule minlz_decode_ok [of m dlen be src]) (auto simp: holds_def)

lemma decode_memory_safe_witness:
  "\<exists>r. minlz_decode True (replicate 20 None) 4 [0x01, 0x00] = Some r \<and>
    (case r of Inl e \<Rightarrow> True | Inr m' \<Rightarrow> length m' = length (replicate 20 None :: mem) \<and>
       None \<notin> set (take 4 m'))"
  by (rule decode_memory_safe) (simp add: OVERSHOOT_PAD_def)

section \<open>The chunk emitters\<close>

text \<open>
  C3. \<open>emit_literal\<close> writes exactly the bytes of one literal chunk at the front of its slice, or
  faults when they do not fit, and running those bytes after any output appends the literal.
\<close>

theorem emit_literal_means:
  assumes "length lit \<le> 16777245"
  shows "\<exists>code. emits (\<lambda>dst. emit_literal dst lit) code \<and> length code \<le> length lit + 4 \<and>
    (\<forall>out off rest. spec_run (code @ rest) (out, off) = spec_run rest (out @ lit, off))"
  using emits_literal [OF assms] run_lit_code [OF assms] length_lit_code [of lit] by (intro exI) auto

lemma emit_literal_means_witness:
  "\<exists>code. emits (\<lambda>dst. emit_literal dst [1, 2]) code \<and> length code \<le> length [1 :: byte, 2] + 4 \<and>
    (\<forall>out off rest. spec_run (code @ rest) (out, off) = spec_run rest (out @ [1, 2], off))"
  by (rule emit_literal_means) simp

text \<open>
  C4. \<open>emit_repeat\<close> writes exactly the bytes of a repeat chunk, as many as \<open>emit_repeat_size\<close>
  predicts, and running them copies from the last offset.
\<close>

theorem emit_repeat_means:
  assumes "0 < n" "n < 16777216 + 30"
  shows "\<exists>code. emits (\<lambda>dst. emit_repeat dst n) code \<and> length code = emit_repeat_size n \<and>
    (\<forall>out off rest. 0 < off \<longrightarrow> off \<le> length out \<longrightarrow>
       spec_run (code @ rest) (out, off) = spec_run rest (lz_copy out off n, off))"
  using emits_repeat [OF assms] run_rep_code [of n] assms emit_repeat_size_correct
  by (intro exI [of _ "rep_code n"]) auto

lemma emit_repeat_means_witness:
  "\<exists>code. emits (\<lambda>dst. emit_repeat dst 300) code \<and> length code = emit_repeat_size 300 \<and>
    spec_run code ([1, 2, 3], 2) = Some (lz_copy [1, 2, 3] 2 300, 2)"
proof -
  obtain code where "emits (\<lambda>dst. emit_repeat dst 300) code" "length code = emit_repeat_size 300"
    and run: "\<forall>out off rest. 0 < off \<longrightarrow> off \<le> length out \<longrightarrow>
       spec_run (code @ rest) (out, off) = spec_run rest (lz_copy out off 300, off)"
    using emit_repeat_means [of 300] by auto
  then show ?thesis
    using run [rule_format, of 2 "[1, 2, 3]" "[]"] by (auto simp: spec_run.simps [of "[]"])
qed

text \<open>
  C5. \<open>emit_copy\<close>, with the chunk kind it selects for the offset and the length, writes exactly as
  many bytes as \<open>emit_copy_size\<close> predicts, and running them performs that copy and leaves its
  offset as the last one.
\<close>

theorem emit_copy_means:
  assumes "0 < off'" "off' \<le> MAX_COPY3_OFFSET" "4 \<le> n" "n < 16777216"
  shows "\<exists>code. emits (\<lambda>dst. emit_copy dst off' n) code \<and> emit_copy_size off' n = Some (length code) \<and>
    (\<forall>out off rest. off' \<le> length out \<longrightarrow>
       spec_run (code @ rest) (out, off) = spec_run rest (lz_copy out off' n, off'))"
  using emits_copy [OF assms] run_copy_code [OF assms] emit_copy_size_correct [OF assms(3,4)]
  by (intro exI [of _ "copy_code off' n"]) auto

lemma emit_copy_means_witness:
  "\<exists>code. emits (\<lambda>dst. emit_copy dst 1 100) code \<and> emit_copy_size 1 100 = Some (length code) \<and>
    spec_run code ([7], 9) = Some (lz_copy [7] 1 100, 1)"
proof -
  obtain code where "emits (\<lambda>dst. emit_copy dst 1 100) code" "emit_copy_size 1 100 = Some (length code)"
    and run: "\<forall>out off rest. 1 \<le> length out \<longrightarrow>
       spec_run (code @ rest) (out, off) = spec_run rest (lz_copy out 1 100, 1)"
    using emit_copy_means [of 1 100] by (auto simp: format_consts)
  then show ?thesis
    using run [rule_format, of "[7]" "[]" 9] by (auto simp: spec_run.simps [of "[]"])
qed



text \<open>
  C7. \<open>emit_literal_size_n\<close> is the size of the header that \<open>emit_literal\<close> writes, except for a
  literal of 65565 bytes, for which it says four bytes and three are written.
\<close>

theorem emit_literal_size_off_by_one:
  "\<forall>dst lit. length dst = length lit + 4 \<and> lit \<noteq> [] \<and> length lit \<le> 16777245 \<longrightarrow>
     map_option snd (emit_literal dst lit) =
       Some (length lit + emit_literal_size_n (length lit) - (if length lit = 65565 then 1 else 0))"
proof (intro allI impI, elim conjE)
  fix dst lit :: bytes
  assume l: "length dst = length lit + 4" "length lit \<le> 16777245"
  then have "length (lit_code lit) \<le> length dst" by (simp add: length_lit_code)
  from emitsD [OF emits_literal this] l
  show "map_option snd (emit_literal dst lit) =
      Some (length lit + emit_literal_size_n (length lit) - (if length lit = 65565 then 1 else 0))"
    using emit_literal_size_correct [of lit] by auto
qed

lemma emit_literal_size_off_by_one_witness:
  "map_option snd (emit_literal (replicate 65569 0) (replicate 65565 0)) = Some 65568 \<and>
   65565 + emit_literal_size_n 65565 = 65569"
  using emit_literal_size_off_by_one [rule_format, of "replicate 65569 0" "replicate 65565 0"]
  by (simp add: emit_literal_size_n_def replicate_empty)

section \<open>Matches, hashes and lengths\<close>

text \<open>
  C8. \<open>match_len\<close>, which compares eight bytes at a time and then byte by byte, returns the length of
  the longest common prefix of its slices, and never reads outside them, as long as the first slice
  is not the longer one.
\<close>

theorem match_len_is_common_prefix:
  assumes "length a \<le> length b"
  shows "\<exists>k. match_len a b = Some k \<and> k \<le> length a \<and> take k a = take k b \<and>
    (k = length a \<or> a ! k \<noteq> b ! k)"
  using match_len_correct [OF assms] match_prefix_spec [OF assms refl] by auto

lemma match_len_is_common_prefix_witness:
  "match_len [1, 2, 3, 4, 5, 6, 7, 8, 9, 9] [1, 2, 3, 4, 5, 6, 7, 8, 9, 8, 0] = Some 9"
proof -
  obtain k where k: "match_len [1, 2, 3, 4, 5, 6, 7, 8, 9, 9] [1, 2, 3, 4, 5, 6, 7, 8, 9, 8, 0] = Some k"
    "k \<le> 10" "take k [1 :: byte, 2, 3, 4, 5, 6, 7, 8, 9, 9] = take k [1, 2, 3, 4, 5, 6, 7, 8, 9, 8, 0]"
    "k = 10 \<or> [1 :: byte, 2, 3, 4, 5, 6, 7, 8, 9, 9] ! k \<noteq> [1, 2, 3, 4, 5, 6, 7, 8, 9, 8, 0] ! k"
    using match_len_is_common_prefix [of "[1, 2, 3, 4, 5, 6, 7, 8, 9, 9]" "[1, 2, 3, 4, 5, 6, 7, 8, 9, 8, 0]"]
    by auto
  from k(2) have "k = 0 \<or> k = 1 \<or> k = 2 \<or> k = 3 \<or> k = 4 \<or> k = 5 \<or> k = 6 \<or> k = 7 \<or> k = 8 \<or> k = 9 \<or> k = 10"
    by presburger
  with k show ?thesis by auto
qed

text \<open>
  C9. The hash functions index a table of the size they are asked for.
\<close>

theorem hash_in_table:
  assumes "0 < h" "h \<le> 32"
  shows "unat (hash4 u h) < 2 ^ h \<and> unat (hash5 u h) < 2 ^ h \<and> unat (hash6 u h) < 2 ^ h \<and>
    unat (hash7 u h) < 2 ^ h \<and> unat (hash8 u h) < 2 ^ h"
  using hash_bounds [OF assms] by auto

lemma hash_in_table_witness:
  "unat (hash4 0x6162636465666768 15) < 2 ^ 15 \<and> unat (hash5 0x6162636465666768 15) < 2 ^ 15 \<and>
   unat (hash6 0x6162636465666768 15) < 2 ^ 15 \<and> unat (hash7 0x6162636465666768 15) < 2 ^ 15 \<and>
   unat (hash8 0x6162636465666768 15) < 2 ^ 15"
  by (rule hash_in_table) simp_all

text \<open>
  C10. The varint of the block header round-trips, whatever follows it, and its reader never claims
  bytes it does not have.
\<close>

theorem block_varint_roundtrip:
  "get_uvarint (put_uvarint [] v @ rest) = Some (v, length (put_uvarint [] v)) \<and>
   put_uvarint dst v = dst @ put_uvarint [] v \<and>
   (case get_uvarint bs of None \<Rightarrow> True | Some (w, n) \<Rightarrow> 0 < n \<and> n \<le> length bs)"
  using block_uvarint.dec_enc block_uvarint.dec_bound [of bs]
  by (auto simp: put_uvarint_eq split: option.split)

section \<open>The fastest encoder\<close>

text \<open>
  C11. The level-1 encoder never faults: with the room that the block format reserves, every index,
  load and store of its search, match and emission loops is in range and every loop ends. When it
  returns a size, the bytes it wrote fit in the slice and mean exactly the source.
\<close>

theorem l1_encode_correct:
  assumes "length src \<le> MAX_BLOCK_SIZE"
    and "length src + 1 \<le> length dst + length (put_uvarint [] (of_nat (length src)))"
  shows "\<exists>out d. l1_encode_block dst src = Some (out, d) \<and> length out = length dst \<and>
    (d = 0 \<or> d \<le> length dst \<and> spec_decode (take d out) = Some src)"
  using assms length_uvarint_block [OF assms(1)]
  by (intro l1_encode_block_ok) (auto simp: room_def put_uvarint_eq)

lemma l1_encode_correct_witness:
  "\<exists>out d. l1_encode_block (replicate 100 0) (replicate 100 7) = Some (out, d) \<and>
    length out = length (replicate 100 0 :: bytes) \<and>
    (d = 0 \<or> d \<le> length (replicate 100 0 :: bytes) \<and> spec_decode (take d out) = Some (replicate 100 7))"
proof (rule l1_encode_correct)
  show "length (replicate 100 (7 :: byte)) \<le> MAX_BLOCK_SIZE" by (simp add: format_consts)
  show "length (replicate 100 (7 :: byte)) + 1
      \<le> length (replicate 100 (0 :: byte)) + length (put_uvarint [] (of_nat (length (replicate 100 (7 :: byte)))))"
    by (simp add: put_uvarint.simps)
qed

section \<open>The balanced and the smallest encoder\<close>

text \<open>
  C12. The level-2 encoder never faults: with the room that the block format reserves, every index,
  load and store of its search, match, emission and indexing loops is in range and every loop ends.
  When it returns a size, the bytes it wrote fit in the slice and mean exactly the source.
\<close>

theorem l2_encode_correct:
  assumes "length src \<le> MAX_BLOCK_SIZE"
    and "length src + 1 \<le> length dst + length (put_uvarint [] (of_nat (length src)))"
  shows "\<exists>out d. l2_encode_block dst src = Some (out, d) \<and> length out = length dst \<and>
    (d = 0 \<or> d \<le> length dst \<and> spec_decode (take d out) = Some src)"
  using assms length_uvarint_block [OF assms(1)]
  by (intro l2_encode_block_ok) (auto simp: room_def put_uvarint_eq)

lemma l2_encode_correct_witness:
  "\<exists>out d. l2_encode_block (replicate 100 0) (replicate 100 7) = Some (out, d) \<and>
    length out = length (replicate 100 0 :: bytes) \<and>
    (d = 0 \<or> d \<le> length (replicate 100 0 :: bytes) \<and> spec_decode (take d out) = Some (replicate 100 7))"
proof (rule l2_encode_correct)
  show "length (replicate 100 (7 :: byte)) \<le> MAX_BLOCK_SIZE" by (simp add: format_consts)
  show "length (replicate 100 (7 :: byte)) + 1
      \<le> length (replicate 100 (0 :: byte)) + length (put_uvarint [] (of_nat (length (replicate 100 (7 :: byte)))))"
    by (simp add: put_uvarint.simps)
qed

text \<open>
  C13. The long tables that a thread keeps from one call to the next make no difference to the
  level-2 encoder, whatever positions earlier calls left in them.
\<close>

theorem l2_tables_irrelevant:
  assumes "length big \<in> {0, 2 ^ 17}" and "length small \<in> {0, 2 ^ 15}"
  shows "l2_encode_block_on big small dst src = l2_encode_block dst src"
  using assms by (intro l2_encode_block_on_eq) auto

lemma l2_tables_irrelevant_witness:
  "l2_encode_block_on (replicate (2 ^ 17) 7) [] (replicate 50 0) [1, 2, 3] =
     l2_encode_block (replicate 50 0) [1, 2, 3]"
  by (rule l2_tables_irrelevant) simp_all

text \<open>
  C14. The level-3 encoder always returns, unless the slice it writes to has less than six bytes
  more than the source, in which case it may pass the end of that slice. Otherwise every access is
  in range, and when it returns a size, the bytes it wrote fit in the slice and mean the source.
\<close>

theorem l3_encode_correct:
  assumes "length src \<le> MAX_BLOCK_SIZE"
  shows "case l3_encode_block dst src of
      None \<Rightarrow> length dst < length src + 6
    | Some (out, d) \<Rightarrow> length out = length dst \<and>
        (d = 0 \<or> d \<le> length dst \<and> spec_decode (take d out) = Some src)"
  using l3_encode_block_ok [OF assms, of dst] by auto

lemma l3_encode_correct_witness:
  "\<exists>out d. l3_encode_block (replicate 106 0) (replicate 100 7) = Some (out, d) \<and>
    (d = 0 \<or> d \<le> 106 \<and> spec_decode (take d out) = Some (replicate 100 7))"
  using l3_encode_correct [of "replicate 100 7" "replicate 106 0"]
  by (auto simp: format_consts split: option.splits)

section \<open>The block codec\<close>






text \<open>
  C18. The errors of encoding: a source longer than the largest block is refused by every encoding
  function that checks it, whatever the level, and by nothing else; the integers that name a level
  are exactly 1, 2 and 3, and convert back.
\<close>

theorem block_encode_errors:
  "(append_encoded dst src level = Some (Inl e) \<longleftrightarrow> e = TooLarge \<and> MAX_BLOCK_SIZE < length src) \<and>
   (try_encode dst src level = Some (Inl e) \<longleftrightarrow> e = TooLarge \<and> MAX_BLOCK_SIZE < length src) \<and>
   (level_of_int v = Inr level \<longleftrightarrow> v = int_of_level level) \<and>
   (level_of_int v = Inl e \<longleftrightarrow> e = InvalidLevel \<and> v \<notin> {1, 2, 3})"
proof (intro conjI)
  show "append_encoded dst src level = Some (Inl e) \<longleftrightarrow> e = TooLarge \<and> MAX_BLOCK_SIZE < length src"
  proof (cases "MAX_BLOCK_SIZE < length src")
    case True
    then show ?thesis using append_encoded_too_large [of src dst level] by auto
  next
    case False
    then have le: "length src \<le> MAX_BLOCK_SIZE" by simp
    show ?thesis by (cases rule: append_encoded_ok [OF le, of dst level]) (use False in simp_all)
  qed
  show "try_encode dst src level = Some (Inl e) \<longleftrightarrow> e = TooLarge \<and> MAX_BLOCK_SIZE < length src"
  proof (cases "MAX_BLOCK_SIZE < length src")
    case True
    then show ?thesis by (auto simp: try_encode_def max_encoded_len_def)
  next
    case False
    then have le: "length src \<le> MAX_BLOCK_SIZE" by simp
    show ?thesis by (cases rule: try_encode_ok [OF le, of dst level]) (use False in simp_all)
  qed
  show "level_of_int v = Inr level \<longleftrightarrow> v = int_of_level level"
    by (cases level) (auto simp: level_of_int_def)
qed (auto simp: level_of_int_def)

section \<open>The checksum\<close>

text \<open>
  C19. The checksum by tables is the CRC of the polynomial, bit by bit, on every input; and it can be
  continued: the checksum of a concatenation is that of the second part begun from that of the first.
\<close>

theorem crc_table_correct:
  "crc32c_update crc data = crc_spec crc data \<and>
   crc32c_update (crc32c_update crc xs) ys = crc32c_update crc (xs @ ys)"
  by (simp add: crc32c_update_def crc32c_update_table_eq crc_spec_def)

text \<open>
  C20. Whatever implementation is selected at run time, the one by tables, or one of the two by the
  CRC instruction of a processor that does what its manual says, whose accumulator has 64 bits on
  x86-64 and 32 on aarch64: it returns, and all give the same checksum.
\<close>

theorem crc_hardware_agrees:
  assumes "crc_instruction mm_crc32_u64" "crc_instruction crc32cd" "ins8 = crc_byte"
    and "detected \<in> {None, Some (crc32c_hw_x86_64 mm_crc32_u64 ins8), Some (crc32c_hw_aarch64 crc32cd ins8)}"
  shows "select_impl detected crc data = Some (crc32c_update crc data)"
proof -
  have "crc32c_hw_x86_64 mm_crc32_u64 ins8 crc data = Some (crc_spec crc data)"
    unfolding crc32c_hw_x86_64_def using assms by (intro crc32c_hw_eq) auto
  moreover have "crc32c_hw_aarch64 crc32cd ins8 crc data = Some (crc_spec crc data)"
    unfolding crc32c_hw_aarch64_def using assms by (intro crc32c_hw_eq) auto
  ultimately show ?thesis
    using assms(4) by (auto simp: select_impl_def crc32c_update_def crc32c_update_table_eq)
qed

lemma crc_hardware_agrees_witness:
  "select_impl (Some (crc32c_hw_x86_64 soft_crc32 crc_byte)) 0 (replicate 4000 7) = Some (crc32c (replicate 4000 7))"
  unfolding crc32c_def using crc_hardware_agrees [OF soft_crc32 soft_crc32 refl] by simp

text \<open>
  C21. The checksum in a chunk detects every change of up to four consecutive bytes, wherever it is.
\<close>

theorem crc_detects_bursts:
  assumes "length x = length y" "length x \<le> 4" "x \<noteq> y"
  shows "masked_crc32c (pre @ x @ post) \<noteq> masked_crc32c (pre @ y @ post)"
  using masked_crc32c_burst [of pre x post y] assms by blast

lemma crc_detects_bursts_witness: "masked_crc32c ([5, 6] @ [1, 2] @ [7]) \<noteq> masked_crc32c ([5, 6] @ [3, 4] @ [7])"
  by (rule crc_detects_bursts) simp_all

section \<open>The stream format\<close>

text \<open>
  C22. For every block size a writer accepts there is a header of ten bytes, which announces its
  length and the magic letters, and whose last byte stands for the next power of two and leaves the
  two top bits clear.
\<close>

theorem stream_header_announces:
  assumes "MIN_BLOCK_SIZE \<le> n" "n \<le> MAX_BLOCK_SIZE"
  shows "\<exists>ind k. make_stream_header n = Some (CHUNK_TYPE_STREAM_IDENTIFIER # len_bytes MAGIC_BODY_LEN @ MAGIC_BODY @ [ind]) \<and>
    read_chunk_len (len_bytes MAGIC_BODY_LEN) = Some (length (MAGIC_BODY @ [ind])) \<and>
    block_size_from_indicator ind = Some (2 ^ k) \<and> n \<le> 2 ^ k \<and> 2 ^ k < 2 * n \<and> ind AND 0xc0 = 0"
  using read_len_bytes [of MAGIC_BODY_LEN "[]"]
  by (cases rule: block_size_indicator_ok [OF assms]) (auto simp: make_stream_header_def stream_consts len_bytes_def)

lemma stream_header_announces_witness:
  "\<exists>ind k. make_stream_header 4096 = Some (CHUNK_TYPE_STREAM_IDENTIFIER # len_bytes MAGIC_BODY_LEN @ MAGIC_BODY @ [ind]) \<and>
    block_size_from_indicator ind = Some (2 ^ k) \<and> 4096 \<le> (2::nat) ^ k"
  using stream_header_announces [of 4096] by (auto simp: stream_consts format_consts)

section \<open>The index\<close>

text \<open>
  C23. The invariant of an index: its entries are at least the estimated block size apart and fit the
  wire format. Starting an index establishes it; adding any entry keeps it, and so does thinning;
  none of them overflows, although thinning doubles the estimate.
\<close>

theorem index_invariant:
  assumes "index_ok ix" "m < 2 ^ 62"
  shows "(\<exists>ix'. index_reset m ix = Some ix' \<and> index_ok ix' \<and> m \<le> est_block_uncomp ix') \<and>
    (\<exists>r ix'. index_add c u ix = Some (r, ix') \<and> index_ok ix' \<and> (r \<noteq> Inr () \<longrightarrow> ix' = ix)) \<and>
    (\<exists>ix'. reduce ix = Some ix' \<and> index_ok ix' \<and> length (offsets ix') \<le> MAX_INDEX_ENTRIES \<and>
       set (offsets ix') \<subseteq> set (offsets ix))"
proof (intro conjI)
  show "\<exists>ix'. index_reset m ix = Some ix' \<and> index_ok ix' \<and> m \<le> est_block_uncomp ix'"
    by (rule index_reset_ok [OF assms(2), of ix]) auto
  show "\<exists>r ix'. index_add c u ix = Some (r, ix') \<and> index_ok ix' \<and> (r \<noteq> Inr () \<longrightarrow> ix' = ix)"
    using assms(1) by (cases rule: index_add_ok [OF assms(1), of c u]) auto
  show "\<exists>ix'. reduce ix = Some ix' \<and> index_ok ix' \<and> length (offsets ix') \<le> MAX_INDEX_ENTRIES \<and>
       set (offsets ix') \<subseteq> set (offsets ix)"
    by (rule reduce_ok [OF assms(1)]) auto
qed

lemma index_invariant_witness:
  "\<exists>r ix'. index_add 10 4096 (index_default\<lparr>est_block_uncomp := 4096\<rparr>) = Some (r, ix') \<and> index_ok ix'"
  using index_invariant [of "index_default\<lparr>est_block_uncomp := 4096\<rparr>" 0 10 4096]
  by (auto simp: index_ok_def spaced_def index_default_def)

text \<open>
  C24. The search in an index, by bisection or by a scan, finds the last entry that is not past the
  offset, or the start of the stream when there is none.
\<close>

theorem index_find_correct:
  assumes "index_ok ix"
  shows "index_find ix off = Some (find_spec (offsets ix) off) \<and>
    uncompressed (find_spec (offsets ix) off) \<le> off \<and>
    (\<forall>p \<in> set (offsets ix). uncompressed p \<le> off \<longrightarrow> uncompressed p \<le> uncompressed (find_spec (offsets ix) off))"
proof -
  have sp: "spaced 0 (offsets ix)" by (rule index_ok_le [OF assms])
  show ?thesis using index_find_ok [OF sp] find_spec_greatest [OF sp] by blast
qed

lemma index_find_correct_witness:
  "index_find \<lparr>total_uncompressed = None, total_compressed = None,
     offsets = [\<lparr>compressed = 10, uncompressed = 0\<rparr>, \<lparr>compressed = 14, uncompressed = 5\<rparr>], est_block_uncomp = 5\<rparr> 7 =
   Some \<lparr>compressed = 14, uncompressed = 5\<rparr>"
  using index_find_correct [of "\<lparr>total_uncompressed = None, total_compressed = None,
     offsets = [\<lparr>compressed = 10, uncompressed = 0\<rparr>, \<lparr>compressed = 14, uncompressed = 5\<rparr>], est_block_uncomp = 5\<rparr>" 7]
  by (simp add: index_ok_def spaced_def index_consts find_spec_def)

text \<open>
  C25. The chunk of an index, appended to anything, loads back as the index the writer kept, over
  whatever the reader held before and with whatever follows; an index of fewer than the maximal
  number of entries comes back entry by entry. The compressed offsets must increase strictly, as
  those of different blocks do.
\<close>

theorem index_roundtrip:
  assumes "index_ok ix" "wire_range (offsets ix)" "est_block_uncomp ix < 2 ^ 63" "tu \<le> MAX_I64" "\<not> over_i64 tc"
  shows "\<exists>chunk ix'. index_append_to buf (Some tu) tc ix = Some (Inr (buf @ chunk), ix') \<and>
    (\<forall>rest old. index_load (chunk @ rest) old = Some (Inr rest, ix')) \<and>
    (length (offsets ix) < MAX_INDEX_ENTRIES \<longrightarrow>
       ix' = ix\<lparr>total_uncompressed := Some tu, total_compressed := tc\<rparr>)"
  by (rule index_roundtrip_at [OF assms, of buf]) blast

lemma index_roundtrip_witness:
  "\<exists>chunk. index_append_to [9] (Some 9) None (index_default\<lparr>est_block_uncomp := 4,
      offsets := [\<lparr>compressed = 10, uncompressed = 0\<rparr>, \<lparr>compressed = 14, uncompressed = 5\<rparr>]\<rparr>) =
    Some (Inr ([9] @ chunk), \<lparr>total_uncompressed = Some 9, total_compressed = None,
      offsets = [\<lparr>compressed = 10, uncompressed = 0\<rparr>, \<lparr>compressed = 14, uncompressed = 5\<rparr>], est_block_uncomp = 4\<rparr>)"
  using index_roundtrip [of "index_default\<lparr>est_block_uncomp := 4,
      offsets := [\<lparr>compressed = 10, uncompressed = 0\<rparr>, \<lparr>compressed = 14, uncompressed = 5\<rparr>]\<rparr>" 9 None "[9]"]
  by (auto simp: index_ok_def spaced_def index_consts wire_range_def over_i64_def index_default_def)

text \<open>
  C26. Taking the envelope off the chunk of an index leaves its payload, whatever follows the chunk,
  and putting the envelope back gives the chunk again.
\<close>

theorem index_envelope_roundtrip:
  assumes "index_ok ix" "wire_range (offsets ix)" "est_block_uncomp ix < 2 ^ 63" "tu \<le> MAX_I64" "\<not> over_i64 tc"
  shows "\<exists>chunk ix' p. index_append_to [] (Some tu) tc ix = Some (Inr chunk, ix') \<and>
    remove_index_headers (chunk @ rest) = Some (Some p) \<and> restore_index_headers p = chunk"
  by (rule index_roundtrip_at [OF assms, of "[]"]) (auto simp: remove_envelope restore_envelope)

lemma index_envelope_roundtrip_witness:
  "\<exists>chunk ix' p. index_append_to [] (Some 9) None (index_default\<lparr>est_block_uncomp := 4\<rparr>) = Some (Inr chunk, ix') \<and>
    remove_index_headers (chunk @ [1, 2]) = Some (Some p) \<and> restore_index_headers p = chunk"
  by (rule index_envelope_roundtrip) (auto simp: index_ok_def spaced_def index_consts wire_range_def over_i64_def index_default_def)



section \<open>The stream writer\<close>

text \<open>
  C28. Whatever a client does with a writer, what it closes is a stream: with any accepted options
  and any sequence of writes, flushes and user chunks, a finished writer has appended to its sink a
  stream whose data and user chunks are those of the calls in their order, padded to a multiple of
  the padding. It reports an error only where the sink may fail, and only level 3 may fault.
\<close>

theorem writer_produces_stream:
  assumes "sink fns contents" "builder_ok b" "\<forall>op \<in> set ops. op_valid op" "sum_list (map op_cost ops) < 2 ^ 59"
  shows "case write_stream fns w b ops of
      None \<Rightarrow> b_level b = Smallest
    | Some (Inl e, w') \<Rightarrow> \<not> fault_free fns
    | Some (Inr u, w') \<Rightarrow> \<exists>its trailer bs. contents w' = contents w @ bs \<and> stream_of (b_block_size b) its trailer bs \<and>
        symbols its = concat (map op_symbols ops) \<and> (2 \<le> b_padding b \<longrightarrow> b_padding b dvd length bs)"
  by (rule write_stream_ok [OF assms])

lemma writer_produces_stream_witness:
  "\<exists>its trailer bs. write_stream vec_sink [9] (set_padding 100 writer_builder_default) [Op_Write [1, 2], Op_Chunk 0x80 [7], Op_Write [3]] =
      Some (Inr (), [9] @ bs) \<and>
    stream_of DEFAULT_BLOCK_SIZE its trailer bs \<and> data_of its = [1, 2, 3] \<and> 100 dvd length bs"
proof -
  have b: "builder_ok (set_padding 100 writer_builder_default)"
    by (simp add: builder_ok_def set_padding_def writer_builder_default_def stream_consts format_consts)
  have free: "fault_free vec_sink" by (simp add: fault_free_def vec_sink_def)
  let ?ops = "[Op_Write [1, 2], Op_Chunk 0x80 [7], Op_Write [3]]"
  have "\<forall>op \<in> set ?ops. op_valid op" "sum_list (map op_cost ?ops) < 2 ^ 59" by (simp_all add: stream_consts)
  from writer_produces_stream [OF vec_sink.sink_axioms b this, of "[9]"] show ?thesis
  proof (cases rule: res_cases)
    case (3 u w')
    then obtain its trailer bs where "w' = [9] @ bs" "stream_of DEFAULT_BLOCK_SIZE its trailer bs"
      "symbols its = [Inl 1, Inl 2, Inr (0x80, [7]), Inl 3]" "100 dvd length bs"
      by (auto simp: set_padding_def writer_builder_default_def)
    with 3(1) show ?thesis by (intro exI [of _ its] exI [of _ trailer] exI [of _ bs]) (simp add: data_of_symbols)
  qed (use free in \<open>simp_all add: set_padding_def writer_builder_default_def\<close>)
qed

text \<open>
  C29. An error of the sink is kept: when a write fails, the writer holds that error, and from then on
  every write, flush, user chunk and closing call returns it and leaves the writer and the sink as
  they are.
\<close>

theorem writer_error_is_kept:
  assumes "sink fns contents" "writer_inv contents base ss st" "cost st + 9 * length p < 2 ^ 62"
    and "length (symbol_data ss) + length p < 2 ^ 62" "writer_write fns p st = Some (Inl e, st')"
  shows "w_err st' = Some e \<and> writer_write fns q st' = Some (Inl e, st') \<and> writer_flush fns st' = Some (Inl e, st') \<and>
    writer_finish fns st' = Some (Inl e, w_sink st') \<and> writer_close_index fns st' = Some (Inl e, w_sink st') \<and>
    (op_valid (Op_Chunk t b) \<longrightarrow> add_user_chunk fns t b st' = Some (Inl e, st'))"
proof -
  have "w_err st' = Some e"
    using sink.writer_write_ok [OF assms(1-4)] assms(5) by (simp add: wr_out_def)
  then show ?thesis
    by (simp add: writer_write_def writer_flush_def writer_finish_def writer_close_index_def add_user_chunk_def not_le)
qed

lemma writer_error_is_kept_witness:
  "\<exists>st e st'. writer_build ([] :: bytes, 3 :: nat) (set_flush_on_write writer_builder_default) = Some (Inr st) \<and>
     writer_write slice_sink [1] st = Some (Inl e, st') \<and> writer_finish slice_sink st' = Some (Inl e, w_sink st')"
proof -
  have ok: "builder_ok (set_flush_on_write writer_builder_default)"
    by (simp add: builder_ok_def set_flush_on_write_def writer_builder_default_def stream_consts format_consts)
  obtain st where st: "writer_build ([] :: bytes, 3 :: nat) (set_flush_on_write writer_builder_default) = Some (Inr st)"
    "writer_inv fst [] [] st" "cost st = 10"
    "w_err st = None" "w_flush_on_write st" "\<not> wrote_header st" "w_block_size st = DEFAULT_BLOCK_SIZE" "w_sink st = ([], 3)"
  proof (rule writer_build_ok [OF ok, of "([] :: bytes, 3 :: nat)" fst], goal_cases)
    case (1 st)
    have fl: "b_flush_on_write (set_flush_on_write writer_builder_default)"
      "b_block_size (set_flush_on_write writer_builder_default) = DEFAULT_BLOCK_SIZE"
      by (simp_all add: set_flush_on_write_def writer_builder_default_def)
    show ?case
      by (rule 1(1) [OF 1(2) _ 1(4) 1(13) _ 1(12)]) (simp_all only: 1(3) [unfolded fst_conv] 1(5) 1(10) 1(11) fl)
  qed
  have bs: "MIN_BLOCK_SIZE \<le> DEFAULT_BLOCK_SIZE" "DEFAULT_BLOCK_SIZE \<le> MAX_BLOCK_SIZE"
    by (simp_all add: stream_consts format_consts)
  obtain ind where "block_size_indicator DEFAULT_BLOCK_SIZE = Some ind" by (rule block_size_indicator_ok [OF bs])
  then obtain h where h: "make_stream_header DEFAULT_BLOCK_SIZE = Some h" by (simp add: make_stream_header_def)
  have "\<not> length h \<le> 3" using length_header [OF h] by simp
  note h = h this
  obtain st' where "writer_write slice_sink [1] st = Some (Inl (Io_Error WriteZero ''failed to write whole buffer''), st')"
    using st h by (simp add: writer_write_def write_blocks_def ensure_header_def write_all_tracked_def slice_sink_def)
  moreover from writer_error_is_kept [OF slice_sink.sink_axioms st(2) _ _ this]
  have "writer_finish slice_sink st' = Some (Inl (Io_Error WriteZero ''failed to write whole buffer''), w_sink st')"
    using st(3) by simp
  ultimately show ?thesis using st(1) by blast
qed

section \<open>The stream reader\<close>

text \<open>
  C30. The reader is total on hostile input: in every state it can be in, over any source that keeps
  the contract of \<^verbatim>\<open>Read\<close>, reading, filling the buffer and skipping return, whatever bytes come: they
  never panic, overflow a counter or run forever, and they leave a state of which the same holds.
\<close>

theorem reader_total:
  assumes "source rd rem pat" "rd_sound (view rem st)"
  shows "(\<exists>r st'. reader_read be rd n st = Some (r, st') \<and> rd_sound (view rem st')) \<and>
    (\<exists>r st'. reader_fill_buf be rd st = Some (r, st') \<and> rd_sound (view rem st')) \<and>
    (\<exists>r st'. reader_skip be rd k st = Some (r, st') \<and> rd_sound (view rem st'))"
  using reader_read_total [OF assms(2), of be n] source.reader_read_sim [OF assms(1), of be n st]
    reader_fill_buf_total [OF assms(2), of be] source.reader_fill_buf_sim [OF assms(1), of be st]
    reader_skip_total [OF assms(2), of be k] source.reader_skip_sim [OF assms(1), of be k st]
  by (auto simp: sim_def)

lemma reader_total_witness:
  "\<exists>st r st'. reader_new [0xff, 6, 0, 0, 1, 2] () = Some st \<and> reader_read False slice_read 10 st = Some (r, st')"
proof -
  define st :: "(bytes, unit) reader" where "st = reader_with_builder [0xff, 6, 0, 0, 1, 2] () reader_builder_default"
  have new: "reader_new [0xff, 6, 0, 0, 1, 2] () = Some st" "reader_build [0xff, 6, 0, 0, 1, 2] () reader_builder_default = Inr st"
    by (simp_all add: reader_new_def reader_build_def reader_builder_default_def st_def format_consts)
  have id: "view (\<lambda>r. r) st = st" by (simp add: view_def)
  have "rd_sound (view (\<lambda>r. r) st)"
    unfolding id by (rule reader_build_sound [OF new(2)]) (simp_all add: reader_builder_default_def)
  from reader_total [OF slice_source.source_axioms this, of False 10 0] new(1) show ?thesis by auto
qed

text \<open>
  C31. The reader does not depend on how its source delivers: over any source that keeps the contract
  of \<^verbatim>\<open>Read\<close>, in pieces of any sizes and with interruptions anywhere, each method gives the same result
  as over the bytes that remain in the source, and leaves the same state.
\<close>

theorem reader_source_independent:
  assumes "source rd rem pat"
  shows "reader_read be slice_read n (view rem st) = map_option (map_prod id (view rem)) (reader_read be rd n st) \<and>
    reader_fill_buf be slice_read (view rem st) = map_option (map_prod id (view rem)) (reader_fill_buf be rd st) \<and>
    reader_skip be slice_read k (view rem st) = map_option (map_prod id (view rem)) (reader_skip be rd k st)"
  using source.reader_read_sim [OF assms, of be n st] source.reader_fill_buf_sim [OF assms, of be st]
    source.reader_skip_sim [OF assms, of be k st]
  by (simp add: sim_def)

lemma reader_source_independent_witness:
  "reader_read False slice_read 5 (reader_with_builder [1, 2] () reader_builder_default) =
   map_option (map_prod id (view fst))
     (reader_read False
       (\<lambda>n (bs, p). if 0 < p then (Inl (Io_Error Interrupted []), bs, p - 1) else (Inr (take (min n 1) bs), drop (min n 1) bs, 0))
       5 (reader_with_builder ([1, 2], 7 :: nat) () reader_builder_default))"
proof -
  have "source (\<lambda>n (bs, p). if 0 < p then (Inl (Io_Error Interrupted []), bs, p - 1 :: nat)
      else (Inr (take (min n 1) bs), drop (min n 1) bs, 0)) fst snd"
    by unfold_locales (auto split: if_splits)
  from reader_source_independent [OF this, of False 5 "reader_with_builder ([1, 2], 7 :: nat) () reader_builder_default"]
  show ?thesis by (simp add: view_def reader_with_builder_def)
qed











section \<open>The seeking reader\<close>



section \<open>The concurrent writer\<close>

text \<open>
  C38. Whatever the scheduler does, the concurrent writer produces a stream: in every state that its
  client, its workers and its writer thread can reach together, if the client has got its sink back,
  then the sink has been extended by a stream whose data and user chunks are those of the calls in
  their order, padded to a multiple of the padding; and the client gets an error instead only where
  the sink may fail or level 3 may fault.
\<close>

theorem mt_writer_produces_stream:
  assumes "sink fns contents" "mt_builder_ok b" "\<forall>op \<in> set ops. mt_op_valid op" "sym_cost (mt_ops_symbols ops) < 2 ^ 59"
  shows "\<exists>p A. mt_build w b = Some (Inr p) \<and> mt_actions b ops = Some A \<and>
    (\<forall>s r. mt_reach (writer_threads fns (mb_level b) (mb_uncompressed b)) (p A) s \<longrightarrow> mt_client s = Returned r \<longrightarrow>
      (case r of
         Inl e \<Rightarrow> \<not> fault_free fns \<or> mb_level b = Smallest
       | Inr w' \<Rightarrow> \<exists>its trailer bs. contents w' = contents w @ bs \<and> stream_of (mb_block_size b) its trailer bs \<and>
           symbols its = mt_ops_symbols ops \<and> (2 \<le> mb_padding b \<longrightarrow> mb_padding b dvd length bs)))"
  by (rule mt_stream_ok [OF assms, of w, unfolded excused_def])

lemma mt_writer_produces_stream_witness:
  "\<exists>p A s w' its trailer bs. mt_build [9] (mt_set_concurrency 2 (mt_writer_builder_default 8)) = Some (Inr p) \<and>
    mt_actions (mt_set_concurrency 2 (mt_writer_builder_default 8)) [Mt_Write [1, 2], Mt_Chunk 0x80 [7], Mt_Encode [3]] = Some A \<and>
    mt_reach (writer_threads vec_sink Balanced False) (p A) s \<and> mt_client s = Returned (Inr w') \<and>
    w' = [9] @ bs \<and> stream_of DEFAULT_BLOCK_SIZE its trailer bs \<and> data_of its = [1, 2, 3]"
proof -
  let ?b = "mt_set_concurrency 2 (mt_writer_builder_default 8)"
  let ?ops = "[Mt_Write [1, 2], Mt_Chunk 0x80 [7], Mt_Encode [3]]"
  have b: "mt_builder_ok ?b" "mb_level ?b = Balanced" "mb_uncompressed ?b = False" "mb_block_size ?b = DEFAULT_BLOCK_SIZE"
    by (simp_all add: mt_builder_ok_def mt_set_concurrency_def mt_writer_builder_default_def stream_consts format_consts)
  have free: "fault_free vec_sink" by (simp add: fault_free_def vec_sink_def)
  have "\<forall>op \<in> set ?ops. mt_op_valid op" "sym_cost (mt_ops_symbols ?ops) < 2 ^ 59" by (simp_all add: stream_consts sym_cost_def)
  from mt_writer_produces_stream [OF vec_sink.sink_axioms b(1) this, of "[9]"] show ?thesis
  proof (elim exE conjE)
    fix p A
    assume p: "mt_build [9] ?b = Some (Inr p)" "mt_actions ?b ?ops = Some A"
      and out: "\<forall>s r. mt_reach (writer_threads vec_sink (mb_level ?b) (mb_uncompressed ?b)) (p A) s \<longrightarrow> mt_client s = Returned r \<longrightarrow>
        (case r of
           Inl e \<Rightarrow> \<not> fault_free vec_sink \<or> mb_level ?b = Smallest
         | Inr w' \<Rightarrow> \<exists>its trailer bs. w' = [9] @ bs \<and> stream_of (mb_block_size ?b) its trailer bs \<and>
             symbols its = mt_ops_symbols ?ops \<and> (2 \<le> mb_padding ?b \<longrightarrow> mb_padding ?b dvd length bs))"
    let ?T = "writer_threads vec_sink Balanced False"
    obtain f where f: "f 0 = p A" "mt_run ?T f" using run_exists by blast
    obtain t0 where "p = start_pipeline (mb_concurrency ?b) t0"
      using mt_build_ok [OF b(1), of "[9]"] p(1) by (metis option.inject sum.inject(2))
    moreover have "0 < mb_concurrency ?b" using b(1) by (simp add: mt_builder_ok_def)
    ultimately obtain k r where r: "mt_client (f k) = Returned r" using wr.run_outcome [OF _ f(2)] f(1) by blast
    have reach: "mt_reach ?T (p A) (f k)" using run_reach [OF f(2), of k] f(1) by simp
    from out [unfolded b, rule_format, OF reach r] free obtain w' its trailer bs where w: "r = Inr w'" "w' = [9] @ bs"
      "stream_of DEFAULT_BLOCK_SIZE its trailer bs" "symbols its = mt_ops_symbols ?ops" by (cases r) auto
    then have "data_of its = [1, 2, 3]" by (simp add: data_of_symbols)
    with p reach r w show ?thesis by blast
  qed
qed



end
